(* ===== verification/Prelude.thy ===== *)
theory Prelude
  imports Main "HOL-Library.Word" "HOL-Library.AList"
begin

unbundle bit_operations_syntax

text \<open>
  Shared vocabulary of the development: the machine integers of the C++ code, the result of
  running a piece of code, the state-passing programs built from it, and the generic lemmas
  the component theories share.

  An \<open>outcome\<close> is everything a C++ function of this program can do: return a value, return an
  error code (\<open>zkresult\<close>, src/config/zkresult.hpp), call \<open>exitProcess()\<close>
  (src/utils/exit_process.cpp), or perform an operation whose behaviour the language leaves
  undefined (an out-of-range read, a shift by the width of the operand).  The macro \<open>zkassert\<close>
  (src/utils/zkassert.hpp) expands to nothing in the optimised build; only the gates model it, as an exit.
\<close>

section \<open>Types of the C++ code\<close>

type_synonym u8 = "8 word"
type_synonym u16 = "16 word"
type_synonym u32 = "32 word"
type_synonym u64 = "64 word"

text \<open>The enumeration \<open>zkresult\<close> has the underlying type int.\<close>

type_synonym zkresult = int

abbreviation (input) ZKR_UNSPECIFIED :: zkresult where "ZKR_UNSPECIFIED \<equiv> 0"
abbreviation (input) ZKR_SUCCESS :: zkresult where "ZKR_SUCCESS \<equiv> 1"
abbreviation (input) ZKR_DB_KEY_NOT_FOUND :: zkresult where "ZKR_DB_KEY_NOT_FOUND \<equiv> 2"
abbreviation (input) ZKR_DB_ERROR :: zkresult where "ZKR_DB_ERROR \<equiv> 3"
abbreviation (input) ZKR_SMT_INVALID_DATA_SIZE :: zkresult where "ZKR_SMT_INVALID_DATA_SIZE \<equiv> 8"
abbreviation (input) ZKR_STATE_MANAGER :: zkresult where "ZKR_STATE_MANAGER \<equiv> 25"

text \<open>The enumeration \<open>Persistence\<close> of src/src/hashdb/persistence.hpp.\<close>

abbreviation (input) PERSISTENCE_CACHE :: nat where "PERSISTENCE_CACHE \<equiv> 0"
abbreviation (input) PERSISTENCE_DATABASE :: nat where "PERSISTENCE_DATABASE \<equiv> 1"
abbreviation (input) PERSISTENCE_TEMPORARY :: nat where "PERSISTENCE_TEMPORARY \<equiv> 2"
abbreviation (input) PERSISTENCE_TEMPORARY_HASH :: nat where "PERSISTENCE_TEMPORARY_HASH \<equiv> 3"
abbreviation (input) PERSISTENCE_SIZE :: nat where "PERSISTENCE_SIZE \<equiv> 4"

section \<open>Outcomes and programs\<close>

datatype 'a outcome = Ret 'a | Fail zkresult | Exit | Undef

type_synonym ('s, 'a) prog = "'s \<Rightarrow> 'a outcome \<times> 's"

named_theorems run_simps \<open>unfolding the outcome of a program step by step\<close>

fun bindO :: "'a outcome \<Rightarrow> ('a \<Rightarrow> 'b outcome) \<Rightarrow> 'b outcome" where
  "bindO (Ret x) f = f x"
| "bindO (Fail e) f = Fail e"
| "bindO Exit f = Exit"
| "bindO Undef f = Undef"

definition retP :: "'a \<Rightarrow> ('s, 'a) prog" where
  "retP x s = (Ret x, s)"

definition failP :: "zkresult \<Rightarrow> ('s, 'a) prog" where
  "failP e s = (Fail e, s)"

definition liftP :: "'a outcome \<Rightarrow> ('s, 'a) prog" where
  "liftP m s = (m, s)"

definition bindP :: "('s, 'a) prog \<Rightarrow> ('a \<Rightarrow> ('s, 'b) prog) \<Rightarrow> ('s, 'b) prog" where
  "bindP m f s =
     (case m s of
        (Ret x, t) \<Rightarrow> f x t
      | (Fail e, t) \<Rightarrow> (Fail e, t)
      | (Exit, t) \<Rightarrow> (Exit, t)
      | (Undef, t) \<Rightarrow> (Undef, t))"

text \<open>Checks that return early: \<open>if (!b) return e;\<close> and the two other ways to stop.\<close>

definition guardP :: "bool \<Rightarrow> zkresult \<Rightarrow> ('s, unit) prog" where
  "guardP b e = (if b then retP () else failP e)"

definition definedP :: "bool \<Rightarrow> ('s, unit) prog" where
  "definedP b = (if b then retP () else liftP Undef)"

text \<open>A check that stops the process when it fails (\<open>zkassert\<close> of a debug build, \<open>exitProcess\<close>).\<close>

definition assertP :: "bool \<Rightarrow> ('s, unit) prog" where
  "assertP b = (if b then retP () else liftP Exit)"

text \<open>Reading and changing the whole state.\<close>

definition modifyP :: "('s \<Rightarrow> 's) \<Rightarrow> ('s, unit) prog" where
  "modifyP f s = (Ret (), f s)"

definition getP :: "('s, 's) prog" where
  "getP s = (Ret s, s)"

text \<open>A call whose result code is ignored.\<close>

definition ignoreP :: "('s, unit) prog \<Rightarrow> ('s, unit) prog" where
  "ignoreP m s = (case m s of (Fail e, t) \<Rightarrow> (Ret (), t) | r \<Rightarrow> r)"

lemma bindO_eq_Ret [run_simps]: "bindO m f = Ret y \<longleftrightarrow> (\<exists>x. m = Ret x \<and> f x = Ret y)"
  by (cases m) auto

lemma bindP_eq_Ret [run_simps]:
  "bindP m f s = (Ret y, t) \<longleftrightarrow> (\<exists>x u. m s = (Ret x, u) \<and> f x u = (Ret y, t))"
  by (auto simp: bindP_def split: prod.splits outcome.splits)

lemma retP_eq_Ret [run_simps]: "retP x s = (Ret y, t) \<longleftrightarrow> x = y \<and> s = t"
  by (simp add: retP_def)

lemma failP_eq_Ret [run_simps]: "failP e s = (Ret y, t) \<longleftrightarrow> False"
  by (simp add: failP_def)

lemma liftP_eq_Ret [run_simps]: "liftP m s = (Ret y, t) \<longleftrightarrow> m = Ret y \<and> s = t"
  by (simp add: liftP_def)

lemma guardP_eq_Ret [run_simps]: "guardP b e s = (Ret y, t) \<longleftrightarrow> b \<and> s = t"
  by (auto simp: guardP_def run_simps)

lemma definedP_eq_Ret [run_simps]: "definedP b s = (Ret y, t) \<longleftrightarrow> b \<and> s = t"
  by (auto simp: definedP_def run_simps)

lemma assertP_eq_Ret [run_simps]: "assertP b s = (Ret y, t) \<longleftrightarrow> b \<and> s = t"
  by (auto simp: assertP_def run_simps)

lemma getP_eq_Ret [run_simps]: "getP s = (Ret y, t) \<longleftrightarrow> y = s \<and> s = t"
  by (auto simp: getP_def)

lemma modifyP_eq_Ret [run_simps]: "modifyP f s = (Ret y, t) \<longleftrightarrow> t = f s"
  by (auto simp: modifyP_def)

lemma bindP_retP [simp]: "m s = (Ret x, t) \<Longrightarrow> bindP m f s = f x t"
  by (simp add: bindP_def)

lemma bindP_return [simp]: "bindP (retP x) f = f x"
  by (rule ext) (simp add: bindP_def retP_def)

lemma bindP_assoc: "bindP (bindP m f) g = bindP m (\<lambda>x. bindP (f x) g)"
  by (rule ext) (simp add: bindP_def split: prod.splits outcome.splits)

section \<open>Loops over a list of indices\<close>

primrec foldP :: "('i \<Rightarrow> 'a \<Rightarrow> ('s, 'a) prog) \<Rightarrow> 'i list \<Rightarrow> 'a \<Rightarrow> ('s, 'a) prog" where
  "foldP f [] x = retP x"
| "foldP f (i # is) x = bindP (f i x) (foldP f is)"

primrec foldO :: "('i \<Rightarrow> 'a \<Rightarrow> 'a outcome) \<Rightarrow> 'i list \<Rightarrow> 'a \<Rightarrow> 'a outcome" where
  "foldO f [] x = Ret x"
| "foldO f (i # is) x = bindO (f i x) (foldO f is)"

lemma foldO_append: "foldO f (xs @ ys) x = bindO (foldO f xs x) (foldO f ys)"
proof (induction xs arbitrary: x)
  case (Cons i xs)
  then show ?case by (cases "f i x") auto
qed simp

lemma foldO_invariant:
  assumes "foldO f xs x = Ret y" and "P x"
    and "\<And>i a b. i \<in> set xs \<Longrightarrow> P a \<Longrightarrow> f i a = Ret b \<Longrightarrow> P b"
  shows "P y"
  using assms
proof (induction xs arbitrary: x)
  case (Cons i xs)
  from Cons.prems(1) obtain b where b: "f i x = Ret b" "foldO f xs b = Ret y"
    by (auto simp: run_simps)
  with Cons.prems have "P b" by auto
  with Cons b show ?case by auto
qed simp

text \<open>The same function or program run on every index of a list, the results collected in order.\<close>

primrec mapP :: "('i \<Rightarrow> ('s, 'a) prog) \<Rightarrow> 'i list \<Rightarrow> ('s, 'a list) prog" where
  "mapP f [] = retP []"
| "mapP f (i # is) = bindP (f i) (\<lambda>x. bindP (mapP f is) (\<lambda>xs. retP (x # xs)))"

primrec mapO :: "('i \<Rightarrow> 'a outcome) \<Rightarrow> 'i list \<Rightarrow> 'a list outcome" where
  "mapO f [] = Ret []"
| "mapO f (i # is) = bindO (f i) (\<lambda>x. bindO (mapO f is) (\<lambda>xs. Ret (x # xs)))"

lemma mapO_Ret: "(\<And>i. i \<in> set is \<Longrightarrow> f i = Ret (g i)) \<Longrightarrow> mapO f is = Ret (map g is)"
  by (induction "is") simp_all

lemma mapO_cong: "(\<And>i. i \<in> set is \<Longrightarrow> f i = g i) \<Longrightarrow> mapO f is = mapO g is"
  by (induction "is") simp_all

lemma mapO_eq_Ret: "mapO f is = Ret xs \<longleftrightarrow> map f is = map Ret xs"
  by (induction "is" arbitrary: xs) (auto simp: run_simps Cons_eq_map_conv)

text \<open>
  Shifting a 64-bit operand by 64 or more positions is undefined in C++.
\<close>

definition shl64 :: "u64 \<Rightarrow> nat \<Rightarrow> u64 outcome" where
  "shl64 x n = (if n < 64 then Ret (push_bit n x) else Undef)"

definition shr64 :: "u64 \<Rightarrow> nat \<Rightarrow> u64 outcome" where
  "shr64 x n = (if n < 64 then Ret (drop_bit n x) else Undef)"

lemma unat_drop_bit_le: "unat (drop_bit n (x :: 'a :: len word)) \<le> unat x"
  unfolding unat_drop_bit_eq by (simp add: drop_bit_eq_div)

lemma unat_take_bit: "unat (take_bit n (x :: 'a :: len word)) = unat x mod 2 ^ n"
  unfolding unsigned_take_bit_eq by (simp add: take_bit_eq_mod)

lemma unat_ucast_take_bit:
  "n \<le> LENGTH('b) \<Longrightarrow> unat (ucast (take_bit n (x :: 'a :: len word)) :: 'b :: len word) = unat x mod 2 ^ n"
  unfolding unsigned_ucast_eq unsigned_take_bit_eq take_bit_take_bit
  by (simp only: min_absorb2 take_bit_eq_mod)

lemma div_mod_plus:
  "r < d \<Longrightarrow> (d * q + r) div d = q" "r < d \<Longrightarrow> (d * q + r) mod d = r" for d q r :: nat
  by simp_all

section \<open>Lists\<close>

lemma take_take_drop_append: "take n xs @ drop n xs = xs"
  by simp

lemma nth_take_eq: "take n xs = take n ys \<Longrightarrow> i < n \<Longrightarrow> i < length xs \<Longrightarrow> i < length ys \<Longrightarrow> xs ! i = ys ! i"
  by (metis nth_take)

lemma upt_4: "[0..<4] = [0, 1, 2, 3 :: nat]"
  by (simp add: upt_rec)

lemma replicate_4: "replicate 4 x = [x, x, x, x]"
  by (simp add: numeral_eq_Suc)

lemma length_4_conv: "length xs = 4 \<longleftrightarrow> xs = [xs ! 0, xs ! 1, xs ! 2, xs ! 3]"
proof
  assume "length xs = 4"
  then show "xs = [xs ! 0, xs ! 1, xs ! 2, xs ! 3]"
    by (intro nth_equalityI) (auto simp: less_Suc_eq numeral_eq_Suc)
next
  assume "xs = [xs ! 0, xs ! 1, xs ! 2, xs ! 3]"
  then have "length xs = length [xs ! 0, xs ! 1, xs ! 2, xs ! 3]" by (rule arg_cong)
  then show "length xs = 4" by simp
qed

lemma map_le_upd: "m k = None \<or> m k = Some v \<Longrightarrow> m \<subseteq>\<^sub>m m(k \<mapsto> v)"
  by (auto simp: map_le_def)

section \<open>Unordered maps\<close>

text \<open>
  An \<open>unordered_map\<close> is an association list with distinct keys: \<open>m[k] = v\<close> is \<open>AList.update k v m\<close>, and
  \<open>m.insert(first, last)\<close> and \<open>m.merge(n)\<close> keep the entries \<open>m\<close> already has.
\<close>

definition insertNew :: "('k \<times> 'v) list \<Rightarrow> ('k \<times> 'v) list \<Rightarrow> ('k \<times> 'v) list" where
  "insertNew m n = m @ filter (\<lambda>e. fst e \<notin> set (map fst m)) n"

lemma map_of_filter_keys: "map_of (filter (\<lambda>e. fst e \<notin> S) n) k = (if k \<in> S then None else map_of n k)"
  by (induction n) auto

lemma map_of_insertNew: "map_of (insertNew m n) = map_of n ++ map_of m"
proof
  fix k
  show "map_of (insertNew m n) k = (map_of n ++ map_of m) k"
  proof (cases "map_of m k")
    case None
    then show ?thesis
      using map_of_filter_keys [of "set (map fst m)" n k]
      by (simp add: insertNew_def map_add_def) (simp add: map_of_eq_None_iff)
  next
    case (Some v)
    then show ?thesis by (simp add: insertNew_def map_of_append map_add_def)
  qed
qed

lemma distinct_insertNew:
  "distinct (map fst m) \<Longrightarrow> distinct (map fst n) \<Longrightarrow> distinct (map fst (insertNew m n))"
  by (auto simp: insertNew_def distinct_map_filter rev_image_eqI)

end
