(* ===== verification/Goldilocks.thy ===== *)
theory Goldilocks
  imports Prelude
begin

text \<open>
  The Goldilocks field library (src/goldilocks is a git submodule whose directory is empty in
  this repository): a parameter of every definition that uses it.  The record \<open>gl\<close> has the
  operations of the C++ object \<open>Goldilocks &fr\<close> the modelled code calls; the locale \<open>goldilocks\<close>
  states the documented behaviour the code relies on: elements have a canonical 64-bit
  representative below the prime, reading and creating elements reduce modulo the prime, and
  comparison compares representatives.  The prime is the constant the source spells out in
  src/src/utils/scalar.cpp (\<open>Scalar4xGoldilocksPrime\<close> is four copies of it).
\<close>

section \<open>The operations of the field object\<close>

record 'e gl =
  toU64 :: "'e \<Rightarrow> u64"
  fromU64 :: "u64 \<Rightarrow> 'e"
  gl_zero :: 'e
  gl_one :: 'e
  gl_isZero :: "'e \<Rightarrow> bool"
  gl_equal :: "'e \<Rightarrow> 'e \<Rightarrow> bool"
  gl_add :: "'e \<Rightarrow> 'e \<Rightarrow> 'e"
  gl_mul :: "'e \<Rightarrow> 'e \<Rightarrow> 'e"
  gl_fromString16 :: "string \<Rightarrow> 'e"
  gl_toString16 :: "'e \<Rightarrow> string"
  gl_fe :: "'e \<Rightarrow> u64"

text \<open>
  \<open>fromString(e, s, 16)\<close> is \<open>gl_fromString16\<close>: it reads a number in hexadecimal.  The strings of the
  program that are read back have lower-case digits; \<open>hexValue\<close> is the number they denote.
  \<open>toString(e, 16)\<close> is \<open>gl_toString16\<close>: the representative in lower-case digits without leading zeros, "0"
  for zero, as GMP writes them (\<open>hexDigits\<close>).  \<open>gl_fe\<close> is the member \<open>fe\<close>, the only one of an element.
\<close>

definition hexChar :: "nat \<Rightarrow> char" where
  "hexChar d = (if d < 10 then char_of (48 + d) else char_of (87 + d))"

fun hexDigits :: "nat \<Rightarrow> string" where
  "hexDigits n = (if n < 16 then [hexChar n] else hexDigits (n div 16) @ [hexChar (n mod 16)])"

declare hexDigits.simps [simp del]

definition hexValue :: "string \<Rightarrow> nat" where
  "hexValue s = foldl (\<lambda>a c. a * 16 + (if (of_char c :: nat) < 58 then of_char c - 48
                                        else of_char c - 87)) 0 s"

definition lowerHex :: "char \<Rightarrow> bool" where
  "lowerHex c \<longleftrightarrow> (let n = (of_char c :: nat) in 48 \<le> n \<and> n \<le> 57 \<or> 97 \<le> n \<and> n \<le> 102)"

definition ScalarGoldilocksPrime :: nat where
  "ScalarGoldilocksPrime = 0xFFFFFFFF00000001"

lemma prime_bounds: "0 < ScalarGoldilocksPrime" "1 < ScalarGoldilocksPrime"
    "2 ^ 32 \<le> ScalarGoldilocksPrime" "ScalarGoldilocksPrime < 2 ^ 64"
  by (simp_all add: ScalarGoldilocksPrime_def)

section \<open>What the code relies on\<close>

locale goldilocks =
  fixes fr :: "'e gl"
  assumes toU64_less: "unat (toU64 fr x) < ScalarGoldilocksPrime"
    and unat_toU64_fromU64: "unat (toU64 fr (fromU64 fr n)) = unat n mod ScalarGoldilocksPrime"
    and toU64_zero: "toU64 fr (gl_zero fr) = 0"
    and toU64_one: "toU64 fr (gl_one fr) = 1"
    and isZero_iff: "gl_isZero fr x \<longleftrightarrow> toU64 fr x = 0"
    and equal_iff: "gl_equal fr x y \<longleftrightarrow> toU64 fr x = toU64 fr y"
    and unat_toU64_add: "unat (toU64 fr (gl_add fr x y)) =
          (unat (toU64 fr x) + unat (toU64 fr y)) mod ScalarGoldilocksPrime"
    and unat_toU64_mul: "unat (toU64 fr (gl_mul fr x y)) =
          (unat (toU64 fr x) * unat (toU64 fr y)) mod ScalarGoldilocksPrime"
    and unat_toU64_fromString16: "s \<noteq> [] \<Longrightarrow> list_all lowerHex s \<Longrightarrow>
          unat (toU64 fr (gl_fromString16 fr s)) = hexValue s mod ScalarGoldilocksPrime"
    and toString16_eq: "gl_toString16 fr x = hexDigits (unat (toU64 fr x))"
    and fe_inj: "gl_fe fr x = gl_fe fr y \<Longrightarrow> x = y"
begin

lemma toU64_fromU64_less:
  "unat n < ScalarGoldilocksPrime \<Longrightarrow> toU64 fr (fromU64 fr n) = n"
  by (rule word_unat_eq_iff [THEN iffD2]) (simp add: unat_toU64_fromU64)

lemma toU64_fromU64_toU64: "toU64 fr (fromU64 fr (toU64 fr x)) = toU64 fr x"
  by (rule toU64_fromU64_less) (rule toU64_less)

lemma toU64_fromU64_32: "unat n < 2 ^ 32 \<Longrightarrow> toU64 fr (fromU64 fr n) = n"
  using prime_bounds(3) by (intro toU64_fromU64_less) linarith

lemma zero_isZero: "gl_isZero fr (gl_zero fr)"
  by (simp add: isZero_iff toU64_zero)

lemma one_not_zero: "\<not> gl_equal fr (gl_zero fr) (gl_one fr)"
  by (simp add: equal_iff toU64_zero toU64_one)

end

text \<open>
  The interface is satisfiable: 64-bit words with every operation reduced modulo the prime.
\<close>

definition gl_canon :: "nat \<Rightarrow> u64" where
  "gl_canon n = word_of_nat (n mod ScalarGoldilocksPrime)"

definition gl_word :: "u64 gl" where
  "gl_word =
     \<lparr>toU64 = (\<lambda>x. gl_canon (unat x)), fromU64 = (\<lambda>n. n), gl_zero = 0, gl_one = 1,
      gl_isZero = (\<lambda>x. gl_canon (unat x) = 0),
      gl_equal = (\<lambda>x y. gl_canon (unat x) = gl_canon (unat y)),
      gl_add = (\<lambda>x y. gl_canon (unat x + unat y)),
      gl_mul = (\<lambda>x y. gl_canon (unat x * unat y)),
      gl_fromString16 = (\<lambda>s. gl_canon (hexValue s)),
      gl_toString16 = (\<lambda>x. hexDigits (unat (gl_canon (unat x)))), gl_fe = (\<lambda>x. x)\<rparr>"

lemma unat_gl_canon: "unat (gl_canon n) = n mod ScalarGoldilocksPrime"
proof -
  have "n mod ScalarGoldilocksPrime < 2 ^ 64"
    using mod_less_divisor [OF prime_bounds(1), of n] prime_bounds(4) by linarith
  then show ?thesis
    by (simp add: gl_canon_def unat_of_nat take_bit_eq_mod)
qed

interpretation glw: goldilocks gl_word
proof unfold_locales
  fix x y n s
  show "unat (toU64 gl_word x) < ScalarGoldilocksPrime"
    by (simp add: gl_word_def unat_gl_canon prime_bounds)
  show "unat (toU64 gl_word (fromU64 gl_word n)) = unat n mod ScalarGoldilocksPrime"
    by (simp add: gl_word_def unat_gl_canon)
  show "toU64 gl_word (gl_zero gl_word) = 0" "toU64 gl_word (gl_one gl_word) = 1"
    by (simp_all add: gl_word_def gl_canon_def ScalarGoldilocksPrime_def)
  show "gl_isZero gl_word x \<longleftrightarrow> toU64 gl_word x = 0"
    "gl_equal gl_word x y \<longleftrightarrow> toU64 gl_word x = toU64 gl_word y"
    by (simp_all add: gl_word_def)
  show "unat (toU64 gl_word (gl_add gl_word x y)) =
          (unat (toU64 gl_word x) + unat (toU64 gl_word y)) mod ScalarGoldilocksPrime"
    "unat (toU64 gl_word (gl_mul gl_word x y)) =
          (unat (toU64 gl_word x) * unat (toU64 gl_word y)) mod ScalarGoldilocksPrime"
    by (simp_all add: gl_word_def unat_gl_canon mod_simps)
  show "unat (toU64 gl_word (gl_fromString16 gl_word s)) = hexValue s mod ScalarGoldilocksPrime"
    by (simp add: gl_word_def unat_gl_canon)
  show "gl_toString16 gl_word x = hexDigits (unat (toU64 gl_word x))" by (simp add: gl_word_def)
  show "gl_fe gl_word x = gl_fe gl_word y \<Longrightarrow> x = y" by (simp add: gl_word_def)
qed

end
