(* ===== verification/Key_Utils.thy ===== *)
theory Key_Utils
  imports Goldilocks
begin

text \<open>
  src/src/utils/key_utils.cpp: the bit order of the sparse Merkle tree.  A key of four field
  elements is read as 256 bits, taking one bit of every element in turn (\<open>splitKey\<close>); a leaf at
  some level stores only the bits below it (\<open>removeKeyBits\<close>), and the full key of a found leaf is
  rebuilt from the bits of the path and the remaining key (\<open>joinKey\<close>).  The C++ arrays
  \<open>Element[4]\<close>, \<open>bool[256]\<close>, \<open>uint8_t[43]\<close> are lists of that length; shifts go through
  \<open>shl64\<close> and \<open>shr64\<close>, so that a shift by 64 is \<open>Undef\<close>.
\<close>

section \<open>Splitting a key into bits\<close>

definition splitKey :: "'e gl \<Rightarrow> 'e list \<Rightarrow> bool list" where
  "splitKey fr key =
     (let auxb0 = toU64 fr (key ! 0); auxb1 = toU64 fr (key ! 1);
          auxb2 = toU64 fr (key ! 2); auxb3 = toU64 fr (key ! 3)
      in concat (map (\<lambda>i. [bit auxb0 i, bit auxb1 i, bit auxb2 i, bit auxb3 i]) [0..<64]))"

definition sixBits :: "bool list \<Rightarrow> nat \<Rightarrow> nat \<Rightarrow> u8" where
  "sixBits bits i k =
     (\<Sum>j\<leftarrow>[0..<k]. if bits ! (i * 6 + j) then push_bit (5 - j) 1 else 0)"

definition splitKey6 :: "'e gl \<Rightarrow> 'e list \<Rightarrow> u8 list" where
  "splitKey6 fr key =
     (let bits = splitKey fr key
      in map (\<lambda>i. sixBits bits i 6) [0..<42] @ [sixBits bits 42 4])"

fun splitKey6_loop :: "nat \<Rightarrow> u64 \<Rightarrow> u8 list \<Rightarrow> u8 list" where
  "splitKey6_loop 0 bits rs = rs"
| "splitKey6_loop (Suc i) bits rs =
     splitKey6_loop i (drop_bit 6 bits) (ucast (bits AND 0x3F) # rs)"

definition splitKey6_u64 :: "u64 \<Rightarrow> u8 list" where
  "splitKey6_u64 key = splitKey6_loop 10 (drop_bit 4 key) [ucast (key AND 0x0F)]"

text \<open>The 9-bit digits of a byte string, most significant bit first.\<close>

definition splitKey9_part :: "u8 list \<Rightarrow> nat \<Rightarrow> u64" where
  "splitKey9_part ba i =
     (let firstByte = i div 8; firstByteBit = i mod 8;
          resultByte = push_bit firstByteBit (ba ! firstByte);
          resultPart = push_bit 1 (ucast resultByte :: u64)
      in if firstByte + 1 < length ba
         then resultPart OR ucast (drop_bit (7 - firstByteBit) (ba ! (firstByte + 1)))
         else resultPart)"

function splitKey9_loop :: "u8 list \<Rightarrow> nat \<Rightarrow> u64 list" where
  "splitKey9_loop ba i =
     (if i < 8 * length ba then splitKey9_part ba i # splitKey9_loop ba (i + 9) else [])"
  by auto
termination by (relation "measure (\<lambda>(ba, i). 8 * length ba - i)") auto

declare splitKey9_loop.simps [simp del]

definition splitKey9 :: "u8 list \<Rightarrow> u64 list" where
  "splitKey9 ba = splitKey9_loop ba 0"

section \<open>Removing and joining path bits\<close>

definition joinKey_step :: "u64 list \<Rightarrow> nat \<Rightarrow> nat list \<times> u64 list \<Rightarrow> (nat list \<times> u64 list) outcome"
where
  "joinKey_step bits i = (\<lambda>(n, accs).
     bindO (if bits ! i \<noteq> 0
            then bindO (shl64 1 (n ! (i mod 4)))
                   (\<lambda>b. Ret (accs[i mod 4 := accs ! (i mod 4) OR b]))
            else Ret accs)
       (\<lambda>accs'. Ret (n[i mod 4 := n ! (i mod 4) + 1], accs')))"

definition joinKey :: "'e gl \<Rightarrow> u64 list \<Rightarrow> 'e list \<Rightarrow> 'e list outcome" where
  "joinKey fr bits rkey =
     bindO (foldO (joinKey_step bits) [0..<length bits] (replicate 4 0, replicate 4 0))
       (\<lambda>(n, accs). mapO (\<lambda>i. bindO (shl64 (toU64 fr (rkey ! i)) (n ! i))
                                 (\<lambda>aux. Ret (fromU64 fr (aux OR accs ! i)))) [0..<4])"

definition removeKeyBits :: "'e gl \<Rightarrow> 'e list \<Rightarrow> nat \<Rightarrow> 'e list outcome" where
  "removeKeyBits fr key nBits =
     (let fullLevels = nBits div 4
      in mapO (\<lambda>i. bindO (shr64 (toU64 fr (key ! i))
                             (if fullLevels * 4 + i < nBits then fullLevels + 1 else fullLevels))
                       (\<lambda>a. Ret (fromU64 fr a))) [0..<4])"

section \<open>The bits of a key\<close>

lemma concat_4_nth:
  "i < 4 * n \<Longrightarrow>
   concat (map (\<lambda>i. [f 0 i, f 1 i, f 2 i, f 3 i]) [0..<n]) ! i = f (i mod 4) (i div 4)"
proof (induction n)
  case (Suc n)
  have len: "length (concat (map (\<lambda>i. [f 0 i, f 1 i, f 2 i, f 3 i]) [0..<n])) = 4 * n"
    by (simp add: length_concat comp_def sum_list_triv)
  show ?case
  proof (cases "i < 4 * n")
    case True
    then show ?thesis using Suc.IH len by (simp add: nth_append)
  next
    case False
    with Suc.prems have "i - 4 * n \<in> {0, 1, 2, 3}" and ge: "4 * n \<le> i" by auto
    then obtain j where j: "i = 4 * n + j" "j \<in> {0, 1, 2, 3}" by (metis le_add_diff_inverse)
    then show ?thesis using len by (auto simp: nth_append)
  qed
qed simp

lemma length_splitKey [simp]: "length (splitKey fr key) = 256"
  by (simp add: splitKey_def Let_def length_concat comp_def sum_list_triv)

lemma splitKey_nth:
  assumes "i < 256"
  shows "splitKey fr key ! i = bit (toU64 fr (key ! (i mod 4))) (i div 4)"
proof -
  have "splitKey fr key =
    concat (map (\<lambda>i. [bit (toU64 fr (key ! 0)) i, bit (toU64 fr (key ! 1)) i,
                        bit (toU64 fr (key ! 2)) i, bit (toU64 fr (key ! 3)) i]) [0..<64])"
    by (simp add: splitKey_def Let_def)
  then show ?thesis
    using concat_4_nth [of i 64 "\<lambda>j. bit (toU64 fr (key ! j))"] assms by simp
qed

text \<open>Two keys with the same representatives: the equality the code's comparisons decide.\<close>

definition same_key :: "'e gl \<Rightarrow> 'e list \<Rightarrow> 'e list \<Rightarrow> bool" where
  "same_key fr a b \<longleftrightarrow> map (toU64 fr) a = map (toU64 fr) b"

lemma same_key_4:
  "length a = 4 \<Longrightarrow> length b = 4 \<Longrightarrow>
   same_key fr a b \<longleftrightarrow> (\<forall>j<4. toU64 fr (a ! j) = toU64 fr (b ! j))"
  by (auto simp: same_key_def list_eq_iff_nth_eq)

lemma splitKey_cong: "length a = 4 \<Longrightarrow> length b = 4 \<Longrightarrow> same_key fr a b \<Longrightarrow> splitKey fr a = splitKey fr b"
  by (simp add: splitKey_def same_key_4)

lemma splitKey_eqD:
  assumes "length a = 4" "length b = 4" "splitKey fr a = splitKey fr b"
  shows "same_key fr a b"
proof -
  have "bit (toU64 fr (a ! j)) n \<longleftrightarrow> bit (toU64 fr (b ! j)) n" if "j < 4" "n < 64" for j n
  proof -
    from that have i: "4 * n + j < 256" "(4 * n + j) mod 4 = j" "(4 * n + j) div 4 = n" by auto
    from assms(3) show ?thesis
      using splitKey_nth [OF i(1), of fr a] splitKey_nth [OF i(1), of fr b] i by simp
  qed
  then show ?thesis
    using assms(1,2) by (auto simp: same_key_4 intro!: bit_word_eqI)
qed

section \<open>How many bits of a path belong to each element\<close>

definition laneBits :: "nat \<Rightarrow> nat \<Rightarrow> nat" where
  "laneBits m j = m div 4 + (if j < m mod 4 then 1 else 0)"

lemma laneBits_code:
  "(if m div 4 * 4 + j < m then m div 4 + 1 else m div 4) = laneBits m j"
  by (simp add: laneBits_def) (metis add_less_cancel_left div_mult_mod_eq)

lemma laneBits_0 [simp]: "laneBits 0 j = 0"
  by (simp add: laneBits_def)

lemma laneBits_Suc:
  assumes "j < 4"
  shows "laneBits (Suc m) j = laneBits m j + (if m mod 4 = j then 1 else 0)"
proof (cases "m mod 4 = 3")
  case True
  then have "Suc m mod 4 = 0" "Suc m div 4 = Suc (m div 4)" by (simp_all add: mod_Suc div_Suc)
  with True assms show ?thesis by (auto simp: laneBits_def)
next
  case False
  moreover have "m mod 4 < 4" by simp
  ultimately have "Suc m mod 4 = Suc (m mod 4)" "Suc m div 4 = m div 4"
    by (auto simp: mod_Suc div_Suc)
  then show ?thesis by (auto simp: laneBits_def)
qed

lemma laneBits_pos: "laneBits m (m mod 4) = m div 4"
  by (simp add: laneBits_def)

lemma laneBits_less: "m \<le> 252 \<Longrightarrow> laneBits m j < 64"
proof -
  assume "m \<le> 252"
  then consider "m = 252" | "m div 4 < 63" by linarith
  then show ?thesis by cases (auto simp: laneBits_def)
qed

lemma laneBits_greater: "252 < m \<Longrightarrow> 64 \<le> laneBits m 0"
proof -
  assume "252 < m"
  then consider "m div 4 = 63" "0 < m mod 4" | "64 \<le> m div 4"
  proof (cases "m < 256")
    case True
    with \<open>252 < m\<close> have "m = 253 \<or> m = 254 \<or> m = 255" by linarith
    then show ?thesis using that(1) by auto
  qed (rule that(2), linarith)
  then show ?thesis by cases (auto simp: laneBits_def)
qed

lemma laneBits_iff:
  assumes "j < 4"
  shows "q < laneBits m j \<longleftrightarrow> 4 * q + j < m"
proof -
  obtain d r where "m = 4 * d + r" "r < 4"
    by (metis mod_less_divisor mult_div_mod_eq zero_less_numeral)
  then show ?thesis using assms by (auto simp: laneBits_def)
qed

lemma removeKeyBits_code:
  "removeKeyBits fr key m =
     mapO (\<lambda>i. bindO (shr64 (toU64 fr (key ! i)) (laneBits m i)) (\<lambda>a. Ret (fromU64 fr a))) [0..<4]"
  unfolding removeKeyBits_def Let_def by (rule mapO_cong) (simp only: laneBits_code atLeastLessThan_iff set_upt)

definition dropKeyBits :: "'e gl \<Rightarrow> 'e list \<Rightarrow> nat \<Rightarrow> 'e list" where
  "dropKeyBits fr key m =
     map (\<lambda>i. fromU64 fr (drop_bit (laneBits m i) (toU64 fr (key ! i)))) [0..<4]"

lemma removeKeyBits_Ret: "m \<le> 252 \<Longrightarrow> removeKeyBits fr key m = Ret (dropKeyBits fr key m)"
  unfolding removeKeyBits_code dropKeyBits_def
  by (rule mapO_Ret) (simp add: shr64_def laneBits_less)

lemma length_dropKeyBits [simp]: "length (dropKeyBits fr key m) = 4"
  by (simp add: dropKeyBits_def)

lemma removeKeyBits_Undef: "252 < m \<Longrightarrow> removeKeyBits fr key m = Undef"
  using laneBits_greater [of m]
  by (simp add: removeKeyBits_code upt_4 shr64_def)

section \<open>Joining gives back what was removed\<close>

lemma joinKey_loop:
  assumes "m \<le> 256" "m \<le> length bits"
  shows "\<exists>accs. foldO (joinKey_step bits) [0..<m] (replicate 4 0, replicate 4 0)
                = Ret (map (laneBits m) [0..<4], accs) \<and> length accs = 4 \<and>
              (\<forall>j<4. \<forall>q. bit (accs ! j) q \<longleftrightarrow> 4 * q + j < m \<and> bits ! (4 * q + j) \<noteq> 0)"
  using assms
proof (induction m)
  case 0
  show ?case by (simp add: upt_4 replicate_4 nth_Cons split: nat.splits)
next
  case (Suc m)
  then obtain accs where accs: "foldO (joinKey_step bits) [0..<m] (replicate 4 0, replicate 4 0)
      = Ret (map (laneBits m) [0..<4], accs)" and len: "length accs = 4"
    and bits: "\<And>j q. j < 4 \<Longrightarrow> bit (accs ! j) q \<longleftrightarrow> 4 * q + j < m \<and> bits ! (4 * q + j) \<noteq> 0"
    by auto
  define j where "j = m mod 4"
  have j: "j < 4" "m = 4 * (m div 4) + j" by (auto simp: j_def)
  have q: "m div 4 < 64" using Suc.prems by linarith
  define b :: u64 where "b = push_bit (m div 4) 1"
  define accs' where "accs' = (if bits ! m \<noteq> 0 then accs[j := accs ! j OR b] else accs)"
  have n: "(map (laneBits m) [0..<4])[j := laneBits m j + 1] = map (laneBits (Suc m)) [0..<4]"
    using j by (intro nth_equalityI) (auto simp: nth_list_update laneBits_Suc j_def)
  have nj: "map (laneBits m) [0..<4] ! j = m div 4" using j by (simp add: laneBits_pos j_def)
  have "joinKey_step bits m (map (laneBits m) [0..<4], accs)
      = Ret ((map (laneBits m) [0..<4])[j := map (laneBits m) [0..<4] ! j + 1], accs')"
    using q unfolding joinKey_step_def accs'_def b_def prod.case j_def [symmetric] nj
    by (simp add: shl64_def)
  moreover have "bit (accs' ! i) p \<longleftrightarrow> 4 * p + i < Suc m \<and> bits ! (4 * p + i) \<noteq> 0"
    if i: "i < 4" for i p
  proof (cases "4 * p + i = m")
    case True
    then have "i = j" "p = m div 4" using j i by auto
    with True show ?thesis using q len j bits [of j p]
      by (auto simp: accs'_def b_def bit_simps)
  next
    case False
    then have "i \<noteq> j \<or> p \<noteq> m div 4" using j by auto
    with False i show ?thesis using q len j bits [of i p]
      by (auto simp: accs'_def b_def bit_simps nth_list_update)
  qed
  moreover have "length accs' = 4" using len by (simp add: accs'_def)
  ultimately show ?case
    using accs n nj j by (simp add: foldO_append laneBits_pos j_def)
qed

lemma joinKey_Ret:
  assumes "length bits \<le> 252"
  shows "\<exists>accs. joinKey fr bits rkey =
           Ret (map (\<lambda>i. fromU64 fr (push_bit (laneBits (length bits) i) (toU64 fr (rkey ! i)) OR accs ! i)) [0..<4])
         \<and> (\<forall>j<4. \<forall>q. bit (accs ! j) q \<longleftrightarrow> 4 * q + j < length bits \<and> bits ! (4 * q + j) \<noteq> 0)"
proof -
  obtain accs where "foldO (joinKey_step bits) [0..<length bits] (replicate 4 0, replicate 4 0)
      = Ret (map (laneBits (length bits)) [0..<4], accs)"
    "\<forall>j<4. \<forall>q. bit (accs ! j) q \<longleftrightarrow> 4 * q + j < length bits \<and> bits ! (4 * q + j) \<noteq> 0"
    using joinKey_loop [of "length bits" bits] assms by auto
  then show ?thesis
    using laneBits_less [OF assms] unfolding joinKey_def
    by (intro exI [of _ accs] conjI) (simp_all only: bindO.simps prod.case, intro mapO_Ret,
        simp add: shl64_def)
qed

lemma joinKey_Undef:
  assumes "252 < length bits" "length bits \<le> 256"
  shows "joinKey fr bits rkey = Undef"
  using joinKey_loop [of "length bits" bits] laneBits_greater [OF assms(1)] assms
  by (auto simp: joinKey_def shl64_def upt_4)

lemma rejoin_lane:
  assumes "\<And>q. bit a q \<longleftrightarrow> q < n \<and> bit (x :: u64) q"
  shows "push_bit n (drop_bit n x) OR a = x"
proof (rule bit_word_eqI)
  fix q :: nat
  assume "q < LENGTH(64)"
  then show "bit (push_bit n (drop_bit n x) OR a) q \<longleftrightarrow> bit x q"
    by (cases "n \<le> q") (simp_all add: assms bit_or_iff bit_push_bit_iff bit_drop_bit_eq)
qed

lemma joinKey_dropKeyBits:
  assumes gl: "goldilocks fr" and len: "length key = 4" "length rk = 4"
    and rk: "same_key fr rk (dropKeyBits fr key (length bits))"
    and bits: "length bits \<le> 252" "map (\<lambda>b. b \<noteq> 0) bits = take (length bits) (splitKey fr key)"
  shows "\<exists>k. joinKey fr bits rk = Ret k \<and> length k = 4 \<and> same_key fr k key"
proof -
  define m where "m = length bits"
  obtain accs where run: "joinKey fr bits rk =
      Ret (map (\<lambda>i. fromU64 fr (push_bit (laneBits m i) (toU64 fr (rk ! i)) OR accs ! i)) [0..<4])"
    and accs: "\<And>j q. j < 4 \<Longrightarrow> bit (accs ! j) q \<longleftrightarrow> 4 * q + j < m \<and> bits ! (4 * q + j) \<noteq> 0"
    using joinKey_Ret [OF bits(1), of fr rk] by (auto simp: m_def)
  have "toU64 fr (fromU64 fr (push_bit (laneBits m j) (toU64 fr (rk ! j)) OR accs ! j))
      = toU64 fr (key ! j)" if j: "j < 4" for j
  proof -
    have "bit (accs ! j) q \<longleftrightarrow> q < laneBits m j \<and> bit (toU64 fr (key ! j)) q" for q
    proof (cases "4 * q + j < m")
      case True
      then have i: "4 * q + j < 256" "(4 * q + j) mod 4 = j" "(4 * q + j) div 4 = q"
        using bits(1) j by (auto simp: m_def)
      have "bits ! (4 * q + j) \<noteq> 0 \<longleftrightarrow> splitKey fr key ! (4 * q + j)"
        using True arg_cong [OF bits(2), of "\<lambda>l. l ! (4 * q + j)"] by (simp add: m_def)
      with True show ?thesis
        using accs [OF j] splitKey_nth [OF i(1), of fr key] i laneBits_iff [OF j] by auto
    qed (use accs [OF j] laneBits_iff [OF j] in auto)
    then have "push_bit (laneBits m j) (drop_bit (laneBits m j) (toU64 fr (key ! j))) OR accs ! j
        = toU64 fr (key ! j)" by (intro rejoin_lane) simp
    moreover have "toU64 fr (rk ! j) = drop_bit (laneBits m j) (toU64 fr (key ! j))"
    proof -
      have "unat (drop_bit (laneBits m j) (toU64 fr (key ! j))) < ScalarGoldilocksPrime"
        using goldilocks.toU64_less [OF gl, of "key ! j"]
        by (rule le_less_trans [OF unat_drop_bit_le])
      then have "toU64 fr (dropKeyBits fr key m ! j) = drop_bit (laneBits m j) (toU64 fr (key ! j))"
        using j by (simp add: dropKeyBits_def goldilocks.toU64_fromU64_less [OF gl])
      then show ?thesis using rk j len by (simp add: same_key_4 m_def)
    qed
    ultimately show ?thesis by (simp add: goldilocks.toU64_fromU64_toU64 [OF gl])
  qed
  then show ?thesis using run len by (auto simp: same_key_4)
qed

section \<open>Digits of six and nine bits\<close>

lemma six_digits:
  "k < 6 \<Longrightarrow>
   bit ((if b0 then 32 else 0) + ((if b1 then 16 else 0) + ((if b2 then 8 else 0) +
        ((if b3 then 4 else 0) + ((if b4 then 2 else 0) + (if b5 then 1 else 0))))) :: u8) (5 - k)
     \<longleftrightarrow> [b0, b1, b2, b3, b4, b5] ! k"
proof -
  assume "k < 6"
  then have "k = 0 \<or> k = 1 \<or> k = 2 \<or> k = 3 \<or> k = 4 \<or> k = 5" by linarith
  then show ?thesis
    by (elim disjE; cases b0; cases b1; cases b2; cases b3; cases b4; cases b5; simp)
qed

lemma upt_6: "[0..<6] = [0, 1, 2, 3, 4, 5 :: nat]"
  by (simp add: upt_rec)

lemma sixBits_6: "sixBits bits i 6 =
    (if bits ! (i * 6) then 32 else 0) + ((if bits ! (i * 6 + 1) then 16 else 0) +
      ((if bits ! (i * 6 + 2) then 8 else 0) + ((if bits ! (i * 6 + 3) then 4 else 0) +
        ((if bits ! (i * 6 + 4) then 2 else 0) + (if bits ! (i * 6 + 5) then 1 else 0)))))"
  by (simp add: sixBits_def upt_6 push_bit_eq_mult if_distrib)

lemma sixBits_4: "sixBits bits i 4 =
    (if bits ! (i * 6) then 32 else 0) + ((if bits ! (i * 6 + 1) then 16 else 0) +
      ((if bits ! (i * 6 + 2) then 8 else 0) + ((if bits ! (i * 6 + 3) then 4 else 0) +
        ((if False then 2 else 0) + (if False then 1 else 0)))))"
  by (simp add: sixBits_def upt_4 push_bit_eq_mult if_distrib)

lemma bit_sixBits_6: "k < 6 \<Longrightarrow> bit (sixBits bits i 6) (5 - k) \<longleftrightarrow> bits ! (i * 6 + k)"
  unfolding sixBits_6 by (subst six_digits) (auto simp: less_Suc_eq numeral_eq_Suc)

lemma bit_sixBits_4: "k < 4 \<Longrightarrow> bit (sixBits bits i 4) (5 - k) \<longleftrightarrow> bits ! (i * 6 + k)"
  unfolding sixBits_4 by (subst six_digits) (auto simp: less_Suc_eq numeral_eq_Suc)

lemma bit_splitKey6:
  assumes "i < 256"
  shows "bit (splitKey6 fr key ! (i div 6)) (5 - i mod 6) \<longleftrightarrow> splitKey fr key ! i"
proof (cases "i < 252")
  case True
  then have "i div 6 < 42" by linarith
  then show ?thesis
    using bit_sixBits_6 [of "i mod 6" "splitKey fr key" "i div 6"]
    by (simp add: splitKey6_def Let_def nth_append)
next
  case False
  with assms have i: "i div 6 = 42" "i mod 6 < 4" by presburger+
  then have "i = 42 * 6 + i mod 6" by presburger
  then show ?thesis
    using bit_sixBits_4 [OF i(2), of "splitKey fr key" 42] i
    by (simp add: splitKey6_def Let_def nth_append)
qed

lemma bit_double_word: "bit (x * 2 :: u64) n \<longleftrightarrow> n < 64 \<and> 0 < n \<and> bit x (n - 1)"
proof -
  have "x * 2 = push_bit 1 x" by (simp add: push_bit_eq_mult)
  then show ?thesis by (simp only: bit_push_bit_iff) auto
qed

definition bitAt :: "u8 list \<Rightarrow> nat \<Rightarrow> bool" where
  "bitAt ba p \<longleftrightarrow> p < 8 * length ba \<and> bit (ba ! (p div 8)) (7 - p mod 8)"

lemma bit_splitKey9_part:
  assumes i: "i < 8 * length ba" and k: "k < 9"
  shows "bit (splitKey9_part ba i) (8 - k) \<longleftrightarrow> bitAt ba (i + k)"
proof -
  define q where "q = i div 8"
  define r where "r = i mod 8"
  have ir: "i = 8 * q + r" "r < 8" by (auto simp: q_def r_def)
  have q: "q < length ba" using i ir by linarith
  show ?thesis
  proof (cases "r + k < 8")
    case True
    then have d: "(i + k) div 8 = q" "(i + k) mod 8 = r + k" 
      using True by (simp_all add: ir(1) add.assoc)
    have "i + k < 8 * length ba" using True ir q by linarith
    moreover have "\<not> bit (ba ! (q + 1)) (15 - k - r)"
      using True by (auto dest: bit_imp_le_length)
    ultimately show ?thesis using True ir d
      by (auto simp: splitKey9_part_def Let_def bitAt_def bit_simps q_def [symmetric]
          r_def [symmetric] diff_diff_eq add.commute bit_double_word)
  next
    case False
    then have ik: "i + k = 8 * (q + 1) + (r + k - 8)" "r + k - 8 < 8" using ir k by simp_all
    have d: "(i + k) div 8 = q + 1" "(i + k) mod 8 = r + k - 8"
      unfolding ik(1) by (rule div_mod_plus, rule ik(2))+
    have "i + k < 8 * length ba \<longleftrightarrow> q + 1 < length ba" using False ir k by linarith
    moreover have "8 - k + (7 - r) = 7 - (r + k - 8)" using False k ir by linarith
    moreover have "\<not> (r \<le> 7 - k \<and> 1 \<le> 8 - k)" using False by linarith
    ultimately show ?thesis using False ir d
      by (auto simp: splitKey9_part_def Let_def bitAt_def bit_simps q_def [symmetric]
          r_def [symmetric] bit_double_word)
  qed
qed

lemma splitKey9_loop_nth:
  "9 * j + i < 8 * length ba \<Longrightarrow>
   j < length (splitKey9_loop ba i) \<and> splitKey9_loop ba i ! j = splitKey9_part ba (9 * j + i)"
proof (induction j arbitrary: i)
  case 0
  then show ?case by (simp add: splitKey9_loop.simps)
next
  case (Suc j)
  then show ?case using Suc.IH [of "i + 9"]
    by (subst (1 2) splitKey9_loop.simps) (simp add: algebra_simps)
qed

lemma length_splitKey9_loop: "length (splitKey9_loop ba i) = (8 * length ba - i + 8) div 9"
proof (induction ba i rule: splitKey9_loop.induct)
  case (1 ba i)
  show ?case
  proof (cases "i < 8 * length ba")
    case True
    then have "8 * length ba - i + 8 = 8 * length ba - (i + 9) + 8 + 9 \<or>
      8 * length ba - (i + 9) = 0 \<and> 8 * length ba - i + 8 \<le> 17" by linarith
    moreover have "9 \<le> 8 * length ba - i + 8" using True by linarith
    ultimately show ?thesis using True 1
      by (subst splitKey9_loop.simps) auto
  qed (subst splitKey9_loop.simps, simp)
qed

definition digits64 :: "nat \<Rightarrow> u8 list \<Rightarrow> nat" where
  "digits64 a ds = foldl (\<lambda>a d. a * 64 + unat d) a ds"

lemma splitKey6_loop_append: "splitKey6_loop k bits (rs @ ts) = splitKey6_loop k bits rs @ ts"
  by (induction k arbitrary: bits rs) (simp_all flip: append_Cons)

lemma length_splitKey6_loop: "length (splitKey6_loop k bits rs) = k + length rs"
  by (induction k arbitrary: bits rs) simp_all

lemma unat_low_six: "unat (ucast (x AND 0x3F :: u64) :: u8) = unat x mod 64"
  using unat_ucast_take_bit [of 6 x, where 'b = 8] by (simp add: take_bit_eq_mask mask_eq_exp_minus_1)

lemma unat_shr6: "unat (drop_bit 6 (x :: u64)) = unat x div 64"
  unfolding unat_drop_bit_eq by (simp add: drop_bit_eq_div)

lemma digits64_splitKey6_loop:
  "unat bits < 64 ^ k \<Longrightarrow> digits64 0 (splitKey6_loop k bits rs) = digits64 (unat bits) rs"
proof (induction k arbitrary: bits rs)
  case (Suc k)
  have "unat (drop_bit 6 bits) < 64 ^ k"
    using Suc.prems by (simp add: unat_shr6 less_mult_imp_div_less mult.commute)
  then show ?case
    by (simp add: Suc.IH) (simp add: digits64_def unat_low_six unat_shr6)
qed simp

lemma splitKey6_u64_digits:
  "length (splitKey6_u64 key) = 11 \<and>
   digits64 0 (take 10 (splitKey6_u64 key)) * 16 + unat (splitKey6_u64 key ! 10) = unat key"
proof -
  define hi where "hi = splitKey6_loop 10 (drop_bit 4 key) []"
  have len: "length hi = 10" by (simp add: hi_def length_splitKey6_loop)
  have split: "splitKey6_u64 key = hi @ [ucast (key AND 0x0F)]"
    using splitKey6_loop_append [of 10 "drop_bit 4 key" "[]" "[ucast (key AND 0x0F)]"] 
    by (simp only: splitKey6_u64_def hi_def append_Nil)
  have shr: "unat (drop_bit 4 key) = unat key div 16"
    unfolding unat_drop_bit_eq by (simp add: drop_bit_eq_div)
  have "unat key < 16 * 64 ^ 10" using unsigned_less [of key] by simp
  then have "unat (drop_bit 4 key) < 64 ^ 10"
    unfolding shr by (intro less_mult_imp_div_less) (simp only: mult.commute)
  then have "digits64 0 hi = unat key div 16"
    by (simp only: hi_def digits64_splitKey6_loop shr) (simp add: digits64_def shr)
  moreover have "unat (ucast (key AND 0x0F) :: u8) = unat key mod 16"
    using unat_ucast_take_bit [of 4 key, where 'b = 8]
    by (simp add: take_bit_eq_mask mask_eq_exp_minus_1)
  ultimately show ?thesis using len split by (simp add: nth_append)
qed

section \<open>Properties\<close>

text \<open>C38: Removing the bits of a path from a key and joining that path with the remaining key
  gives the key back: for every path of at most 252 bits that agrees with the key,
  \<open>removeKeyBits\<close> and then \<open>joinKey\<close> return normally, and the result has the four
  representatives of the original key.\<close>
theorem joinKey_removeKeyBits:
  assumes "goldilocks fr" "length key = 4" "length bits \<le> 252"
    and "map (\<lambda>b. b \<noteq> 0) bits = take (length bits) (splitKey fr key)"
  shows "\<exists>rkey key'. removeKeyBits fr key (length bits) = Ret rkey \<and>
           joinKey fr bits rkey = Ret key' \<and> map (toU64 fr) key' = map (toU64 fr) key"
proof -
  let ?rkey = "dropKeyBits fr key (length bits)"
  have "same_key fr ?rkey ?rkey" by (simp add: same_key_def)
  from joinKey_dropKeyBits [OF assms(1,2) length_dropKeyBits this assms(3,4)]
  show ?thesis using removeKeyBits_Ret [OF assms(3), of fr key]
    by (auto simp: same_key_def)
qed

theorem joinKey_removeKeyBits_witness:
  "\<exists>rkey key'. removeKeyBits gl_word [5, 2, 0, 1] 2 = Ret rkey \<and>
     joinKey gl_word [1, 0] rkey = Ret key' \<and>
     map (toU64 gl_word) key' = map (toU64 gl_word) [5, 2, 0, 1]"
proof -
  have "map (\<lambda>b. b \<noteq> 0) [1, 0 :: u64] = take (length [1, 0 :: u64]) (splitKey gl_word [5, 2, 0, 1])"
    by (intro nth_equalityI)
      (auto simp: less_Suc_eq splitKey_nth gl_word_def gl_canon_def ScalarGoldilocksPrime_def)
  from joinKey_removeKeyBits [OF glw.goldilocks_axioms _ _ this]
  show ?thesis by (simp add: numeral_2_eq_2)
qed

text \<open>C39: The shifts of \<open>removeKeyBits\<close> and \<open>joinKey\<close> stay below the width of their operand
  exactly for paths of at most 252 bits; a path of 253 to 256 bits shifts by 64, which C++
  leaves undefined.\<close>
theorem key_shift_bounds:
  "(removeKeyBits fr key m = Undef \<longleftrightarrow> 252 < m) \<and>
   (length bits \<le> 256 \<longrightarrow> (joinKey fr bits rkey = Undef \<longleftrightarrow> 252 < length bits))"
proof -
  have "removeKeyBits fr key m = Undef \<longleftrightarrow> 252 < m"
    using removeKeyBits_Ret [of m fr key] removeKeyBits_Undef [of m fr key]
    by (cases "252 < m") simp_all
  moreover have "joinKey fr bits rkey = Undef \<longleftrightarrow> 252 < length bits" if "length bits \<le> 256"
    using joinKey_Ret [of bits fr rkey] joinKey_Undef [of bits fr rkey] that
    by (cases "252 < length bits") auto
  ultimately show ?thesis by blast
qed

theorem key_shift_bounds_witness:
  "joinKey gl_word (replicate 253 1) [1, 2, 3, 4] = Undef"
  using key_shift_bounds [of gl_word "[]" 0 "replicate 253 1" "[1, 2, 3, 4]"] by simp

text \<open>C40: The 256 bits determine the key: two keys of four elements have the same path exactly
  when their four representatives are equal.\<close>
theorem splitKey_injective:
  assumes "length a = 4" "length b = 4"
  shows "splitKey fr a = splitKey fr b \<longleftrightarrow> map (toU64 fr) a = map (toU64 fr) b"
  using splitKey_cong [OF assms] splitKey_eqD [OF assms] by (auto simp: same_key_def)

theorem splitKey_injective_witness:
  "splitKey gl_word [1, 2, 3, 4] \<noteq> splitKey gl_word [1, 2, 3, 5]"
  using splitKey_injective [of "[1, 2, 3, 4]" "[1, 2, 3, 5]" gl_word]
  by (simp add: gl_word_def gl_canon_def ScalarGoldilocksPrime_def)

text \<open>\<open>splitKey9\<close> cuts a byte string into 9-bit digits, most significant bit first and
  zero-padded at the end: it returns one digit per started group of nine bits, bit \<open>8 - p mod 9\<close>
  of digit \<open>p div 9\<close> is bit \<open>p\<close> of the string, and the other bits of the digit are its padding.\<close>
theorem splitKey9_digits:
  "length (splitKey9 ba) = (8 * length ba + 8) div 9 \<and>
   (\<forall>j < length (splitKey9 ba). \<forall>k < 9.
      bit (splitKey9 ba ! j) (8 - k) \<longleftrightarrow>
        9 * j + k < 8 * length ba \<and> bit (ba ! ((9 * j + k) div 8)) (7 - (9 * j + k) mod 8))"
proof -
  have len: "length (splitKey9 ba) = (8 * length ba + 8) div 9"
    by (simp add: splitKey9_def length_splitKey9_loop)
  moreover have "bit (splitKey9 ba ! j) (8 - k) \<longleftrightarrow> bitAt ba (9 * j + k)"
    if "j < length (splitKey9 ba)" "k < 9" for j k
  proof -
    have j: "9 * j < 8 * length ba" using that(1) len by (simp add: less_eq_div_iff_mult_less_eq
          flip: Suc_le_eq)
    then have "splitKey9 ba ! j = splitKey9_part ba (9 * j)"
      using splitKey9_loop_nth [of j 0 ba] by (simp add: splitKey9_def)
    then show ?thesis using bit_splitKey9_part [OF j that(2)] by simp
  qed
  ultimately show ?thesis by (simp add: bitAt_def)
qed

theorem splitKey9_digits_witness: "length (splitKey9 [0xFF, 0x80]) = 2"
  using splitKey9_digits [of "[0xFF, 0x80]"] by simp

text \<open>The six-bit digits carry exactly the bits of the key: bit \<open>i\<close> of the path is bit
  \<open>5 - i mod 6\<close> of digit \<open>i div 6\<close>, and the eleven digits of a 64-bit key (ten of six bits and
  one of four) read as one number are that key.\<close>
theorem splitKey6_digits:
  "(\<forall>i < 256. bit (splitKey6 fr key ! (i div 6)) (5 - i mod 6) \<longleftrightarrow> splitKey fr key ! i) \<and>
   foldl (\<lambda>a d. a * 64 + unat d) 0 (take 10 (splitKey6_u64 k)) * 16 + unat (splitKey6_u64 k ! 10)
     = unat k"
  using bit_splitKey6 [of _ fr key] splitKey6_u64_digits [of k] by (auto simp: digits64_def)

theorem splitKey6_digits_witness:
  "bit (splitKey6 gl_word [1, 0, 0, 0] ! 0) 5 \<longleftrightarrow> splitKey gl_word [1, 0, 0, 0] ! 0"
  using splitKey6_digits [of gl_word "[1, 0, 0, 0]" 7, THEN conjunct1, rule_format, of 0] by simp

end
