(* ===== verification/Scalar.thy ===== *)
theory Scalar
  imports Key_Utils
begin

text \<open>
  src/src/utils/scalar.cpp and scalar.hpp: conversions between the big integers of the program
  (\<open>mpz_class\<close>, here \<open>nat\<close>: every scalar of the modelled code is non-negative), arrays of field
  elements, hexadecimal strings and byte arrays.  \<open>fea2string\<close> gives the keys under which the
  nodes of the Merkle tree are stored; its lemmas (64 lower-case digits, fixed by the
  normalisation of the stores, injective on the representatives) are what the tree needs.
  \<open>get_str(16)\<close> of GMP is \<open>hexDigits\<close>: lower-case digits, no leading zeros, "0" for zero.
\<close>

section \<open>Field elements and scalars\<close>

definition fea2scalar4 :: "'e gl \<Rightarrow> 'e list \<Rightarrow> nat" where
  "fea2scalar4 fr fea =
     ((unat (toU64 fr (fea ! 3)) * 2 ^ 64 + unat (toU64 fr (fea ! 2))) * 2 ^ 64
        + unat (toU64 fr (fea ! 1))) * 2 ^ 64 + unat (toU64 fr (fea ! 0))"

text \<open>
  The eight-element form returns false on an element of more than 32 bits and leaves in the
  scalar what it had accumulated; the pairs are taken from the highest one down, the high
  element of the pair first.  \<open>fea2scalar8_from\<close> continues with the \<open>n\<close> lowest pairs.
\<close>

fun fea2scalar8_from :: "'e gl \<Rightarrow> 'e list \<Rightarrow> nat \<Rightarrow> nat \<Rightarrow> bool \<times> nat" where
  "fea2scalar8_from fr fea 0 scalar = (True, scalar)"
| "fea2scalar8_from fr fea (Suc i) scalar =
     (let auxH = toU64 fr (fea ! (2 * i + 1)); auxL = toU64 fr (fea ! (2 * i))
      in if auxH \<ge> 0x100000000 then (False, scalar)
         else if auxL \<ge> 0x100000000 then (False, scalar)
         else (let scalar' = scalar + unat (push_bit 32 auxH + auxL)
               in fea2scalar8_from fr fea i (if i = 0 then scalar' else scalar' * 2 ^ 64)))"

text \<open>The highest pair assigns the scalar instead of adding to it.\<close>

definition fea2scalar8 :: "'e gl \<Rightarrow> 'e list \<Rightarrow> nat \<Rightarrow> bool \<times> nat" where
  "fea2scalar8 fr fea scalar =
     (if toU64 fr (fea ! 7) \<ge> 0x100000000 \<or> toU64 fr (fea ! 6) \<ge> 0x100000000 then (False, scalar)
      else fea2scalar8_from fr fea 4 0)"

definition scalar2fe :: "'e gl \<Rightarrow> nat \<Rightarrow> 'e outcome" where
  "scalar2fe fr scalar = (if scalar < 2 ^ 64 then Ret (fromU64 fr (of_nat scalar)) else Exit)"

definition scalar2fea4 :: "'e gl \<Rightarrow> nat \<Rightarrow> 'e list outcome" where
  "scalar2fea4 fr scalar =
     mapO (\<lambda>i. let aux = drop_bit (64 * i) scalar AND mask 64
                in if aux \<ge> ScalarGoldilocksPrime then Exit else Ret (fromU64 fr (of_nat aux))) [0..<4]"

definition scalar2fea8 :: "'e gl \<Rightarrow> nat \<Rightarrow> 'e list" where
  "scalar2fea8 fr scalar =
     map (\<lambda>i. fromU64 fr (of_nat (drop_bit (32 * i) scalar AND mask 32))) [0..<8]"

function scalar2key_loop :: "nat \<Rightarrow> nat \<Rightarrow> nat list \<Rightarrow> nat list" where
  "scalar2key_loop r i auxk =
     (if r = 0 then auxk
      else scalar2key_loop (r div 2) (i + 1)
             (if odd r then auxk[i mod 4 := auxk ! (i mod 4) + 2 ^ (i div 4)] else auxk))"
  by auto
termination by (relation "measure (\<lambda>(r, i, auxk). r)") auto

declare scalar2key_loop.simps [simp del]

definition scalar2key :: "'e gl \<Rightarrow> nat \<Rightarrow> 'e list" where
  "scalar2key fr s = map (\<lambda>a. fromU64 fr (of_nat a)) (scalar2key_loop s 0 (replicate 4 0))"

definition sr8to4 :: "'e gl \<Rightarrow> 'e list \<Rightarrow> 'e list" where
  "sr8to4 fr a =
     map (\<lambda>i. fromU64 fr (toU64 fr (a ! (2 * i)) + push_bit 32 (toU64 fr (a ! (2 * i + 1))))) [0..<4]"

definition sr4to8 :: "'e gl \<Rightarrow> 'e list \<Rightarrow> 'e list" where
  "sr4to8 fr a =
     concat (map (\<lambda>i. [fromU64 fr (toU64 fr (a ! i) AND 0xFFFFFFFF),
                        fromU64 fr (drop_bit 32 (toU64 fr (a ! i)))]) [0..<4])"

definition feaIsZero :: "'e gl \<Rightarrow> 'e list \<Rightarrow> bool" where
  "feaIsZero fr fea \<longleftrightarrow> gl_isZero fr (fea ! 0) \<and> gl_isZero fr (fea ! 1) \<and>
     gl_isZero fr (fea ! 2) \<and> gl_isZero fr (fea ! 3)"

definition feaIsEqual :: "'e gl \<Rightarrow> 'e list \<Rightarrow> 'e list \<Rightarrow> bool" where
  "feaIsEqual fr a b \<longleftrightarrow> gl_equal fr (a ! 0) (b ! 0) \<and> gl_equal fr (a ! 1) (b ! 1) \<and>
     gl_equal fr (a ! 2) (b ! 2) \<and> gl_equal fr (a ! 3) (b ! 3)"

section \<open>Hexadecimal strings\<close>

definition Remove0xIfPresent :: "string \<Rightarrow> string" where
  "Remove0xIfPresent s =
     (if length s \<ge> 2 \<and> s ! 1 = CHR ''x'' \<and> s ! 0 = CHR ''0'' then drop 2 s else s)"

definition Add0xIfMissing :: "string \<Rightarrow> string" where
  "Add0xIfMissing s =
     (if length s \<ge> 2 \<and> s ! 1 = CHR ''x'' \<and> s ! 0 = CHR ''0'' then s else ''0x'' @ s)"

definition PrependZeros :: "string \<Rightarrow> nat \<Rightarrow> string outcome" where
  "PrependZeros s n =
     (if n > 64 then Exit
      else if length s > n \<or> length s > 64 then Exit
      else if length s < n then Ret (replicate (n - length s) CHR ''0'' @ s)
      else Ret s)"

definition NormalizeToNFormat :: "string \<Rightarrow> nat \<Rightarrow> string outcome" where
  "NormalizeToNFormat s n = PrependZeros (Remove0xIfPresent s) n"

definition NormalizeTo0xNFormat :: "string \<Rightarrow> nat \<Rightarrow> string outcome" where
  "NormalizeTo0xNFormat s n = bindO (NormalizeToNFormat s n) (\<lambda>r. Ret (''0x'' @ r))"

text \<open>\<open>::tolower\<close> of the C locale.\<close>

definition charToLower :: "char \<Rightarrow> char" where
  "charToLower c = (if 65 \<le> (of_char c :: nat) \<and> (of_char c :: nat) \<le> 90
                    then char_of ((of_char c :: nat) + 32) else c)"

definition stringToLower :: "string \<Rightarrow> string" where
  "stringToLower s = map charToLower s"

definition charIsHex :: "char \<Rightarrow> bool" where
  "charIsHex c \<longleftrightarrow> (let n = (of_char c :: nat) in
     48 \<le> n \<and> n \<le> 57 \<or> 97 \<le> n \<and> n \<le> 102 \<or> 65 \<le> n \<and> n \<le> 70)"

definition stringIsHex :: "string \<Rightarrow> bool" where
  "stringIsHex s \<longleftrightarrow> list_all charIsHex s"

definition fea2string :: "'e gl \<Rightarrow> 'e list \<Rightarrow> string outcome" where
  "fea2string fr fea = PrependZeros (hexDigits (fea2scalar4 fr fea)) 64"

definition string2fe :: "'e gl \<Rightarrow> string \<Rightarrow> 'e" where
  "string2fe fr s = gl_fromString16 fr (Remove0xIfPresent s)"

text \<open>The form for four elements: the highest one is written first.\<close>

definition string2fea4 :: "'e gl \<Rightarrow> string \<Rightarrow> 'e list outcome" where
  "string2fea4 fr os =
     (if length os \<noteq> 64 then Exit
      else Ret (map (\<lambda>i. string2fe fr (take 16 (drop (16 * (3 - i)) os))) [0..<4]))"

text \<open>The form for vectors: one element per 16 digits, in order.\<close>

fun string2fea :: "'e gl \<Rightarrow> string \<Rightarrow> 'e list outcome" where
  "string2fea fr os =
     (if os = [] then Ret []
      else if length os < 16 then Exit
      else bindO (string2fea fr (drop 16 os)) (\<lambda>fea. Ret (string2fe fr (take 16 os) # fea)))"

declare string2fea.simps [simp del]

section \<open>The digits of a key string\<close>

lemma of_char_hexChar: "d < 16 \<Longrightarrow> of_char (hexChar d) = (if d < 10 then 48 + d else 87 + d)"
  by (simp add: hexChar_def)

lemma hexValue_snoc: "d < 16 \<Longrightarrow> hexValue (s @ [hexChar d]) = hexValue s * 16 + d"
  by (auto simp: hexValue_def of_char_hexChar)

lemma hexValue_hexDigits [simp]: "hexValue (hexDigits n) = n"
proof (induction n rule: hexDigits.induct)
  case (1 n)
  show ?case
  proof (cases "n < 16")
    case True
    then show ?thesis using hexValue_snoc [of n "[]"]
      by (subst hexDigits.simps) (simp add: hexValue_def)
  qed (subst hexDigits.simps, simp add: hexValue_snoc 1)
qed

lemma hexValue_zeros [simp]: "hexValue (replicate k CHR ''0'' @ s) = hexValue s"
  by (induction k) (simp_all add: hexValue_def)

lemma length_hexDigits: "0 < k \<Longrightarrow> n < 16 ^ k \<Longrightarrow> length (hexDigits n) \<le> k"
proof (induction n arbitrary: k rule: hexDigits.induct)
  case (1 n)
  show ?case
  proof (cases "n < 16")
    case True
    then show ?thesis using 1 by (subst hexDigits.simps) simp
  next
    case False
    then obtain k' where k: "k = Suc k'" "0 < k'"
      using 1 by (cases k; cases "k - 1") auto
    then have "n div 16 < 16 ^ k'" using 1 by (simp add: less_mult_imp_div_less mult.commute)
    with False 1 k show ?thesis by (subst hexDigits.simps) simp
  qed
qed

lemma lowerHex_hexChar: "d < 16 \<Longrightarrow> lowerHex (hexChar d)"
  by (auto simp: lowerHex_def of_char_hexChar)

lemma lowerHex_hexDigits: "list_all lowerHex (hexDigits n)"
proof (induction n rule: hexDigits.induct)
  case (1 n)
  then show ?case by (subst hexDigits.simps) (simp add: lowerHex_hexChar)
qed

lemma lowerHex_toLower: "lowerHex c \<Longrightarrow> charToLower c = c"
  by (auto simp: lowerHex_def charToLower_def Let_def)

lemma lowerHex_not_x: "lowerHex c \<Longrightarrow> c \<noteq> CHR ''x''"
  by (auto simp: lowerHex_def)

lemma stringToLower_lowerHex: "list_all lowerHex s \<Longrightarrow> stringToLower s = s"
  by (induction s) (simp_all add: stringToLower_def lowerHex_toLower)

lemma NormalizeToNFormat_lowerHex:
  "list_all lowerHex s \<Longrightarrow> length s = 64 \<Longrightarrow> NormalizeToNFormat s 64 = Ret s"
proof -
  assume s: "list_all lowerHex s" "length s = 64"
  then have "s ! 1 \<noteq> CHR ''x''" by (intro lowerHex_not_x) (simp add: list_all_length)
  with s show ?thesis
    by (simp add: NormalizeToNFormat_def Remove0xIfPresent_def PrependZeros_def)
qed

section \<open>The key of a node\<close>

text \<open>The string \<open>fea2string\<close> returns, as a function of the four representatives.\<close>

definition words2nat :: "u64 list \<Rightarrow> nat" where
  "words2nat ws = ((unat (ws ! 3) * 2 ^ 64 + unat (ws ! 2)) * 2 ^ 64 + unat (ws ! 1)) * 2 ^ 64
     + unat (ws ! 0)"

definition keystr :: "u64 list \<Rightarrow> string" where
  "keystr ws = (let s = hexDigits (words2nat ws) in replicate (64 - length s) CHR ''0'' @ s)"

lemma unat_u64_less: "unat (x :: u64) < 2 ^ 64"
  using unsigned_less [of x] by simp

lemma split_base: "a < (b :: nat) \<Longrightarrow> c < b \<Longrightarrow> x * b + a = y * b + c \<Longrightarrow> x = y \<and> a = c"
  by (metis add.commute div_mult_self3 div_less add.left_neutral less_nat_zero_code
      add_left_cancel)

lemma words2nat_less: "words2nat ws < 16 ^ 64"
proof -
  have step: "x * b + y < a * b" if "x < a" "y < (b :: nat)" for x y a b
  proof -
    have "x * b + y < (x + 1) * b" using that(2) by simp
    also have "\<dots> \<le> a * b" using that(1) by (intro mult_le_mono1) simp
    finally show ?thesis .
  qed
  have "words2nat ws < 2 ^ 64 * 2 ^ 64 * 2 ^ 64 * 2 ^ 64"
    unfolding words2nat_def by (intro step unat_u64_less)
  then show ?thesis by simp
qed

lemma words2nat_inj:
  assumes "words2nat a = words2nat b" "length a = 4" "length b = 4"
  shows "a = b"
proof -
  note s = split_base [OF unat_u64_less unat_u64_less]
  have "a ! 0 = b ! 0" "a ! 1 = b ! 1" "a ! 2 = b ! 2" "a ! 3 = b ! 3"
    using assms(1) unfolding words2nat_def by (metis s unsigned_word_eqI)+
  then show ?thesis
    using length_4_conv [of a] length_4_conv [of b] assms(2,3) by simp
qed

lemma length_keystr [simp]: "length (keystr ws) = 64"
  using length_hexDigits [of 64 "words2nat ws"] words2nat_less [of ws]
  by (simp add: keystr_def Let_def)

lemma keystr_inj: "keystr a = keystr b \<Longrightarrow> length a = 4 \<Longrightarrow> length b = 4 \<Longrightarrow> a = b"
  by (metis words2nat_inj hexValue_hexDigits hexValue_zeros keystr_def)

lemma lowerHex_keystr: "list_all lowerHex (keystr ws)"
proof -
  have "list_all lowerHex (replicate n CHR ''0'')" for n
    by (induction n) (simp_all add: lowerHex_def)
  then show ?thesis by (simp add: keystr_def Let_def lowerHex_hexDigits)
qed

lemma keystr_normal [simp]:
  "NormalizeToNFormat (keystr ws) 64 = Ret (keystr ws)" "stringToLower (keystr ws) = keystr ws"
  using lowerHex_keystr [of ws]
  by (simp_all add: NormalizeToNFormat_lowerHex stringToLower_lowerHex)

lemma fea2string_Ret [simp]:
  assumes "length fea = 4"
  shows "fea2string fr fea = Ret (keystr (map (toU64 fr) fea))"
proof -
  have eq: "fea2scalar4 fr fea = words2nat (map (toU64 fr) fea)"
    using assms by (simp add: fea2scalar4_def words2nat_def)
  have "length (hexDigits (fea2scalar4 fr fea)) \<le> 64"
    using length_hexDigits [of 64] words2nat_less by (simp add: eq)
  then show ?thesis
    by (auto simp: fea2string_def PrependZeros_def keystr_def Let_def eq)
qed

section \<open>Values of 256 bits as eight field elements\<close>

definition chunk32 :: "nat \<Rightarrow> nat \<Rightarrow> nat" where
  "chunk32 v i = v div 2 ^ (32 * i) mod 2 ^ 32"

definition valueWords :: "nat \<Rightarrow> u64 list" where
  "valueWords v = map (\<lambda>i. of_nat (chunk32 v i)) [0..<8]"

lemma chunk32_less: "chunk32 v i < 2 ^ 32"
  by (simp add: chunk32_def)

lemma unat_of_nat_less: "n < 2 ^ 64 \<Longrightarrow> unat (of_nat n :: u64) = n"
  by (simp add: unat_of_nat take_bit_nat_eq_self)

lemma unat_chunk32: "unat (of_nat (chunk32 v i) :: u64) = chunk32 v i"
  using chunk32_less [of v i] by (intro unat_of_nat_less) simp

lemma length_valueWords [simp]: "length (valueWords v) = 8"
  by (simp add: valueWords_def)

lemma mask_chunk32: "drop_bit (32 * i) v AND mask 32 = chunk32 v i"
  unfolding take_bit_eq_mask [symmetric] take_bit_eq_mod drop_bit_eq_div chunk32_def by simp

lemma map_toU64_scalar2fea8:
  assumes "goldilocks fr"
  shows "map (toU64 fr) (scalar2fea8 fr v) = valueWords v"
proof -
  have "toU64 fr (fromU64 fr (of_nat (chunk32 v i))) = of_nat (chunk32 v i)" for i
    using chunk32_less [of v i]
    by (intro goldilocks.toU64_fromU64_32 [OF assms]) (simp add: unat_chunk32)
  then show ?thesis by (simp add: scalar2fea8_def valueWords_def mask_chunk32)
qed

lemma length_scalar2fea8 [simp]: "length (scalar2fea8 fr v) = 8"
  by (simp add: scalar2fea8_def)

lemma two_digits: "w div b div b * (b * b) + (w div b mod b * b + w mod b) = (w :: nat)"
proof -
  have "w div b div b * (b * b) + (w div b mod b * b + w mod b)
      = (w div b div b * b + w div b mod b) * b + w mod b"
    by (simp only: distrib_right mult.assoc add.assoc)
  then show ?thesis by (simp only: div_mult_mod_eq)
qed

lemma chunk_pair:
  "v div 2 ^ (64 * (i + 1)) * 2 ^ 64 + (chunk32 v (2 * i + 1) * 2 ^ 32 + chunk32 v (2 * i))
     = v div 2 ^ (64 * i)"
proof -
  define w where "w = v div 2 ^ (64 * i)"
  have "chunk32 v (2 * i) = w mod 2 ^ 32" by (simp add: chunk32_def w_def mult.assoc [symmetric])
  moreover have "chunk32 v (2 * i + 1) = w div 2 ^ 32 mod 2 ^ 32"
    by (simp add: chunk32_def w_def power_add div_mult2_eq [symmetric] mult.commute)
  moreover have "v div 2 ^ (64 * (i + 1)) = w div 2 ^ 32 div 2 ^ 32"
    by (simp add: w_def power_add div_mult2_eq [symmetric] mult.commute)
  moreover have "w div 2 ^ 32 div 2 ^ 32 * 2 ^ 64 + (w div 2 ^ 32 mod 2 ^ 32 * 2 ^ 32 + w mod 2 ^ 32) = w"
    using two_digits [of w "2 ^ 32"] by simp
  ultimately show ?thesis by (simp add: w_def)
qed

lemma fea2scalar8_from_chunks:
  assumes fea: "\<And>i. i < 8 \<Longrightarrow> toU64 fr (fea ! i) = of_nat (chunk32 v i)" and "n \<le> 4"
  shows "fea2scalar8_from fr fea n (if n = 0 then v else v div 2 ^ (64 * n) * 2 ^ 64) = (True, v)"
  using assms(2)
proof (induction n)
  case (Suc n)
  let ?H = "of_nat (chunk32 v (2 * n + 1)) :: u64" and ?L = "of_nat (chunk32 v (2 * n)) :: u64"
  have small: "\<not> 0x100000000 \<le> (of_nat (chunk32 v i) :: u64)" for i
    using chunk32_less [of v i] by (simp add: word_le_nat_alt unat_chunk32)
  have "unat (push_bit 32 ?H + ?L) = chunk32 v (2 * n + 1) * 2 ^ 32 + chunk32 v (2 * n)"
  proof -
    have "push_bit 32 ?H + ?L = of_nat (chunk32 v (2 * n + 1) * 2 ^ 32 + chunk32 v (2 * n))"
      by (simp add: push_bit_eq_mult)
    moreover have "chunk32 v (2 * n + 1) * 2 ^ 32 + chunk32 v (2 * n) < 2 ^ 64"
      using chunk32_less [of v "2 * n + 1"] chunk32_less [of v "2 * n"] by simp
    ultimately show ?thesis by (simp only: unat_of_nat_less)
  qed
  then have "v div 2 ^ (64 * Suc n) * 2 ^ 64 + unat (push_bit 32 ?H + ?L) = v div 2 ^ (64 * n)"
    using chunk_pair [of v n] by simp
  moreover have "toU64 fr (fea ! (2 * n + 1)) = ?H" "toU64 fr (fea ! (2 * n)) = ?L"
    using Suc.prems by (simp_all add: fea)
  ultimately show ?case
    using Suc.IH Suc.prems small by (cases "n = 0") (simp_all add: Let_def)
qed simp

lemma fea2scalar8_chunks:
  assumes "map (toU64 fr) (take 8 fea) = valueWords v" "v < 2 ^ 256"
  shows "fea2scalar8 fr fea x = (True, v)"
proof -
  have len: "8 \<le> length fea" using arg_cong [OF assms(1), of length] by simp
  have fea: "toU64 fr (fea ! i) = of_nat (chunk32 v i)" if "i < 8" for i
    using arg_cong [OF assms(1), of "\<lambda>l. l ! i"] that len by (simp add: valueWords_def)
  have small: "\<not> 0x100000000 \<le> (of_nat (chunk32 v i) :: u64)" for i
    using chunk32_less [of v i] by (simp add: word_le_nat_alt unat_chunk32)
  have "v div 2 ^ (64 * 4) = 0" using assms(2) by simp
  then show ?thesis
    using fea2scalar8_from_chunks [OF fea, of 4] small by (simp add: fea2scalar8_def fea)
qed

lemma valueWords_inj:
  assumes "valueWords v = valueWords w" "v < 2 ^ 256" "w < 2 ^ 256"
  shows "v = w"
proof -
  let ?f = "scalar2fea8 gl_word v"
  have "map (toU64 gl_word) (take 8 ?f) = valueWords v"
    using map_toU64_scalar2fea8 [OF glw.goldilocks_axioms, of v] by simp
  moreover from this have "map (toU64 gl_word) (take 8 ?f) = valueWords w" using assms(1) by simp
  ultimately have "fea2scalar8 gl_word ?f 0 = (True, v)" "fea2scalar8 gl_word ?f 0 = (True, w)"
    using assms(2,3) by (blast intro: fea2scalar8_chunks)+
  then show ?thesis by simp
qed

end
