(* ===== verification/State_Manager.thy ===== *)
theory State_Manager
  imports Scalar
begin

text \<open>
  src/src/hashdb/state_manager.cpp and state_manager.hpp: the nodes and programs written by every
  transaction of a batch, kept per batch, block, transaction and persistence until the batch is
  flushed.  The object's \<open>unordered_map\<close>s from keys to nodes and programs are association lists with
  distinct keys (\<open>AList.update\<close> is \<open>m[key] = value\<close>); the map of batches is a map.  The order in
  which a map is enumerated is a parameter of \<open>flush\<close>.  The mutex makes every operation atomic;
  logs and time metrics are not modelled.
\<close>

section \<open>The state\<close>

record 'e TxSubState =
  ssOldStateRoot :: string
  ssNewStateRoot :: string
  ssPreviousSubState :: nat
  ssValid :: bool
  ssWriteNodes :: "(string \<times> 'e list) list"
  ssDeleteNodes :: "string list"

record 'e TxPersistenceState =
  tpOldStateRoot :: string
  tpNewStateRoot :: string
  tpCurrentSubState :: nat
  tpSubState :: "'e TxSubState list"
  tpWritePrograms :: "(string \<times> u8 list) list"

record 'e TxState =
  txPersistence :: "'e TxPersistenceState list"

record 'e BlockState =
  blOldStateRoot :: string
  blCurrentStateRoot :: string
  blCurrentTx :: nat
  blTxState :: "'e TxState list"

record 'e BatchState =
  btOldStateRoot :: string
  btCurrentStateRoot :: string
  btCurrentBlock :: nat
  btBlockState :: "'e BlockState list"
  btWriteNodes :: "(string \<times> 'e list) list"
  btWritePrograms :: "(string \<times> u8 list) list"

type_synonym 'e sm_state = "string \<Rightarrow> 'e BatchState option"

definition newSubState :: "string \<Rightarrow> nat \<Rightarrow> 'e TxSubState" where
  "newSubState oldRoot previous =
     \<lparr>ssOldStateRoot = oldRoot, ssNewStateRoot = [], ssPreviousSubState = previous, ssValid = False,
      ssWriteNodes = [], ssDeleteNodes = []\<rparr>"

definition newPersistence :: "'e TxPersistenceState" where
  "newPersistence = \<lparr>tpOldStateRoot = [], tpNewStateRoot = [], tpCurrentSubState = 0, tpSubState = [],
     tpWritePrograms = []\<rparr>"

definition newTx :: "'e TxState" where
  "newTx = \<lparr>txPersistence = replicate PERSISTENCE_SIZE newPersistence\<rparr>"

definition newBlock :: "'e BlockState" where
  "newBlock = \<lparr>blOldStateRoot = [], blCurrentStateRoot = [], blCurrentTx = 0, blTxState = []\<rparr>"

definition newBatch :: "'e BatchState" where
  "newBatch = \<lparr>btOldStateRoot = [], btCurrentStateRoot = [], btCurrentBlock = 0, btBlockState = [],
     btWriteNodes = [], btWritePrograms = []\<rparr>"

section \<open>Programs on a part of the state\<close>

definition zoomP :: "('s \<Rightarrow> 't) \<Rightarrow> ('t \<Rightarrow> 's \<Rightarrow> 's) \<Rightarrow> ('t, 'a) prog \<Rightarrow> ('s, 'a) prog" where
  "zoomP get put m s = (case m (get s) of (r, x) \<Rightarrow> (r, put x s))"

text \<open>An element of an array; reading or writing out of range is undefined.\<close>

definition atP :: "('s \<Rightarrow> 'x list) \<Rightarrow> ('x list \<Rightarrow> 's \<Rightarrow> 's) \<Rightarrow> nat \<Rightarrow> ('x, 'a) prog \<Rightarrow> ('s, 'a) prog" where
  "atP get put i m s =
     (if i < length (get s) then zoomP (\<lambda>s. get s ! i) (\<lambda>x s. put ((get s)[i := x]) s) m s
      else (Undef, s))"

definition atBlock :: "nat \<Rightarrow> ('e BlockState, 'a) prog \<Rightarrow> ('e BatchState, 'a) prog" where
  "atBlock = atP btBlockState (\<lambda>x b. b\<lparr>btBlockState := x\<rparr>)"

definition atTx :: "nat \<Rightarrow> ('e TxState, 'a) prog \<Rightarrow> ('e BlockState, 'a) prog" where
  "atTx = atP blTxState (\<lambda>x b. b\<lparr>blTxState := x\<rparr>)"

definition atPersistence :: "nat \<Rightarrow> ('e TxPersistenceState, 'a) prog \<Rightarrow> ('e TxState, 'a) prog" where
  "atPersistence = atP txPersistence (\<lambda>x b. b\<lparr>txPersistence := x\<rparr>)"

definition atSubState :: "nat \<Rightarrow> ('e TxSubState, 'a) prog \<Rightarrow> ('e TxPersistenceState, 'a) prog" where
  "atSubState = atP tpSubState (\<lambda>x b. b\<lparr>tpSubState := x\<rparr>)"

text \<open>The batch of an identifier, which exists or is created; the keys and roots in normal form.\<close>

definition atBatch :: "string \<Rightarrow> zkresult \<Rightarrow> ('e BatchState, 'a) prog \<Rightarrow> ('e sm_state, 'a) prog" where
  "atBatch batchUUID missing m s =
     (case s batchUUID of
        None \<Rightarrow> (Fail missing, s)
      | Some b \<Rightarrow> zoomP (\<lambda>_. b) (\<lambda>x s. s(batchUUID \<mapsto> x)) m s)"

definition createBatch :: "string \<Rightarrow> ('e sm_state, unit) prog" where
  "createBatch batchUUID = modifyP (\<lambda>s. if s batchUUID = None then s(batchUUID \<mapsto> newBatch) else s)"

definition normalKey :: "string \<Rightarrow> ('s, string) prog" where
  "normalKey key = bindP (liftP (NormalizeToNFormat key 64)) (\<lambda>k. retP (stringToLower k))"

lemma normalKey_keystr [simp]: "normalKey (keystr ws) = retP (keystr ws)"
  by (rule ext) (simp add: normalKey_def bindP_def liftP_def retP_def)

section \<open>State roots\<close>

definition isPersistent :: "nat \<Rightarrow> bool" where
  "isPersistent p \<longleftrightarrow> p = PERSISTENCE_DATABASE \<or> p = PERSISTENCE_CACHE"

text \<open>The root is recorded in the batch, the missing blocks are created.\<close>

definition batchRoot :: "nat \<Rightarrow> string \<Rightarrow> bool \<Rightarrow> nat \<Rightarrow> 'e BatchState \<Rightarrow> 'e BatchState" where
  "batchRoot block stateRoot isOld p b =
     (let b = (if btOldStateRoot b = [] \<and> isPersistent p \<and> isOld then b\<lparr>btOldStateRoot := stateRoot\<rparr> else b);
          b = b\<lparr>btCurrentStateRoot := stateRoot\<rparr>;
          n = length (btBlockState b)
      in if block \<ge> n
         then b\<lparr>btBlockState := btBlockState b @ replicate (block + 1 - n) newBlock, btCurrentBlock := block\<rparr>
         else b)"

definition blockRoot :: "string \<Rightarrow> bool \<Rightarrow> nat \<Rightarrow> 'e BlockState \<Rightarrow> 'e BlockState" where
  "blockRoot stateRoot isOld p bl =
     (let bl = (if blOldStateRoot bl = [] \<and> isPersistent p \<and> isOld then bl\<lparr>blOldStateRoot := stateRoot\<rparr> else bl)
      in if isPersistent p \<and> \<not> isOld then bl\<lparr>blCurrentStateRoot := stateRoot\<rparr> else bl)"

definition createTxs :: "nat \<Rightarrow> bool \<Rightarrow> ('e BlockState, unit) prog" where
  "createTxs tx isOld bl =
     (let n = length (blTxState bl)
      in if tx \<ge> n
         then if \<not> isOld then (Fail ZKR_STATE_MANAGER, bl)
              else (Ret (), bl\<lparr>blTxState := blTxState bl @ replicate (tx - n + 1) newTx, blCurrentTx := tx\<rparr>)
         else (Ret (), bl))"

text \<open>An old state root opens a new sub-state, a new state root closes the current one.\<close>

definition openSubState :: "string \<Rightarrow> ('e TxPersistenceState, unit) prog" where
  "openSubState stateRoot q =
     (let n = length (tpSubState q);
          push = (\<lambda>q. q\<lparr>tpSubState := tpSubState q @ [newSubState stateRoot (tpCurrentSubState q)],
                         tpCurrentSubState := n\<rparr>)
      in if n = 0
         then if tpCurrentSubState q \<noteq> 0 then (Fail ZKR_STATE_MANAGER, q)
              else (Ret (), push (q\<lparr>tpOldStateRoot := stateRoot\<rparr>))
         else if tpCurrentSubState q \<ge> n then (Fail ZKR_STATE_MANAGER, q)
         else if ssNewStateRoot (tpSubState q ! (n - 1)) = [] then (Fail ZKR_STATE_MANAGER, q)
         else (Ret (), push q))"

definition closeSubState :: "string \<Rightarrow> ('e TxPersistenceState, unit) prog" where
  "closeSubState stateRoot q =
     (let c = tpCurrentSubState q; ss = tpSubState q ! c
      in if c \<ge> length (tpSubState q) then (Fail ZKR_STATE_MANAGER, q)
         else if length (ssNewStateRoot ss) \<noteq> 0 then (Fail ZKR_STATE_MANAGER, q)
         else (Ret (), q\<lparr>tpSubState := (tpSubState q)[c := ss\<lparr>ssNewStateRoot := stateRoot\<rparr>],
                         tpNewStateRoot := stateRoot\<rparr>))"

definition setStateRoot ::
  "string \<Rightarrow> nat \<Rightarrow> nat \<Rightarrow> string \<Rightarrow> bool \<Rightarrow> nat \<Rightarrow> ('e sm_state, unit) prog"
where
  "setStateRoot batchUUID block tx root isOld p =
     bindP (normalKey root) (\<lambda>stateRoot.
     bindP (guardP (p < PERSISTENCE_SIZE) ZKR_STATE_MANAGER) (\<lambda>_.
     bindP (if isOld then createBatch batchUUID else retP ()) (\<lambda>_.
     atBatch batchUUID ZKR_STATE_MANAGER
       (bindP (modifyP (batchRoot block stateRoot isOld p)) (\<lambda>_.
        atBlock block
          (bindP (modifyP (blockRoot stateRoot isOld p)) (\<lambda>_.
           bindP (createTxs tx isOld) (\<lambda>_.
           atTx tx (atPersistence p
             (if isOld then openSubState stateRoot else closeSubState stateRoot))))))))))"

definition setOldStateRoot :: "string \<Rightarrow> nat \<Rightarrow> nat \<Rightarrow> string \<Rightarrow> nat \<Rightarrow> ('e sm_state, unit) prog" where
  "setOldStateRoot batchUUID block tx root p = setStateRoot batchUUID block tx root True p"

definition setNewStateRoot :: "string \<Rightarrow> nat \<Rightarrow> nat \<Rightarrow> string \<Rightarrow> nat \<Rightarrow> ('e sm_state, unit) prog" where
  "setNewStateRoot batchUUID block tx root p = setStateRoot batchUUID block tx root False p"

section \<open>Nodes\<close>

text \<open>A write may come before the state roots of its transaction: the next one is created.\<close>

definition createTx :: "nat \<Rightarrow> string \<Rightarrow> nat \<Rightarrow> ('e BlockState, unit) prog" where
  "createTx tx currentRoot p bl =
     (if tx > length (blTxState bl) then (Fail ZKR_STATE_MANAGER, bl)
      else if tx = length (blTxState bl)
      then (Ret (), bl\<lparr>blTxState := blTxState bl @
              [newTx\<lparr>txPersistence := (txPersistence newTx)
                 [p := newPersistence\<lparr>tpOldStateRoot := currentRoot\<rparr>]\<rparr>]\<rparr>)
      else (Ret (), bl))"

definition addNode :: "string \<Rightarrow> string \<Rightarrow> 'e list \<Rightarrow> ('e TxPersistenceState, unit) prog" where
  "addNode currentRoot key v =
     bindP (modifyP (\<lambda>q. if tpSubState q = []
                         then q\<lparr>tpSubState := [newSubState currentRoot 0], tpCurrentSubState := 0\<rparr> else q)) (\<lambda>_ q.
     atSubState (tpCurrentSubState q)
       (modifyP (\<lambda>ss. ss\<lparr>ssWriteNodes := AList.update key v (ssWriteNodes ss)\<rparr>)) q)"

definition writeNode ::
  "string \<Rightarrow> nat \<Rightarrow> nat \<Rightarrow> string \<Rightarrow> 'e list \<Rightarrow> nat \<Rightarrow> ('e sm_state, unit) prog" where
  "writeNode batchUUID block tx key0 v p =
     bindP (normalKey key0) (\<lambda>key.
     bindP (guardP (p < PERSISTENCE_SIZE) ZKR_STATE_MANAGER) (\<lambda>_.
     atBatch batchUUID ZKR_STATE_MANAGER
       (bindP getP (\<lambda>b.
        bindP (guardP (block < length (btBlockState b)) ZKR_STATE_MANAGER) (\<lambda>_.
        bindP (atBlock block (bindP (createTx tx (btCurrentStateRoot b) p) (\<lambda>_.
                 atTx tx (atPersistence p (addNode (btCurrentStateRoot b) key v))))) (\<lambda>_.
        modifyP (\<lambda>b. b\<lparr>btWriteNodes := AList.update key v (btWriteNodes b)\<rparr>)))))))"

definition noteDelete :: "string \<Rightarrow> ('e TxPersistenceState, unit) prog" where
  "noteDelete key =
     bindP getP (\<lambda>q.
     bindP (guardP (tpSubState q \<noteq> []) ZKR_STATE_MANAGER) (\<lambda>_.
     bindP (guardP (tpCurrentSubState q < length (tpSubState q)) ZKR_STATE_MANAGER) (\<lambda>_.
     atSubState (tpCurrentSubState q)
       (modifyP (\<lambda>ss. ss\<lparr>ssDeleteNodes := ssDeleteNodes ss @ [key]\<rparr>)))))"

definition deleteNode :: "string \<Rightarrow> nat \<Rightarrow> nat \<Rightarrow> string \<Rightarrow> nat \<Rightarrow> ('e sm_state, unit) prog" where
  "deleteNode batchUUID block tx key0 p =
     bindP (normalKey key0) (\<lambda>key.
     bindP (guardP (p < PERSISTENCE_SIZE) ZKR_STATE_MANAGER) (\<lambda>_.
     atBatch batchUUID ZKR_STATE_MANAGER
       (bindP getP (\<lambda>b.
        bindP (guardP (block < length (btBlockState b)) ZKR_STATE_MANAGER) (\<lambda>_.
        atBlock block
          (bindP getP (\<lambda>bl.
           bindP (guardP (tx < length (blTxState bl)) ZKR_STATE_MANAGER) (\<lambda>_.
           atTx tx (atPersistence p (noteDelete key))))))))))"

definition readNode :: "string \<Rightarrow> string \<Rightarrow> ('e sm_state, 'e list) prog" where
  "readNode batchUUID key0 =
     bindP (normalKey key0) (\<lambda>key s.
       case s batchUUID of
         None \<Rightarrow> (Fail ZKR_DB_KEY_NOT_FOUND, s)
       | Some b \<Rightarrow> (case map_of (btWriteNodes b) key of
                      Some v \<Rightarrow> (Ret v, s) | None \<Rightarrow> (Fail ZKR_DB_KEY_NOT_FOUND, s)))"

section \<open>Programs (contract bytecode)\<close>

definition writeProgram ::
  "string \<Rightarrow> nat \<Rightarrow> nat \<Rightarrow> string \<Rightarrow> u8 list \<Rightarrow> nat \<Rightarrow> ('e sm_state, unit) prog" where
  "writeProgram batchUUID block tx key0 v p =
     bindP (normalKey key0) (\<lambda>key.
     bindP (guardP (p < PERSISTENCE_SIZE) ZKR_STATE_MANAGER) (\<lambda>_.
     bindP (createBatch batchUUID) (\<lambda>_.
     atBatch batchUUID ZKR_STATE_MANAGER
       (bindP getP (\<lambda>b.
        if block = 0 \<and> btBlockState b = [] then retP ()
        else bindP (guardP (block < length (btBlockState b)) ZKR_STATE_MANAGER) (\<lambda>_.
             bindP (atBlock block (bindP (createTx tx (btCurrentStateRoot b) p) (\<lambda>_.
                      atTx tx (atPersistence p
                        (modifyP (\<lambda>q. q\<lparr>tpWritePrograms := AList.update key v (tpWritePrograms q)\<rparr>)))))) (\<lambda>_.
             modifyP (\<lambda>b. b\<lparr>btWritePrograms := AList.update key v (btWritePrograms b)\<rparr>))))))))"

definition readProgram :: "string \<Rightarrow> string \<Rightarrow> ('e sm_state, u8 list) prog" where
  "readProgram batchUUID key0 =
     bindP (normalKey key0) (\<lambda>key s.
       case s batchUUID of
         None \<Rightarrow> (Fail ZKR_DB_KEY_NOT_FOUND, s)
       | Some b \<Rightarrow> (case map_of (btWritePrograms b) key of
                      Some v \<Rightarrow> (Ret v, s) | None \<Rightarrow> (Fail ZKR_DB_KEY_NOT_FOUND, s)))"

section \<open>Ends of transactions, blocks and batches\<close>

text \<open>The index of the first element that satisfies a test.\<close>

fun findIndex :: "('x \<Rightarrow> bool) \<Rightarrow> 'x list \<Rightarrow> nat \<Rightarrow> nat option" where
  "findIndex f [] i = None"
| "findIndex f (x # xs) i = (if f x then Some i else findIndex f xs (i + 1))"

definition finishTxPersistence :: "bool \<Rightarrow> string \<Rightarrow> 'e TxPersistenceState \<Rightarrow> 'e TxPersistenceState" where
  "finishTxPersistence purge stateRoot q =
     (if tpNewStateRoot q = stateRoot then q
      else if tpOldStateRoot q = stateRoot
      then if purge then q\<lparr>tpSubState := [], tpNewStateRoot := stateRoot, tpCurrentSubState := 0\<rparr> else q
      else if purge
      then (case findIndex (\<lambda>ss. ssOldStateRoot ss = stateRoot) (tpSubState q) 0 of
              None \<Rightarrow> q
            | Some i \<Rightarrow> q\<lparr>tpNewStateRoot := stateRoot, tpCurrentSubState := i - 1,
                          tpSubState := take i (tpSubState q)\<rparr>)
      else q)"

text \<open>A batch without state is not an error: there was no activity on the tree.\<close>

definition onBatch :: "string \<Rightarrow> ('e BatchState, unit) prog \<Rightarrow> ('e sm_state, unit) prog" where
  "onBatch batchUUID m s =
     (if s batchUUID = None then (Ret (), s) else atBatch batchUUID ZKR_STATE_MANAGER m s)"

definition finishTx :: "bool \<Rightarrow> string \<Rightarrow> string \<Rightarrow> nat \<Rightarrow> ('e sm_state, unit) prog" where
  "finishTx purge batchUUID root p =
     bindP (normalKey root) (\<lambda>stateRoot.
     bindP (guardP (p < PERSISTENCE_SIZE) ZKR_STATE_MANAGER) (\<lambda>_.
     onBatch batchUUID
       (bindP getP (\<lambda>b.
        bindP (guardP (btCurrentBlock b < length (btBlockState b)) ZKR_STATE_MANAGER) (\<lambda>_.
        atBlock (btCurrentBlock b)
          (bindP getP (\<lambda>bl.
           bindP (guardP (blCurrentTx bl < length (blTxState bl)) ZKR_STATE_MANAGER) (\<lambda>_.
           atTx (blCurrentTx bl) (atPersistence p
             (modifyP (finishTxPersistence purge stateRoot)))))))))))"

definition startBlock :: "string \<Rightarrow> string \<Rightarrow> nat \<Rightarrow> ('e sm_state, unit) prog" where
  "startBlock batchUUID root p =
     bindP (normalKey root) (\<lambda>stateRoot.
     bindP (guardP (p < PERSISTENCE_SIZE) ZKR_STATE_MANAGER) (\<lambda>_.
     bindP (createBatch batchUUID) (\<lambda>_.
     atBatch batchUUID ZKR_STATE_MANAGER
       (bindP getP (\<lambda>b.
        bindP (guardP (btBlockState b = [] \<or> btCurrentBlock b < length (btBlockState b)) ZKR_STATE_MANAGER) (\<lambda>_.
        modifyP (\<lambda>b. b\<lparr>btBlockState := btBlockState b @ [newBlock\<lparr>blOldStateRoot := stateRoot\<rparr>],
                       btCurrentBlock := length (btBlockState b)\<rparr>)))))))"

definition finishBlockState :: "bool \<Rightarrow> string \<Rightarrow> nat \<Rightarrow> 'e BlockState \<Rightarrow> 'e BlockState" where
  "finishBlockState purge stateRoot p bl =
     (let q = txPersistence (blTxState bl ! blCurrentTx bl) ! p
      in if tpNewStateRoot q = stateRoot then bl\<lparr>blCurrentStateRoot := stateRoot\<rparr>
         else if tpOldStateRoot q = stateRoot
         then if purge then bl\<lparr>blTxState := [], blCurrentStateRoot := stateRoot, blCurrentTx := 0\<rparr> else bl
         else if purge
         then (case findIndex (\<lambda>t. tpOldStateRoot (txPersistence t ! p) = stateRoot) (blTxState bl) 0 of
                 None \<Rightarrow> bl
               | Some i \<Rightarrow> bl\<lparr>blCurrentStateRoot := stateRoot, blCurrentTx := i - 1,
                              blTxState := take i (blTxState bl)\<rparr>)
         else bl)"

definition finishBlock :: "bool \<Rightarrow> string \<Rightarrow> string \<Rightarrow> nat \<Rightarrow> ('e sm_state, unit) prog" where
  "finishBlock purge batchUUID root p =
     bindP (normalKey root) (\<lambda>stateRoot.
     bindP (guardP (p < PERSISTENCE_SIZE) ZKR_STATE_MANAGER) (\<lambda>_.
     onBatch batchUUID
       (bindP getP (\<lambda>b.
        bindP (guardP (btCurrentBlock b < length (btBlockState b)) ZKR_STATE_MANAGER) (\<lambda>_.
        atBlock (btCurrentBlock b)
          (bindP getP (\<lambda>bl.
           bindP (guardP (blCurrentTx bl < length (blTxState bl)) ZKR_STATE_MANAGER) (\<lambda>_.
           modifyP (finishBlockState purge stateRoot p)))))))))"

definition cancelBatch :: "string \<Rightarrow> ('e sm_state, unit) prog" where
  "cancelBatch batchUUID s =
     (if s batchUUID = None then (Fail ZKR_STATE_MANAGER, s) else (Ret (), s(batchUUID := None)))"

end
