(* ===== verification/State_Flush.thy ===== *)
theory State_Flush
  imports State_Manager
begin

text \<open>
  \<open>StateManager::flush\<close> (src/src/hashdb/state_manager.cpp): the sub-states of every transaction that
  lead from its old state root to its new one are marked valid, their nodes and programs are
  written to the database, and the batch is forgotten.  The database it calls is a parameter
  (\<open>flush_db\<close>) with a state of its own, and so is the order in which an \<open>unordered_map\<close> is enumerated.
\<close>

section \<open>What flush calls\<close>

record ('d, 'e) flush_db =
  fd_purge :: bool
  fd_fr :: "'e gl"
  fd_order :: "string list \<Rightarrow> string list"
  fd_setProgram :: "string \<Rightarrow> u8 list \<Rightarrow> bool \<Rightarrow> ('d, unit) prog"
  fd_write :: "string \<Rightarrow> 'e list \<Rightarrow> bool \<Rightarrow> ('d, unit) prog"
  fd_updateStateRoot :: "'e list \<Rightarrow> ('d, unit) prog"
  fd_flush :: "('d, (nat \<times> nat) option) prog"

text \<open>
  Two ways to fail: an inconsistency leaves the batch where it is (\<open>Fail\<close>), an error of the
  database also erases it (\<open>Inl\<close>).
\<close>

definition dbE :: "('d, 'a) prog \<Rightarrow> ('b \<times> 'd, zkresult + 'a) prog" where
  "dbE m s = (case m (snd s) of
                (Ret x, d) \<Rightarrow> (Ret (Inr x), fst s, d)
              | (Fail e, d) \<Rightarrow> (Ret (Inl e), fst s, d)
              | (Exit, d) \<Rightarrow> (Exit, fst s, d)
              | (Undef, d) \<Rightarrow> (Undef, fst s, d))"

definition bindE :: "('s, zkresult + 'a) prog \<Rightarrow> ('a \<Rightarrow> ('s, zkresult + 'b) prog) \<Rightarrow> ('s, zkresult + 'b) prog" where
  "bindE m f = bindP m (\<lambda>r. case r of Inl e \<Rightarrow> retP (Inl e) | Inr x \<Rightarrow> f x)"

primrec foldE :: "('i \<Rightarrow> 'a \<Rightarrow> ('s, zkresult + 'a) prog) \<Rightarrow> 'i list \<Rightarrow> 'a \<Rightarrow> ('s, zkresult + 'a) prog" where
  "foldE f [] x = retP (Inr x)"
| "foldE f (i # is) x = bindE (f i x) (foldE f is)"

definition enumerated :: "('d, 'e) flush_db \<Rightarrow> (string \<times> 'v) list \<Rightarrow> (string \<times> 'v) list" where
  "enumerated B m = map (\<lambda>k. (k, the (map_of m k))) (fd_order B (map fst m))"

section \<open>Purging the batch\<close>

definition purgeBatch :: "bool \<Rightarrow> bool \<Rightarrow> string \<Rightarrow> 'e BatchState \<Rightarrow> 'e BatchState" where
  "purgeBatch purge emptyRoot newStateRoot b =
     (let b = (if purge \<and> newStateRoot = btOldStateRoot b
               then b\<lparr>btBlockState := [], btCurrentBlock := 0, btCurrentStateRoot := btOldStateRoot b\<rparr> else b)
      in if purge \<and> \<not> emptyRoot \<and> btBlockState b \<noteq> [] \<and> btOldStateRoot b \<noteq> []
         then b\<lparr>btBlockState := filter (\<lambda>bl. blCurrentStateRoot bl \<noteq> blOldStateRoot bl) (btBlockState b)\<rparr>
         else b)"

section \<open>Finding the valid sub-states\<close>

text \<open>
  The loop follows \<open>previousSubState\<close>, or searches for an earlier sub-state, until it reaches the old
  root of the transaction.  It need not end on an arbitrary state: \<open>None\<close> is not ending.
\<close>

definition markValid :: "nat \<Rightarrow> 'e TxPersistenceState \<Rightarrow> 'e TxPersistenceState" where
  "markValid c q = q\<lparr>tpSubState := (tpSubState q)[c := (tpSubState q ! c)\<lparr>ssValid := True\<rparr>]\<rparr>"

partial_function (option) findValid ::
  "nat \<Rightarrow> 'e TxPersistenceState \<Rightarrow> (unit outcome \<times> 'e TxPersistenceState) option"
where
  "findValid c q0 =
     (if c \<ge> length (tpSubState q0) then Some (Undef, q0)
      else (let q = markValid c q0; subs = tpSubState q; old = ssOldStateRoot (subs ! c)
            in if c = 0
               then Some (if old \<noteq> tpOldStateRoot q then Fail ZKR_STATE_MANAGER else Ret (), q)
               else (let previous = ssPreviousSubState (subs ! c)
                     in if previous \<ge> length subs then Some (Undef, q)
                        else if ssNewStateRoot (subs ! previous) = old then findValid previous q
                        else (case findIndex (\<lambda>ss. ssNewStateRoot ss = old) (take c subs) 0 of
                                Some i \<Rightarrow> findValid i q
                              | None \<Rightarrow> Some (if old = tpOldStateRoot q then Ret ()
                                             else Fail ZKR_STATE_MANAGER, q)))))"

text \<open>A loop without end or effect is undefined behaviour.\<close>

definition validSubStates :: "('e TxPersistenceState, unit) prog" where
  "validSubStates q =
     (case findValid (tpCurrentSubState q) q of Some r \<Rightarrow> r | None \<Rightarrow> (Undef, q))"

section \<open>Collecting the nodes to write\<close>

definition skipSubState :: "bool \<Rightarrow> 'e TxSubState \<Rightarrow> bool" where
  "skipSubState purge ss \<longleftrightarrow> purge \<and> (\<not> ssValid ss \<or> ssOldStateRoot ss = ssNewStateRoot ss)"

definition loadSubState :: "bool \<Rightarrow> 'e TxSubState \<Rightarrow> (string \<times> 'e list) list \<Rightarrow> (string \<times> 'e list) list" where
  "loadSubState purge ss nodes =
     (let nodes = insertNew nodes (ssWriteNodes ss)
      in if purge then foldl (\<lambda>m k. AList.delete k m) nodes (ssDeleteNodes ss) else nodes)"

definition loadSubStates ::
  "bool \<Rightarrow> 'e TxPersistenceState \<Rightarrow> (string \<times> 'e list) list \<times> string \<Rightarrow> (string \<times> 'e list) list \<times> string"
where
  "loadSubStates purge q acc =
     foldl (\<lambda>(nodes, lastRoot) ss. if skipSubState purge ss then (nodes, lastRoot)
                               else (loadSubState purge ss nodes, tpNewStateRoot q)) acc (tpSubState q)"

section \<open>Flushing a transaction, a block, a batch\<close>

definition flushPersistence ::
  "('d, 'e) flush_db \<Rightarrow> nat \<Rightarrow> (string \<times> 'e list) list \<times> string
     \<Rightarrow> ('e TxPersistenceState \<times> 'd, zkresult + (string \<times> 'e list) list \<times> string) prog"
where
  "flushPersistence B p acc =
     bindP getP (\<lambda>(q, _).
       if p = PERSISTENCE_TEMPORARY \<or> p = PERSISTENCE_TEMPORARY_HASH
       then bindP (modifyP (\<lambda>(q, d). (q\<lparr>tpSubState := [], tpCurrentSubState := 0\<rparr>, d))) (\<lambda>_. retP (Inr acc))
       else if tpSubState q = [] then retP (Inr acc)
       else bindP (definedP (tpCurrentSubState q < length (tpSubState q))) (\<lambda>_.
            bindP (guardP (ssNewStateRoot (tpSubState q ! tpCurrentSubState q) = tpNewStateRoot q) ZKR_STATE_MANAGER) (\<lambda>_.
            bindP (zoomP fst (\<lambda>q (_, d). (q, d)) validSubStates) (\<lambda>_.
            bindP getP (\<lambda>(q, _).
            bindE (foldE (\<lambda>(k, v) _. dbE (fd_setProgram B k v (p = PERSISTENCE_DATABASE)))
                     (enumerated B (tpWritePrograms q)) ()) (\<lambda>_.
            retP (Inr (loadSubStates (fd_purge B) q acc))))))))"

text \<open>A part of the state next to the database.\<close>

definition atPairP ::
  "('s \<Rightarrow> 'x list) \<Rightarrow> ('x list \<Rightarrow> 's \<Rightarrow> 's) \<Rightarrow> nat \<Rightarrow> ('x \<times> 'd, 'a) prog \<Rightarrow> ('s \<times> 'd, 'a) prog" where
  "atPairP get put i m s =
     (if i < length (get (fst s))
      then (case m (get (fst s) ! i, snd s) of (r, x, d) \<Rightarrow> (r, put ((get (fst s))[i := x]) (fst s), d))
      else (Undef, s))"

definition flushTx ::
  "('d, 'e) flush_db \<Rightarrow> (string \<times> 'e list) list \<times> string
     \<Rightarrow> ('e TxState \<times> 'd, zkresult + (string \<times> 'e list) list \<times> string) prog"
where
  "flushTx B =
     foldE (\<lambda>p acc. atPairP txPersistence (\<lambda>x t. t\<lparr>txPersistence := x\<rparr>) p (flushPersistence B p acc))
       [0..<PERSISTENCE_SIZE]"

definition flushBlock ::
  "('d, 'e) flush_db \<Rightarrow> bool \<Rightarrow> string \<Rightarrow> ('e BlockState \<times> 'd, zkresult + string) prog"
where
  "flushBlock B persistent lastRoot =
     bindP getP (\<lambda>(bl, _).
     bindE (foldE (\<lambda>tx acc. atPairP blTxState (\<lambda>x bl. bl\<lparr>blTxState := x\<rparr>) tx (flushTx B acc))
              [0..<length (blTxState bl)] ([], lastRoot)) (\<lambda>(nodes, lastRoot).
     bindE (foldE (\<lambda>(k, v) _. dbE (fd_write B k v persistent)) (enumerated B nodes) ()) (\<lambda>_.
     retP (Inr lastRoot))))"

definition flushBatch ::
  "('d, 'e) flush_db \<Rightarrow> bool \<Rightarrow> ('e BatchState \<times> 'd, zkresult + (nat \<times> nat) option) prog"
where
  "flushBatch B persistent =
     bindP getP (\<lambda>(b, _).
     bindE (foldE (\<lambda>i lastRoot. atPairP btBlockState (\<lambda>x b. b\<lparr>btBlockState := x\<rparr>) i (flushBlock B persistent lastRoot))
              [0..<length (btBlockState b)] []) (\<lambda>lastRoot.
     bindE (if lastRoot = [] then retP (Inr ())
            else bindP (liftP (string2fea4 (fd_fr B) lastRoot)) (\<lambda>root. dbE (fd_updateStateRoot B root))) (\<lambda>_.
     dbE (fd_flush B))))"

definition flush ::
  "bool \<Rightarrow> ('d, 'e) flush_db \<Rightarrow> string \<Rightarrow> string \<Rightarrow> nat \<Rightarrow> ('e sm_state \<times> 'd, (nat \<times> nat) option) prog"
where
  "flush purge B batchUUID root p =
     bindP (liftP (NormalizeToNFormat root 64)) (\<lambda>newStateRoot (s, d).
       case s batchUUID of
         None \<Rightarrow> (case fd_flush B d of (r, d) \<Rightarrow> (r, s, d))
       | Some b \<Rightarrow>
           (case flushBatch B (p = PERSISTENCE_DATABASE)
                   (purgeBatch purge (root = []) newStateRoot b, d) of
              (Ret (Inr ids), _, d) \<Rightarrow> (Ret ids, s(batchUUID := None), d)
            | (Ret (Inl e), _, d) \<Rightarrow> (Fail e, s(batchUUID := None), d)
            | (Fail e, b, d) \<Rightarrow> (Fail e, s(batchUUID \<mapsto> b), d)
            | (Exit, b, d) \<Rightarrow> (Exit, s(batchUUID \<mapsto> b), d)
            | (Undef, b, d) \<Rightarrow> (Undef, s(batchUUID \<mapsto> b), d)))"

end
