(* ===== verification/State_Inv.thy ===== *)
theory State_Inv
  imports State_Flush
begin

text \<open>
  The state manager as a state machine: its calls (\<open>sm_call\<close>), the states they reach, and the
  invariant of those states.  Rules of the form \<open>keeps P m\<close> (running \<open>m\<close> from a state with \<open>P\<close> ends in
  one with \<open>P\<close>, whatever the outcome) reduce each operation to the updates it makes.
\<close>

section \<open>Programs that keep a predicate\<close>

definition keeps :: "('s \<Rightarrow> bool) \<Rightarrow> ('s, 'a) prog \<Rightarrow> bool" where
  "keeps P m \<longleftrightarrow> (\<forall>s. P s \<longrightarrow> P (snd (m s)))"

named_theorems keeps_rules \<open>introduction rules for keeps\<close>

lemma keepsI: "(\<And>s. P s \<Longrightarrow> P (snd (m s))) \<Longrightarrow> keeps P m"
  by (simp add: keeps_def)

lemma keepsD: "keeps P m \<Longrightarrow> P s \<Longrightarrow> P (snd (m s))"
  by (simp add: keeps_def)

lemma keeps_bindP [keeps_rules]:
  assumes "keeps P m" and "\<And>x. keeps P (f x)"
  shows "keeps P (bindP m f)"
proof (rule keepsI)
  fix s
  assume "P s"
  show "P (snd (bindP m f s))"
  proof (cases "m s")
    case (Pair r t)
    then have "P t" using keepsD [OF assms(1) \<open>P s\<close>] by simp
    then show ?thesis using Pair keepsD [OF assms(2)] by (cases r) (simp_all add: bindP_def)
  qed
qed

lemma keeps_same [keeps_rules]:
  "keeps P (retP x)" "keeps P (failP e)" "keeps P (liftP y)" "keeps P (guardP b e)"
  "keeps P (definedP b)" "keeps P getP" "keeps P (normalKey k)"
  by (auto simp: keeps_def retP_def failP_def liftP_def guardP_def definedP_def getP_def normalKey_def
      bindP_def split: outcome.splits)

lemma keeps_modifyP [keeps_rules]: "(\<And>s. P s \<Longrightarrow> P (f s)) \<Longrightarrow> keeps P (modifyP f)"
  by (auto simp: keeps_def modifyP_def)

lemma keeps_if [keeps_rules]: "keeps P m \<Longrightarrow> keeps P n \<Longrightarrow> keeps P (if b then m else n)"
  by simp

lemma keeps_atP:
  assumes "\<And>s i. P s \<Longrightarrow> i < length (get s) \<Longrightarrow> Q i (get s ! i)" and "\<And>i. keeps (Q i) m"
    and "\<And>s i x. P s \<Longrightarrow> i < length (get s) \<Longrightarrow> Q i x \<Longrightarrow> P (put ((get s)[i := x]) s)"
  shows "keeps P (atP get put i m)"
proof (rule keepsI)
  fix s
  assume "P s"
  show "P (snd (atP get put i m s))"
  proof (cases "i < length (get s)")
    case True
    then have "Q i (snd (m (get s ! i)))" using assms(1) [OF \<open>P s\<close>] keepsD [OF assms(2)] by blast
    then show ?thesis
      using assms(3) [OF \<open>P s\<close>] True by (simp add: atP_def zoomP_def split_beta)
  qed (simp add: atP_def \<open>P s\<close>)
qed

section \<open>The invariant\<close>

definition wfSubState :: "nat \<Rightarrow> 'e TxSubState \<Rightarrow> bool" where
  "wfSubState i ss \<longleftrightarrow> (i > 0 \<longrightarrow> ssPreviousSubState ss < i) \<and> distinct (map fst (ssWriteNodes ss))"

definition wfPersistence :: "'e TxPersistenceState \<Rightarrow> bool" where
  "wfPersistence q \<longleftrightarrow>
     (if tpSubState q = [] then tpCurrentSubState q = 0 else tpCurrentSubState q < length (tpSubState q)) \<and>
     (\<forall>i < length (tpSubState q). wfSubState i (tpSubState q ! i)) \<and> distinct (map fst (tpWritePrograms q))"

definition wfTx :: "'e TxState \<Rightarrow> bool" where
  "wfTx t \<longleftrightarrow> length (txPersistence t) = PERSISTENCE_SIZE \<and> (\<forall>q \<in> set (txPersistence t). wfPersistence q)"

definition wfBlock :: "'e BlockState \<Rightarrow> bool" where
  "wfBlock bl \<longleftrightarrow> (\<forall>t \<in> set (blTxState bl). wfTx t)"

definition wfBatch :: "'e BatchState \<Rightarrow> bool" where
  "wfBatch b \<longleftrightarrow> (\<forall>bl \<in> set (btBlockState b). wfBlock bl) \<and> distinct (map fst (btWriteNodes b)) \<and>
     distinct (map fst (btWritePrograms b))"

definition wfState :: "'e sm_state \<Rightarrow> bool" where
  "wfState s \<longleftrightarrow> (\<forall>b \<in> ran s. wfBatch b)"

lemma wf_new [simp]: "wfPersistence newPersistence" "wfTx newTx" "wfBlock newBlock" "wfBatch newBatch"
  by (simp_all add: wfPersistence_def newPersistence_def wfTx_def newTx_def wfBlock_def newBlock_def
      wfBatch_def newBatch_def)

lemma wfSubState_new: "(i > 0 \<Longrightarrow> k < i) \<Longrightarrow> wfSubState i (newSubState r k)"
  by (simp add: wfSubState_def newSubState_def)

lemma all_update: "\<forall>x \<in> set xs. P x \<Longrightarrow> P y \<Longrightarrow> x \<in> set (xs[i := y]) \<Longrightarrow> P x"
  using set_update_subset_insert [of xs i y] by auto

lemma keeps_atBlock [keeps_rules]: "keeps wfBlock m \<Longrightarrow> keeps wfBatch (atBlock i m)"
  unfolding atBlock_def
  by (rule keeps_atP [where Q = "\<lambda>_. wfBlock"]) (auto simp: wfBatch_def intro: all_update)

lemma keeps_atTx [keeps_rules]: "keeps wfTx m \<Longrightarrow> keeps wfBlock (atTx i m)"
  unfolding atTx_def
  by (rule keeps_atP [where Q = "\<lambda>_. wfTx"]) (auto simp: wfBlock_def intro: all_update)

lemma keeps_atPersistence [keeps_rules]: "keeps wfPersistence m \<Longrightarrow> keeps wfTx (atPersistence i m)"
  unfolding atPersistence_def
  by (rule keeps_atP [where Q = "\<lambda>_. wfPersistence"]) (auto simp: wfTx_def intro: all_update)

lemma keeps_atSubState [keeps_rules]:
  "(\<And>i. keeps (wfSubState i) m) \<Longrightarrow> keeps wfPersistence (atSubState i m)"
  unfolding atSubState_def
  by (rule keeps_atP [where Q = wfSubState]) (auto simp: wfPersistence_def nth_list_update)

lemma wfState_upd: "wfState s \<Longrightarrow> wfBatch b \<Longrightarrow> wfState (s(u \<mapsto> b))"
  by (auto simp: wfState_def ran_def)

lemma wfState_del: "wfState s \<Longrightarrow> wfState (s(u := None))"
  by (auto simp: wfState_def ran_def)

lemma wfState_batch: "wfState s \<Longrightarrow> s u = Some b \<Longrightarrow> wfBatch b"
  by (auto simp: wfState_def ran_def)

lemma keeps_atBatch [keeps_rules]: "keeps wfBatch m \<Longrightarrow> keeps wfState (atBatch u e m)"
  by (rule keepsI) (auto simp: atBatch_def zoomP_def split_beta intro!: wfState_upd keepsD [of wfBatch m]
      dest: wfState_batch split: option.splits)

lemma keeps_onBatch [keeps_rules]: "keeps wfBatch m \<Longrightarrow> keeps wfState (onBatch u m)"
  using keeps_atBatch [of m u] unfolding keeps_def onBatch_def by (auto split: if_splits)

lemma keeps_createBatch [keeps_rules]: "keeps wfState (createBatch u)"
  unfolding createBatch_def by (rule keeps_modifyP) (auto intro: wfState_upd)

section \<open>Every operation keeps it\<close>

lemma wfBatch_fields [simp]:
  "wfBatch (b\<lparr>btOldStateRoot := r\<rparr>) = wfBatch b" "wfBatch (b\<lparr>btCurrentStateRoot := r\<rparr>) = wfBatch b"
  "wfBatch (b\<lparr>btCurrentBlock := n\<rparr>) = wfBatch b"
  by (simp_all add: wfBatch_def)

lemma wfBlock_fields [simp]:
  "wfBlock (b\<lparr>blOldStateRoot := r\<rparr>) = wfBlock b" "wfBlock (b\<lparr>blCurrentStateRoot := r\<rparr>) = wfBlock b"
  "wfBlock (b\<lparr>blCurrentTx := n\<rparr>) = wfBlock b"
  by (simp_all add: wfBlock_def)

lemma wfBatch_blocks [simp]:
  "wfBatch (b\<lparr>btBlockState := bs\<rparr>) \<longleftrightarrow> (\<forall>bl \<in> set bs. wfBlock bl) \<and>
     distinct (map fst (btWriteNodes b)) \<and> distinct (map fst (btWritePrograms b))"
  by (simp add: wfBatch_def)

lemma batchRoot_wf: "wfBatch b \<Longrightarrow> wfBatch (batchRoot block r isOld p b)"
  by (auto simp: batchRoot_def Let_def) (auto simp: wfBatch_def)

lemma blockRoot_wf: "wfBlock b \<Longrightarrow> wfBlock (blockRoot r isOld p b)"
  by (auto simp: blockRoot_def Let_def)

lemma keeps_createTxs [keeps_rules]: "keeps wfBlock (createTxs tx isOld)"
  by (rule keepsI) (auto simp: createTxs_def Let_def wfBlock_def)

lemma keeps_openSubState [keeps_rules]: "keeps wfPersistence (openSubState r)"
  by (rule keepsI)
    (auto simp: openSubState_def Let_def wfPersistence_def nth_append less_Suc_eq intro!: wfSubState_new)

lemma keeps_closeSubState [keeps_rules]: "keeps wfPersistence (closeSubState r)"
  by (rule keepsI)
    (auto simp: closeSubState_def Let_def wfPersistence_def wfSubState_def nth_list_update)

lemma keeps_setStateRoot: "keeps wfState (setStateRoot u block tx r isOld p)"
  unfolding setStateRoot_def by (intro keeps_rules batchRoot_wf blockRoot_wf)

lemma keeps_createTx [keeps_rules]: "keeps wfBlock (createTx tx r p)"
proof (rule keepsI)
  fix bl :: "'a BlockState"
  have "wfPersistence (newPersistence\<lparr>tpOldStateRoot := r\<rparr> :: 'a TxPersistenceState)"
    by (simp add: wfPersistence_def newPersistence_def)
  then have "wfTx (newTx\<lparr>txPersistence := (txPersistence newTx)[p := newPersistence\<lparr>tpOldStateRoot := r\<rparr>]\<rparr> :: 'a TxState)"
    using wf_new(2) by (auto simp: wfTx_def dest!: set_update_subset_insert [THEN subsetD])
  moreover assume "wfBlock bl"
  ultimately show "wfBlock (snd (createTx tx r p bl))" by (auto simp: createTx_def wfBlock_def)
qed

lemma wfSubState_add: "wfSubState i ss \<Longrightarrow> wfSubState i (ss\<lparr>ssWriteNodes := AList.update k v (ssWriteNodes ss)\<rparr>)"
  by (simp add: wfSubState_def distinct_update)

lemma wfPersistence_first: "wfPersistence q \<Longrightarrow> tpSubState q = [] \<Longrightarrow>
    wfPersistence (q\<lparr>tpSubState := [newSubState r 0], tpCurrentSubState := 0\<rparr>)"
  by (simp add: wfPersistence_def wfSubState_new)

lemma keeps_addNode [keeps_rules]: "keeps wfPersistence (addNode r k v)"
proof -
  let ?m = "modifyP (\<lambda>ss. ss\<lparr>ssWriteNodes := AList.update k v (ssWriteNodes ss)\<rparr>)"
  have "keeps wfPersistence (atSubState i ?m)" for i
    by (intro keeps_rules wfSubState_add)
  then have "keeps wfPersistence (\<lambda>q. atSubState (tpCurrentSubState q) ?m q)"
    unfolding keeps_def by blast
  then show ?thesis
    unfolding addNode_def by (intro keeps_bindP keeps_modifyP) (auto intro: wfPersistence_first)
qed

lemma wfBatch_nodes: "wfBatch b \<Longrightarrow> wfBatch (b\<lparr>btWriteNodes := AList.update k v (btWriteNodes b)\<rparr>)"
  by (simp add: wfBatch_def distinct_update)

lemma keeps_writeNode: "keeps wfState (writeNode u block tx k v p)"
  unfolding writeNode_def by (intro keeps_rules wfBatch_nodes)

lemma keeps_noteDelete [keeps_rules]: "keeps wfPersistence (noteDelete k)"
  unfolding noteDelete_def by (intro keeps_rules) (simp add: wfSubState_def)

lemma keeps_deleteNode: "keeps wfState (deleteNode u block tx k p)"
  unfolding deleteNode_def by (intro keeps_rules)

lemma keeps_writeProgram: "keeps wfState (writeProgram u block tx k v p)"
  unfolding writeProgram_def
  by (intro keeps_rules) (auto simp: wfPersistence_def wfBatch_def distinct_update)

lemma keeps_readNode: "keeps wfState (readNode u k)"
  unfolding readNode_def by (intro keeps_bindP keeps_same keepsI) (auto split: option.splits)

lemma findIndex_Some: "findIndex f xs n = Some i \<Longrightarrow> n \<le> i \<and> i < n + length xs \<and> f (xs ! (i - n))"
proof (induction f xs n rule: findIndex.induct)
  case (2 f x xs i')
  then show ?case by (cases "f x") (auto simp: nth_Cons')
qed simp

lemma findIndex_None: "findIndex f xs n = None \<longleftrightarrow> (\<forall>x \<in> set xs. \<not> f x)"
  by (induction f xs n rule: findIndex.induct) auto

lemma finishTxPersistence_wf: "wfPersistence q \<Longrightarrow> wfPersistence (finishTxPersistence purge r q)"
  by (auto simp: finishTxPersistence_def wfPersistence_def split: option.splits dest!: findIndex_Some)

lemma keeps_finishTx: "keeps wfState (finishTx purge u r p)"
  unfolding finishTx_def by (intro keeps_rules finishTxPersistence_wf)

lemma startBlock_wf: "wfBatch b \<Longrightarrow>
  wfBatch (b\<lparr>btBlockState := btBlockState b @ [newBlock\<lparr>blOldStateRoot := r\<rparr>], btCurrentBlock := n\<rparr>)"
  by (auto simp: wfBatch_def)

lemma keeps_startBlock: "keeps wfState (startBlock u r p)"
  unfolding startBlock_def by (intro keeps_rules startBlock_wf)

lemma finishBlockState_wf: "wfBlock b \<Longrightarrow> wfBlock (finishBlockState purge r p b)"
  by (auto simp: finishBlockState_def wfBlock_def Let_def split: option.splits dest: in_set_takeD)

lemma keeps_finishBlock: "keeps wfState (finishBlock purge u r p)"
  unfolding finishBlock_def by (intro keeps_rules finishBlockState_wf)

lemma keeps_cancelBatch: "keeps wfState (cancelBatch u)"
  by (rule keepsI) (auto simp: cancelBatch_def wfState_del)

section \<open>The search for valid sub-states\<close>

definition unmarked :: "'e TxSubState \<Rightarrow> 'e TxSubState" where
  "unmarked ss = ss\<lparr>ssValid := False\<rparr>"

text \<open>Two states of a transaction that differ in the marks only.\<close>

definition sameData :: "'e TxPersistenceState \<Rightarrow> 'e TxPersistenceState \<Rightarrow> bool" where
  "sameData q q' \<longleftrightarrow>
     q'\<lparr>tpSubState := map unmarked (tpSubState q')\<rparr> = q\<lparr>tpSubState := map unmarked (tpSubState q)\<rparr>"

text \<open>Sub-states, from the last one down, each starting at the root where the next one ended.\<close>

fun chain :: "'e TxPersistenceState \<Rightarrow> nat list \<Rightarrow> bool" where
  "chain q [] = False"
| "chain q [c] = (c < length (tpSubState q) \<and> ssOldStateRoot (tpSubState q ! c) = tpOldStateRoot q)"
| "chain q (c # d # cs) = (d < c \<and> c < length (tpSubState q) \<and>
     ssNewStateRoot (tpSubState q ! d) = ssOldStateRoot (tpSubState q ! c) \<and> chain q (d # cs))"

definition validSet :: "'e TxPersistenceState \<Rightarrow> nat set" where
  "validSet q = {i. i < length (tpSubState q) \<and> ssValid (tpSubState q ! i)}"

lemma sameData_refl [simp]: "sameData q q"
  by (simp add: sameData_def)

lemma sameData_trans: "sameData p q \<Longrightarrow> sameData q r \<Longrightarrow> sameData p r"
  by (simp add: sameData_def)

lemma sameData_fields:
  assumes "sameData q q'"
  shows "tpOldStateRoot q' = tpOldStateRoot q" "tpNewStateRoot q' = tpNewStateRoot q"
    "tpCurrentSubState q' = tpCurrentSubState q" "tpWritePrograms q' = tpWritePrograms q"
    "length (tpSubState q') = length (tpSubState q)"
    "map unmarked (tpSubState q') = map unmarked (tpSubState q)"
proof -
  show s: "map unmarked (tpSubState q') = map unmarked (tpSubState q)"
    using arg_cong [OF assms [unfolded sameData_def], of tpSubState] by simp
  show "length (tpSubState q') = length (tpSubState q)" using arg_cong [OF s, of length] by simp
  show "tpOldStateRoot q' = tpOldStateRoot q"
    using arg_cong [OF assms [unfolded sameData_def], of tpOldStateRoot] by simp
  show "tpNewStateRoot q' = tpNewStateRoot q"
    using arg_cong [OF assms [unfolded sameData_def], of tpNewStateRoot] by simp
  show "tpCurrentSubState q' = tpCurrentSubState q"
    using arg_cong [OF assms [unfolded sameData_def], of tpCurrentSubState] by simp
  show "tpWritePrograms q' = tpWritePrograms q"
    using arg_cong [OF assms [unfolded sameData_def], of tpWritePrograms] by simp
qed

lemma sameData_sub:
  assumes "sameData q q'" "i < length (tpSubState q)"
  shows "ssOldStateRoot (tpSubState q' ! i) = ssOldStateRoot (tpSubState q ! i)"
    "ssNewStateRoot (tpSubState q' ! i) = ssNewStateRoot (tpSubState q ! i)"
    "ssPreviousSubState (tpSubState q' ! i) = ssPreviousSubState (tpSubState q ! i)"
    "ssWriteNodes (tpSubState q' ! i) = ssWriteNodes (tpSubState q ! i)"
    "ssDeleteNodes (tpSubState q' ! i) = ssDeleteNodes (tpSubState q ! i)"
proof -
  have "unmarked (tpSubState q' ! i) = unmarked (tpSubState q ! i)"
    using arg_cong [OF sameData_fields(6) [OF assms(1)], of "\<lambda>l. l ! i"] sameData_fields(5) [OF assms(1)] assms(2)
    by simp
  note e = arg_cong [OF this]
  show "ssOldStateRoot (tpSubState q' ! i) = ssOldStateRoot (tpSubState q ! i)"
    using e [of ssOldStateRoot] by (simp add: unmarked_def)
  show "ssNewStateRoot (tpSubState q' ! i) = ssNewStateRoot (tpSubState q ! i)"
    using e [of ssNewStateRoot] by (simp add: unmarked_def)
  show "ssPreviousSubState (tpSubState q' ! i) = ssPreviousSubState (tpSubState q ! i)"
    using e [of ssPreviousSubState] by (simp add: unmarked_def)
  show "ssWriteNodes (tpSubState q' ! i) = ssWriteNodes (tpSubState q ! i)"
    using e [of ssWriteNodes] by (simp add: unmarked_def)
  show "ssDeleteNodes (tpSubState q' ! i) = ssDeleteNodes (tpSubState q ! i)"
    using e [of ssDeleteNodes] by (simp add: unmarked_def)
qed

lemma sameData_wf: "sameData q q' \<Longrightarrow> wfPersistence q' \<longleftrightarrow> wfPersistence q"
  using sameData_fields [of q q'] sameData_sub [of q q']
  unfolding wfPersistence_def wfSubState_def by (cases "tpSubState q = []") auto

lemma sameData_chain: "sameData q q' \<Longrightarrow> chain q' cs \<longleftrightarrow> chain q cs"
  by (induction q cs rule: chain.induct) (auto simp: sameData_fields sameData_sub)

lemma sameData_markValid: "c < length (tpSubState q) \<Longrightarrow> sameData q (markValid c q)"
  by (auto simp: sameData_def markValid_def unmarked_def map_update list_update_same_conv
      intro!: nth_equalityI simp: nth_list_update)

lemma validSet_markValid: "c < length (tpSubState q) \<Longrightarrow> validSet (markValid c q) = insert c (validSet q)"
  by (auto simp: validSet_def markValid_def nth_list_update)

lemma findValid_run:
  assumes "\<forall>i < length (tpSubState q). wfSubState i (tpSubState q ! i)" "c < length (tpSubState q)"
  shows "\<exists>r q'. findValid c q = Some (r, q') \<and> sameData q q' \<and>
    (r = Fail ZKR_STATE_MANAGER \<or>
     r = Ret () \<and> (\<exists>cs. chain q (c # cs) \<and> validSet q' = validSet q \<union> set (c # cs)))"
  using assms
proof (induction c arbitrary: q rule: less_induct)
  case (less c)
  let ?q = "markValid c q" and ?n = "length (tpSubState q)"
  note same = sameData_markValid [OF less.prems(2)]
  note len = sameData_fields(5) [OF same] and sub = sameData_sub [OF same]
  have wf: "\<forall>i < length (tpSubState ?q). wfSubState i (tpSubState ?q ! i)"
    using less.prems(1) sub len by (simp add: wfSubState_def)
  let ?old = "ssOldStateRoot (tpSubState q ! c)"
  have down: "\<exists>r q'. findValid d ?q = Some (r, q') \<and> sameData q q' \<and>
      (r = Fail ZKR_STATE_MANAGER \<or>
       r = Ret () \<and> (\<exists>cs. chain q (c # cs) \<and> validSet q' = validSet q \<union> set (c # cs)))"
    if d: "d < c" "ssNewStateRoot (tpSubState q ! d) = ?old" for d
  proof -
    obtain r q' where r: "findValid d ?q = Some (r, q')" "sameData ?q q'"
      "r = Fail ZKR_STATE_MANAGER \<or>
       r = Ret () \<and> (\<exists>cs. chain ?q (d # cs) \<and> validSet q' = validSet ?q \<union> set (d # cs))"
      using less.IH [OF d(1) wf] d(1) less.prems(2) len by auto
    from r(3) show ?thesis
    proof
      assume "r = Ret () \<and> (\<exists>cs. chain ?q (d # cs) \<and> validSet q' = validSet ?q \<union> set (d # cs))"
      then obtain cs where "r = Ret ()" "chain q (d # cs)"
          "validSet q' = insert c (validSet q) \<union> set (d # cs)"
        using sameData_chain [OF same] validSet_markValid [OF less.prems(2)] by auto
      then have "r = Ret () \<and> chain q (c # d # cs) \<and> validSet q' = validSet q \<union> set (c # d # cs)"
        using d less.prems(2) by auto
      then show ?thesis using r(1) sameData_trans [OF same r(2)] by blast
    qed (use r(1) sameData_trans [OF same r(2)] in blast)
  qed
  have stop: "\<exists>cs. chain q (c # cs) \<and> validSet ?q = validSet q \<union> set (c # cs)" if "?old = tpOldStateRoot q"
    using that less.prems(2) validSet_markValid [OF less.prems(2)] by (intro exI [of _ "[]"]) simp
  show ?case
  proof (cases "c = 0")
    case True
    have "findValid c q = Some (if ?old = tpOldStateRoot q then Ret () else Fail ZKR_STATE_MANAGER, ?q)"
      using True less.prems(2) sub(1) [of c] sameData_fields(1) [OF same]
      by (subst findValid.simps) (simp add: Let_def)
    then show ?thesis using stop same by (cases "?old = tpOldStateRoot q") simp_all
  next
    case False
    let ?p = "ssPreviousSubState (tpSubState q ! c)"
    have p: "?p < c" using less.prems False by (simp add: wfSubState_def)
    show ?thesis
    proof (cases "ssNewStateRoot (tpSubState q ! ?p) = ?old")
      case True
      then have "findValid c q = findValid ?p ?q"
        using False p less.prems(2) sub len by (subst findValid.simps) (simp add: Let_def)
      then show ?thesis using down [OF p True] by simp
    next
      case no: False
      let ?f = "\<lambda>ss. ssNewStateRoot ss = ?old"
      have e: "findValid c q = (case findIndex ?f (take c (tpSubState ?q)) 0 of
          Some i \<Rightarrow> findValid i ?q
        | None \<Rightarrow> Some (if ?old = tpOldStateRoot q then Ret () else Fail ZKR_STATE_MANAGER, ?q))"
        using False p no less.prems(2) sub len sameData_fields(1) [OF same]
        by (subst findValid.simps) (simp add: Let_def)
      show ?thesis
      proof (cases "findIndex ?f (take c (tpSubState ?q)) 0")
        case None
        then show ?thesis using stop e same by (cases "?old = tpOldStateRoot q") simp_all
      next
        case (Some i)
        then have "i < c" "ssNewStateRoot (tpSubState q ! i) = ?old"
          using findIndex_Some [OF Some] sub(2) [of i] less.prems(2) len by auto
        then show ?thesis using down e Some by simp
      qed
    qed
  qed
qed

lemma validSubStates_run:
  assumes "wfPersistence q" "tpSubState q \<noteq> []"
  shows "\<exists>r q'. validSubStates q = (r, q') \<and> sameData q q' \<and>
    (r = Fail ZKR_STATE_MANAGER \<or>
     r = Ret () \<and> (\<exists>cs. chain q (tpCurrentSubState q # cs) \<and>
                        validSet q' = validSet q \<union> set (tpCurrentSubState q # cs)))"
  using findValid_run [of q "tpCurrentSubState q"] assms
  by (auto simp: validSubStates_def wfPersistence_def)

section \<open>flush keeps the invariant\<close>

definition onFst :: "('a \<Rightarrow> bool) \<Rightarrow> 'a \<times> 'd \<Rightarrow> bool" where
  "onFst P s = P (fst s)"

lemma keeps_bindE [keeps_rules]: "keeps P m \<Longrightarrow> (\<And>x. keeps P (f x)) \<Longrightarrow> keeps P (bindE m f)"
  unfolding bindE_def by (intro keeps_bindP) (auto split: sum.splits intro: keeps_same)

lemma keeps_foldE [keeps_rules]: "(\<And>i a. keeps P (f i a)) \<Longrightarrow> keeps P (foldE f xs x)"
  by (induction xs arbitrary: x) (auto intro!: keeps_rules)

lemma keeps_dbE [keeps_rules]: "keeps (onFst P) (dbE m)"
  by (rule keepsI) (auto simp: dbE_def onFst_def split: prod.splits outcome.splits)

lemma keeps_atPairP:
  fixes m :: "('b \<times> 'd, 'c) prog"
  assumes "\<And>s x. P s \<Longrightarrow> x \<in> set (get s) \<Longrightarrow> Q x" and "keeps (onFst Q) m"
    and "\<And>s i x. P s \<Longrightarrow> Q x \<Longrightarrow> P (put ((get s)[i := x]) s)"
  shows "keeps (onFst P) (atPairP get put i m)"
proof (rule keepsI)
  fix s :: "'a \<times> 'd"
  assume P: "onFst P s"
  show "onFst P (snd (atPairP get put i m s))"
  proof (cases "i < length (get (fst s))")
    case True
    then have "Q (get (fst s) ! i)" using assms(1) P by (simp add: onFst_def)
    then have "Q (fst (snd (m (get (fst s) ! i, snd s))))"
      using keepsD [OF assms(2), of "(get (fst s) ! i, snd s)"] by (simp add: onFst_def)
    then show ?thesis using assms(3) P True by (simp add: atPairP_def onFst_def split_beta)
  qed (simp add: atPairP_def P)
qed

lemma keeps_validSubStates: "keeps wfPersistence (validSubStates)"
proof (rule keepsI)
  fix q :: "'a TxPersistenceState"
  assume q: "wfPersistence q"
  show "wfPersistence (snd (validSubStates q))"
  proof (cases "tpSubState q = []")
    case True
    then show ?thesis using q by (simp add: validSubStates_def findValid.simps)
  next
    case False
    then show ?thesis using validSubStates_run [OF q] q sameData_wf by (metis snd_conv)
  qed
qed

lemma keeps_zoom_fst [keeps_rules]:
  "keeps P m \<Longrightarrow> keeps (onFst P) (zoomP fst (\<lambda>q (_, d). (q, d)) m)"
  by (simp add: keeps_def zoomP_def onFst_def split_beta)

lemma keeps_pair [keeps_rules]:
  "(\<And>x y. keeps P (f x y)) \<Longrightarrow> keeps P (case s of (x, y) \<Rightarrow> f x y)"
  "(\<And>x y. keeps P (g x y a)) \<Longrightarrow> keeps P ((case s of (x, y) \<Rightarrow> g x y) a)"
  by (cases s; simp)+

lemma keeps_flushPersistence: "keeps (onFst wfPersistence) (flushPersistence B p acc)"
  unfolding flushPersistence_def
  by (intro keeps_rules keeps_validSubStates) (auto simp: onFst_def wfPersistence_def)

lemma keeps_flushTx: "keeps (onFst wfTx) (flushTx B acc)"
  unfolding flushTx_def
  by (intro keeps_foldE keeps_atPairP [where Q = wfPersistence] keeps_flushPersistence)
    (auto simp: wfTx_def intro: all_update)

lemma keeps_flushBlock: "keeps (onFst wfBlock) (flushBlock B persistent r)"
proof -
  have "keeps (onFst wfBlock) (atPairP blTxState (\<lambda>x bl. bl\<lparr>blTxState := x\<rparr>) i (flushTx B acc))" for i acc
    by (intro keeps_atPairP [where Q = wfTx] keeps_flushTx) (auto simp: wfBlock_def intro: all_update)
  then show ?thesis unfolding flushBlock_def by (intro keeps_rules)
qed

lemma keeps_flushBatch: "keeps (onFst wfBatch) (flushBatch B persistent)"
proof -
  have "keeps (onFst wfBatch)
      (atPairP btBlockState (\<lambda>x b. b\<lparr>btBlockState := x\<rparr>) i (flushBlock B persistent r))" for i r
    by (intro keeps_atPairP [where Q = wfBlock] keeps_flushBlock) (auto simp: wfBatch_def intro: all_update)
  then show ?thesis unfolding flushBatch_def by (intro keeps_rules)
qed

lemma purgeBatch_wf: "wfBatch b \<Longrightarrow> wfBatch (purgeBatch purge e r b)"
  by (auto simp: purgeBatch_def Let_def) (auto simp: wfBatch_def)

lemma keeps_flush: "keeps (onFst wfState) (flush purge B u r p)"
proof -
  let ?f = "\<lambda>n (s, d). case s u of
         None \<Rightarrow> (case fd_flush B d of (r, d) \<Rightarrow> (r, s, d))
       | Some b \<Rightarrow> (case flushBatch B (p = PERSISTENCE_DATABASE) (purgeBatch purge (r = []) n b, d) of
              (Ret (Inr ids), _, d) \<Rightarrow> (Ret ids, s(u := None), d)
            | (Ret (Inl e), _, d) \<Rightarrow> (Fail e, s(u := None), d)
            | (Fail e, b, d) \<Rightarrow> (Fail e, s(u \<mapsto> b), d)
            | (Exit, b, d) \<Rightarrow> (Exit, s(u \<mapsto> b), d)
            | (Undef, b, d) \<Rightarrow> (Undef, s(u \<mapsto> b), d))"
  have "keeps (onFst wfState) (?f n)" for n
  proof (rule keepsI)
    fix x :: "'a sm_state \<times> 'b"
    obtain s d where x: "x = (s, d)" by (cases x)
    assume "onFst wfState x"
    then have s: "wfState s" by (simp add: x onFst_def)
    show "onFst wfState (snd (?f n x))"
    proof (cases "s u")
      case None
      then show ?thesis using s by (simp add: x onFst_def split: prod.splits)
    next
      case (Some b)
      obtain y b' d' where y: "flushBatch B (p = PERSISTENCE_DATABASE) (purgeBatch purge (r = []) n b, d) = (y, b', d')"
        by (metis prod_cases3)
      have "wfBatch b'"
        using keepsD [OF keeps_flushBatch, of "(purgeBatch purge (r = []) n b, d)" B "p = PERSISTENCE_DATABASE"]
          purgeBatch_wf [OF wfState_batch [OF s Some]] y by (simp add: onFst_def)
      then have "wfState (s(u \<mapsto> b'))" "wfState (s(u := None))"
        using s wfState_upd wfState_del by blast+
      then show ?thesis using y by (simp add: x Some onFst_def split: outcome.splits sum.splits)
    qed
  qed
  then show ?thesis unfolding flush_def by (intro keeps_bindP keeps_same)
qed

section \<open>The calls of the state manager and the states they reach\<close>

datatype 'e sm_call =
    SetOldStateRoot string nat nat string nat
  | SetNewStateRoot string nat nat string nat
  | WriteNode string nat nat string "'e list" nat
  | DeleteNode string nat nat string nat
  | WriteProgram string nat nat string "u8 list" nat
  | FinishTx string string nat
  | StartBlock string string nat
  | FinishBlock string string nat
  | Flush string string nat
  | CancelBatch string

definition liftFst :: "('a, 'r) prog \<Rightarrow> ('a \<times> 'd, 'r) prog" where
  "liftFst = zoomP fst (\<lambda>q (_, d). (q, d))"

fun runCall :: "bool \<Rightarrow> ('d, 'e) flush_db \<Rightarrow> 'e sm_call \<Rightarrow> ('e sm_state \<times> 'd, unit) prog" where
  "runCall purge B (SetOldStateRoot u block tx r p) = liftFst (setOldStateRoot u block tx r p)"
| "runCall purge B (SetNewStateRoot u block tx r p) = liftFst (setNewStateRoot u block tx r p)"
| "runCall purge B (WriteNode u block tx k v p) = liftFst (writeNode u block tx k v p)"
| "runCall purge B (DeleteNode u block tx k p) = liftFst (deleteNode u block tx k p)"
| "runCall purge B (WriteProgram u block tx k v p) = liftFst (writeProgram u block tx k v p)"
| "runCall purge B (FinishTx u r p) = liftFst (finishTx purge u r p)"
| "runCall purge B (StartBlock u r p) = liftFst (startBlock u r p)"
| "runCall purge B (FinishBlock u r p) = liftFst (finishBlock purge u r p)"
| "runCall purge B (Flush u r p) = bindP (flush purge B u r p) (\<lambda>_. retP ())"
| "runCall purge B (CancelBatch u) = liftFst (cancelBatch u)"

inductive sm_reachable :: "bool \<Rightarrow> ('d, 'e) flush_db \<Rightarrow> 'e sm_state \<times> 'd \<Rightarrow> bool" for purge B where
  init: "sm_reachable purge B (\<lambda>_. None, d)"
| call: "sm_reachable purge B s \<Longrightarrow> runCall purge B c s = (r, t) \<Longrightarrow> sm_reachable purge B t"

lemma keeps_runCall: "keeps (onFst wfState) (runCall purge B c)"
  by (cases c)
    (auto simp: liftFst_def setOldStateRoot_def setNewStateRoot_def
      intro!: keeps_zoom_fst keeps_setStateRoot keeps_writeNode keeps_deleteNode keeps_writeProgram
        keeps_finishTx keeps_startBlock keeps_finishBlock keeps_cancelBatch keeps_bindP keeps_flush
        keeps_same)

lemma reachable_wf: "sm_reachable purge B s \<Longrightarrow> wfState (fst s)"
proof (induction rule: sm_reachable.induct)
  case (call s c r t)
  then show ?case using keepsD [OF keeps_runCall, of s purge B c] by (simp add: onFst_def)
qed (simp add: wfState_def)

end
