(* ===== verification/State_Nodes.thy ===== *)
theory State_Nodes
  imports State_Inv
begin

text \<open>
  What the state manager promises its callers: the nodes that can be read in a batch
  (\<open>smNodes\<close>, the abstract state) and the effect of every call on them, and the protocol of an update
  of the tree: \<open>setOldStateRoot\<close> opens a sub-state (\<open>openAt\<close>), nodes are written to and deleted from it,
  \<open>setNewStateRoot\<close> closes it (\<open>readyAt\<close>).
\<close>

section \<open>The nodes that can be read\<close>

definition smNodes :: "'e sm_state \<Rightarrow> string \<Rightarrow> string \<Rightarrow> 'e list option" where
  "smNodes s u = (case s u of None \<Rightarrow> Map.empty | Some b \<Rightarrow> map_of (btWriteNodes b))"

definition normalised :: "string \<Rightarrow> string" where
  "normalised k = (let s = Remove0xIfPresent k in stringToLower (replicate (64 - length s) CHR ''0'' @ s))"

lemma normalKey_run: "normalKey k s = (if length (Remove0xIfPresent k) \<le> 64 then (Ret (normalised k), s) else (Exit, s))"
  by (auto simp: normalKey_def NormalizeToNFormat_def PrependZeros_def normalised_def Let_def bindP_def
      liftP_def retP_def)

lemma normalised_keystr [simp]: "normalised (keystr ws) = keystr ws"
  using normalKey_run [of "keystr ws" "()"] fun_cong [OF normalKey_keystr [of ws], of "()"] by (auto simp: retP_def split: if_splits)

lemma readNode_run:
  assumes "length (Remove0xIfPresent k) \<le> 64"
  shows "readNode u k s = (case smNodes s u (normalised k) of
           Some v \<Rightarrow> (Ret v, s) | None \<Rightarrow> (Fail ZKR_DB_KEY_NOT_FOUND, s))"
  using assms by (simp add: readNode_def bindP_def normalKey_run smNodes_def split: option.splits)

text \<open>Programs inside a block never change what can be read.\<close>

lemma keeps_atBlock_nodes: "keeps (\<lambda>b. btWriteNodes b = n) (atBlock i m)"
  unfolding atBlock_def by (rule keeps_atP [where Q = "\<lambda>_ _. True"]) (auto simp: keeps_def)

lemma smNodes_upd: "smNodes (s(u \<mapsto> b)) = (smNodes s)(u := map_of (btWriteNodes b))"
  by (rule ext) (simp add: smNodes_def)

lemma smNodes_del: "smNodes (s(u := None)) = (smNodes s)(u := Map.empty)"
  by (rule ext) (simp add: smNodes_def)

lemma keeps_atBatch_nodes:
  assumes "\<And>n. keeps (\<lambda>b. btWriteNodes b = n) m"
  shows "keeps (\<lambda>s. smNodes s = N) (atBatch u e m)"
proof (rule keepsI)
  fix s :: "'a sm_state"
  assume N: "smNodes s = N"
  show "smNodes (snd (atBatch u e m s)) = N"
  proof (cases "s u")
    case (Some b)
    have "btWriteNodes (snd (m b)) = btWriteNodes b"
      using keepsD [OF assms [of "btWriteNodes b"], of b] by simp
    moreover have "map_of (btWriteNodes b) = N u" using N Some by (auto simp: smNodes_def)
    ultimately show ?thesis
      using N by (simp add: atBatch_def Some zoomP_def split_beta smNodes_upd)
  qed (simp add: atBatch_def N)
qed

lemma keeps_onBatch_nodes:
  "(\<And>n. keeps (\<lambda>b. btWriteNodes b = n) m) \<Longrightarrow> keeps (\<lambda>s. smNodes s = N) (onBatch u m)"
  using keeps_atBatch_nodes [of m N u ZKR_STATE_MANAGER] by (auto simp: keeps_def onBatch_def)

lemma keeps_createBatch_nodes: "keeps (\<lambda>s. smNodes s = N) (createBatch u)"
  unfolding createBatch_def
  by (rule keeps_modifyP) (auto simp: smNodes_upd newBatch_def smNodes_def intro!: ext split: option.splits)

lemmas keeps_nodes = keeps_same keeps_bindP keeps_if keeps_modifyP keeps_atBlock_nodes
  keeps_atBatch_nodes keeps_onBatch_nodes keeps_createBatch_nodes

lemma batchRoot_nodes [simp]: "btWriteNodes (batchRoot block r isOld p b) = btWriteNodes b"
  by (simp add: batchRoot_def Let_def)

lemma setStateRoot_nodes: "keeps (\<lambda>s. smNodes s = N) (setStateRoot u block tx r isOld p)"
  unfolding setStateRoot_def by (intro keeps_nodes; simp)

lemma deleteNode_nodes: "keeps (\<lambda>s. smNodes s = N) (deleteNode u block tx k p)"
  unfolding deleteNode_def by (intro keeps_nodes; simp)

lemma writeProgram_nodes: "keeps (\<lambda>s. smNodes s = N) (writeProgram u block tx k v p)"
  unfolding writeProgram_def by (intro keeps_nodes; simp)

lemma finishTx_nodes: "keeps (\<lambda>s. smNodes s = N) (finishTx purge u r p)"
  unfolding finishTx_def by (intro keeps_nodes; simp)

lemma startBlock_nodes: "keeps (\<lambda>s. smNodes s = N) (startBlock u r p)"
  unfolding startBlock_def by (intro keeps_nodes; simp)

lemma finishBlock_nodes: "keeps (\<lambda>s. smNodes s = N) (finishBlock purge u r p)"
  unfolding finishBlock_def by (intro keeps_nodes; simp)

section \<open>Writing a node\<close>

lemma atP_run: "i < length (get s) \<Longrightarrow>
    atP get put i m s = (fst (m (get s ! i)), put ((get s)[i := snd (m (get s ! i))]) s)"
  by (simp add: atP_def zoomP_def split_beta)

lemma writeNode_nodes:
  assumes "writeNode u block tx k v p s = (r, t)"
  shows "smNodes t = (if r = Ret () then (smNodes s)(u := (smNodes s u)(normalised k \<mapsto> v)) else smNodes s)"
proof (cases "length (Remove0xIfPresent k) \<le> 64 \<and> p < PERSISTENCE_SIZE \<and> s u \<noteq> None")
  case True
  then obtain b where b: "s u = Some b" by auto
  let ?m = "atBlock block (bindP (createTx tx (btCurrentStateRoot b) p) (\<lambda>_.
              atTx tx (atPersistence p (addNode (btCurrentStateRoot b) (normalised k) v))))"
  have n: "btWriteNodes (snd (?m b)) = btWriteNodes b"
    using keepsD [OF keeps_atBlock_nodes [of "btWriteNodes b"], of b] by simp
  have e: "writeNode u block tx k v p s = atBatch u ZKR_STATE_MANAGER
      (bindP getP (\<lambda>b.
        bindP (guardP (block < length (btBlockState b)) ZKR_STATE_MANAGER) (\<lambda>_.
        bindP (atBlock block (bindP (createTx tx (btCurrentStateRoot b) p) (\<lambda>_.
                 atTx tx (atPersistence p (addNode (btCurrentStateRoot b) (normalised k) v))))) (\<lambda>_.
        modifyP (\<lambda>b. b\<lparr>btWriteNodes := AList.update (normalised k) v (btWriteNodes b)\<rparr>))))) s"
    using True by (simp add: writeNode_def bindP_def normalKey_run guardP_def retP_def)
  have s: "smNodes (s(u \<mapsto> b')) = smNodes s" if "btWriteNodes b' = btWriteNodes b" for b'
    using b that by (auto simp: smNodes_upd smNodes_def)
  show ?thesis
  proof (cases "block < length (btBlockState b)")
    case False
    then have "r = Fail ZKR_STATE_MANAGER" "t = s(u \<mapsto> b)"
      using assms unfolding e by (simp_all add: atBatch_def b zoomP_def bindP_def getP_def guardP_def failP_def)
    then show ?thesis using s by simp
  next
    case block: True
    obtain x b' where x: "?m b = (x, b')" by fastforce
    then have n': "btWriteNodes b' = btWriteNodes b" using n by simp
    have "(r, t) = (x, s(u \<mapsto> (if x = Ret () then b'\<lparr>btWriteNodes := AList.update (normalised k) v (btWriteNodes b')\<rparr> else b')))"
      using assms x block unfolding e
      by (cases x) (auto simp: atBatch_def b zoomP_def bindP_def getP_def guardP_def retP_def modifyP_def)
    then show ?thesis
      using n' s [OF n'] b by (auto simp: smNodes_upd update_conv' smNodes_def)
  qed
next
  case False
  then have "r \<noteq> Ret () \<and> t = s"
    using assms
    by (auto simp: writeNode_def bindP_def normalKey_run guardP_def retP_def failP_def atBatch_def
        split: if_splits)
  then show ?thesis by simp
qed

section \<open>The abstract state manager\<close>

fun specCall :: "'e sm_call \<Rightarrow> (string \<Rightarrow> string \<Rightarrow> 'e list option) \<Rightarrow> string \<Rightarrow> string \<Rightarrow> 'e list option" where
  "specCall (WriteNode u block tx k v p) N = N(u := (N u)(normalised k \<mapsto> v))"
| "specCall (Flush u r p) N = N(u := Map.empty)"
| "specCall (CancelBatch u) N = N(u := Map.empty)"
| "specCall _ N = N"

lemma liftFst_run: "liftFst m (s, d) = (fst (m s), snd (m s), d)"
  by (simp add: liftFst_def zoomP_def split_beta)

lemma flush_nodes:
  assumes "flush purge B u r p (s, d) = (Ret ids, t, d')"
  shows "smNodes t = (smNodes s)(u := Map.empty)"
proof (cases "s u")
  case None
  then have "(smNodes s) u = Map.empty" by (simp add: smNodes_def)
  then show ?thesis
    using assms None by (auto simp: flush_def bindP_def liftP_def split: outcome.splits prod.splits)
next
  case (Some b)
  then have "t = s(u := None)"
    using assms by (auto simp: flush_def bindP_def liftP_def split: outcome.splits prod.splits sum.splits)
  then show ?thesis by (simp add: smNodes_del)
qed

lemma runCall_nodes:
  assumes "runCall purge B c (s, d) = (Ret (), t, d')"
  shows "smNodes t = specCall c (smNodes s)"
proof (cases c)
  case (SetOldStateRoot u block tx r p)
  then show ?thesis using assms keepsD [OF setStateRoot_nodes, of s "smNodes s"]
    by (auto simp: liftFst_run setOldStateRoot_def)
next
  case (SetNewStateRoot u block tx r p)
  then show ?thesis using assms keepsD [OF setStateRoot_nodes, of s "smNodes s"]
    by (auto simp: liftFst_run setNewStateRoot_def)
next
  case (WriteNode u block tx k v p)
  then show ?thesis using assms writeNode_nodes [of u block tx k v p s "Ret ()" t]
    by (simp add: liftFst_run prod_eq_iff)
next
  case (DeleteNode u block tx k p)
  then show ?thesis using assms keepsD [OF deleteNode_nodes, of s "smNodes s"] by (auto simp: liftFst_run)
next
  case (WriteProgram u block tx k v p)
  then show ?thesis using assms keepsD [OF writeProgram_nodes, of s "smNodes s"] by (auto simp: liftFst_run)
next
  case (FinishTx u r p)
  then show ?thesis using assms keepsD [OF finishTx_nodes, of s "smNodes s"] by (auto simp: liftFst_run)
next
  case (StartBlock u r p)
  then show ?thesis using assms keepsD [OF startBlock_nodes, of s "smNodes s"] by (auto simp: liftFst_run)
next
  case (FinishBlock u r p)
  then show ?thesis using assms keepsD [OF finishBlock_nodes, of s "smNodes s"] by (auto simp: liftFst_run)
next
  case (Flush u r p)
  then show ?thesis using assms flush_nodes [of purge B u r p s d _ t d'] by (auto simp: run_simps)
next
  case (CancelBatch u)
  then show ?thesis using assms by (auto simp: liftFst_run cancelBatch_def smNodes_del split: if_splits)
qed

lemma readNode_keystr:
  "readNode u (keystr ws) s = (case smNodes s u (keystr ws) of
     Some v \<Rightarrow> (Ret v, s) | None \<Rightarrow> (Fail ZKR_DB_KEY_NOT_FOUND, s))"
  by (simp add: readNode_def smNodes_def split: option.splits)

section \<open>The protocol of an update\<close>

text \<open>The part of the state that belongs to a batch, block, transaction and persistence, if it exists.\<close>

definition blockAt :: "string \<Rightarrow> nat \<Rightarrow> 'e sm_state \<Rightarrow> 'e BlockState option" where
  "blockAt u block s = (case s u of None \<Rightarrow> None
     | Some b \<Rightarrow> if block < length (btBlockState b) then Some (btBlockState b ! block) else None)"

definition txAt :: "nat \<Rightarrow> 'e BlockState \<Rightarrow> 'e TxState option" where
  "txAt tx bl = (if tx < length (blTxState bl) then Some (blTxState bl ! tx) else None)"

definition persistenceAt :: "string \<Rightarrow> nat \<Rightarrow> nat \<Rightarrow> nat \<Rightarrow> 'e sm_state \<Rightarrow> 'e TxPersistenceState option" where
  "persistenceAt u block tx p s =
     Option.bind (blockAt u block s) (\<lambda>bl. map_option (\<lambda>t. txPersistence t ! p) (txAt tx bl))"

definition isOpen :: "'e TxPersistenceState \<Rightarrow> bool" where
  "isOpen q \<longleftrightarrow> tpSubState q \<noteq> [] \<and> tpCurrentSubState q = length (tpSubState q) - 1 \<and>
     ssNewStateRoot (last (tpSubState q)) = []"

definition isReady :: "'e TxPersistenceState \<Rightarrow> bool" where
  "isReady q \<longleftrightarrow> tpSubState q = [] \<or> ssNewStateRoot (last (tpSubState q)) \<noteq> []"

definition openAt :: "string \<Rightarrow> nat \<Rightarrow> nat \<Rightarrow> nat \<Rightarrow> 'e sm_state \<Rightarrow> bool" where
  "openAt u block tx p s \<longleftrightarrow> wfState s \<and> (\<exists>q. persistenceAt u block tx p s = Some q \<and> isOpen q)"

definition readyAt :: "string \<Rightarrow> nat \<Rightarrow> nat \<Rightarrow> nat \<Rightarrow> 'e sm_state \<Rightarrow> bool" where
  "readyAt u block tx p s \<longleftrightarrow> wfState s \<and> (\<forall>q. persistenceAt u block tx p s = Some q \<longrightarrow> isReady q)"

lemma openAt_parts:
  assumes "openAt u block tx p s" "p < PERSISTENCE_SIZE"
  obtains b where "s u = Some b" "block < length (btBlockState b)"
    "tx < length (blTxState (btBlockState b ! block))"
    "p < length (txPersistence (blTxState (btBlockState b ! block) ! tx))"
    "isOpen (txPersistence (blTxState (btBlockState b ! block) ! tx) ! p)"
proof -
  from assms(1) obtain b where b: "s u = Some b" "block < length (btBlockState b)"
    "tx < length (blTxState (btBlockState b ! block))"
    "isOpen (txPersistence (blTxState (btBlockState b ! block) ! tx) ! p)"
    by (auto simp: openAt_def persistenceAt_def blockAt_def txAt_def bind_eq_Some_conv
        split: option.splits if_splits)
  have "wfBatch b" using assms(1) b(1) wfState_batch by (auto simp: openAt_def)
  then have "wfBlock (btBlockState b ! block)" using b(2) by (simp add: wfBatch_def)
  then have "wfTx (blTxState (btBlockState b ! block) ! tx)" using b(3) by (simp add: wfBlock_def)
  with b assms(2) that show ?thesis by (simp add: wfTx_def)
qed

text \<open>Replacing that part of a batch.\<close>

definition putPersistence ::
  "nat \<Rightarrow> nat \<Rightarrow> nat \<Rightarrow> 'e TxPersistenceState \<Rightarrow> 'e BatchState \<Rightarrow> 'e BatchState" where
  "putPersistence block tx p q b =
     (let bl = btBlockState b ! block; t = blTxState bl ! tx
      in b\<lparr>btBlockState := (btBlockState b)[block := bl\<lparr>blTxState := (blTxState bl)[tx :=
             t\<lparr>txPersistence := (txPersistence t)[p := q]\<rparr>]\<rparr>]\<rparr>)"

lemma persistenceAt_put:
  assumes "block < length (btBlockState b)" "tx < length (blTxState (btBlockState b ! block))"
    "p < length (txPersistence (blTxState (btBlockState b ! block) ! tx))"
  shows "persistenceAt u block tx p (s(u \<mapsto> putPersistence block tx p q b)) = Some q"
  using assms by (simp add: persistenceAt_def blockAt_def txAt_def putPersistence_def Let_def)

lemma inBlock_run:
  assumes "block < length (btBlockState b)" "tx < length (blTxState (btBlockState b ! block))"
    "p < length (txPersistence (blTxState (btBlockState b ! block) ! tx))"
    "m (txPersistence (blTxState (btBlockState b ! block) ! tx) ! p) = (r, q)"
  shows "atBlock block (atTx tx (atPersistence p m)) b = (r, putPersistence block tx p q b)"
  using assms by (simp add: atBlock_def atTx_def atPersistence_def atP_run putPersistence_def Let_def)

lemma blockRoot_txs [simp]: "blTxState (blockRoot r isOld p bl) = blTxState bl"
  by (simp add: blockRoot_def Let_def)

lemma deleteNode_open:
  assumes "openAt u block tx p s" "p < PERSISTENCE_SIZE"
  shows "\<exists>t. deleteNode u block tx (keystr ws) p s = (Ret (), t) \<and> openAt u block tx p t \<and> smNodes t = smNodes s"
proof -
  from openAt_parts [OF assms] obtain b where b: "s u = Some b" "block < length (btBlockState b)"
    "tx < length (blTxState (btBlockState b ! block))"
    "p < length (txPersistence (blTxState (btBlockState b ! block) ! tx))"
    "isOpen (txPersistence (blTxState (btBlockState b ! block) ! tx) ! p)" .
  let ?q = "txPersistence (blTxState (btBlockState b ! block) ! tx) ! p"
  let ?k = "keystr ws"
  define ss where "ss = tpSubState ?q ! tpCurrentSubState ?q"
  define q where "q = ?q\<lparr>tpSubState := (tpSubState ?q)[tpCurrentSubState ?q :=
                       ss\<lparr>ssDeleteNodes := ssDeleteNodes ss @ [?k]\<rparr>]\<rparr>"
  have q: "noteDelete ?k ?q = (Ret (), q)" "isOpen q"
    using b(5) by (auto simp: noteDelete_def bindP_def getP_def guardP_def retP_def atSubState_def atP_run
        modifyP_def isOpen_def q_def ss_def last_conv_nth nth_list_update)
  have "atBlock block (bindP getP (\<lambda>bl. bindP (guardP (tx < length (blTxState bl)) ZKR_STATE_MANAGER)
          (\<lambda>_. atTx tx (atPersistence p (noteDelete ?k))))) b = (Ret (), putPersistence block tx p q b)"
    using inBlock_run [where m = "noteDelete ?k", OF b(2-4) q(1)] b(2,3)
    by (simp add: atBlock_def atP_run bindP_def getP_def guardP_def retP_def)
  then have "deleteNode u block tx ?k p s = (Ret (), s(u \<mapsto> putPersistence block tx p q b))"
    using assms(2) b(1,2) by (simp add: deleteNode_def bindP_def getP_def guardP_def retP_def atBatch_def zoomP_def)
  moreover from this have "wfState (s(u \<mapsto> putPersistence block tx p q b))"
    "smNodes (s(u \<mapsto> putPersistence block tx p q b)) = smNodes s"
    using keepsD [OF keeps_deleteNode, of s u block tx ?k p] assms(1)
      keepsD [OF deleteNode_nodes, of s "smNodes s" u block tx ?k p] by (simp_all add: openAt_def)
  ultimately show ?thesis
    using persistenceAt_put [OF b(2-4)] q(2) by (auto simp: openAt_def)
qed

lemma writeNode_open:
  assumes "openAt u block tx p s" "p < PERSISTENCE_SIZE"
  shows "\<exists>t. writeNode u block tx (keystr ws) v p s = (Ret (), t) \<and> openAt u block tx p t \<and>
             smNodes t = (smNodes s)(u := (smNodes s u)(keystr ws \<mapsto> v))"
proof -
  from openAt_parts [OF assms] obtain b where b: "s u = Some b" "block < length (btBlockState b)"
    "tx < length (blTxState (btBlockState b ! block))"
    "p < length (txPersistence (blTxState (btBlockState b ! block) ! tx))"
    "isOpen (txPersistence (blTxState (btBlockState b ! block) ! tx) ! p)" .
  let ?q = "txPersistence (blTxState (btBlockState b ! block) ! tx) ! p"
  let ?k = "keystr ws" and ?r = "btCurrentStateRoot b"
  define ss where "ss = tpSubState ?q ! tpCurrentSubState ?q"
  define q where "q = ?q\<lparr>tpSubState := (tpSubState ?q)[tpCurrentSubState ?q :=
                       ss\<lparr>ssWriteNodes := AList.update ?k v (ssWriteNodes ss)\<rparr>]\<rparr>"
  have q: "addNode ?r ?k v ?q = (Ret (), q)" "isOpen q"
    using b(5) by (auto simp: addNode_def bindP_def atSubState_def atP_run
        modifyP_def isOpen_def q_def ss_def last_conv_nth nth_list_update)
  have "atBlock block (bindP (createTx tx ?r p) (\<lambda>_. atTx tx (atPersistence p (addNode ?r ?k v)))) b
      = (Ret (), putPersistence block tx p q b)"
    using inBlock_run [where m = "addNode ?r ?k v", OF b(2-4) q(1)] b(2,3)
    by (simp add: atBlock_def atP_run bindP_def createTx_def)
  then obtain t where t: "writeNode u block tx ?k v p s = (Ret (), t)"
      "t = s(u \<mapsto> (putPersistence block tx p q b)\<lparr>btWriteNodes :=
                      AList.update ?k v (btWriteNodes (putPersistence block tx p q b))\<rparr>)"
    using assms(2) b(1,2)
    by (simp add: writeNode_def bindP_def getP_def guardP_def retP_def atBatch_def zoomP_def modifyP_def)
  have "persistenceAt u block tx p t = persistenceAt u block tx p (s(u \<mapsto> putPersistence block tx p q b))"
    by (simp add: t(2) persistenceAt_def blockAt_def)
  then have "persistenceAt u block tx p t = Some q" using persistenceAt_put [OF b(2-4)] by simp
  moreover have "wfState t"
    using keepsD [OF keeps_writeNode, of s u block tx ?k v p] assms(1) t(1) by (simp add: openAt_def)
  ultimately show ?thesis
    using t(1) writeNode_nodes [OF t(1)] q(2) by (auto simp: openAt_def)
qed

lemma setNewStateRoot_open:
  assumes "openAt u block tx p s" "p < PERSISTENCE_SIZE"
  shows "\<exists>t. setNewStateRoot u block tx (keystr ws) p s = (Ret (), t) \<and> readyAt u block tx p t \<and>
             smNodes t = smNodes s"
proof -
  from openAt_parts [OF assms] obtain b where b: "s u = Some b" "block < length (btBlockState b)"
    "tx < length (blTxState (btBlockState b ! block))"
    "p < length (txPersistence (blTxState (btBlockState b ! block) ! tx))"
    "isOpen (txPersistence (blTxState (btBlockState b ! block) ! tx) ! p)" .
  let ?q = "txPersistence (blTxState (btBlockState b ! block) ! tx) ! p" and ?r = "keystr ws"
  let ?c = "tpCurrentSubState ?q"
  define q where "q = ?q\<lparr>tpSubState := (tpSubState ?q)[?c := (tpSubState ?q ! ?c)\<lparr>ssNewStateRoot := ?r\<rparr>],
                         tpNewStateRoot := ?r\<rparr>"
  have r: "?r \<noteq> []" using length_keystr [of ws] by force
  have c: "?c < length (tpSubState ?q)" "ssNewStateRoot (tpSubState ?q ! ?c) = []"
    using b(5) by (auto simp: isOpen_def last_conv_nth)
  then have q: "closeSubState ?r ?q = (Ret (), q)" by (simp add: closeSubState_def Let_def q_def)
  have ready: "isReady q"
    using b(5) c r by (simp add: isReady_def isOpen_def q_def last_conv_nth nth_list_update)
  let ?b = "batchRoot block ?r False p b"
  have bs: "btBlockState ?b = btBlockState b" using b(2) by (simp add: batchRoot_def Let_def)
  let ?bl = "blockRoot ?r False p (btBlockState b ! block)"
  let ?m = "bindP (modifyP (blockRoot ?r False p)) (\<lambda>_. bindP (createTxs tx False) (\<lambda>_.
              atTx tx (atPersistence p (closeSubState ?r))))"
  let ?b' = "?b\<lparr>btBlockState := (btBlockState b)[block := ?bl]\<rparr>"
  have "atBlock block ?m ?b = (Ret (), putPersistence block tx p q ?b')"
    using b(2-4) q
    by (simp add: atBlock_def atP_run bs bindP_def modifyP_def createTxs_def Let_def atTx_def
        atPersistence_def putPersistence_def)
  then have run: "setNewStateRoot u block tx ?r p s = (Ret (), s(u \<mapsto> putPersistence block tx p q ?b'))"
    using assms(2) b(1)
    by (simp add: setNewStateRoot_def setStateRoot_def bindP_def guardP_def retP_def atBatch_def zoomP_def modifyP_def)
  have "persistenceAt u block tx p (s(u \<mapsto> putPersistence block tx p q ?b')) = Some q"
    by (rule persistenceAt_put) (use b(2-4) in simp_all)
  moreover have "wfState (s(u \<mapsto> putPersistence block tx p q ?b'))"
    "smNodes (s(u \<mapsto> putPersistence block tx p q ?b')) = smNodes s"
    using run keepsD [OF keeps_setStateRoot, of s u block tx ?r False p] assms(1)
      keepsD [OF setStateRoot_nodes, of s "smNodes s" u block tx ?r False p]
    by (simp_all add: openAt_def setNewStateRoot_def)
  ultimately show ?thesis using run ready by (auto simp: readyAt_def)
qed

lemma openSubState_ready:
  assumes "wfPersistence q" "isReady q"
  shows "\<exists>q'. openSubState r q = (Ret (), q') \<and> isOpen q'"
  using assms by (cases "tpSubState q = []")
    (auto simp: openSubState_def Let_def isReady_def isOpen_def wfPersistence_def last_conv_nth newSubState_def)

lemma createTxs_run:
  "\<exists>bl'. createTxs tx True bl = (Ret (), bl') \<and> tx < length (blTxState bl') \<and>
     (blTxState bl' ! tx = newTx \<or> tx < length (blTxState bl) \<and> blTxState bl' ! tx = blTxState bl ! tx)"
  by (auto simp: createTxs_def Let_def nth_append nth_Cons')

lemma batchRoot_block:
  "block < length (btBlockState (batchRoot block r isOld p b)) \<and>
   (btBlockState (batchRoot block r isOld p b) ! block = newBlock \<or>
    block < length (btBlockState b) \<and> btBlockState (batchRoot block r isOld p b) ! block = btBlockState b ! block)"
  by (auto simp: batchRoot_def Let_def nth_append)

lemma setOldStateRoot_ready:
  assumes "readyAt u block tx p s" "p < PERSISTENCE_SIZE"
  shows "\<exists>t. setOldStateRoot u block tx (keystr ws) p s = (Ret (), t) \<and> openAt u block tx p t \<and>
             smNodes t = smNodes s"
proof -
  let ?r = "keystr ws"
  define b0 where "b0 = (case s u of Some b \<Rightarrow> b | None \<Rightarrow> newBatch)"
  let ?b = "batchRoot block ?r True p b0"
  have wf: "wfState s" using assms(1) by (simp add: readyAt_def)
  have wfb: "wfBatch ?b"
    using wfState_batch [OF wf] by (auto simp: b0_def intro!: batchRoot_wf split: option.splits)
  note bl = batchRoot_block [of block ?r True p b0]
  let ?bl = "blockRoot ?r True p (btBlockState ?b ! block)"
  have wfbl: "wfBlock ?bl" using wfb bl by (intro blockRoot_wf) (simp add: wfBatch_def)
  obtain bl' where bl': "createTxs tx True ?bl = (Ret (), bl')" "tx < length (blTxState bl')"
    "blTxState bl' ! tx = newTx \<or> tx < length (blTxState ?bl) \<and> blTxState bl' ! tx = blTxState ?bl ! tx"
    using createTxs_run [of tx ?bl] by blast
  have "wfBlock bl'" using keepsD [OF keeps_createTxs wfbl, of tx True] bl'(1) by simp
  then have t: "wfTx (blTxState bl' ! tx)" using bl'(2) by (simp add: wfBlock_def)
  let ?q = "txPersistence (blTxState bl' ! tx) ! p"
  have p: "p < length (txPersistence (blTxState bl' ! tx))" "wfPersistence ?q"
    using t assms(2) by (simp_all add: wfTx_def)
  have "isReady ?q"
  proof (cases "blTxState bl' ! tx = newTx")
    case True
    then show ?thesis using assms(2) by (simp add: newTx_def newPersistence_def isReady_def)
  next
    case False
    with bl'(3) have tx: "tx < length (blTxState ?bl)" "blTxState bl' ! tx = blTxState ?bl ! tx" by auto
    with bl have "block < length (btBlockState b0)" "btBlockState ?b ! block = btBlockState b0 ! block"
      by (auto simp: newBlock_def)
    moreover from this obtain b where "s u = Some b" "b0 = b"
      by (cases "s u") (auto simp: b0_def newBatch_def)
    ultimately have "persistenceAt u block tx p s = Some ?q"
      using tx by (simp add: persistenceAt_def blockAt_def txAt_def)
    then show ?thesis using assms(1) by (simp add: readyAt_def)
  qed
  then obtain q where q: "openSubState ?r ?q = (Ret (), q)" "isOpen q"
    using openSubState_ready [OF p(2)] by blast
  let ?b1 = "?b\<lparr>btBlockState := (btBlockState ?b)[block := bl']\<rparr>"
  let ?b' = "putPersistence block tx p q ?b1"
  let ?m = "bindP (modifyP (blockRoot ?r True p)) (\<lambda>_. bindP (createTxs tx True) (\<lambda>_.
              atTx tx (atPersistence p (openSubState ?r))))"
  have blk: "atBlock block ?m ?b = (Ret (), ?b')"
    using bl bl'(1,2) p(1) q(1)
    by (simp add: atBlock_def atP_run bindP_def modifyP_def atTx_def
        atPersistence_def putPersistence_def Let_def)
  have "setOldStateRoot u block tx ?r p s
      = atBatch u ZKR_STATE_MANAGER (bindP (modifyP (batchRoot block ?r True p)) (\<lambda>_. atBlock block ?m))
          (if s u = None then s(u \<mapsto> newBatch) else s)"
    using assms(2)
    by (simp add: setOldStateRoot_def setStateRoot_def bindP_def guardP_def retP_def createBatch_def modifyP_def)
  also have "\<dots> = (Ret (), s(u \<mapsto> ?b'))"
    using blk by (cases "s u") (simp_all add: atBatch_def zoomP_def bindP_def modifyP_def b0_def)
  finally have run: "setOldStateRoot u block tx ?r p s = (Ret (), s(u \<mapsto> ?b'))" .
  have "persistenceAt u block tx p (s(u \<mapsto> ?b')) = Some q"
    by (rule persistenceAt_put) (use bl bl'(2) p(1) in simp_all)
  moreover have "wfState (s(u \<mapsto> ?b'))" "smNodes (s(u \<mapsto> ?b')) = smNodes s"
    using run keepsD [OF keeps_setStateRoot, of s u block tx ?r True p] wf
      keepsD [OF setStateRoot_nodes, of s "smNodes s" u block tx ?r True p]
    by (simp_all add: setOldStateRoot_def)
  ultimately show ?thesis using run q(2) by (auto simp: openAt_def)
qed

text \<open>Without an open sub-state a deletion fails or is noted, and nothing can be read differently.\<close>

lemma deleteNode_total:
  assumes "wfState s"
  shows "\<exists>r t. deleteNode u block tx (keystr ws) p s = (r, t) \<and> (r = Ret () \<or> (\<exists>e. r = Fail e)) \<and>
     wfState t \<and> smNodes t = smNodes s"
proof -
  obtain r t where t: "deleteNode u block tx (keystr ws) p s = (r, t)" by fastforce
  have "r = Ret () \<or> (\<exists>e. r = Fail e)"
  proof (cases "p < PERSISTENCE_SIZE \<and> blockAt u block s \<noteq> None \<and> txAt tx (the (blockAt u block s)) \<noteq> None")
    case True
    then obtain b where b: "s u = Some b" "block < length (btBlockState b)"
      "tx < length (blTxState (btBlockState b ! block))" "p < PERSISTENCE_SIZE"
      by (auto simp: blockAt_def txAt_def split: option.splits if_splits)
    have "wfBatch b" using assms b(1) wfState_batch by auto
    then have "wfBlock (btBlockState b ! block)" using b(2) by (simp add: wfBatch_def)
    then have "wfTx (blTxState (btBlockState b ! block) ! tx)" using b(3) by (simp add: wfBlock_def)
    then have p: "p < length (txPersistence (blTxState (btBlockState b ! block) ! tx))"
      using b(4) by (simp add: wfTx_def)
    let ?q = "txPersistence (blTxState (btBlockState b ! block) ! tx) ! p"
    have "fst (noteDelete (keystr ws) ?q) \<in> {Ret (), Fail ZKR_STATE_MANAGER}"
      by (auto simp: noteDelete_def bindP_def getP_def guardP_def retP_def failP_def atSubState_def
          atP_run modifyP_def)
    then show ?thesis
      using t b p
      by (auto simp: deleteNode_def bindP_def getP_def guardP_def retP_def failP_def atBatch_def zoomP_def
          atBlock_def atTx_def atPersistence_def atP_run split_beta)
  next
    case False
    then show ?thesis
      using t
      by (auto simp: deleteNode_def bindP_def getP_def guardP_def retP_def failP_def atBatch_def zoomP_def
          atBlock_def atP_run blockAt_def txAt_def split: option.splits if_splits)
  qed
  moreover have "wfState t" "smNodes t = smNodes s"
    using keepsD [OF keeps_deleteNode, of s u block tx "keystr ws" p] assms t
      keepsD [OF deleteNode_nodes, of s "smNodes s" u block tx "keystr ws" p] by simp_all
  ultimately show ?thesis using t by blast
qed

end
