(* ===== verification/Database_Cache.thy ===== *)
theory Database_Cache
  imports Prelude "HOL-Library.Sublist"
begin

text \<open>
  src/src/hashdb/database_cache.cpp and database_cache.hpp: the caches of nodes and programs, which
  drop the least recently used record when they are full.  The records form a doubly linked list
  from \<open>head\<close> to \<open>last\<close> and are also found through the map \<open>cacheMap\<close>; both always hold the same
  records, so the model is the list, head first, and looking a key up in the map is looking it up in
  the list.  The size of a record depends on \<open>sizeof\<close> and on the capacity of its containers: it is the
  parameter \<open>recordSize\<close> of the operations that create one.
\<close>

section \<open>The cache and its operations\<close>

record 'v CacheRecord =
  crKey :: string
  crValue :: 'v
  crSize :: nat

record 'v DatabaseCache =
  dcMaxSize :: nat
  dcCurrentSize :: nat
  dcRecords :: "'v CacheRecord list"
  dcAttempts :: nat
  dcHits :: nat

definition newCache :: "nat \<Rightarrow> 'v DatabaseCache" where
  "newCache maxSize = \<lparr>dcMaxSize = maxSize, dcCurrentSize = 0, dcRecords = [], dcAttempts = 0, dcHits = 0\<rparr>"

definition cacheEnabled :: "'v DatabaseCache \<Rightarrow> bool" where
  "cacheEnabled c \<longleftrightarrow> dcMaxSize c > 0"

definition cacheFindKey :: "string \<Rightarrow> 'v DatabaseCache \<Rightarrow> 'v CacheRecord option \<times> 'v DatabaseCache" where
  "cacheFindKey key c0 =
     (let c = c0\<lparr>dcAttempts := dcAttempts c0 + 1\<rparr>
      in case List.find (\<lambda>r. crKey r = key) (dcRecords c) of
           None \<Rightarrow> (None, c)
         | Some r \<Rightarrow> (Some r, c\<lparr>dcHits := dcHits c + 1,
                               dcRecords := r # filter (\<lambda>r. crKey r \<noteq> key) (dcRecords c)\<rparr>))"

text \<open>The last record leaves while the cache is too big and has another one; the list is reversed.\<close>

fun cacheEvict :: "nat \<Rightarrow> nat \<Rightarrow> 'v CacheRecord list \<Rightarrow> nat \<times> 'v CacheRecord list" where
  "cacheEvict maxSize currentSize (r # r' # rs) =
     (if currentSize > maxSize then cacheEvict maxSize (currentSize - crSize r) (r' # rs)
      else (currentSize, r # r' # rs))"
| "cacheEvict maxSize currentSize rs = (currentSize, rs)"

definition cacheAddKeyValue ::
  "(string \<Rightarrow> 'v \<Rightarrow> nat) \<Rightarrow> string \<Rightarrow> 'v \<Rightarrow> bool \<Rightarrow> 'v DatabaseCache \<Rightarrow> bool \<times> 'v DatabaseCache" where
  "cacheAddKeyValue recordSize key v update c0 =
     (if dcMaxSize c0 = 0 then (True, c0)
      else (case cacheFindKey key c0 of
              (Some r, c) \<Rightarrow>
                if update then (True, c\<lparr>dcRecords := (r\<lparr>crValue := v\<rparr>) # tl (dcRecords c)\<rparr>) else (False, c)
            | (None, c) \<Rightarrow>
                (let r = \<lparr>crKey = key, crValue = v, crSize = recordSize key v\<rparr>;
                     size = dcCurrentSize c + crSize r;
                     full = (size > dcMaxSize c);
                     (size, rs) = cacheEvict (dcMaxSize c) size (rev (r # dcRecords c))
                 in (full, c\<lparr>dcCurrentSize := size, dcRecords := rev rs\<rparr>))))"

definition cacheClear :: "'v DatabaseCache \<Rightarrow> 'v DatabaseCache" where
  "cacheClear c = c\<lparr>dcRecords := [], dcAttempts := 0, dcHits := 0, dcCurrentSize := 0\<rparr>"

text \<open>\<open>DatabaseMTCache\<close> and \<open>DatabaseProgramCache\<close>: the same operations under a lock.\<close>

definition cacheAdd ::
  "(string \<Rightarrow> 'v \<Rightarrow> nat) \<Rightarrow> string \<Rightarrow> 'v \<Rightarrow> bool \<Rightarrow> 'v DatabaseCache \<Rightarrow> bool \<times> 'v DatabaseCache" where
  "cacheAdd recordSize key v update c =
     (if dcMaxSize c = 0 then (True, c) else cacheAddKeyValue recordSize key v update c)"

definition cacheFind :: "string \<Rightarrow> 'v DatabaseCache \<Rightarrow> 'v option \<times> 'v DatabaseCache" where
  "cacheFind key c =
     (if dcMaxSize c = 0 then (None, c)
      else (case cacheFindKey key c of (r, c) \<Rightarrow> (map_option crValue r, c)))"

section \<open>Its content and its invariant\<close>

definition cacheContent :: "'v DatabaseCache \<Rightarrow> string \<Rightarrow> 'v option" where
  "cacheContent c k = map_option crValue (List.find (\<lambda>r. crKey r = k) (dcRecords c))"

definition wfCache :: "'v DatabaseCache \<Rightarrow> bool" where
  "wfCache c \<longleftrightarrow> distinct (map crKey (dcRecords c)) \<and>
     dcCurrentSize c = sum_list (map crSize (dcRecords c)) \<and>
     (dcCurrentSize c \<le> dcMaxSize c \<or> length (dcRecords c) \<le> 1) \<and> (dcMaxSize c = 0 \<longrightarrow> dcRecords c = [])"

lemma find_key: "List.find (\<lambda>r. crKey r = k) rs = Some r \<Longrightarrow> r \<in> set rs \<and> crKey r = k"
  by (auto simp: find_Some_iff)

lemma find_distinct:
  "distinct (map crKey rs) \<Longrightarrow> r \<in> set rs \<Longrightarrow> List.find (\<lambda>x. crKey x = crKey r) rs = Some r"
proof (induction rs)
  case (Cons a rs)
  then show ?case by (cases "a = r") (auto simp: rev_image_eqI)
qed simp

lemma find_filter_neq:
  "k' \<noteq> k \<Longrightarrow> List.find (\<lambda>r. crKey r = k') (filter (\<lambda>r. crKey r \<noteq> k) rs) = List.find (\<lambda>r. crKey r = k') rs"
  by (induction rs) auto

lemma sum_filter_key:
  "distinct (map crKey rs) \<Longrightarrow> r \<in> set rs \<Longrightarrow>
   crSize r + sum_list (map crSize (filter (\<lambda>x. crKey x \<noteq> crKey r) rs)) = sum_list (map crSize rs)"
proof (induction rs)
  case (Cons a rs)
  show ?case
  proof (cases "a = r")
    case True
    then have "filter (\<lambda>x. crKey x \<noteq> crKey r) rs = rs"
      using Cons.prems by (intro filter_True) (auto simp: rev_image_eqI)
    then show ?thesis using True by simp
  next
    case False
    then have "r \<in> set rs" "crKey a \<noteq> crKey r" using Cons.prems by (auto simp: rev_image_eqI)
    then show ?thesis using Cons by simp
  qed
qed simp

lemma length_filter_key:
  "distinct (map crKey rs) \<Longrightarrow> r \<in> set rs \<Longrightarrow> Suc (length (filter (\<lambda>x. crKey x \<noteq> crKey r) rs)) = length rs"
proof (induction rs)
  case (Cons a rs)
  show ?case
  proof (cases "a = r")
    case True
    then have "filter (\<lambda>x. crKey x \<noteq> crKey r) rs = rs"
      using Cons.prems by (intro filter_True) (auto simp: rev_image_eqI)
    then show ?thesis using True by simp
  next
    case False
    then have "r \<in> set rs" "crKey a \<noteq> crKey r" using Cons.prems by (auto simp: rev_image_eqI)
    then show ?thesis using Cons by simp
  qed
qed simp

text \<open>Finding a key does not change the content, and puts its record first.\<close>

lemma cacheFindKey_run:
  assumes "wfCache c" "cacheFindKey k c = (r, c')"
  shows "wfCache c'" "map_option crValue r = cacheContent c k" "cacheContent c' = cacheContent c"
    "dcMaxSize c' = dcMaxSize c" "dcCurrentSize c' = dcCurrentSize c"
    "r = None \<Longrightarrow> dcRecords c' = dcRecords c"
    "r = Some x \<Longrightarrow> dcRecords c' = x # filter (\<lambda>r. crKey r \<noteq> k) (dcRecords c) \<and> crKey x = k"
proof -
  note d = assms(2) [unfolded cacheFindKey_def Let_def, simplified]
  show "map_option crValue r = cacheContent c k" "dcMaxSize c' = dcMaxSize c" "dcCurrentSize c' = dcCurrentSize c"
    "r = None \<Longrightarrow> dcRecords c' = dcRecords c"
    "r = Some x \<Longrightarrow> dcRecords c' = x # filter (\<lambda>r. crKey r \<noteq> k) (dcRecords c) \<and> crKey x = k"
    using d by (auto simp: cacheContent_def split: option.splits dest: find_key)
  have "wfCache c' \<and> cacheContent c' = cacheContent c"
  proof (cases "List.find (\<lambda>r. crKey r = k) (dcRecords c)")
    case None
    then show ?thesis using d assms(1) by (auto simp: wfCache_def cacheContent_def)
  next
    case (Some y)
    then have y: "y \<in> set (dcRecords c)" "crKey y = k" using find_key by auto
    have c': "dcRecords c' = y # filter (\<lambda>r. crKey r \<noteq> k) (dcRecords c)"
      "dcMaxSize c' = dcMaxSize c" "dcCurrentSize c' = dcCurrentSize c"
      using d Some by auto
    have "wfCache c'"
      using assms(1) c' y sum_filter_key [of "dcRecords c" y] length_filter_key [of "dcRecords c" y]
      by (auto simp: wfCache_def distinct_map_filter)
    moreover have "cacheContent c' = cacheContent c"
      using c'(1) y(2) Some by (auto simp: cacheContent_def fun_eq_iff find_filter_neq)
    ultimately show ?thesis by blast
  qed
  then show "wfCache c'" "cacheContent c' = cacheContent c" by blast+
qed

section \<open>Eviction\<close>

lemma cacheEvict_run:
  assumes "cacheEvict m n rs = (n', rs')" "n = sum_list (map crSize rs)" "rs \<noteq> []"
  shows "\<exists>dropped. rs = dropped @ rs' \<and> n' = sum_list (map crSize rs') \<and> rs' \<noteq> [] \<and>
     (n' \<le> m \<or> length rs' = 1) \<and>
     (dropped \<noteq> [] \<longrightarrow> n' + crSize (last dropped) > m)"
  using assms
proof (induction m n rs rule: cacheEvict.induct)
  case (1 m n r r' rs)
  show ?case
  proof (cases "n > m")
    case True
    then obtain dropped where d: "r' # rs = dropped @ rs'" "n' = sum_list (map crSize rs')" "rs' \<noteq> []"
      "n' \<le> m \<or> length rs' = 1" "dropped \<noteq> [] \<longrightarrow> n' + crSize (last dropped) > m"
      using "1.IH" "1.prems" by auto
    have "n' + crSize (last (r # dropped)) > m"
      using d True "1.prems"(2) by (cases "dropped = []") auto
    then show ?thesis using d by (intro exI [of _ "r # dropped"]) auto
  qed (use "1.prems" in auto)
qed auto

text \<open>
  Adding: the record is first; what the cache forgets is a suffix of the records, the least recently
  used ones, and it forgets no more than it must.
\<close>

lemma cacheAdd_run:
  assumes "wfCache c" "dcMaxSize c > 0" "cacheAdd sz k v update c = (full, c')"
  shows "wfCache c'" "dcMaxSize c' = dcMaxSize c"
    "\<exists>w. cacheContent c' k = Some w \<and> (cacheContent c k \<noteq> None \<and> \<not> update \<longrightarrow> cacheContent c k = Some w) \<and>
         (cacheContent c k = None \<or> update \<longrightarrow> w = v)"
    "\<exists>dropped. filter (\<lambda>r. crKey r \<noteq> k) (dcRecords c) = tl (dcRecords c') @ dropped \<and>
       (cacheContent c k \<noteq> None \<longrightarrow> dropped = []) \<and>
       (dropped \<noteq> [] \<longrightarrow> dcCurrentSize c' + crSize (hd dropped) > dcMaxSize c)"
    "hd (map crKey (dcRecords c')) = k"
proof -
  obtain r c1 where f: "cacheFindKey k c = (r, c1)" by fastforce
  note run = cacheFindKey_run [OF assms(1) f]
  let ?other = "filter (\<lambda>r. crKey r \<noteq> k) (dcRecords c)"
  have "wfCache c' \<and> dcMaxSize c' = dcMaxSize c \<and>
    (\<exists>w. cacheContent c' k = Some w \<and> (cacheContent c k \<noteq> None \<and> \<not> update \<longrightarrow> cacheContent c k = Some w) \<and>
         (cacheContent c k = None \<or> update \<longrightarrow> w = v)) \<and>
    (\<exists>dropped. ?other = tl (dcRecords c') @ dropped \<and> (cacheContent c k \<noteq> None \<longrightarrow> dropped = []) \<and>
       (dropped \<noteq> [] \<longrightarrow> dcCurrentSize c' + crSize (hd dropped) > dcMaxSize c)) \<and>
    hd (map crKey (dcRecords c')) = k"
  proof (cases r)
    case (Some x)
    have rec: "dcRecords c1 = x # ?other" "crKey x = k" using run(7) [OF Some] by auto
    have "c' = (if update then c1\<lparr>dcRecords := (x\<lparr>crValue := v\<rparr>) # ?other\<rparr> else c1)"
      using assms(2,3) f Some rec by (auto simp: cacheAdd_def cacheAddKeyValue_def split: if_splits)
    moreover have "wfCache (c1\<lparr>dcRecords := (x\<lparr>crValue := v\<rparr>) # ?other\<rparr>)"
      using run(1) rec by (auto simp: wfCache_def)
    moreover have "cacheContent c k = Some (crValue x)" using run(2) Some by simp
    ultimately show ?thesis
      using run(1,3,4) rec by (auto simp: cacheContent_def)
  next
    case None
    have no: "cacheContent c k = None" using run(2) None by simp
    then have other: "?other = dcRecords c"
      by (auto simp: cacheContent_def find_None_iff intro!: filter_True)
    let ?r = "\<lparr>crKey = k, crValue = v, crSize = sz k v\<rparr>"
    obtain n rs where e: "cacheEvict (dcMaxSize c) (dcCurrentSize c + sz k v) (rev (?r # dcRecords c)) = (n, rs)"
      by fastforce
    have c': "c' = c1\<lparr>dcCurrentSize := n, dcRecords := rev rs\<rparr>"
      using assms(2,3) f None run(4-6) e by (auto simp: cacheAdd_def cacheAddKeyValue_def Let_def split: if_splits)
    have size: "dcCurrentSize c + sz k v = sum_list (map crSize (rev (?r # dcRecords c)))"
      using assms(1) by (simp add: wfCache_def rev_map [symmetric])
    obtain dropped where d: "rev (?r # dcRecords c) = dropped @ rs" "n = sum_list (map crSize rs)" "rs \<noteq> []"
      "n \<le> dcMaxSize c \<or> length rs = 1" "dropped \<noteq> [] \<longrightarrow> n + crSize (last dropped) > dcMaxSize c"
      using cacheEvict_run [OF e size] by auto
    from arg_cong [OF d(1), of rev] have all: "?r # dcRecords c = rev rs @ rev dropped" by simp
    then have hd: "rev rs = ?r # tl (rev rs)" using d(3) by (cases "rev rs") auto
    then have rest: "dcRecords c = tl (rev rs) @ rev dropped" using all by (metis append_Cons list.inject)
    have "distinct (map crKey (?r # dcRecords c))"
      using assms(1) no by (auto simp: wfCache_def cacheContent_def find_None_iff)
    then have "distinct (map crKey (rev rs))" unfolding all by simp
    then have "wfCache c'"
      using d(2,4) assms(2) run(4) by (auto simp: c' wfCache_def rev_map [symmetric])
    moreover have "cacheContent c' k = Some v"
      unfolding c' cacheContent_def by (subst hd, simp)
    moreover have "hd (map crKey (rev rs)) = k" by (subst hd) simp
    moreover have "?other = tl (dcRecords c') @ rev dropped" unfolding other using rest by (simp add: c')
    moreover have "rev dropped \<noteq> [] \<longrightarrow> n + crSize (hd (rev dropped)) > dcMaxSize c"
      using d(5) by (simp add: hd_rev)
    ultimately show ?thesis using no run(4) by (auto simp: c')
  qed
  then show "wfCache c'" "dcMaxSize c' = dcMaxSize c"
    "\<exists>w. cacheContent c' k = Some w \<and> (cacheContent c k \<noteq> None \<and> \<not> update \<longrightarrow> cacheContent c k = Some w) \<and>
         (cacheContent c k = None \<or> update \<longrightarrow> w = v)"
    "\<exists>dropped. filter (\<lambda>r. crKey r \<noteq> k) (dcRecords c) = tl (dcRecords c') @ dropped \<and>
       (cacheContent c k \<noteq> None \<longrightarrow> dropped = []) \<and>
       (dropped \<noteq> [] \<longrightarrow> dcCurrentSize c' + crSize (hd dropped) > dcMaxSize c)"
    "hd (map crKey (dcRecords c')) = k"
    by blast+
qed

lemma find_Some_append: "List.find P xs = Some r \<Longrightarrow> List.find P (xs @ ys) = Some r"
  by (induction xs) auto

text \<open>The other keys keep their values or are forgotten.\<close>

lemma cacheAdd_other:
  assumes "wfCache c" "dcMaxSize c > 0" "cacheAdd sz k v update c = (full, c')"
    and "k' \<noteq> k" "cacheContent c' k' = Some x"
  shows "cacheContent c k' = Some x"
proof -
  obtain dropped where d: "filter (\<lambda>r. crKey r \<noteq> k) (dcRecords c) = tl (dcRecords c') @ dropped"
    using cacheAdd_run(4) [OF assms(1-3)] by blast
  obtain w where "cacheContent c' k = Some w" using cacheAdd_run(3) [OF assms(1-3)] by blast
  then have ne: "dcRecords c' \<noteq> []" by (auto simp: cacheContent_def)
  then have hd: "crKey (hd (dcRecords c')) = k" using cacheAdd_run(5) [OF assms(1-3)] by (cases "dcRecords c'") auto
  obtain r where r: "List.find (\<lambda>r. crKey r = k') (dcRecords c') = Some r" "x = crValue r"
    using assms(5) by (auto simp: cacheContent_def)
  then have "List.find (\<lambda>r. crKey r = k') (tl (dcRecords c')) = Some r"
    using hd ne assms(4) by (cases "dcRecords c'") auto
  then have "List.find (\<lambda>r. crKey r = k') (filter (\<lambda>r. crKey r \<noteq> k) (dcRecords c)) = Some r"
    unfolding d by (simp add: find_Some_append)
  then have "List.find (\<lambda>r. crKey r = k') (dcRecords c) = Some r"
    by (simp add: find_filter_neq [OF assms(4)])
  then show ?thesis using r(2) by (simp add: cacheContent_def)
qed

lemma cacheFind_run:
  assumes "wfCache c" "cacheFind k c = (r, c')"
  shows "wfCache c'" "r = Some v \<Longrightarrow> cacheContent c k = Some v" "cacheContent c' = cacheContent c"
    "dcMaxSize c' = dcMaxSize c"
proof -
  have "wfCache c' \<and> (r = Some v \<longrightarrow> cacheContent c k = Some v) \<and> cacheContent c' = cacheContent c \<and>
    dcMaxSize c' = dcMaxSize c"
  proof (cases "dcMaxSize c = 0")
    case True
    then show ?thesis using assms by (simp add: cacheFind_def)
  next
    case False
    obtain x y where f: "cacheFindKey k c = (x, y)" by fastforce
    then have "r = map_option crValue x" "c' = y" using assms(2) False by (auto simp: cacheFind_def)
    then show ?thesis using cacheFindKey_run [OF assms(1) f] by simp
  qed
  then show "wfCache c'" "r = Some v \<Longrightarrow> cacheContent c k = Some v" "cacheContent c' = cacheContent c"
    "dcMaxSize c' = dcMaxSize c" by blast+
qed

end
