(* ===== verification/Assoc_Cache.thy ===== *)
theory Assoc_Cache
  imports Goldilocks
begin

text \<open>
  src/src/hashdb/database_associative_cache.cpp and .hpp: the associative cache of nodes.  A key of
  four elements names four places of the table \<open>indexes\<close>; a place holds the number of an insertion
  (\<open>currentCacheIndex\<close> counts them, modulo 2^32), whose low bits are a position in the arrays of keys
  and values.  The arrays come uninitialised: their first content is a parameter.
\<close>

section \<open>The cache\<close>

record 'e AssocCache =
  acLog2IndexesSize :: nat
  acLog2CacheSize :: nat
  acIndexes :: "u32 list"
  acKeys :: "'e list"
  acValues :: "'e list"
  acCurrentCacheIndex :: u32
  acAttempts :: nat
  acHits :: nat

definition acCacheSize :: "'e AssocCache \<Rightarrow> u32" where
  "acCacheSize c = push_bit (acLog2CacheSize c) 1"

definition acIndexesSize :: "'e AssocCache \<Rightarrow> u32" where
  "acIndexesSize c = push_bit (acLog2IndexesSize c) 1"

definition acEnabled :: "'e AssocCache \<Rightarrow> bool" where
  "acEnabled c \<longleftrightarrow> acLog2IndexesSize c > 0"

text \<open>\<open>1 << 32\<close> is undefined; the memory the arrays get is \<open>junkKeys\<close> and \<open>junkValues\<close>.\<close>

definition acConstruct :: "nat \<Rightarrow> nat \<Rightarrow> 'e list \<Rightarrow> 'e list \<Rightarrow> 'e AssocCache outcome" where
  "acConstruct log2Indexes log2Cache junkKeys junkValues =
     (if log2Indexes > 32 \<or> log2Cache > 32 then Exit
      else if log2Indexes = 32 \<or> log2Cache = 32 then Undef
      else (let cacheSize = push_bit log2Cache (1 :: u32); initValue = - 1 - cacheSize - 1
            in Ret \<lparr>acLog2IndexesSize = log2Indexes, acLog2CacheSize = log2Cache,
                    acIndexes = replicate (unat (push_bit log2Indexes (1 :: u32))) initValue,
                    acKeys = take (unat (4 * cacheSize)) junkKeys,
                    acValues = take (unat (12 * cacheSize)) junkValues,
                    acCurrentCacheIndex = 0, acAttempts = 0, acHits = 0\<rparr>))"

definition emptyCacheSlot :: "'e AssocCache \<Rightarrow> u32 \<Rightarrow> bool" where
  "emptyCacheSlot c raw \<longleftrightarrow>
     (acCurrentCacheIndex c \<ge> raw \<and> acCurrentCacheIndex c - raw > acCacheSize c) \<or>
     (acCurrentCacheIndex c < raw \<and> - 1 - raw + acCurrentCacheIndex c > acCacheSize c)"

text \<open>The place of the table for one element of the key, and the position for an insertion.\<close>

definition tableIndex :: "'e gl \<Rightarrow> 'e AssocCache \<Rightarrow> 'e \<Rightarrow> nat" where
  "tableIndex fr c x = unat (ucast (gl_fe fr x AND ucast (acIndexesSize c - 1)) :: u32)"

definition cachePosition :: "'e AssocCache \<Rightarrow> u32 \<Rightarrow> u32" where
  "cachePosition c raw = ucast (ucast raw AND (ucast (acCacheSize c - 1) :: u64))"

definition keyAt :: "'e AssocCache \<Rightarrow> u32 \<Rightarrow> 'e list" where
  "keyAt c position = map (\<lambda>j. acKeys c ! (unat (position * 4) + j)) [0..<4]"

definition valueAt :: "'e AssocCache \<Rightarrow> u32 \<Rightarrow> 'e list" where
  "valueAt c position = map (\<lambda>j. acValues c ! (unat (position * 12) + j)) [0..<12]"

definition sameKey :: "'e gl \<Rightarrow> 'e list \<Rightarrow> 'e list \<Rightarrow> bool" where
  "sameKey fr a b \<longleftrightarrow> gl_fe fr (a ! 0) = gl_fe fr (b ! 0) \<and> gl_fe fr (a ! 1) = gl_fe fr (b ! 1) \<and>
     gl_fe fr (a ! 2) = gl_fe fr (b ! 2) \<and> gl_fe fr (a ! 3) = gl_fe fr (b ! 3)"

section \<open>Operations\<close>

fun acFindLoop :: "'e gl \<Rightarrow> 'e AssocCache \<Rightarrow> 'e list \<Rightarrow> 'e list \<Rightarrow> 'e list option" where
  "acFindLoop fr c key [] = None"
| "acFindLoop fr c key (x # xs) =
     (let raw = acIndexes c ! unat (gl_fe fr x AND ucast (acIndexesSize c - 1)); position = cachePosition c raw
      in if \<not> emptyCacheSlot c raw \<and> sameKey fr (keyAt c position) key then Some (valueAt c position)
         else acFindLoop fr c key xs)"

definition acFindKey :: "'e gl \<Rightarrow> 'e list \<Rightarrow> 'e AssocCache \<Rightarrow> 'e list option \<times> 'e AssocCache" where
  "acFindKey fr key c0 =
     (let c = c0\<lparr>acAttempts := acAttempts c0 + 1\<rparr>
      in case acFindLoop fr c key (take 4 key) of
           None \<Rightarrow> (None, c) | Some v \<Rightarrow> (Some v, c\<lparr>acHits := acHits c + 1\<rparr>))"

text \<open>
  The first loop of \<open>addKeyValue\<close>: the position of the key if it is present, and otherwise the first
  empty place of the table.
\<close>

fun acProbe :: "'e gl \<Rightarrow> 'e AssocCache \<Rightarrow> 'e list \<Rightarrow> 'e list \<Rightarrow> nat option \<Rightarrow> u32 option \<times> nat option" where
  "acProbe fr c key [] emptyPlace = (None, emptyPlace)"
| "acProbe fr c key (x # xs) emptyPlace =
     (let place = tableIndex fr c x; raw = acIndexes c ! place; position = cachePosition c raw
      in if \<not> emptyCacheSlot c raw
         then if sameKey fr (keyAt c position) key then (Some position, emptyPlace)
              else acProbe fr c key xs emptyPlace
         else acProbe fr c key xs (if emptyPlace = None then Some place else emptyPlace))"

definition acStore :: "'e gl \<Rightarrow> 'e list \<Rightarrow> 'e list \<Rightarrow> u32 \<Rightarrow> 'e AssocCache \<Rightarrow> 'e AssocCache" where
  "acStore fr key v position c =
     c\<lparr>acKeys := foldl (\<lambda>a j. a[unat (position * 4) + j := key ! j]) (acKeys c) [0..<4],
       acValues := foldl (\<lambda>a j. a[unat (position * 12) + j :=
                            if j < 8 \<or> length v > 8 then v ! j else gl_zero fr]) (acValues c) [0..<12]\<rparr>"

text \<open>
  \<open>forcedInsertion\<close> puts an insertion into the place whose insertion is the oldest one not used yet,
  and goes on with the one it displaced; after nine rounds it gives up.
\<close>

fun acOldest :: "'e gl \<Rightarrow> 'e AssocCache \<Rightarrow> u32 list \<Rightarrow> 'e list \<Rightarrow> u32 \<Rightarrow> nat option \<Rightarrow> nat + (u32 \<times> nat option)" where
  "acOldest fr c used [] least place = Inr (least, place)"
| "acOldest fr c used (x # xs) least place =
     (let t = tableIndex fr c x; raw = acIndexes c ! t
      in if emptyCacheSlot c raw then Inl t
         else if raw \<notin> set used \<and> raw < least then acOldest fr c used xs raw (Some t)
         else acOldest fr c used xs least place)"

fun forcedInsertion :: "'e gl \<Rightarrow> nat \<Rightarrow> u32 list \<Rightarrow> 'e AssocCache \<Rightarrow> 'e AssocCache outcome" where
  "forcedInsertion fr 0 used c = Exit"
| "forcedInsertion fr (Suc n) used c =
     (let raw = last used
      in case acOldest fr c used (keyAt c (cachePosition c raw)) (- 1) None of
           Inl t \<Rightarrow> Ret (c\<lparr>acIndexes := (acIndexes c)[t := raw]\<rparr>)
         | Inr (least, None) \<Rightarrow> Exit
         | Inr (least, Some t) \<Rightarrow>
             forcedInsertion fr n (used @ [least]) (c\<lparr>acIndexes := (acIndexes c)[t := raw]\<rparr>))"

definition acAddKeyValue :: "'e gl \<Rightarrow> 'e list \<Rightarrow> 'e list \<Rightarrow> bool \<Rightarrow> 'e AssocCache \<Rightarrow> 'e AssocCache outcome" where
  "acAddKeyValue fr key v update c =
     (case acProbe fr c key (take 4 key) None of
        (Some position, _) \<Rightarrow>
          if \<not> update then Ret c
          else if length v < 8 \<or> 8 < length v \<and> length v < 12 then Undef
          else Ret (acStore fr key v position c)
      | (None, place) \<Rightarrow>
          (let raw = acCurrentCacheIndex c;
               c = (case place of None \<Rightarrow> c | Some t \<Rightarrow> c\<lparr>acIndexes := (acIndexes c)[t := raw]\<rparr>);
               c = c\<lparr>acCurrentCacheIndex := raw + 1\<rparr>
           in if length v < 8 \<or> 8 < length v \<and> length v < 12 then Undef
              else (let c = acStore fr key v (cachePosition c raw) c
                    in if place = None then forcedInsertion fr 9 [raw] c else Ret c)))"

section \<open>What is found was added under the key\<close>

text \<open>Every key and value of the arrays, by position.\<close>

definition acPairs :: "'e AssocCache \<Rightarrow> ('e list \<times> 'e list) set" where
  "acPairs c = {(keyAt c p, valueAt c p) |p. p < acCacheSize c}"

lemma cachePosition_less:
  assumes "acLog2CacheSize c < 32"
  shows "cachePosition c raw < acCacheSize c"
proof -
  let ?n = "acLog2CacheSize c"
  have m: "acCacheSize c - 1 = mask ?n"
    by (simp add: acCacheSize_def mask_eq_exp_minus_1 push_bit_eq_mult)
  have s: "unat (acCacheSize c) = 2 ^ ?n"
    using assms power_strict_increasing [of ?n 32 "2 :: nat"]
    unfolding acCacheSize_def unsigned_push_bit_eq by (simp add: push_bit_eq_mult take_bit_nat_eq_self)
  have "ucast (mask ?n :: u32) = (mask ?n :: u64)"
    using assms by (intro bit_word_eqI) (auto simp: bit_unsigned_iff bit_mask_iff)
  then have "cachePosition c raw = ucast (take_bit ?n (ucast raw :: u64))"
    by (simp add: cachePosition_def m take_bit_eq_mask)
  then have "unat (cachePosition c raw) = unat (ucast raw :: u64) mod 2 ^ ?n"
    using assms by (simp add: unat_ucast_take_bit)
  then show ?thesis by (simp add: word_less_nat_alt s)
qed

lemma acFindLoop_pairs:
  assumes "acLog2CacheSize c < 32" "acFindLoop fr c key xs = Some v"
  shows "\<exists>k. (k, v) \<in> acPairs c \<and> sameKey fr k key"
  using assms(2)
proof (induction xs)
  case (Cons x xs)
  then show ?case
    using cachePosition_less [OF assms(1)] by (auto simp: Let_def acPairs_def split: if_splits)
qed simp

end
