(* ===== verification/Scalar_Bytes.thy ===== *)
theory Scalar_Bytes
  imports Scalar
begin

text \<open>
  src/src/utils/scalar.cpp, second part: bytes, byte arrays and bit vectors, and their conversions to
  hexadecimal strings, scalars and machine integers.  A byte array (pointer and size, vector, or
  string used as one) is a list of bytes; output buffers are returned.
\<close>

section \<open>Hexadecimal digits\<close>

definition char2byte :: "char \<Rightarrow> u8 outcome" where
  "char2byte c = (let n = (of_char c :: nat) in
     if 48 \<le> n \<and> n \<le> 57 then Ret (of_nat (n - 48))
     else if 65 \<le> n \<and> n \<le> 70 then Ret (of_nat (n - 65 + 10))
     else if 97 \<le> n \<and> n \<le> 102 then Ret (of_nat (n - 97 + 10)) else Exit)"

definition byte2char :: "u8 \<Rightarrow> char outcome" where
  "byte2char b = (if b < 10 then Ret (char_of (48 + unat b))
     else if b < 16 then Ret (char_of (97 + unat b - 10)) else Exit)"

definition byte2string :: "u8 \<Rightarrow> string outcome" where
  "byte2string b = bindO (byte2char (drop_bit 4 b)) (\<lambda>h. bindO (byte2char (b AND 0x0F)) (\<lambda>l. Ret [h, l]))"

definition evenDigits :: "string \<Rightarrow> string" where
  "evenDigits os = (let s = Remove0xIfPresent os in if odd (length s) then ''0'' @ s else s)"

fun pairs2bytes :: "string \<Rightarrow> u8 list outcome" where
  "pairs2bytes (h # l # s) = bindO (char2byte h) (\<lambda>a. bindO (char2byte l) (\<lambda>b.
     bindO (pairs2bytes s) (\<lambda>bs. Ret ((a * 16 + b) # bs))))"
| "pairs2bytes s = Ret []"

text \<open>The forms for a buffer of a given size, for a vector and for a string of bytes.\<close>

definition string2ba_buffer :: "string \<Rightarrow> nat \<Rightarrow> u8 list outcome" where
  "string2ba_buffer os dataSize =
     (let s = evenDigits os in if length s div 2 > dataSize then Exit else pairs2bytes s)"

definition string2ba :: "string \<Rightarrow> u8 list outcome" where
  "string2ba os = pairs2bytes (evenDigits os)"

fun ba2string :: "u8 list \<Rightarrow> string outcome" where
  "ba2string [] = Ret []"
| "ba2string (b # bs) = bindO (byte2string b) (\<lambda>s. bindO (ba2string bs) (\<lambda>t. Ret (s @ t)))"

text \<open>Strings of bytes and vectors of bytes.\<close>

definition ba2ba_vector :: "string \<Rightarrow> u8 list" where
  "ba2ba_vector s = map (\<lambda>c. of_nat (of_char c)) s"

definition ba2ba_string :: "u8 list \<Rightarrow> string" where
  "ba2ba_string bs = map (\<lambda>b. char_of (unat b)) bs"

section \<open>Machine integers, most significant byte first\<close>

definition u64_to_ba :: "u64 \<Rightarrow> u8 list" where
  "u64_to_ba ba = map (\<lambda>i. ucast (drop_bit (56 - i * 8) ba)) [0..<8]"

definition ba_to_u64 :: "u8 list \<Rightarrow> u64 outcome" where
  "ba_to_u64 b =
     (if length b \<noteq> 8 then Exit
      else Ret (push_bit 56 (ucast (b ! 0)) OR push_bit 48 (ucast (b ! 1)) OR push_bit 40 (ucast (b ! 2)) OR
                push_bit 32 (ucast (b ! 3)) OR push_bit 24 (ucast (b ! 4)) OR push_bit 16 (ucast (b ! 5)) OR
                push_bit 8 (ucast (b ! 6)) OR ucast (b ! 7)))"

definition ba2u16 :: "u8 list \<Rightarrow> u16 outcome" where
  "ba2u16 b = (if length b < 2 then Undef else Ret (of_nat (unat (b ! 0) * 256 + unat (b ! 1))))"

definition ba2u32 :: "u8 list \<Rightarrow> u32 outcome" where
  "ba2u32 b = (if length b < 4 then Undef
     else Ret (ucast (b ! 0) * 256 * 256 * 256 + ucast (b ! 1) * 256 * 256 + ucast (b ! 2) * 256 + ucast (b ! 3)))"

section \<open>Scalars\<close>

definition ba2scalar :: "u8 list \<Rightarrow> nat" where
  "ba2scalar = foldl (\<lambda>s b. s * 2 ^ 8 + unat b) 0"

text \<open>
  \<open>scalar2ba\<close> shifts what it has by one byte and puts the next one first, until the scalar is zero.
  The result has the bytes and the new \<open>dataSize\<close>; \<open>n\<close> is the room left.
\<close>

fun scalar2ba_loop :: "nat \<Rightarrow> u8 list \<Rightarrow> nat \<Rightarrow> (u8 list \<times> nat) outcome" where
  "scalar2ba_loop 0 bytes s = (if s \<noteq> 0 then Exit else Ret (bytes, length bytes + 1))"
| "scalar2ba_loop (Suc n) bytes s =
     (let bytes = of_nat (s AND mask 8) # bytes; s = drop_bit 8 s
      in if s = 0 then Ret (bytes, length bytes) else scalar2ba_loop n bytes s)"

definition scalar2ba :: "nat \<Rightarrow> nat \<Rightarrow> (u8 list \<times> nat) outcome" where
  "scalar2ba dataSize s = scalar2ba_loop dataSize [] s"

text \<open>Sixteen bits per word, twenty in the last one; \<open>i\<close> words are written.\<close>

function scalar2ba16_loop :: "nat \<Rightarrow> nat \<Rightarrow> u64 list \<Rightarrow> nat \<Rightarrow> (u64 list \<times> nat) outcome" where
  "scalar2ba16_loop dataSize i pData s =
     (if i \<ge> dataSize then if s > mask 4 then Exit else Ret (pData, i + 1)
      else (let pData = pData[i := of_nat (s AND (if i < dataSize - 1 then mask 16 else mask 20))];
                s = drop_bit 16 s
            in if s = 0 then Ret (pData, i + 1) else scalar2ba16_loop dataSize (i + 1) pData s))"
  by auto
termination by (relation "measure (\<lambda>(d, i, _, _). d - i)") auto

declare scalar2ba16_loop.simps [simp del]

definition scalar2ba16 :: "nat \<Rightarrow> nat \<Rightarrow> (u64 list \<times> nat) outcome" where
  "scalar2ba16 dataSize s = scalar2ba16_loop dataSize 0 (replicate dataSize 0) s"

fun scalar2ba32_loop :: "nat \<Rightarrow> u8 list \<Rightarrow> nat \<Rightarrow> u8 list outcome" where
  "scalar2ba32_loop 0 result s = (if s \<noteq> 0 then Exit else Ret result)"
| "scalar2ba32_loop (Suc n) result s =
     (let result = result[n := of_nat s]; s = drop_bit 8 s
      in if s = 0 then Ret result else scalar2ba32_loop n result s)"

definition scalar2ba32 :: "nat \<Rightarrow> u8 list outcome" where
  "scalar2ba32 s = scalar2ba32_loop 32 (replicate 32 0) s"

definition scalar2bytes :: "nat \<Rightarrow> u8 list outcome" where
  "scalar2bytes s = (if drop_bit 256 s \<noteq> 0 then Exit
     else Ret (map (\<lambda>i. of_nat (drop_bit (8 * i) s AND mask 8)) [0..<32]))"

definition scalar2bytesBE :: "nat \<Rightarrow> u8 list outcome" where
  "scalar2bytesBE s = bindO (scalar2bytes s) (\<lambda>bytes. Ret (rev bytes))"

section \<open>Bits, least significant first\<close>

function scalar2bits :: "nat \<Rightarrow> u8 list" where
  "scalar2bits s = (if s > 0 then (if s AND 1 = 1 then 1 else 0) # scalar2bits (drop_bit 1 s) else [])"
  by auto
termination by (relation "measure id") (auto simp: drop_bit_eq_div)

declare scalar2bits.simps [simp del]

definition padBits :: "nat \<Rightarrow> u8 list \<Rightarrow> u8 list" where
  "padBits n bits = bits @ replicate (n - length bits) 0"

definition u322bits :: "u32 \<Rightarrow> u8 list" where
  "u322bits v = padBits 32 (scalar2bits (unat v))"

definition u642bits :: "u64 \<Rightarrow> u8 list" where
  "u642bits v = padBits 64 (scalar2bits (unat v))"

text \<open>The loop runs from the last bit down; the word is 32 or 64 bits wide.\<close>

fun bits2word :: "u8 list \<Rightarrow> 'a :: len word \<Rightarrow> 'a word outcome" where
  "bits2word [] result = Ret result"
| "bits2word (b # bs) result =
     (if b = 0 then bits2word bs (push_bit 1 result)
      else if b = 1 then bits2word bs (push_bit 1 result + 1) else Exit)"

definition bits2u32 :: "u8 list \<Rightarrow> u32 outcome" where
  "bits2u32 bits = (if length bits \<noteq> 32 then Exit else bits2word (rev bits) 0)"

definition bits2u64 :: "u8 list \<Rightarrow> u64 outcome" where
  "bits2u64 bits = (if length bits \<noteq> 64 then Exit else bits2word (rev bits) 0)"

definition byte2bits :: "u8 \<Rightarrow> u8 list" where
  "byte2bits byte = map (\<lambda>i. if drop_bit i byte AND 1 = 1 then 1 else 0) [0..<8]"

definition bits2byte :: "u8 list \<Rightarrow> u8" where
  "bits2byte bits =
     foldl (\<lambda>byte i. let byte = push_bit 1 byte in if (bits ! (7 - i)) AND 1 = 1 then byte OR 1 else byte) 0 [0..<8]"

section \<open>Round trips\<close>

lemma unat_less_len: "unat (w :: 'a :: len word) < 2 ^ LENGTH('a)"
  by (rule unsigned_less)

lemma byte_split: "unat b = unat (drop_bit 4 b) * 16 + unat (b AND 0x0F)" for b :: u8
proof -
  have "b AND 0x0F = take_bit 4 b" by (simp add: take_bit_eq_mask mask_eq_exp_minus_1)
  then have "unat (b AND 0x0F) = unat b mod 16" by (simp add: unat_take_bit)
  moreover have "unat (drop_bit 4 b) = unat b div 16" by (subst unat_drop_bit_eq) (simp add: drop_bit_eq_div)
  ultimately show ?thesis by simp
qed

lemma nibble_bounds: "unat (drop_bit 4 b) < 16" "unat (b AND 0x0F) < 16" for b :: u8
proof -
  show "unat (drop_bit 4 b) < 16"
    using unat_less_len [of b] by (subst unat_drop_bit_eq) (simp add: drop_bit_eq_div less_mult_imp_div_less)
  have "b AND 0x0F = take_bit 4 b" by (simp add: take_bit_eq_mask mask_eq_exp_minus_1)
  then show "unat (b AND 0x0F) < 16" by (simp add: unat_take_bit)
qed

lemma byte2char_hex: "unat b < 16 \<Longrightarrow> byte2char b = Ret (hexChar (unat b))" for b :: u8
  by (simp add: byte2char_def hexChar_def word_less_nat_alt)

lemma char2byte_hex: "d < 16 \<Longrightarrow> char2byte (hexChar d) = Ret (of_nat d)"
  by (auto simp: char2byte_def of_char_hexChar Let_def)

definition byteDigits :: "u8 \<Rightarrow> string" where
  "byteDigits b = [hexChar (unat (drop_bit 4 b)), hexChar (unat (b AND 0x0F))]"

lemma byte2string_eq: "byte2string b = Ret (byteDigits b)"
  by (simp add: byte2string_def byte2char_hex nibble_bounds byteDigits_def)

lemma ba2string_eq: "ba2string bs = Ret (concat (map byteDigits bs))"
  by (induction bs) (simp_all add: byte2string_eq)

lemma pairs2bytes_digits: "pairs2bytes (concat (map byteDigits bs)) = Ret bs"
proof (induction bs)
  case (Cons b bs)
  have "(of_nat (unat (drop_bit 4 b)) :: u8) * 16 + of_nat (unat (b AND 0x0F)) = of_nat (unat b)"
    by (subst byte_split [of b]) simp
  then have "(of_nat (unat (drop_bit 4 b)) :: u8) * 16 + of_nat (unat (b AND 0x0F)) = b" by simp
  then show ?case using Cons by (simp add: byteDigits_def char2byte_hex nibble_bounds)
qed simp

lemma hexChar_not_x: "d < 16 \<Longrightarrow> hexChar d \<noteq> CHR ''x''"
  by (rule lowerHex_not_x [OF lowerHex_hexChar])

lemma evenDigits_digits: "evenDigits (concat (map byteDigits bs)) = concat (map byteDigits bs)"
proof -
  have "Remove0xIfPresent (concat (map byteDigits bs)) = concat (map byteDigits bs)"
    using hexChar_not_x [OF nibble_bounds(2)]
    by (cases bs) (auto simp: Remove0xIfPresent_def byteDigits_def)
  moreover have "even (length (concat (map byteDigits bs)))"
    by (induction bs) (simp_all add: byteDigits_def)
  ultimately show ?thesis by (simp add: evenDigits_def)
qed

lemma string2ba_ba2string: "bindO (ba2string bs) string2ba = Ret bs"
  by (simp add: ba2string_eq string2ba_def evenDigits_digits pairs2bytes_digits)

lemma ba2scalar_snoc: "ba2scalar (bs @ [b]) = ba2scalar bs * 256 + unat b"
  by (simp add: ba2scalar_def)

lemma ba2scalar_Cons: "ba2scalar (b # bs) = unat b * 256 ^ length bs + ba2scalar bs"
proof (induction bs rule: rev_induct)
  case (snoc x xs)
  have "ba2scalar (b # xs @ [x]) = ba2scalar (b # xs) * 256 + unat x"
    using ba2scalar_snoc [of "b # xs"] by simp
  then show ?case using snoc by (simp add: ba2scalar_snoc algebra_simps)
qed (simp add: ba2scalar_def)

lemma unat_byte: "unat (of_nat (s AND mask 8) :: u8) = s mod 256"
  by (simp add: take_bit_eq_mask [symmetric] take_bit_eq_mod unat_of_nat)

lemma scalar2ba_loop_Ret:
  assumes "scalar2ba_loop n bytes s = Ret (r, k)" "n > 0"
  shows "ba2scalar r = s * 256 ^ length bytes + ba2scalar bytes \<and> k = length r \<and>
     length r \<le> n + length bytes \<and> r \<noteq> [] \<and> (s > 0 \<longrightarrow> hd r \<noteq> 0)"
  using assms
proof (induction n bytes s rule: scalar2ba_loop.induct)
  case (2 n bytes s)
  let ?b = "of_nat (s AND mask 8) :: u8"
  have s: "s = drop_bit 8 s * 256 + unat ?b" by (simp add: unat_byte drop_bit_eq_div)
  have c: "ba2scalar (?b # bytes) = unat ?b * 256 ^ length bytes + ba2scalar bytes" by (rule ba2scalar_Cons)
  show ?case
  proof (cases "drop_bit 8 s = 0")
    case True
    have "unat ?b = s" using s True by simp
    then have "s > 0 \<longrightarrow> ?b \<noteq> 0" by (metis unsigned_0 less_irrefl)
    moreover have "r = ?b # bytes" "k = length r" using "2.prems" True by (auto simp: Let_def)
    ultimately show ?thesis using c \<open>unat ?b = s\<close> by simp
  next
    case False
    then have run: "scalar2ba_loop n (?b # bytes) (drop_bit 8 s) = Ret (r, k)"
      using "2.prems" by (simp add: Let_def)
    then have "n > 0" using False by (cases n) auto
    then have IH: "ba2scalar r = drop_bit 8 s * 256 ^ length (?b # bytes) + ba2scalar (?b # bytes)"
      "k = length r" "length r \<le> n + length (?b # bytes)" "r \<noteq> []" "hd r \<noteq> 0"
      using "2.IH" [OF refl refl False run] False by auto
    have "ba2scalar r = (drop_bit 8 s * 256 + unat ?b) * 256 ^ length bytes + ba2scalar bytes"
      using IH(1) c by (simp add: algebra_simps)
    then show ?thesis using IH(2-5) s by simp
  qed
qed simp

lemma scalar2ba_loop_total:
  "s < 256 ^ n \<Longrightarrow> n > 0 \<Longrightarrow> \<exists>r k. scalar2ba_loop n bytes s = Ret (r, k)"
proof (induction n bytes s rule: scalar2ba_loop.induct)
  case (2 n bytes s)
  show ?case
  proof (cases "drop_bit 8 s = 0")
    case False
    have "drop_bit 8 s < 256 ^ n" using 2(2) by (simp add: drop_bit_eq_div less_mult_imp_div_less mult.commute)
    moreover from this have "n > 0" using False by (cases n) auto
    ultimately show ?thesis using 2(1) [OF refl refl False] False by (simp add: Let_def)
  qed (simp add: Let_def)
qed simp

text \<open>Little-endian bytes as a number.\<close>

lemma ba2scalar_rev_bytes:
  "ba2scalar (rev (map (\<lambda>i. of_nat (drop_bit (8 * i) s AND mask 8)) [0..<n])) = s mod 256 ^ n"
proof (induction n)
  case (Suc n)
  have "drop_bit (8 * n) s = s div 256 ^ n" by (simp add: drop_bit_eq_div power_mult)
  then have "ba2scalar (rev (map (\<lambda>i. of_nat (drop_bit (8 * i) s AND mask 8)) [0..<Suc n]))
      = (s div 256 ^ n) mod 256 * 256 ^ n + s mod 256 ^ n"
    using Suc unat_byte [of "drop_bit (8 * n) s"] by (simp add: ba2scalar_Cons)
  also have "\<dots> = s mod 256 ^ Suc n"
    using mod_mult2_eq [of s "256 ^ n" 256] by (simp add: mult.commute)
  finally show ?case .
qed (simp add: ba2scalar_def)

lemma scalar2bytesBE_Ret: "scalar2bytesBE s = Ret b \<Longrightarrow> ba2scalar b = s \<and> length b = 32"
proof -
  assume "scalar2bytesBE s = Ret b"
  then have "drop_bit 256 s = 0" "b = rev (map (\<lambda>i. of_nat (drop_bit (8 * i) s AND mask 8)) [0..<32])"
    by (auto simp: scalar2bytesBE_def scalar2bytes_def split: if_splits)
  moreover from this(1) have "s < 256 ^ 32" by (simp add: drop_bit_eq_div div_eq_0_iff)
  ultimately show ?thesis using ba2scalar_rev_bytes [of s 32] by simp
qed

section \<open>Bits\<close>

definition bitsValue :: "u8 list \<Rightarrow> nat" where
  "bitsValue bits = foldr (\<lambda>b n. unat b + 2 * n) bits 0"

lemma bitsValue_simps [simp]: "bitsValue [] = 0" "bitsValue (b # bs) = unat b + 2 * bitsValue bs"
  by (simp_all add: bitsValue_def)

lemma bitsValue_zeros [simp]: "bitsValue (replicate n 0) = 0"
  by (induction n) simp_all

lemma bitsValue_append: "bitsValue (xs @ ys) = bitsValue xs + 2 ^ length xs * bitsValue ys"
  by (induction xs) (simp_all add: algebra_simps)

lemma scalar2bits_value: "bitsValue (scalar2bits s) = s \<and> set (scalar2bits s) \<subseteq> {0, 1}"
proof (induction s rule: scalar2bits.induct)
  case (1 s)
  show ?case
  proof (cases "s > 0")
    case True
    have "s AND 1 = s mod 2" by (simp add: and_one_eq)
    then show ?thesis using 1 True by (subst (1 2) scalar2bits.simps) (auto simp: drop_bit_Suc mod_2_eq_odd)
  qed (simp add: scalar2bits.simps)
qed

lemma length_scalar2bits: "s < 2 ^ n \<Longrightarrow> length (scalar2bits s) \<le> n"
proof (induction s arbitrary: n rule: scalar2bits.induct)
  case (1 s)
  show ?case
  proof (cases "s > 0")
    case True
    then obtain m where n: "n = Suc m" using "1.prems" by (cases n) auto
    then have "drop_bit 1 s < 2 ^ m" using "1.prems" by (simp add: drop_bit_Suc)
    then show ?thesis using "1.IH" [OF True, of m] True n by (subst scalar2bits.simps) simp
  qed (simp add: scalar2bits.simps)
qed

lemma bits2word_Ret:
  "set bs \<subseteq> {0, 1} \<Longrightarrow>
   bits2word bs r = Ret (r * 2 ^ length bs + of_nat (bitsValue (rev bs)))" for r :: "'a :: len word"
proof (induction bs arbitrary: r)
  case (Cons b bs)
  then show ?case
    by (auto simp: bitsValue_append algebra_simps push_bit_eq_mult)
qed simp

lemma u642bits_bits: "length (u642bits v) = 64" "bitsValue (u642bits v) = unat v" "set (u642bits v) \<subseteq> {0, 1}"
  using length_scalar2bits [of "unat v" 64] unat_less_len [of v] scalar2bits_value [of "unat v"]
  by (auto simp: u642bits_def padBits_def bitsValue_append)

lemma u322bits_bits: "length (u322bits v) = 32" "bitsValue (u322bits v) = unat v" "set (u322bits v) \<subseteq> {0, 1}"
  using length_scalar2bits [of "unat v" 32] unat_less_len [of v] scalar2bits_value [of "unat v"]
  by (auto simp: u322bits_def padBits_def bitsValue_append)

lemma bits2u64_u642bits: "bits2u64 (u642bits v) = Ret v"
  using u642bits_bits [of v] bits2word_Ret [of "rev (u642bits v)" "0 :: u64"] by (simp add: bits2u64_def)

lemma bits2u32_u322bits: "bits2u32 (u322bits v) = Ret v"
  using u322bits_bits [of v] bits2word_Ret [of "rev (u322bits v)" "0 :: u32"] by (simp add: bits2u32_def)

end
