(* ===== verification/Multi_Write.thy ===== *)
theory Multi_Write
  imports Scalar_Bytes
begin

text \<open>
  src/src/hashdb/multi_write.hpp, multi_write.cpp, multi_write_data.hpp, multi_query.hpp and
  single_query.hpp: the nodes and programs waiting to be sent to the database.  Three buffers rotate:
  one collects new data (\<open>pendingToFlushDataIndex\<close>), one is being stored (\<open>storingDataIndex\<close>), one is
  being synchronised (\<open>synchronizingDataIndex\<close>).  Nodes are kept as strings of sixteen hexadecimal
  digits per element, programs as two digits per byte.  The mutex makes every operation atomic.
\<close>

section \<open>The data\<close>

text \<open>A statement sent to the database: the tables are the one of nodes (False) and of programs (True).\<close>

datatype sql_statement =
    InsertRows bool "(string \<times> string) list"
  | UpdateRow string string

record SingleQuery =
  sqStatements :: "sql_statement list"
  sqFull :: bool
  sqSent :: bool

record MultiWriteData =
  mdProgram :: "(string \<times> string) list"
  mdProgramIntray :: "(string \<times> string) list"
  mdNodes :: "(string \<times> string) list"
  mdNodesIntray :: "(string \<times> string) list"
  mdStateRoot :: string
  mdQueries :: "SingleQuery list"
  mdStored :: bool

definition mdReset :: MultiWriteData where
  "mdReset = \<lparr>mdProgram = [], mdProgramIntray = [], mdNodes = [], mdNodesIntray = [], mdStateRoot = [],
     mdQueries = [], mdStored = False\<rparr>"

definition mdIsEmpty :: "MultiWriteData \<Rightarrow> bool" where
  "mdIsEmpty d \<longleftrightarrow> mdNodes d = [] \<and> mdNodesIntray d = [] \<and> mdProgram d = [] \<and> mdProgramIntray d = [] \<and>
     mdStateRoot d = []"

definition acceptIntray :: "MultiWriteData \<Rightarrow> MultiWriteData" where
  "acceptIntray d0 =
     (let d = (if mdProgramIntray d0 \<noteq> []
               then d0\<lparr>mdProgram := insertNew (mdProgram d0) (mdProgramIntray d0), mdProgramIntray := []\<rparr> else d0)
      in if mdNodesIntray d \<noteq> []
         then d\<lparr>mdNodes := insertNew (mdNodes d) (mdNodesIntray d), mdNodesIntray := []\<rparr> else d)"

record MultiWrite =
  lastFlushId :: nat
  storedFlushId :: nat
  storingFlushId :: nat
  pendingToFlushDataIndex :: nat
  storingDataIndex :: nat
  synchronizingDataIndex :: nat
  mwData :: "MultiWriteData list"

definition newMultiWrite :: MultiWrite where
  "newMultiWrite = \<lparr>lastFlushId = 0, storedFlushId = 0, storingFlushId = 0, pendingToFlushDataIndex = 0,
     storingDataIndex = 2, synchronizingDataIndex = 2, mwData = replicate 3 mdReset\<rparr>"

definition mwIsEmpty :: "MultiWrite \<Rightarrow> bool" where
  "mwIsEmpty m \<longleftrightarrow> mdIsEmpty (mwData m ! 0) \<and> mdIsEmpty (mwData m ! 1) \<and> mdIsEmpty (mwData m ! 2)"

definition pendingData :: "MultiWrite \<Rightarrow> MultiWriteData" where
  "pendingData m = mwData m ! pendingToFlushDataIndex m"

definition storingData :: "MultiWrite \<Rightarrow> MultiWriteData" where
  "storingData m = mwData m ! storingDataIndex m"

definition updatePending :: "(MultiWriteData \<Rightarrow> MultiWriteData) \<Rightarrow> MultiWrite \<Rightarrow> MultiWrite" where
  "updatePending f m =
     m\<lparr>mwData := (mwData m)[pendingToFlushDataIndex m := f (mwData m ! pendingToFlushDataIndex m)]\<rparr>"

section \<open>Finding data that is not in the database yet\<close>

text \<open>Sixteen digits per element; a string of another size is not used (it is logged).\<close>

fun nodeOfString :: "'e gl \<Rightarrow> string \<Rightarrow> 'e list" where
  "nodeOfString fr s = (if s = [] then [] else gl_fromString16 fr (take 16 s) # nodeOfString fr (drop 16 s))"

declare nodeOfString.simps [simp del]

definition nodeIn :: "'e gl \<Rightarrow> (string \<times> string) list \<Rightarrow> string \<Rightarrow> 'e list option" where
  "nodeIn fr m key = (case map_of m key of
     None \<Rightarrow> None | Some s \<Rightarrow> if length s mod 16 \<noteq> 0 then None else Some (nodeOfString fr s))"

definition findNode :: "'e gl \<Rightarrow> MultiWrite \<Rightarrow> string \<Rightarrow> 'e list option" where
  "findNode fr m key =
     (case nodeIn fr (mdNodes (pendingData m)) key of
        Some v \<Rightarrow> Some v
      | None \<Rightarrow> (case nodeIn fr (mdNodesIntray (pendingData m)) key of
           Some v \<Rightarrow> Some v
         | None \<Rightarrow> (if storingFlushId m \<noteq> storedFlushId m
                    then nodeIn fr (mdNodes (storingData m)) key else None)))"

text \<open>A program of odd size is not used either; the first of the three maps that has a usable one gives it.\<close>

fun findProgramIn :: "(string \<times> string) list list \<Rightarrow> string \<Rightarrow> u8 list option outcome" where
  "findProgramIn [] key = Ret None"
| "findProgramIn (m # ms) key = (case map_of m key of
     None \<Rightarrow> findProgramIn ms key
   | Some s \<Rightarrow> if odd (length s) then findProgramIn ms key
               else bindO (string2ba s) (\<lambda>bs. Ret (Some bs)))"

definition findProgram :: "MultiWrite \<Rightarrow> string \<Rightarrow> u8 list option outcome" where
  "findProgram m key =
     findProgramIn [mdProgram (pendingData m), mdProgramIntray (pendingData m), mdProgram (storingData m)] key"

section \<open>Nodes as strings\<close>

text \<open>The string of a node: its elements in hexadecimal, sixteen digits each.\<close>

fun valueString :: "'e gl \<Rightarrow> 'e list \<Rightarrow> string outcome" where
  "valueString fr [] = Ret []"
| "valueString fr (x # xs) = bindO (PrependZeros (gl_toString16 fr x) 16) (\<lambda>s.
     bindO (valueString fr xs) (\<lambda>t. Ret (s @ t)))"

definition wordDigits :: "u64 \<Rightarrow> string" where
  "wordDigits w = (let s = hexDigits (unat w) in replicate (16 - length s) CHR ''0'' @ s)"

lemma length_wordDigits [simp]: "length (wordDigits w) = 16"
  using length_hexDigits [of 16 "unat w"] unat_u64_less [of w] by (simp add: wordDigits_def Let_def)

lemma lowerHex_zeros: "list_all lowerHex (replicate n CHR ''0'')"
  by (induction n) (simp_all add: lowerHex_def)

lemma lowerHex_wordDigits: "list_all lowerHex (wordDigits w)"
  by (simp add: wordDigits_def Let_def lowerHex_hexDigits lowerHex_zeros)

lemma hexValue_wordDigits: "hexValue (wordDigits w) = unat w"
  by (simp add: wordDigits_def Let_def)

context goldilocks begin

lemma PrependZeros_toString: "PrependZeros (gl_toString16 fr x) 16 = Ret (wordDigits (toU64 fr x))"
  using length_hexDigits [of 16 "unat (toU64 fr x)"] unat_u64_less [of "toU64 fr x"]
  by (auto simp: PrependZeros_def toString16_eq wordDigits_def Let_def)

lemma valueString_eq: "valueString fr v = Ret (concat (map (\<lambda>x. wordDigits (toU64 fr x)) v))"
  by (induction v) (simp_all add: PrependZeros_toString)

lemma fromString_wordDigits: "toU64 fr (gl_fromString16 fr (wordDigits (toU64 fr x))) = toU64 fr x"
proof (rule word_unat_eq_iff [THEN iffD2])
  have "wordDigits (toU64 fr x) \<noteq> []" using length_wordDigits [of "toU64 fr x"] by force
  then show "unat (toU64 fr (gl_fromString16 fr (wordDigits (toU64 fr x)))) = unat (toU64 fr x)"
    using unat_toU64_fromString16 [OF _ lowerHex_wordDigits] toU64_less [of x]
    by (simp add: hexValue_wordDigits)
qed

lemma nodeOfString_digits:
  "map (toU64 fr) (nodeOfString fr (concat (map (\<lambda>x. wordDigits (toU64 fr x)) v))) = map (toU64 fr) v"
proof (induction v)
  case Nil
  then show ?case by (simp add: nodeOfString.simps)
next
  case (Cons x v)
  let ?s = "wordDigits (toU64 fr x)" and ?t = "concat (map (\<lambda>x. wordDigits (toU64 fr x)) v)"
  have "?s \<noteq> []" using length_wordDigits [of "toU64 fr x"] by force
  then have "nodeOfString fr (?s @ ?t) = gl_fromString16 fr ?s # nodeOfString fr ?t"
    by (subst nodeOfString.simps) simp
  then show ?case using Cons fromString_wordDigits by simp
qed

lemma length_digits: "length (concat (map (\<lambda>x. wordDigits (toU64 fr x)) v)) = 16 * length v"
  by (induction v) simp_all

text \<open>The form of the database class reads the same strings in the same way.\<close>

lemma string2fea_digits:
  "\<exists>w. string2fea fr (concat (map (\<lambda>x. wordDigits (toU64 fr x)) v)) = Ret w \<and> map (toU64 fr) w = map (toU64 fr) v"
proof (induction v)
  case Nil
  then show ?case by (simp add: string2fea.simps)
next
  case (Cons x v)
  then obtain w where w: "string2fea fr (concat (map (\<lambda>x. wordDigits (toU64 fr x)) v)) = Ret w"
    "map (toU64 fr) w = map (toU64 fr) v" by blast
  let ?s = "wordDigits (toU64 fr x)"
  have s: "?s \<noteq> []" "length ?s = 16" using length_wordDigits [of "toU64 fr x"] by force+
  have "?s ! 1 \<noteq> CHR ''x''"
    using lowerHex_wordDigits [of "toU64 fr x"] by (intro lowerHex_not_x) (simp add: list_all_length)
  then have "string2fe fr ?s = gl_fromString16 fr ?s"
    by (simp add: string2fe_def Remove0xIfPresent_def)
  then have "string2fea fr (?s @ concat (map (\<lambda>x. wordDigits (toU64 fr x)) v)) = Ret (gl_fromString16 fr ?s # w)"
    using s w(1) by (subst string2fea.simps) simp
  then show ?case using w(2) fromString_wordDigits by simp
qed

end

section \<open>The intray\<close>

text \<open>Accepting the intray does not change what can be found; data that comes later does not win.\<close>

definition pendingNodes :: "MultiWriteData \<Rightarrow> string \<Rightarrow> string option" where
  "pendingNodes d = map_of (mdNodesIntray d) ++ map_of (mdNodes d)"

definition pendingPrograms :: "MultiWriteData \<Rightarrow> string \<Rightarrow> string option" where
  "pendingPrograms d = map_of (mdProgramIntray d) ++ map_of (mdProgram d)"

lemma acceptIntray_pending:
  "pendingNodes (acceptIntray d) = pendingNodes d" "pendingPrograms (acceptIntray d) = pendingPrograms d"
  by (auto simp: acceptIntray_def Let_def pendingNodes_def pendingPrograms_def map_of_insertNew)

lemma acceptIntray_fields:
  "mdStateRoot (acceptIntray d) = mdStateRoot d" "mdQueries (acceptIntray d) = mdQueries d"
  "mdStored (acceptIntray d) = mdStored d" "mdNodesIntray (acceptIntray d) = []"
  "mdProgramIntray (acceptIntray d) = []" "mdIsEmpty (acceptIntray d) \<longleftrightarrow> mdIsEmpty d"
  by (auto simp: acceptIntray_def Let_def mdIsEmpty_def insertNew_def)

end
