(* ===== verification/Database.thy ===== *)
theory Database
  imports State_Manager Database_Cache Assoc_Cache Multi_Write
begin

text \<open>
  src/src/hashdb/database.cpp and database.hpp: nodes and programs in a cache, in the multi-write
  buffers, and in a PostgreSQL database.  The database server is not part of the program: what a
  SELECT, a \<open>get_tree\<close> query or a list of other statements does to it are fields of \<open>DatabaseConfig\<close>
  (\<open>None\<close> and \<open>False\<close> stand for the exception the client library throws).  Connections, the read log and
  the delays between retries are not modelled.  The caches are the ones of Database_Cache and
  Assoc_Cache; the macro \<open>DATABASE_USE_CACHE\<close> is defined (src/src/config/definitions.hpp).
\<close>

section \<open>The object\<close>

record ('e, 'r) DatabaseConfig =
  cfFr :: "'e gl"
  dbMultiWrite :: bool
  dbGetTree :: bool
  dbReadOnly :: bool
  useAssociativeCache :: bool
  dbReadRetryDelay :: nat
  dbReadRetryCounter :: nat
  nodeRecordSize :: "string \<Rightarrow> 'e list \<Rightarrow> nat"
  programRecordSize :: "string \<Rightarrow> u8 list \<Rightarrow> nat"
  sqlSelect :: "bool \<Rightarrow> string \<Rightarrow> 'r \<Rightarrow> string list list option \<times> 'r"
  sqlGetTree :: "string \<Rightarrow> string \<Rightarrow> 'r \<Rightarrow> string list list option \<times> 'r"
  sqlExec :: "sql_statement list \<Rightarrow> 'r \<Rightarrow> bool \<times> 'r"
  dbStateRootvKey :: "'e list"

record ('e, 'r) Database =
  bInitialized :: bool
  useRemoteDB :: bool
  dbMTCache :: "'e list DatabaseCache"
  dbMTACache :: "'e AssocCache"
  dbProgramCache :: "u8 list DatabaseCache"
  multiWrite :: MultiWrite
  dbRemote :: 'r

definition dbStateRootKey :: string where
  "dbStateRootKey = replicate 64 CHR ''f''"

definition initialisedP :: "(('e, 'r) Database, unit) prog" where
  "initialisedP d = (if bInitialized d then (Ret (), d) else (Exit, d))"

section \<open>The cache of nodes\<close>

definition dbCacheFind ::
  "('e, 'r) DatabaseConfig \<Rightarrow> string \<Rightarrow> 'e list \<Rightarrow> (('e, 'r) Database, 'e list option) prog" where
  "dbCacheFind C key vkey d0 =
     (let (r, d) = (if useAssociativeCache C
                    then if acIndexes (dbMTACache d0) = [] then (Undef, d0)
                         else (case acFindKey (cfFr C) vkey (dbMTACache d0) of (v, c) \<Rightarrow> (Ret v, d0\<lparr>dbMTACache := c\<rparr>))
                    else (Ret None, d0))
      in if r = Ret None \<and> cacheEnabled (dbMTCache d)
         then (case cacheFind key (dbMTCache d) of (v, c) \<Rightarrow> (Ret v, d\<lparr>dbMTCache := c\<rparr>))
         else (r, d))"

definition dbAssociativeAdd ::
  "('e, 'r) DatabaseConfig \<Rightarrow> 'e list \<Rightarrow> 'e list \<Rightarrow> bool \<Rightarrow> (('e, 'r) Database, unit) prog" where
  "dbAssociativeAdd C vkey v update d =
     (if acIndexes (dbMTACache d) = [] then (Undef, d)
      else (case acAddKeyValue (cfFr C) vkey v update (dbMTACache d) of
              Ret c \<Rightarrow> (Ret (), d\<lparr>dbMTACache := c\<rparr>) | Fail e \<Rightarrow> (Fail e, d) | Exit \<Rightarrow> (Exit, d) | Undef \<Rightarrow> (Undef, d)))"

definition dbListAdd ::
  "('e, 'r) DatabaseConfig \<Rightarrow> string \<Rightarrow> 'e list \<Rightarrow> bool \<Rightarrow> (('e, 'r) Database, unit) prog" where
  "dbListAdd C key v update =
     modifyP (\<lambda>d. d\<lparr>dbMTCache := snd (cacheAdd (nodeRecordSize C) key v update (dbMTCache d))\<rparr>)"

definition dbCacheAdd ::
  "('e, 'r) DatabaseConfig \<Rightarrow> string \<Rightarrow> 'e list \<Rightarrow> 'e list \<Rightarrow> bool \<Rightarrow> (('e, 'r) Database, unit) prog" where
  "dbCacheAdd C key vkey v update =
     (if useAssociativeCache C then dbAssociativeAdd C vkey v update
      else (\<lambda>d. if cacheEnabled (dbMTCache d) then dbListAdd C key v update d else (Ret (), d)))"

section \<open>The database server\<close>

text \<open>\<open>s.at(i)\<close> throws when there is no such character, and the caller reports an error.\<close>

definition removeBSXIfExists :: "string \<Rightarrow> string option" where
  "removeBSXIfExists s =
     (if s = [] then None
      else if s ! 0 = CHR 0x5C then if length s < 2 then None
                                    else if s ! 1 = CHR ''x'' then Some (drop 2 s) else Some s
      else Some s)"

definition readRemote :: "('e, 'r) DatabaseConfig \<Rightarrow> bool \<Rightarrow> string \<Rightarrow> (('e, 'r) Database, string) prog" where
  "readRemote C bProgram key d0 =
     (case sqlSelect C bProgram key (dbRemote d0) of
        (None, r) \<Rightarrow> (Fail ZKR_DB_ERROR, d0\<lparr>dbRemote := r\<rparr>)
      | (Some rows, r) \<Rightarrow>
          (let d = d0\<lparr>dbRemote := r\<rparr>
           in if rows = [] then (Fail ZKR_DB_KEY_NOT_FOUND, d)
              else if length rows > 1 then (Exit, d)
              else if length (rows ! 0) \<noteq> 2 then (Exit, d)
              else (case removeBSXIfExists (rows ! 0 ! 1) of
                      None \<Rightarrow> (Fail ZKR_DB_ERROR, d) | Some s \<Rightarrow> (Ret s, d))))"

fun findSub :: "string \<Rightarrow> string \<Rightarrow> nat \<Rightarrow> nat option" where
  "findSub pat s i = (if take (length pat) s = pat then Some i
                      else (case s of [] \<Rightarrow> None | _ # s' \<Rightarrow> findSub pat s' (i + 1)))"

declare findSub.simps [simp del]

text \<open>A row of \<open>get_tree\<close>: ("\\x<hash>","\\x<data>") with twelve or eight elements of data.\<close>

definition treeRow :: "string \<Rightarrow> (string \<times> string) option" where
  "treeRow s =
     (let first = [CHR ''('', CHR 0x22, CHR 0x5C, CHR 0x5C, CHR ''x''];
          second = [CHR 0x22, CHR '','', CHR 0x22, CHR 0x5C, CHR 0x5C, CHR ''x''];
          third = [CHR 0x22, CHR '')'']
      in case (findSub first s 0, findSub second s 0, findSub third s 0) of
           (Some p1, Some p2, Some p3) \<Rightarrow>
             if p1 \<noteq> 0 \<or> p1 + length first + 32 * 2 \<noteq> p2 \<or> p2 \<le> length first \<or> p3 = 0 \<or>
                (p2 + length second + 12 * 8 * 2 \<noteq> p3 \<and> p2 + length second + 8 * 8 * 2 \<noteq> p3)
             then None
             else Some (take (32 * 2) (drop (p1 + length first) s),
                        take (p3 - p2 - length second) (drop (p2 + length second) s))
         | _ \<Rightarrow> None)"

text \<open>The bits of the path from the level on, a byte in hexadecimal for each.\<close>

definition treeKey :: "bool list \<Rightarrow> nat \<Rightarrow> string" where
  "treeKey keys level = concat (map (\<lambda>b. if b then ''01'' else ''00'') (drop level (take 256 keys)))"

definition readTreeRow :: "('e, 'r) DatabaseConfig \<Rightarrow> string list \<Rightarrow> (('e, 'r) Database, unit) prog" where
  "readTreeRow C row =
     (if length row \<noteq> 1 then failP ZKR_UNSPECIFIED
      else (case treeRow (row ! 0) of
              None \<Rightarrow> failP ZKR_UNSPECIFIED
            | Some (hash, data) \<Rightarrow>
                bindP (liftP (string2fea (cfFr C) data)) (\<lambda>v d.
                  if cacheEnabled (dbMTCache d) \<or> acEnabled (dbMTACache d)
                  then (if useAssociativeCache C
                        then bindP (liftP (string2fea4 (cfFr C) hash)) (\<lambda>vhash. dbAssociativeAdd C vhash v False)
                        else dbListAdd C hash v False) d
                  else (Ret (), d))))"

definition readTreeRemote ::
  "('e, 'r) DatabaseConfig \<Rightarrow> string \<Rightarrow> bool list \<Rightarrow> nat \<Rightarrow> (('e, 'r) Database, unit) prog" where
  "readTreeRemote C key keys level d =
     (case sqlGetTree C key (treeKey keys level) (dbRemote d) of
        (None, r) \<Rightarrow> (Fail ZKR_DB_ERROR, d\<lparr>dbRemote := r\<rparr>)
      | (Some rows, r) \<Rightarrow> foldP (\<lambda>row _. readTreeRow C row) rows () (d\<lparr>dbRemote := r\<rparr>))"

definition writeRemote ::
  "('e, 'r) DatabaseConfig \<Rightarrow> bool \<Rightarrow> string \<Rightarrow> string \<Rightarrow> (('e, 'r) Database, unit) prog" where
  "writeRemote C bProgram key v d =
     (if dbMultiWrite C
      then (Ret (), d\<lparr>multiWrite := updatePending (\<lambda>p.
              if bProgram then p\<lparr>mdProgramIntray := AList.update key v (mdProgramIntray p)\<rparr>
              else p\<lparr>mdNodesIntray := AList.update key v (mdNodesIntray p)\<rparr>) (multiWrite d)\<rparr>)
      else (case sqlExec C [InsertRows bProgram [(key, v)]] (dbRemote d) of
              (ok, r) \<Rightarrow> (if ok then Ret () else Fail ZKR_DB_ERROR, d\<lparr>dbRemote := r\<rparr>)))"

section \<open>Nodes\<close>

text \<open>A call repeated after a failure, at most \<open>n\<close> more times.\<close>

primrec retryP :: "nat \<Rightarrow> ('s, 'a) prog \<Rightarrow> ('s, 'a) prog" where
  "retryP 0 m = m"
| "retryP (Suc n) m = (\<lambda>s. case m s of (Fail e, t) \<Rightarrow> retryP n m t | r \<Rightarrow> r)"

definition retries :: "('e, 'r) DatabaseConfig \<Rightarrow> nat" where
  "retries C = (if dbReadRetryDelay C > 0 then dbReadRetryCounter C else 0)"

text \<open>
  The vector \<open>value\<close> of \<open>Database::read\<close> is given by the caller and read back by it; \<open>value0\<close> is what it
  holds at the call.  A cache that has the key assigns the vector and \<open>MultiWrite::findNode\<close> starts by
  clearing it, but \<open>string2fea\<close> pushes the elements of the server's row behind those that are there, and
  the whole vector goes to the cache and to the caller.
\<close>

definition dbReadRemote ::
  "('e, 'r) DatabaseConfig \<Rightarrow> string \<Rightarrow> 'e list \<Rightarrow> 'e list \<Rightarrow> bool \<Rightarrow> (('e, 'r) Database, 'e list) prog" where
  "dbReadRemote C key vkey value0 update d =
     (if useRemoteDB d
      then bindP (retryP (retries C) (readRemote C False key)) (\<lambda>sData.
           bindP (liftP (string2fea (cfFr C) sData)) (\<lambda>node.
           bindP (dbCacheAdd C key vkey (value0 @ node) update) (\<lambda>_. retP (value0 @ node)))) d
      else (Fail ZKR_DB_KEY_NOT_FOUND, d))"

text \<open>Whether the tree was read and its root is now in the cache.\<close>

definition dbReadTree ::
  "('e, 'r) DatabaseConfig \<Rightarrow> string \<Rightarrow> 'e list \<Rightarrow> (bool list \<times> nat) option
     \<Rightarrow> (('e, 'r) Database, 'e list option) prog" where
  "dbReadTree C key vkey tree d =
     (case tree of
        Some (keys, level) \<Rightarrow>
          if useRemoteDB d \<and> dbGetTree C
          then (case retryP (retries C) (readTreeRemote C key keys level) d of
                  (Ret _, d) \<Rightarrow> dbCacheFind C key vkey d
                | (Fail e, d) \<Rightarrow> (Ret None, d) | (Exit, d) \<Rightarrow> (Exit, d) | (Undef, d) \<Rightarrow> (Undef, d))
          else (Ret None, d)
      | None \<Rightarrow> (Ret None, d))"

definition dbRead ::
  "('e, 'r) DatabaseConfig \<Rightarrow> string \<Rightarrow> 'e list \<Rightarrow> 'e list \<Rightarrow> bool \<Rightarrow> (bool list \<times> nat) option
     \<Rightarrow> (('e, 'r) Database, 'e list) prog"
where
  "dbRead C key0 vkey value0 update tree =
     bindP initialisedP (\<lambda>_.
     bindP (normalKey key0) (\<lambda>key.
     bindP (dbCacheFind C key vkey) (\<lambda>r.
     case r of
       Some v \<Rightarrow> retP v
     | None \<Rightarrow> (\<lambda>d. case if dbMultiWrite C then findNode (cfFr C) (multiWrite d) key else None of
         Some v \<Rightarrow> bindP (dbCacheAdd C key vkey v False) (\<lambda>_. retP v) d
       | None \<Rightarrow> bindP (dbReadTree C key vkey tree) (\<lambda>r.
                   case r of Some v \<Rightarrow> retP v
                   | None \<Rightarrow> dbReadRemote C key vkey (if dbMultiWrite C then [] else value0) update) d))))"

definition dbWrite ::
  "('e, 'r) DatabaseConfig \<Rightarrow> string \<Rightarrow> 'e list option \<Rightarrow> 'e list \<Rightarrow> bool \<Rightarrow> (('e, 'r) Database, unit) prog"
where
  "dbWrite C key0 vkey v persistent =
     bindP initialisedP (\<lambda>_ d.
     bindP (guardP (\<not> (dbMultiWrite C \<and> \<not> (cacheEnabled (dbMTCache d) \<or> acEnabled (dbMTACache d)) \<and> \<not> persistent))
              ZKR_DB_ERROR) (\<lambda>_.
     bindP (normalKey key0) (\<lambda>key.
     bindP (if useRemoteDB d \<and> persistent
            then bindP (liftP (valueString (cfFr C) v)) (writeRemote C False key) else retP ()) (\<lambda>_ d.
     if cacheEnabled (dbMTCache d) \<or> acEnabled (dbMTACache d)
     then (if useAssociativeCache C
           then bindP (case vkey of None \<Rightarrow> liftP (string2fea4 (cfFr C) key) | Some k \<Rightarrow> retP k)
                  (\<lambda>vkeyf. dbAssociativeAdd C vkeyf v False)
           else dbListAdd C key v False) d
     else (Ret (), d)))) d)"

definition dbUpdateStateRoot :: "('e, 'r) DatabaseConfig \<Rightarrow> 'e list \<Rightarrow> (('e, 'r) Database, unit) prog" where
  "dbUpdateStateRoot C stateRoot =
     (let v = take 4 stateRoot @ replicate 8 (gl_zero (cfFr C))
      in bindP initialisedP (\<lambda>_ d.
         bindP (liftP (valueString (cfFr C) v)) (\<lambda>valueStr.
         bindP (if useRemoteDB d
                then if dbMultiWrite C
                     then modifyP (\<lambda>d. d\<lparr>multiWrite := updatePending (\<lambda>p. p\<lparr>mdStateRoot := valueStr\<rparr>) (multiWrite d)\<rparr>)
                     else (\<lambda>d. case sqlExec C [UpdateRow dbStateRootKey valueStr] (dbRemote d) of
                             (ok, r) \<Rightarrow> (if ok then Ret () else Fail ZKR_DB_ERROR, d\<lparr>dbRemote := r\<rparr>))
                else retP ()) (\<lambda>_ d.
         if cacheEnabled (dbMTCache d) \<or> acEnabled (dbMTACache d)
         then (if useAssociativeCache C then dbAssociativeAdd C (dbStateRootvKey C) v True
               else dbListAdd C dbStateRootKey v True) d
         else (Ret (), d))) d))"

section \<open>Programs\<close>

definition programAdd :: "('e, 'r) DatabaseConfig \<Rightarrow> string \<Rightarrow> u8 list \<Rightarrow> (('e, 'r) Database, unit) prog" where
  "programAdd C key v =
     modifyP (\<lambda>d. if cacheEnabled (dbProgramCache d)
                  then d\<lparr>dbProgramCache := snd (cacheAdd (programRecordSize C) key v False (dbProgramCache d))\<rparr> else d)"

definition dbSetProgram ::
  "('e, 'r) DatabaseConfig \<Rightarrow> string \<Rightarrow> u8 list \<Rightarrow> bool \<Rightarrow> (('e, 'r) Database, unit) prog" where
  "dbSetProgram C key0 v persistent =
     bindP initialisedP (\<lambda>_ d.
     bindP (normalKey key0) (\<lambda>key.
     bindP (if useRemoteDB d \<and> persistent
            then bindP (liftP (ba2string v)) (writeRemote C True key) else retP ()) (\<lambda>_.
     programAdd C key v)) d)"

definition dbGetProgram :: "('e, 'r) DatabaseConfig \<Rightarrow> string \<Rightarrow> (('e, 'r) Database, u8 list) prog" where
  "dbGetProgram C key0 =
     bindP initialisedP (\<lambda>_.
     bindP (normalKey key0) (\<lambda>key d0.
       case (if cacheEnabled (dbProgramCache d0) then cacheFind key (dbProgramCache d0)
             else (None, dbProgramCache d0)) of
         (Some v, c) \<Rightarrow> (Ret v, d0\<lparr>dbProgramCache := c\<rparr>)
       | (None, c) \<Rightarrow>
           (let d = d0\<lparr>dbProgramCache := c\<rparr>
            in bindP (liftP (if dbMultiWrite C then findProgram (multiWrite d) key else Ret None)) (\<lambda>r.
               case r of
                 Some v \<Rightarrow> retP v
               | None \<Rightarrow> if useRemoteDB d
                          then bindP (readRemote C True key) (\<lambda>sData.
                               bindP (liftP (string2ba sData)) (\<lambda>v.
                               bindP (programAdd C key v) (\<lambda>_. retP v)))
                          else failP ZKR_DB_KEY_NOT_FOUND) d)))"

section \<open>Flushing\<close>

text \<open>
  The two identifiers are output parameters that stay as they are when multi-write is off or the
  database is read only; waking the sender thread is not part of the state.
\<close>

definition dbFlush :: "('e, 'r) DatabaseConfig \<Rightarrow> (('e, 'r) Database, (nat \<times> nat) option) prog" where
  "dbFlush C d =
     (if \<not> dbMultiWrite C then (Ret None, d)
      else if dbReadOnly C then (Ret None, d\<lparr>multiWrite := updatePending (\<lambda>_. mdReset) (multiWrite d)\<rparr>)
      else (let m = updatePending acceptIntray (multiWrite d); m = m\<lparr>lastFlushId := lastFlushId m + 1\<rparr>
            in (Ret (Some (lastFlushId m, storedFlushId m)), d\<lparr>multiWrite := m\<rparr>)))"

definition dbSemiFlush :: "('e, 'r) DatabaseConfig \<Rightarrow> ('e, 'r) Database \<Rightarrow> ('e, 'r) Database" where
  "dbSemiFlush C d =
     (if dbMultiWrite C then d\<lparr>multiWrite := updatePending acceptIntray (multiWrite d)\<rparr> else d)"

definition dbClearCache :: "('e, 'r) Database \<Rightarrow> 'e AssocCache \<Rightarrow> ('e, 'r) Database" where
  "dbClearCache d cleared =
     d\<lparr>dbMTCache := cacheClear (dbMTCache d), dbProgramCache := cacheClear (dbProgramCache d),
       dbMTACache := (if acEnabled (dbMTACache d) then cleared else dbMTACache d)\<rparr>"

end
