(* ===== verification/Database_View.thy ===== *)
theory Database_View
  imports Database
begin

text \<open>
  What the database promises for nodes when a server is configured: a node is found as long as it is
  durable, that is in the multi-write buffers or in the server's table, whatever the cache does; the
  cache may forget nodes but never holds a wrong one (\<open>dbConsistent\<close>).  The server is described by
  \<open>remoteAnswers\<close>: a view of its table of nodes, and the answers that its documentation promises for
  SELECT, for the function \<open>get_tree\<close> and for INSERT ... ON CONFLICT DO NOTHING.
\<close>

section \<open>The server\<close>

definition canonical :: "u64 list \<Rightarrow> bool" where
  "canonical ws \<longleftrightarrow> (\<forall>w \<in> set ws. unat w < ScalarGoldilocksPrime)"

definition nodeDigits :: "u64 list \<Rightarrow> string" where
  "nodeDigits ws = concat (map wordDigits ws)"

definition hexPrefix :: string where
  "hexPrefix = [CHR 0x5C, CHR ''x'']"

definition remoteAnswers :: "('e, 'r) DatabaseConfig \<Rightarrow> ('r \<Rightarrow> string \<Rightarrow> u64 list option) \<Rightarrow> bool" where
  "remoteAnswers C rv \<longleftrightarrow>
     (\<forall>r k w. rv r k = Some w \<longrightarrow> canonical w \<and>
        (\<exists>h r'. sqlSelect C False k r = (Some [[h, hexPrefix @ nodeDigits w]], r') \<and> rv r' = rv r)) \<and>
     (\<forall>r k q rows r'. sqlGetTree C k q r = (rows, r') \<longrightarrow> rv r' = rv r \<and>
        (\<forall>rs. rows = Some rs \<longrightarrow> (\<forall>row \<in> set rs. \<forall>h d. treeRow (row ! 0) = Some (h, d) \<longrightarrow>
            (\<exists>w. d = nodeDigits w \<and> canonical w \<and> rv r h = Some w)))) \<and>
     (\<forall>r k w. canonical w \<longrightarrow> (\<exists>r'. sqlExec C [InsertRows False [(k, nodeDigits w)]] r = (True, r') \<and>
        rv r' = (if rv r k = None then (rv r)(k \<mapsto> w) else rv r)))"

section \<open>Durable nodes and a cache that does not lie\<close>

definition durable ::
  "('e, 'r) DatabaseConfig \<Rightarrow> ('r \<Rightarrow> string \<Rightarrow> u64 list option) \<Rightarrow> ('e, 'r) Database \<Rightarrow> string \<Rightarrow> u64 list option"
where
  "durable C rv d k =
     (case if dbMultiWrite C then findNode (cfFr C) (multiWrite d) k else None of
        Some v \<Rightarrow> Some (map (toU64 (cfFr C)) v)
      | None \<Rightarrow> rv (dbRemote d) k)"

definition truthful ::
  "('e, 'r) DatabaseConfig \<Rightarrow> (string \<Rightarrow> u64 list option) \<Rightarrow> 'e list DatabaseCache \<Rightarrow> bool" where
  "truthful C N c \<longleftrightarrow> wfCache c \<and>
     (\<forall>k v. k \<noteq> dbStateRootKey \<longrightarrow> cacheContent c k = Some v \<longrightarrow> N k = Some (map (toU64 (cfFr C)) v))"

definition dbConsistent ::
  "('e, 'r) DatabaseConfig \<Rightarrow> ('r \<Rightarrow> string \<Rightarrow> u64 list option) \<Rightarrow> ('e, 'r) Database \<Rightarrow> bool" where
  "dbConsistent C rv d \<longleftrightarrow> bInitialized d \<and> useRemoteDB d \<and> \<not> useAssociativeCache C \<and>
     truthful C (durable C rv d) (dbMTCache d) \<and>
     (\<forall>k w. rv (dbRemote d) k = Some w \<longrightarrow> k \<noteq> dbStateRootKey \<longrightarrow> durable C rv d k = Some w) \<and>
     pendingToFlushDataIndex (multiWrite d) < length (mwData (multiWrite d))"

lemma remoteAnswers_select:
  "remoteAnswers C rv \<Longrightarrow> rv r k = Some w \<Longrightarrow> canonical w \<and>
     (\<exists>h r'. sqlSelect C False k r = (Some [[h, hexPrefix @ nodeDigits w]], r') \<and> rv r' = rv r)"
  unfolding remoteAnswers_def by (elim conjE) simp

lemma remoteAnswers_tree:
  "remoteAnswers C rv \<Longrightarrow> sqlGetTree C k q r = (rows, r') \<Longrightarrow> rv r' = rv r \<and>
     (\<forall>rs. rows = Some rs \<longrightarrow> (\<forall>row \<in> set rs. \<forall>h d. treeRow (row ! 0) = Some (h, d) \<longrightarrow>
            (\<exists>w. d = nodeDigits w \<and> canonical w \<and> rv r h = Some w)))"
  unfolding remoteAnswers_def by (elim conjE) simp

lemma remoteAnswers_insert:
  "remoteAnswers C rv \<Longrightarrow> canonical w \<Longrightarrow>
     \<exists>r'. sqlExec C [InsertRows False [(k, nodeDigits w)]] r = (True, r') \<and>
        rv r' = (if rv r k = None then (rv r)(k \<mapsto> w) else rv r)"
  unfolding remoteAnswers_def by (elim conjE) simp

lemma truthful_add:
  assumes "truthful C N c" "k \<noteq> dbStateRootKey \<Longrightarrow> N k = Some (map (toU64 (cfFr C)) v)"
  shows "truthful C N (snd (cacheAdd sz k v update c))"
proof (cases "dcMaxSize c > 0")
  case True
  obtain full c' where c': "cacheAdd sz k v update c = (full, c')" by fastforce
  have wf: "wfCache c" using assms(1) by (simp add: truthful_def)
  note run = cacheAdd_run [OF wf True c'] and other = cacheAdd_other [OF wf True c']
  obtain w where w: "cacheContent c' k = Some w"
    "cacheContent c k \<noteq> None \<and> \<not> update \<longrightarrow> cacheContent c k = Some w"
    "cacheContent c k = None \<or> update \<longrightarrow> w = v" using run(3) by blast
  have "N k' = Some (map (toU64 (cfFr C)) x)"
    if "k' \<noteq> dbStateRootKey" "cacheContent c' k' = Some x" for k' x
  proof (cases "k' = k")
    case True
    then show ?thesis using w that assms by (auto simp: truthful_def)
  next
    case False
    then show ?thesis using other that assms(1) by (auto simp: truthful_def)
  qed
  then show ?thesis using run(1) c' by (simp add: truthful_def)
qed (use assms(1) in \<open>simp add: cacheAdd_def\<close>)

text \<open>Two states of the object with the same durable nodes.\<close>

definition sameDurable ::
  "('e, 'r) DatabaseConfig \<Rightarrow> ('r \<Rightarrow> string \<Rightarrow> u64 list option) \<Rightarrow> ('e, 'r) Database \<Rightarrow> ('e, 'r) Database \<Rightarrow> bool"
where
  "sameDurable C rv d d' \<longleftrightarrow> dbConsistent C rv d' \<and> multiWrite d' = multiWrite d \<and>
     rv (dbRemote d') = rv (dbRemote d)"

lemma sameDurable_view: "sameDurable C rv d d' \<Longrightarrow> durable C rv d' = durable C rv d"
  by (rule ext) (simp add: sameDurable_def durable_def split: option.split)

lemma sameDurable_trans: "sameDurable C rv d d' \<Longrightarrow> sameDurable C rv d' d'' \<Longrightarrow> sameDurable C rv d d''"
  by (simp add: sameDurable_def)

lemma sameDurable_refl: "dbConsistent C rv d \<Longrightarrow> sameDurable C rv d d"
  by (simp add: sameDurable_def)

lemma durable_cache: "durable C rv (d\<lparr>dbMTCache := c\<rparr>) = durable C rv d"
  by (rule ext) (simp add: durable_def split: option.split)

lemma durable_remote:
  "rv r = rv (dbRemote d) \<Longrightarrow> durable C rv (d\<lparr>dbRemote := r\<rparr>) = durable C rv d"
  by (rule ext) (simp add: durable_def split: option.split)

lemma sameDurable_cache:
  "dbConsistent C rv d \<Longrightarrow> truthful C (durable C rv d) c \<Longrightarrow> sameDurable C rv d (d\<lparr>dbMTCache := c\<rparr>)"
  by (simp add: sameDurable_def dbConsistent_def durable_cache)

lemma sameDurable_remote:
  "dbConsistent C rv d \<Longrightarrow> rv r = rv (dbRemote d) \<Longrightarrow> sameDurable C rv d (d\<lparr>dbRemote := r\<rparr>)"
  by (simp add: sameDurable_def dbConsistent_def durable_remote)

section \<open>Reading\<close>

lemma dbCacheFind_run:
  assumes "dbConsistent C rv d" "k \<noteq> dbStateRootKey"
  shows "\<exists>r d'. dbCacheFind C k vkey d = (Ret r, d') \<and> sameDurable C rv d d' \<and>
     (\<forall>v. r = Some v \<longrightarrow> durable C rv d k = Some (map (toU64 (cfFr C)) v))"
proof (cases "cacheEnabled (dbMTCache d)")
  case True
  obtain r c where c: "cacheFind k (dbMTCache d) = (r, c)" by fastforce
  have t: "truthful C (durable C rv d) (dbMTCache d)" using assms(1) by (simp add: dbConsistent_def)
  then have wf: "wfCache (dbMTCache d)" by (simp add: truthful_def)
  note run = cacheFind_run [OF wf c]
  have "truthful C (durable C rv d) c" using t run(1,3) by (simp add: truthful_def)
  moreover have "dbCacheFind C k vkey d = (Ret r, d\<lparr>dbMTCache := c\<rparr>)"
    using assms True c by (simp add: dbCacheFind_def dbConsistent_def)
  moreover have "r = Some v \<Longrightarrow> durable C rv d k = Some (map (toU64 (cfFr C)) v)" for v
    using t assms(2) run(2) [of v] by (simp add: truthful_def)
  ultimately show ?thesis using sameDurable_cache [OF assms(1)] by blast
next
  case False
  then show ?thesis using assms by (simp add: dbCacheFind_def dbConsistent_def sameDurable_def)
qed

lemma dbListAdd_run:
  assumes "dbConsistent C rv d" "k \<noteq> dbStateRootKey \<Longrightarrow> durable C rv d k = Some (map (toU64 (cfFr C)) v)"
  shows "\<exists>d'. dbListAdd C k v update d = (Ret (), d') \<and> sameDurable C rv d d'"
proof -
  have "truthful C (durable C rv d) (snd (cacheAdd (nodeRecordSize C) k v update (dbMTCache d)))"
    using assms by (intro truthful_add) (auto simp: dbConsistent_def)
  then show ?thesis using sameDurable_cache [OF assms(1)] by (simp add: dbListAdd_def modifyP_def)
qed

lemma dbCacheAdd_run:
  assumes "dbConsistent C rv d" "k \<noteq> dbStateRootKey \<Longrightarrow> durable C rv d k = Some (map (toU64 (cfFr C)) v)"
  shows "\<exists>d'. dbCacheAdd C k vkey v update d = (Ret (), d') \<and> sameDurable C rv d d'"
proof (cases "cacheEnabled (dbMTCache d)")
  case True
  then show ?thesis using dbListAdd_run [OF assms] assms(1) by (auto simp: dbCacheAdd_def dbConsistent_def)
next
  case False
  then show ?thesis
    using assms(1) sameDurable_refl [OF assms(1)] by (auto simp: dbCacheAdd_def dbConsistent_def)
qed

context goldilocks begin

lemma canonical_map: "canonical (map (toU64 fr) v)"
  using toU64_less by (auto simp: canonical_def)

lemma canonical_words: "canonical w \<Longrightarrow> \<exists>v. map (toU64 fr) v = w"
  by (rule exI [of _ "map (fromU64 fr) w"])
    (auto simp: canonical_def intro!: map_idI toU64_fromU64_less)

lemma nodeDigits_map: "nodeDigits (map (toU64 fr) v) = concat (map (\<lambda>x. wordDigits (toU64 fr x)) v)"
  by (simp add: nodeDigits_def comp_def)

lemma string2fea_nodeDigits:
  assumes "canonical w"
  shows "\<exists>v. string2fea fr (nodeDigits w) = Ret v \<and> map (toU64 fr) v = w"
proof -
  obtain v where v: "w = map (toU64 fr) v" using canonical_words [OF assms] by blast
  then show ?thesis using string2fea_digits [of v] nodeDigits_map by simp
qed

lemma hexValue_fs: "hexValue (replicate n CHR ''f'') + 1 = 16 ^ n"
proof (induction n)
  case (Suc n)
  have "hexValue (replicate (Suc n) CHR ''f'') = hexValue (replicate n CHR ''f'') * 16 + 15"
    unfolding replicate_Suc replicate_append_same [symmetric] by (simp add: hexValue_def)
  then show ?case using Suc by simp
qed (simp add: hexValue_def)

lemma keystr_not_root: "length h = 4 \<Longrightarrow> keystr (map (toU64 fr) h) \<noteq> dbStateRootKey"
proof
  assume h: "length h = 4" and eq: "keystr (map (toU64 fr) h) = dbStateRootKey"
  have "hexValue (keystr (map (toU64 fr) h)) = words2nat (map (toU64 fr) h)"
    by (simp add: keystr_def Let_def)
  moreover have "hexValue dbStateRootKey = 2 ^ 256 - 1"
    using hexValue_fs [of 64] by (simp add: dbStateRootKey_def)
  ultimately have e: "words2nat (map (toU64 fr) h) = 2 ^ 256 - 1" using eq by simp
  have "words2nat (map (toU64 fr) h) mod 2 ^ 64 = unat (toU64 fr (h ! 0)) mod 2 ^ 64"
    unfolding words2nat_def mod_mult_self3 using h by simp
  then have "unat (toU64 fr (h ! 0)) mod 2 ^ 64 = 2 ^ 64 - 1" unfolding e by simp
  moreover have "unat (toU64 fr (h ! 0)) < 2 ^ 64 - 1"
    using toU64_less [of "h ! 0"] by (simp add: ScalarGoldilocksPrime_def)
  ultimately show False by simp
qed

end

lemma readRemote_run:
  assumes "remoteAnswers C rv" "dbConsistent C rv d" "rv (dbRemote d) k = Some w"
  shows "\<exists>d'. retryP n (readRemote C False k) d = (Ret (nodeDigits w), d') \<and> sameDurable C rv d d'"
proof -
  obtain h r where r: "sqlSelect C False k (dbRemote d) = (Some [[h, hexPrefix @ nodeDigits w]], r)"
    "rv r = rv (dbRemote d)"
    using remoteAnswers_select [OF assms(1,3)] by blast
  then have "readRemote C False k d = (Ret (nodeDigits w), d\<lparr>dbRemote := r\<rparr>)"
    by (simp add: readRemote_def removeBSXIfExists_def hexPrefix_def)
  then have "retryP n (readRemote C False k) d = (Ret (nodeDigits w), d\<lparr>dbRemote := r\<rparr>)"
    by (cases n) simp_all
  then show ?thesis using sameDurable_remote [OF assms(2) r(2)] by blast
qed

text \<open>A tree row that is accepted is a node of the table, and putting it into the cache is harmless.\<close>

definition harmless ::
  "('e, 'r) DatabaseConfig \<Rightarrow> ('r \<Rightarrow> string \<Rightarrow> u64 list option) \<Rightarrow> (('e, 'r) Database, unit) prog \<Rightarrow> bool" where
  "harmless C rv m \<longleftrightarrow> (\<forall>d. dbConsistent C rv d \<longrightarrow>
     (\<exists>r d'. m d = (r, d') \<and> (r = Ret () \<or> (\<exists>e. r = Fail e)) \<and> sameDurable C rv d d'))"

lemma harmless_retry: "harmless C rv m \<Longrightarrow> harmless C rv (retryP n m)"
proof (induction n)
  case (Suc n)
  show ?case unfolding harmless_def
  proof (intro allI impI)
    fix d
    assume d: "dbConsistent C rv d"
    obtain r d' where m: "m d = (r, d')" "r = Ret () \<or> (\<exists>e. r = Fail e)" "sameDurable C rv d d'"
      using Suc.prems d unfolding harmless_def by blast
    then have c: "dbConsistent C rv d'" by (simp add: sameDurable_def)
    obtain r2 d2 where r2: "retryP n m d' = (r2, d2)" "r2 = Ret () \<or> (\<exists>e. r2 = Fail e)" "sameDurable C rv d' d2"
      using Suc.IH [OF Suc.prems] c unfolding harmless_def by blast
    show "\<exists>r d'. retryP (Suc n) m d = (r, d') \<and> (r = Ret () \<or> (\<exists>e. r = Fail e)) \<and> sameDurable C rv d d'"
      using m r2 sameDurable_trans [OF m(3) r2(3)] by auto
  qed
qed simp

lemma harmless_foldP:
  "(\<And>row d. row \<in> set rows \<Longrightarrow> dbConsistent C rv d \<Longrightarrow> rv (dbRemote d) = N \<Longrightarrow>
      \<exists>r d'. f row d = (r, d') \<and> (r = Ret () \<or> (\<exists>e. r = Fail e)) \<and> sameDurable C rv d d') \<Longrightarrow>
   dbConsistent C rv d \<Longrightarrow> rv (dbRemote d) = N \<Longrightarrow>
   \<exists>r d'. foldP (\<lambda>row _. f row) rows () d = (r, d') \<and> (r = Ret () \<or> (\<exists>e. r = Fail e)) \<and> sameDurable C rv d d'"
proof (induction rows arbitrary: d)
  case Nil
  then show ?case using sameDurable_refl by (simp add: retP_def)
next
  case (Cons row rows)
  obtain r d1 where r: "f row d = (r, d1)" "r = Ret () \<or> (\<exists>e. r = Fail e)" "sameDurable C rv d d1"
    using Cons.prems(1) [of row d] Cons.prems(2,3) by auto
  have d1: "dbConsistent C rv d1" "rv (dbRemote d1) = N" using r(3) Cons.prems(3) by (simp_all add: sameDurable_def)
  obtain r2 d2 where r2: "foldP (\<lambda>row _. f row) rows () d1 = (r2, d2)" "r2 = Ret () \<or> (\<exists>e. r2 = Fail e)"
    "sameDurable C rv d1 d2"
    using Cons.IH [OF _ d1] Cons.prems(1) by auto
  show ?case
    using r r2 sameDurable_trans [OF r(3) r2(3)] by (auto simp: bindP_def)
qed

lemma readTreeRow_run:
  assumes fr: "goldilocks (cfFr C)" and d: "dbConsistent C rv d"
    and row: "\<And>h s. treeRow (row ! 0) = Some (h, s) \<Longrightarrow>
      \<exists>w. s = nodeDigits w \<and> canonical w \<and> rv (dbRemote d) h = Some w"
  shows "\<exists>r d'. readTreeRow C row d = (r, d') \<and> (r = Ret () \<or> (\<exists>e. r = Fail e)) \<and> sameDurable C rv d d'"
proof (cases "length row \<noteq> 1 \<or> treeRow (row ! 0) = None")
  case True
  then show ?thesis using sameDurable_refl [OF d] by (auto simp: readTreeRow_def failP_def)
next
  case False
  then obtain h s where s: "treeRow (row ! 0) = Some (h, s)" by auto
  obtain w where w: "s = nodeDigits w" "canonical w" "rv (dbRemote d) h = Some w" using row [OF s] by blast
  obtain v where v: "string2fea (cfFr C) s = Ret v" "map (toU64 (cfFr C)) v = w"
    using goldilocks.string2fea_nodeDigits [OF fr w(2)] w(1) by blast
  have "h \<noteq> dbStateRootKey \<Longrightarrow> durable C rv d h = Some (map (toU64 (cfFr C)) v)"
    using w(3) v(2) d by (simp add: dbConsistent_def)
  then obtain d' where d': "dbListAdd C h v False d = (Ret (), d')" "sameDurable C rv d d'"
    using dbListAdd_run [OF d, of h v False] by blast
  have "\<not> useAssociativeCache C" using d by (simp add: dbConsistent_def)
  then show ?thesis
    using False s v(1) d' sameDurable_refl [OF d]
    by (cases "cacheEnabled (dbMTCache d) \<or> acEnabled (dbMTACache d)")
      (auto simp: readTreeRow_def bindP_def liftP_def)
qed

lemma readTreeRemote_harmless:
  assumes "remoteAnswers C rv" "goldilocks (cfFr C)"
  shows "harmless C rv (readTreeRemote C k keys level)"
  unfolding harmless_def
proof (intro allI impI)
  fix d
  assume d: "dbConsistent C rv d"
  obtain rows r where q: "sqlGetTree C k (treeKey keys level) (dbRemote d) = (rows, r)" by fastforce
  note a = remoteAnswers_tree [OF assms(1) q]
  let ?d = "d\<lparr>dbRemote := r\<rparr>"
  have same: "sameDurable C rv d ?d" using sameDurable_remote [OF d] a by blast
  then have d1: "dbConsistent C rv ?d" by (simp add: sameDurable_def)
  show "\<exists>r d'. readTreeRemote C k keys level d = (r, d') \<and> (r = Ret () \<or> (\<exists>e. r = Fail e)) \<and> sameDurable C rv d d'"
  proof (cases rows)
    case None
    then show ?thesis using q same by (simp add: readTreeRemote_def)
  next
    case (Some rs)
    have row: "\<exists>r d'. readTreeRow C row d0 = (r, d') \<and> (r = Ret () \<or> (\<exists>e. r = Fail e)) \<and> sameDurable C rv d0 d'"
      if "row \<in> set rs" "dbConsistent C rv d0" "rv (dbRemote d0) = rv r" for row d0
    proof (rule readTreeRow_run [OF assms(2) that(2)])
      fix h s
      assume "treeRow (row ! 0) = Some (h, s)"
      then show "\<exists>w. s = nodeDigits w \<and> canonical w \<and> rv (dbRemote d0) h = Some w"
        using a [THEN conjunct2, rule_format, OF Some that(1)] a that(3) by simp
    qed
    have "rv (dbRemote ?d) = rv r" by simp
    note fold = harmless_foldP [of rs C rv "rv r" "readTreeRow C" ?d, OF row d1 this]
    then obtain r' d' where f: "foldP (\<lambda>row _. readTreeRow C row) rs () ?d = (r', d')"
      "r' = Ret () \<or> (\<exists>e. r' = Fail e)" "sameDurable C rv ?d d'" by blast
    have "readTreeRemote C k keys level d = (r', d')" using q Some f(1) by (simp add: readTreeRemote_def)
    then show ?thesis using f(2) sameDurable_trans [OF same f(3)] by blast
  qed
qed

text \<open>
  A durable node is read, whatever the cache and the tree query do, when the vector to be filled is empty
  or multi-write is on, so that \<open>findNode\<close> has emptied it.
\<close>

lemma dbReadRemote_run:
  assumes "remoteAnswers C rv" "goldilocks (cfFr C)" "dbConsistent C rv d" "k \<noteq> dbStateRootKey"
    "rv (dbRemote d) k = Some w"
  shows "\<exists>v d'. dbReadRemote C k vkey [] update d = (Ret v, d') \<and> sameDurable C rv d d' \<and> map (toU64 (cfFr C)) v = w"
proof -
  obtain d1 where d1: "retryP (retries C) (readRemote C False k) d = (Ret (nodeDigits w), d1)" "sameDurable C rv d d1"
    using readRemote_run [OF assms(1,3,5)] by blast
  obtain v where v: "string2fea (cfFr C) (nodeDigits w) = Ret v" "map (toU64 (cfFr C)) v = w"
    using goldilocks.string2fea_nodeDigits [OF assms(2)] remoteAnswers_select [OF assms(1,5)] by blast
  have c1: "dbConsistent C rv d1" "rv (dbRemote d1) k = Some w" using d1(2) assms(5) by (simp_all add: sameDurable_def)
  then have "durable C rv d1 k = Some (map (toU64 (cfFr C)) v)"
    using assms(4) v(2) by (simp add: dbConsistent_def)
  then obtain d2 where d2: "dbCacheAdd C k vkey v update d1 = (Ret (), d2)" "sameDurable C rv d1 d2"
    using dbCacheAdd_run [OF c1(1)] by blast
  have "useRemoteDB d" using assms(3) by (simp add: dbConsistent_def)
  then show ?thesis
    using d1(1) d2(1) v sameDurable_trans [OF d1(2) d2(2)]
    by (simp add: dbReadRemote_def bindP_def liftP_def retP_def)
qed

lemma dbReadTree_run:
  assumes "remoteAnswers C rv" "goldilocks (cfFr C)" "dbConsistent C rv d" "k \<noteq> dbStateRootKey"
  shows "\<exists>r d'. dbReadTree C k vkey tree d = (Ret r, d') \<and> sameDurable C rv d d' \<and>
     (\<forall>v. r = Some v \<longrightarrow> durable C rv d k = Some (map (toU64 (cfFr C)) v))"
proof (cases "tree = None \<or> \<not> dbGetTree C \<or> \<not> useRemoteDB d")
  case True
  then show ?thesis
    using sameDurable_refl [OF assms(3)] by (auto simp: dbReadTree_def split: option.splits prod.splits)
next
  case False
  then obtain keys level where t: "tree = Some (keys, level)" by auto
  obtain r d1 where r: "retryP (retries C) (readTreeRemote C k keys level) d = (r, d1)"
    "r = Ret () \<or> (\<exists>e. r = Fail e)" "sameDurable C rv d d1"
    using harmless_retry [OF readTreeRemote_harmless [OF assms(1,2)]] assms(3) unfolding harmless_def by blast
  show ?thesis
  proof (cases "r = Ret ()")
    case True
    have c1: "dbConsistent C rv d1" using r(3) by (simp add: sameDurable_def)
    obtain x d2 where d2: "dbCacheFind C k vkey d1 = (Ret x, d2)" "sameDurable C rv d1 d2"
      "\<forall>v. x = Some v \<longrightarrow> durable C rv d1 k = Some (map (toU64 (cfFr C)) v)"
      using dbCacheFind_run [OF c1 assms(4)] by blast
    then show ?thesis
      using False t True r(1) sameDurable_trans [OF r(3) d2(2)] sameDurable_view [OF r(3)]
      by (simp add: dbReadTree_def)
  next
    case False
    then show ?thesis
      using r t by (cases "useRemoteDB d \<and> dbGetTree C") (auto simp: dbReadTree_def sameDurable_refl [OF assms(3)])
  qed
qed

lemma dbRead_run:
  assumes "remoteAnswers C rv" "goldilocks (cfFr C)" "dbConsistent C rv d"
    "keystr ws \<noteq> dbStateRootKey" "durable C rv d (keystr ws) = Some w" "dbMultiWrite C \<or> value0 = []"
  shows "\<exists>v d'. dbRead C (keystr ws) vkey value0 update tree d = (Ret v, d') \<and> sameDurable C rv d d' \<and>
     map (toU64 (cfFr C)) v = w"
proof -
  let ?k = "keystr ws"
  have init: "bInitialized d" using assms(3) by (simp add: dbConsistent_def)
  obtain r d1 where d1: "dbCacheFind C ?k vkey d = (Ret r, d1)" "sameDurable C rv d d1"
    "\<forall>v. r = Some v \<longrightarrow> durable C rv d ?k = Some (map (toU64 (cfFr C)) v)"
    using dbCacheFind_run [OF assms(3,4)] by blast
  have c1: "dbConsistent C rv d1" and w1: "durable C rv d1 ?k = Some w"
    using d1(2) sameDurable_view [OF d1(2)] assms(5) by (simp_all add: sameDurable_def)
  show ?thesis
  proof (cases r)
    case (Some v)
    then show ?thesis using d1 init assms(5) by (simp add: dbRead_def bindP_def initialisedP_def retP_def)
  next
    case None
    let ?m = "if dbMultiWrite C then findNode (cfFr C) (multiWrite d1) ?k else None"
    show ?thesis
    proof (cases ?m)
      case (Some v)
      then have v: "map (toU64 (cfFr C)) v = w" using w1 by (simp add: durable_def)
      then obtain d2 where d2: "dbCacheAdd C ?k vkey v False d1 = (Ret (), d2)" "sameDurable C rv d1 d2"
        using dbCacheAdd_run [OF c1, of ?k v] w1 by blast
      then show ?thesis
        using d1 init None Some v sameDurable_trans [OF d1(2) d2(2)]
        by (simp add: dbRead_def bindP_def initialisedP_def retP_def)
    next
      case no: None
      then have remote: "rv (dbRemote d1) ?k = Some w" using w1 by (simp add: durable_def)
      obtain x d2 where d2: "dbReadTree C ?k vkey tree d1 = (Ret x, d2)" "sameDurable C rv d1 d2"
        "\<forall>v. x = Some v \<longrightarrow> durable C rv d1 ?k = Some (map (toU64 (cfFr C)) v)"
        using dbReadTree_run [OF assms(1,2) c1 assms(4)] by blast
      have c2: "dbConsistent C rv d2" "rv (dbRemote d2) ?k = Some w" using d2(2) remote by (simp_all add: sameDurable_def)
      show ?thesis
      proof (cases x)
        case (Some v)
        then show ?thesis
          using d1 d2 init None no w1 sameDurable_trans [OF d1(2) d2(2)]
          by (simp add: dbRead_def bindP_def initialisedP_def retP_def)
      next
        case none: None
        have empty: "(if dbMultiWrite C then [] else value0) = []" using assms(6) by auto
        obtain v d3 where d3: "dbReadRemote C ?k vkey [] update d2 = (Ret v, d3)" "sameDurable C rv d2 d3"
          "map (toU64 (cfFr C)) v = w"
          using dbReadRemote_run [OF assms(1,2) c2(1) assms(4) c2(2)] by blast
        then show ?thesis
          using d1(1) d2(1) init None no none empty sameDurable_trans [OF d1(2) sameDurable_trans [OF d2(2) d3(2)]]
          by (simp add: dbRead_def bindP_def initialisedP_def retP_def)
      qed
    qed
  qed
qed

text \<open>
  With direct inserts nothing empties the vector: a node that only the server has is read behind the
  elements the vector held before.
\<close>

lemma dbRead_direct:
  assumes "remoteAnswers C rv" "goldilocks (cfFr C)" "bInitialized d" "useRemoteDB d" "\<not> useAssociativeCache C"
    "\<not> dbMultiWrite C" "cacheEnabled (dbMTCache d) \<Longrightarrow> cacheContent (dbMTCache d) (keystr ws) = None"
    "wfCache (dbMTCache d)" "rv (dbRemote d) (keystr ws) = Some w"
  shows "\<exists>v d'. dbRead C (keystr ws) vkey value0 update None d = (Ret (value0 @ v), d') \<and> map (toU64 (cfFr C)) v = w \<and>
     (cacheEnabled (dbMTCache d) \<longrightarrow> cacheContent (dbMTCache d') (keystr ws) = Some (value0 @ v))"
proof -
  let ?k = "keystr ws"
  obtain d1 where d1: "dbCacheFind C ?k vkey d = (Ret None, d1)" "dbRemote d1 = dbRemote d" "useRemoteDB d1"
    "wfCache (dbMTCache d1)" "cacheContent (dbMTCache d1) = cacheContent (dbMTCache d)"
    "dcMaxSize (dbMTCache d1) = dcMaxSize (dbMTCache d)"
  proof (cases "cacheEnabled (dbMTCache d)")
    case True
    obtain r c where c: "cacheFind ?k (dbMTCache d) = (r, c)" by fastforce
    have "r = None" using cacheFind_run(2) [OF assms(8) c] assms(7) [OF True] by (cases r) auto
    then show ?thesis
      using that [of "d\<lparr>dbMTCache := c\<rparr>"] True c assms(4,5) cacheFind_run [OF assms(8) c] by (simp add: dbCacheFind_def)
  qed (use that [of d] assms(4,5,8) in \<open>simp add: dbCacheFind_def\<close>)
  obtain h r where r: "sqlSelect C False ?k (dbRemote d1) = (Some [[h, hexPrefix @ nodeDigits w]], r)" "canonical w"
    using remoteAnswers_select [OF assms(1,9)] d1(2) by auto
  have "readRemote C False ?k d1 = (Ret (nodeDigits w), d1\<lparr>dbRemote := r\<rparr>)"
    using r(1) by (simp add: readRemote_def removeBSXIfExists_def hexPrefix_def)
  then have read: "retryP n (readRemote C False ?k) d1 = (Ret (nodeDigits w), d1\<lparr>dbRemote := r\<rparr>)" for n
    by (cases n) simp_all
  obtain v where v: "string2fea (cfFr C) (nodeDigits w) = Ret v" "map (toU64 (cfFr C)) v = w"
    using goldilocks.string2fea_nodeDigits [OF assms(2) r(2)] by blast
  obtain d2 where d2: "dbCacheAdd C ?k vkey (value0 @ v) update (d1\<lparr>dbRemote := r\<rparr>) = (Ret (), d2)"
    "cacheEnabled (dbMTCache d) \<longrightarrow> cacheContent (dbMTCache d2) ?k = Some (value0 @ v)"
  proof (cases "cacheEnabled (dbMTCache d)")
    case True
    then have pos: "dcMaxSize (dbMTCache d1) > 0" and none: "cacheContent (dbMTCache d1) ?k = None"
      using d1(5,6) assms(7) by (simp_all add: cacheEnabled_def)
    obtain full c where c: "cacheAdd (nodeRecordSize C) ?k (value0 @ v) update (dbMTCache d1) = (full, c)" by fastforce
    have "cacheContent c ?k = Some (value0 @ v)" using cacheAdd_run(3) [OF d1(4) pos c] none by auto
    then show ?thesis
      using that [of "d1\<lparr>dbRemote := r, dbMTCache := c\<rparr>"] c pos assms(5)
      by (simp add: dbCacheAdd_def dbListAdd_def modifyP_def cacheEnabled_def)
  next
    case False
    then show ?thesis
      using that [of "d1\<lparr>dbRemote := r\<rparr>"] d1(6) assms(5) by (simp add: dbCacheAdd_def cacheEnabled_def)
  qed
  then have "dbReadRemote C ?k vkey value0 update d1 = (Ret (value0 @ v), d2)"
    using d1(3) read v(1) by (simp add: dbReadRemote_def bindP_def liftP_def retP_def)
  then show ?thesis
    using d1(1) v(2) d2(2) assms(3,6)
    by (simp add: dbRead_def bindP_def initialisedP_def dbReadTree_def)
qed

section \<open>Writing\<close>

text \<open>A persistent write makes the node durable; an earlier write of the key stays.\<close>

lemma map_of_update: "map_of (AList.update k v m) = (map_of m)(k \<mapsto> v)"
  by (rule update_conv')

lemma findNode_intray:
  assumes "goldilocks fr" "pendingToFlushDataIndex m < length (mwData m)"
    and m'_def: "m' = updatePending
      (\<lambda>p. p\<lparr>mdNodesIntray := AList.update k (nodeDigits (map (toU64 fr) v)) (mdNodesIntray p)\<rparr>) m"
  shows "k' \<noteq> k \<Longrightarrow> findNode fr m' k' = findNode fr m k'"
    "\<exists>x. findNode fr m' k = Some x \<and> (findNode fr m k = Some x \<or> map (toU64 fr) x = map (toU64 fr) v)"
proof -
  let ?s = "nodeDigits (map (toU64 fr) v)"
  have p: "mdNodes (pendingData m') = mdNodes (pendingData m)"
    "mdNodesIntray (pendingData m') = AList.update k ?s (mdNodesIntray (pendingData m))"
    "storingFlushId m' = storingFlushId m" "storedFlushId m' = storedFlushId m"
    using assms(2) by (simp_all add: m'_def updatePending_def pendingData_def)
  have s: "mdNodes (storingData m') = mdNodes (storingData m)"
    using assms(2)
    by (cases "storingDataIndex m = pendingToFlushDataIndex m")
      (simp_all add: m'_def updatePending_def storingData_def)
  have n: "nodeIn fr (AList.update k ?s l) k' = nodeIn fr l k'" if "k' \<noteq> k" for l k'
    using that by (simp add: nodeIn_def map_of_update)
  show "k' \<noteq> k \<Longrightarrow> findNode fr m' k' = findNode fr m k'"
    by (simp add: findNode_def p s n split: option.split)
  have "length ?s mod 16 = 0"
    using goldilocks.length_digits [OF assms(1)] goldilocks.nodeDigits_map [OF assms(1)] by simp
  then have "nodeIn fr (AList.update k ?s l) k = Some (nodeOfString fr ?s)" for l
    by (simp add: nodeIn_def map_of_update)
  moreover have "map (toU64 fr) (nodeOfString fr ?s) = map (toU64 fr) v"
    using goldilocks.nodeOfString_digits [OF assms(1)] goldilocks.nodeDigits_map [OF assms(1)] by simp
  ultimately show "\<exists>x. findNode fr m' k = Some x \<and> (findNode fr m k = Some x \<or> map (toU64 fr) x = map (toU64 fr) v)"
    by (cases "nodeIn fr (mdNodes (pendingData m)) k") (simp_all add: findNode_def p)
qed

lemma writeRemote_run:
  assumes "remoteAnswers C rv" "goldilocks (cfFr C)" "dbConsistent C rv d" "k \<noteq> dbStateRootKey"
    "durable C rv d k = None \<or> durable C rv d k = Some (map (toU64 (cfFr C)) v)"
  shows "\<exists>d'. writeRemote C False k (nodeDigits (map (toU64 (cfFr C)) v)) d = (Ret (), d') \<and>
     dbConsistent C rv d' \<and> durable C rv d' = (durable C rv d)(k \<mapsto> map (toU64 (cfFr C)) v) \<and>
     dbMTCache d' = dbMTCache d \<and> dbMTACache d' = dbMTACache d"
proof -
  let ?w = "map (toU64 (cfFr C)) v"
  obtain d' where d': "writeRemote C False k (nodeDigits ?w) d = (Ret (), d')"
    "durable C rv d' = (durable C rv d)(k \<mapsto> ?w)" "dbMTCache d' = dbMTCache d" "dbMTACache d' = dbMTACache d"
    "bInitialized d' = bInitialized d" "useRemoteDB d' = useRemoteDB d"
    "pendingToFlushDataIndex (multiWrite d') = pendingToFlushDataIndex (multiWrite d)"
    "length (mwData (multiWrite d')) = length (mwData (multiWrite d))"
    "\<forall>k' w. rv (dbRemote d') k' = Some w \<longrightarrow> rv (dbRemote d) k' = Some w \<or> k' = k \<and> w = ?w"
  proof (cases "dbMultiWrite C")
    case True
    let ?m = "updatePending (\<lambda>p. p\<lparr>mdNodesIntray := AList.update k (nodeDigits ?w) (mdNodesIntray p)\<rparr>) (multiWrite d)"
    have idx: "pendingToFlushDataIndex (multiWrite d) < length (mwData (multiWrite d))"
      using assms(3) by (simp add: dbConsistent_def)
    note f = findNode_intray [OF assms(2) idx refl]
    have "durable C rv (d\<lparr>multiWrite := ?m\<rparr>) = (durable C rv d)(k \<mapsto> ?w)"
    proof
      fix k'
      show "durable C rv (d\<lparr>multiWrite := ?m\<rparr>) k' = ((durable C rv d)(k \<mapsto> ?w)) k'"
      proof (cases "k' = k")
        case True
        obtain x where x: "findNode (cfFr C) ?m k = Some x"
          "findNode (cfFr C) (multiWrite d) k = Some x \<or> map (toU64 (cfFr C)) x = ?w" using f(2) by blast
        have "map (toU64 (cfFr C)) x = ?w"
          using x(2) assms(5) \<open>dbMultiWrite C\<close> by (auto simp: durable_def)
        then show ?thesis using True x(1) \<open>dbMultiWrite C\<close> by (simp add: durable_def)
      qed (use f(1) in \<open>simp add: durable_def split: option.split\<close>)
    qed
    moreover have "writeRemote C False k (nodeDigits ?w) d = (Ret (), d\<lparr>multiWrite := ?m\<rparr>)"
      using True by (simp add: writeRemote_def)
    ultimately show ?thesis using that by (simp add: updatePending_def)
  next
    case False
    obtain r where r: "sqlExec C [InsertRows False [(k, nodeDigits ?w)]] (dbRemote d) = (True, r)"
      "rv r = (if rv (dbRemote d) k = None then (rv (dbRemote d))(k \<mapsto> ?w) else rv (dbRemote d))"
      using remoteAnswers_insert [OF assms(1) goldilocks.canonical_map [OF assms(2)]] by blast
    have "durable C rv (d\<lparr>dbRemote := r\<rparr>) = (durable C rv d)(k \<mapsto> ?w)"
      using r(2) False assms(5) by (auto simp: durable_def fun_eq_iff split: if_splits)
    moreover have "writeRemote C False k (nodeDigits ?w) d = (Ret (), d\<lparr>dbRemote := r\<rparr>)"
      using False r(1) by (simp add: writeRemote_def)
    ultimately show ?thesis using that r(2) by (auto split: if_splits)
  qed
  have le: "durable C rv d k' = Some w \<Longrightarrow> durable C rv d' k' = Some w" for k' w
    using assms(5) d'(2) by auto
  have "truthful C (durable C rv d') (dbMTCache d')"
    using assms(3) le d'(3) by (auto simp: dbConsistent_def truthful_def)
  moreover have "\<forall>k' w. rv (dbRemote d') k' = Some w \<longrightarrow> k' \<noteq> dbStateRootKey \<longrightarrow> durable C rv d' k' = Some w"
  proof (intro allI impI)
    fix k' w
    assume a: "rv (dbRemote d') k' = Some w" "k' \<noteq> dbStateRootKey"
    then consider "rv (dbRemote d) k' = Some w" | "k' = k" "w = ?w" using d'(9) by blast
    then show "durable C rv d' k' = Some w"
    proof cases
      case 1
      then show ?thesis using assms(3) a(2) le by (simp add: dbConsistent_def)
    qed (use d'(2) in simp)
  qed
  ultimately have "dbConsistent C rv d'" using assms(3) d'(5-8) by (simp add: dbConsistent_def)
  then show ?thesis using d'(1-4) by blast
qed

lemma dbWrite_run:
  assumes "remoteAnswers C rv" "goldilocks (cfFr C)" "dbConsistent C rv d" "keystr ws \<noteq> dbStateRootKey"
    "durable C rv d (keystr ws) = None \<or> durable C rv d (keystr ws) = Some (map (toU64 (cfFr C)) v)"
  shows "\<exists>d'. dbWrite C (keystr ws) vkey v True d = (Ret (), d') \<and> dbConsistent C rv d' \<and>
     durable C rv d' = (durable C rv d)(keystr ws \<mapsto> map (toU64 (cfFr C)) v)"
proof -
  let ?k = "keystr ws" and ?w = "map (toU64 (cfFr C)) v"
  have flags: "bInitialized d" "useRemoteDB d" "\<not> useAssociativeCache C"
    using assms(3) by (simp_all add: dbConsistent_def)
  have s: "valueString (cfFr C) v = Ret (nodeDigits ?w)"
    using goldilocks.valueString_eq [OF assms(2)] goldilocks.nodeDigits_map [OF assms(2)] by simp
  obtain d1 where d1: "writeRemote C False ?k (nodeDigits ?w) d = (Ret (), d1)" "dbConsistent C rv d1"
    "durable C rv d1 = (durable C rv d)(?k \<mapsto> ?w)" "dbMTCache d1 = dbMTCache d" "dbMTACache d1 = dbMTACache d"
    using writeRemote_run [OF assms] by blast
  have "durable C rv d1 ?k = Some ?w" using d1(3) by simp
  then obtain d2 where d2: "dbListAdd C ?k v False d1 = (Ret (), d2)" "sameDurable C rv d1 d2"
    using dbListAdd_run [OF d1(2)] by blast
  show ?thesis
  proof (cases "cacheEnabled (dbMTCache d) \<or> acEnabled (dbMTACache d)")
    case True
    then have "dbWrite C ?k vkey v True d = (Ret (), d2)"
      using flags s d1(1,4,5) d2(1)
      by (simp add: dbWrite_def bindP_def initialisedP_def guardP_def retP_def liftP_def)
    then show ?thesis using d2(2) sameDurable_view [OF d2(2)] d1(3) by (auto simp: sameDurable_def)
  next
    case False
    then have "dbWrite C ?k vkey v True d = (Ret (), d1)"
      using flags s d1(1,4,5)
      by (simp add: dbWrite_def bindP_def initialisedP_def guardP_def retP_def liftP_def)
    then show ?thesis using d1 by blast
  qed
qed

text \<open>Recording the state root touches no node.\<close>

lemma dbUpdateStateRoot_run:
  assumes "goldilocks (cfFr C)" "dbConsistent C rv d" "dbMultiWrite C" "length root = 4"
  shows "\<exists>d'. dbUpdateStateRoot C root d = (Ret (), d') \<and> dbConsistent C rv d' \<and> durable C rv d' = durable C rv d"
proof -
  let ?v = "take 4 root @ replicate 8 (gl_zero (cfFr C))"
  obtain s where s: "valueString (cfFr C) ?v = Ret s" using goldilocks.valueString_eq [OF assms(1)] by blast
  let ?m = "updatePending (\<lambda>p. p\<lparr>mdStateRoot := s\<rparr>) (multiWrite d)"
  let ?d = "d\<lparr>multiWrite := ?m\<rparr>"
  have flags: "bInitialized d" "useRemoteDB d" "\<not> useAssociativeCache C"
    "pendingToFlushDataIndex (multiWrite d) < length (mwData (multiWrite d))"
    using assms(2) by (simp_all add: dbConsistent_def)
  have "mdNodes (pendingData ?m) = mdNodes (pendingData (multiWrite d))"
    "mdNodesIntray (pendingData ?m) = mdNodesIntray (pendingData (multiWrite d))"
    "mdNodes (storingData ?m) = mdNodes (storingData (multiWrite d))"
    "storingFlushId ?m = storingFlushId (multiWrite d)" "storedFlushId ?m = storedFlushId (multiWrite d)"
    using flags(4)
    by (cases "storingDataIndex (multiWrite d) = pendingToFlushDataIndex (multiWrite d)";
        simp add: updatePending_def pendingData_def storingData_def)+
  then have "findNode (cfFr C) ?m = findNode (cfFr C) (multiWrite d)"
    by (intro ext) (simp add: findNode_def split: option.split)
  then have dur: "durable C rv ?d = durable C rv d" by (intro ext) (simp add: durable_def split: option.split)
  then have c: "dbConsistent C rv ?d" using assms(2) by (simp add: dbConsistent_def updatePending_def)
  obtain d2 where d2: "dbListAdd C dbStateRootKey ?v True ?d = (Ret (), d2)" "sameDurable C rv ?d d2"
    using dbListAdd_run [OF c, of dbStateRootKey ?v True] by blast
  have run: "dbUpdateStateRoot C root d =
      (if cacheEnabled (dbMTCache d) \<or> acEnabled (dbMTACache d) then (Ret (), d2) else (Ret (), ?d))"
    using flags s d2(1) assms(3)
    by (simp add: dbUpdateStateRoot_def Let_def bindP_def initialisedP_def liftP_def modifyP_def)
  show ?thesis
  proof (cases "cacheEnabled (dbMTCache d) \<or> acEnabled (dbMTACache d)")
    case True
    then show ?thesis using run d2(2) sameDurable_view [OF d2(2)] dur by (auto simp: sameDurable_def)
  next
    case False
    then show ?thesis using run c dur by simp
  qed
qed

end
