(* ===== verification/Smt.thy ===== *)
theory Smt
  imports Scalar
begin

text \<open>
  src/src/hashdb/smt.cpp: the sparse Merkle tree.  \<open>Smt::set\<close> and \<open>Smt::get\<close> are programs over the
  state \<open>'s\<close> of the stores they call: the state manager (State_Manager) and the database, whose
  operations are the fields of \<open>hashdb_ops\<close>.  Field elements are lists of four, node contents lists
  of twelve.  The map \<open>siblings\<close> always has the keys 0, 1, ..., n - 1 and is a list; \<open>level\<close> can be
  -1 and is an int.  \<open>accKey.pop_back()\<close> on an empty vector is undefined in C++ and \<open>Undef\<close> here
  (\<open>popBack\<close>).  \<open>set\<close> and \<open>get\<close> hand one vector \<open>dbValue\<close> to all their reads, and what it holds at a call
  matters to \<open>Database::read\<close>: it is \<open>wDbValue\<close> during the search and an argument afterwards.  Logging and
  the read log are not modelled.
\<close>

section \<open>What the tree calls\<close>

record ('s, 'e) hashdb_ops =
  config_stateManager :: bool
  sm_setOldStateRoot :: "string \<Rightarrow> nat \<Rightarrow> nat \<Rightarrow> string \<Rightarrow> nat \<Rightarrow> ('s, unit) prog"
  sm_setNewStateRoot :: "string \<Rightarrow> nat \<Rightarrow> nat \<Rightarrow> string \<Rightarrow> nat \<Rightarrow> ('s, unit) prog"
  sm_readNode :: "string \<Rightarrow> string \<Rightarrow> ('s, 'e list) prog"
  sm_writeNode :: "string \<Rightarrow> nat \<Rightarrow> nat \<Rightarrow> string \<Rightarrow> 'e list \<Rightarrow> nat \<Rightarrow> ('s, unit) prog"
  sm_deleteNode :: "string \<Rightarrow> nat \<Rightarrow> nat \<Rightarrow> string \<Rightarrow> nat \<Rightarrow> ('s, unit) prog"
  db_read :: "string \<Rightarrow> 'e list \<Rightarrow> 'e list \<Rightarrow> (bool list \<times> nat) option \<Rightarrow> ('s, 'e list) prog"
  db_write :: "string \<Rightarrow> 'e list \<Rightarrow> 'e list \<Rightarrow> bool \<Rightarrow> ('s, unit) prog"
  db_updateStateRoot :: "'e list \<Rightarrow> ('s, unit) prog"

text \<open>The object: the field library, the Poseidon permutation on twelve elements, the stores.\<close>

record ('s, 'e) Smt =
  smtFr :: "'e gl"
  smtPoseidon :: "'e list \<Rightarrow> 'e list"
  smtOps :: "('s, 'e) hashdb_ops"

record SmtContext =
  bUseStateManager :: bool
  ctxBatchUUID :: string
  ctxBlock :: nat
  ctxTx :: nat
  ctxPersistence :: nat

definition smtContext :: "('s, 'e) Smt \<Rightarrow> string \<Rightarrow> nat \<Rightarrow> nat \<Rightarrow> nat \<Rightarrow> SmtContext" where
  "smtContext S batchUUID block tx persistence =
     \<lparr>bUseStateManager = (config_stateManager (smtOps S) \<and> length batchUUID > 0),
      ctxBatchUUID = batchUUID, ctxBlock = block, ctxTx = tx, ctxPersistence = persistence\<rparr>"

definition capacityZero :: "('s, 'e) Smt \<Rightarrow> 'e list" where
  "capacityZero S = replicate 4 (gl_zero (smtFr S))"

definition capacityOne :: "('s, 'e) Smt \<Rightarrow> 'e list" where
  "capacityOne S = [gl_one (smtFr S), gl_zero (smtFr S), gl_zero (smtFr S), gl_zero (smtFr S)]"

section \<open>Reading and writing nodes\<close>

text \<open>
  The state manager first, when it is in use; the database if that does not succeed.  \<open>dbValue\<close> is the
  vector given to both, as the call finds it; the result is what it holds after the call.  The state
  manager assigns it when it has the node and leaves it alone otherwise.
\<close>

definition smtRead ::
  "('s, 'e) Smt \<Rightarrow> SmtContext \<Rightarrow> 'e list \<Rightarrow> 'e list \<Rightarrow> (bool list \<times> nat) option \<Rightarrow> ('s, 'e list) prog"
where
  "smtRead S ctx dbValue h tree =
     bindP (liftP (fea2string (smtFr S) h)) (\<lambda>key s.
       case (if bUseStateManager ctx then sm_readNode (smtOps S) (ctxBatchUUID ctx) key s
             else (Fail ZKR_UNSPECIFIED, s)) of
         (Fail _, t) \<Rightarrow> db_read (smtOps S) key h dbValue tree t
       | r \<Rightarrow> r)"

definition smtWrite :: "('s, 'e) Smt \<Rightarrow> SmtContext \<Rightarrow> string \<Rightarrow> 'e list \<Rightarrow> 'e list \<Rightarrow> ('s, unit) prog" where
  "smtWrite S ctx hashString h v =
     (if bUseStateManager ctx
      then sm_writeNode (smtOps S) (ctxBatchUUID ctx) (ctxBlock ctx) (ctxTx ctx) hashString v
             (ctxPersistence ctx)
      else db_write (smtOps S) hashString h v (ctxPersistence ctx = PERSISTENCE_DATABASE))"

definition smtDeleteNode :: "('s, 'e) Smt \<Rightarrow> SmtContext \<Rightarrow> string \<Rightarrow> ('s, unit) prog" where
  "smtDeleteNode S ctx key =
     sm_deleteNode (smtOps S) (ctxBatchUUID ctx) (ctxBlock ctx) (ctxTx ctx) key (ctxPersistence ctx)"

definition hashSave :: "('s, 'e) Smt \<Rightarrow> SmtContext \<Rightarrow> 'e list \<Rightarrow> ('s, 'e list) prog" where
  "hashSave S ctx v =
     (let h = smtPoseidon S v
      in bindP (liftP (fea2string (smtFr S) h)) (\<lambda>hashString.
         bindP (smtWrite S ctx hashString h v)
           (\<lambda>_. retP h)))"

definition hashSaveZero :: "('s, 'e) Smt \<Rightarrow> SmtContext \<Rightarrow> 'e list \<Rightarrow> ('s, 'e list) prog" where
  "hashSaveZero S ctx a = hashSave S ctx (a @ capacityZero S)"

definition hashSaveOne :: "('s, 'e) Smt \<Rightarrow> SmtContext \<Rightarrow> 'e list \<Rightarrow> ('s, 'e list) prog" where
  "hashSaveOne S ctx a = hashSave S ctx (a @ capacityOne S)"

definition updateStateRoot :: "('s, 'e) Smt \<Rightarrow> 'e list \<Rightarrow> ('s, unit) prog" where
  "updateStateRoot S stateRoot = db_updateStateRoot (smtOps S) stateRoot"

text \<open>The four elements of one child of a node, and their replacement.\<close>

definition slot :: "bool \<Rightarrow> 'e list \<Rightarrow> 'e list" where
  "slot b sib = map (\<lambda>j. sib ! (of_bool b * 4 + j)) [0..<4]"

definition putSlot :: "bool \<Rightarrow> 'e list \<Rightarrow> 'e list \<Rightarrow> 'e list" where
  "putSlot b h sib = foldl (\<lambda>a j. a[of_bool b * 4 + j := h ! j]) sib [0..<4]"

definition getUniqueSibling :: "'e gl \<Rightarrow> 'e list \<Rightarrow> int outcome" where
  "getUniqueSibling fr a =
     (if length a mod 4 \<noteq> 0 then Undef
      else (let (nFound, fnd) =
                  foldl (\<lambda>(nFound, fnd) i. if \<not> feaIsZero fr [a ! (4 * i), a ! (4 * i + 1), a ! (4 * i + 2), a ! (4 * i + 3)]
                                           then (nFound + 1, int i) else (nFound, fnd))
                    (0 :: nat, 0) [0..<length a div 4]
            in Ret (if nFound = 1 then fnd else -1)))"

section \<open>Walking down the tree\<close>

text \<open>The variables of the search loop, common to \<open>set\<close> and \<open>get\<close>.\<close>

record 'e SmtWalk =
  wR :: "'e list"
  wLevel :: nat
  wAccKey :: "u64 list"
  wSiblings :: "'e list list"
  wFound :: bool
  wFoundKey :: "'e list"
  wFoundRKey :: "'e list"
  wFoundValueHash :: "'e list"
  wFoundValue :: nat
  wDbValue :: "'e list"

definition walkStart :: "'e gl \<Rightarrow> 'e list \<Rightarrow> 'e list \<Rightarrow> 'e SmtWalk" where
  "walkStart fr dbValue root =
     \<lparr>wR = root, wLevel = 0, wAccKey = [], wSiblings = [], wFound = False,
      wFoundKey = replicate 4 (gl_zero fr), wFoundRKey = replicate 4 (gl_zero fr),
      wFoundValueHash = replicate 4 (gl_zero fr), wFoundValue = 0, wDbValue = dbValue\<rparr>"

text \<open>
  The body of the loop up to the choice of the child: read the node, and when it is a leaf read its
  value and rebuild its key.  \<open>set\<close> copies exactly twelve elements of the node (\<open>copy12\<close>), \<open>get\<close>
  copies the vector it read.
\<close>

definition walkLeaf ::
  "('s, 'e) Smt \<Rightarrow> SmtContext \<Rightarrow> 'e SmtWalk \<Rightarrow> 'e list \<Rightarrow> ('s, 'e SmtWalk) prog" where
  "walkLeaf S ctx w sib =
     (let valueHash = [sib ! 4, sib ! 5, sib ! 6, sib ! 7];
          rkey = [sib ! 0, sib ! 1, sib ! 2, sib ! 3]
      in bindP (smtRead S ctx (wDbValue w) valueHash None) (\<lambda>dbValue.
         bindP (definedP (8 \<le> length dbValue)) (\<lambda>_.
         bindP (liftP (joinKey (smtFr S) (wAccKey w) rkey)) (\<lambda>foundKey.
         retP (w\<lparr>wFound := True, wFoundKey := foundKey, wFoundRKey := rkey,
                  wFoundValueHash := valueHash,
                  wFoundValue := snd (fea2scalar8 (smtFr S) (take 8 dbValue) (wFoundValue w)),
                  wDbValue := dbValue\<rparr>)))))"

definition walkVisit ::
  "('s, 'e) Smt \<Rightarrow> SmtContext \<Rightarrow> bool \<Rightarrow> bool list \<Rightarrow> 'e SmtWalk \<Rightarrow> ('s, 'e SmtWalk) prog" where
  "walkVisit S ctx copy12 keys w =
     bindP (smtRead S ctx (wDbValue w) (wR w) (Some (keys, wLevel w))) (\<lambda>dbValue.
     bindP (definedP (copy12 \<longrightarrow> 12 \<le> length dbValue)) (\<lambda>_.
     let sib = (if copy12 then take 12 dbValue else dbValue);
         w' = w\<lparr>wSiblings := wSiblings w @ [sib], wDbValue := dbValue\<rparr>
     in if length sib > 8 \<and> gl_equal (smtFr S) (sib ! 8) (gl_one (smtFr S))
        then walkLeaf S ctx w' sib
        else retP w'))"

text \<open>Taking the child of bit \<open>b\<close> of the node read last.\<close>

definition walkDown :: "bool \<Rightarrow> 'e SmtWalk \<Rightarrow> ('s, 'e SmtWalk) prog" where
  "walkDown b w =
     bindP (definedP (of_bool b * 4 + 4 \<le> length (last (wSiblings w)))) (\<lambda>_.
     retP (w\<lparr>wR := slot b (last (wSiblings w)), wAccKey := wAccKey w @ [of_bool b],
              wLevel := wLevel w + 1\<rparr>))"

text \<open>
  The loop, by recursion on the key bits not yet used; reading \<open>keys[256]\<close> is out of range.
\<close>

primrec smtWalk ::
  "('s, 'e) Smt \<Rightarrow> SmtContext \<Rightarrow> bool \<Rightarrow> bool list \<Rightarrow> bool list \<Rightarrow> 'e SmtWalk \<Rightarrow> ('s, 'e SmtWalk) prog"
where
  "smtWalk S ctx copy12 keys [] w =
     (if feaIsZero (smtFr S) (wR w) \<or> wFound w then retP w
      else bindP (walkVisit S ctx copy12 keys w) (\<lambda>w'. if wFound w' then retP w' else liftP Undef))"
| "smtWalk S ctx copy12 keys (b # bits) w =
     (if feaIsZero (smtFr S) (wR w) \<or> wFound w then retP w
      else bindP (walkVisit S ctx copy12 keys w) (\<lambda>w'.
           if wFound w' then retP w'
           else bindP (walkDown b w') (smtWalk S ctx copy12 keys bits)))"

text \<open>\<open>accKey.pop_back()\<close>: undefined when the search pushed nothing, as with an empty trie or a single leaf.\<close>

definition popBack :: "u64 list \<Rightarrow> u64 list outcome" where
  "popBack accKey = (if accKey = [] then Undef else Ret (butlast accKey))"

section \<open>The result of set, and its local variables\<close>

record 'e SmtSetResult =
  srOldRoot :: "'e list"
  srNewRoot :: "'e list"
  srKey :: "'e list"
  srSiblings :: "'e list list"
  srInsKey :: "'e list"
  srInsValue :: nat
  srIsOld0 :: bool
  srOldValue :: nat
  srNewValue :: nat
  srMode :: string
  srProofHashCounter :: nat
  srSiblingLeftChild :: "'e list"
  srSiblingRightChild :: "'e list"

record 'e SmtVars =
  vLevel :: int
  vAccKey :: "u64 list"
  vSiblings :: "'e list list"
  vNewRoot :: "'e list"
  vInsKey :: "'e list"
  vInsValue :: nat
  vIsOld0 :: bool
  vOldValue :: nat
  vMode :: string
  vProofHashCounter :: nat
  vSiblingLeftChild :: "'e list"
  vSiblingRightChild :: "'e list"

definition smtVars :: "'e gl \<Rightarrow> 'e list \<Rightarrow> 'e SmtWalk \<Rightarrow> u64 list \<Rightarrow> 'e SmtVars" where
  "smtVars fr oldRoot w accKey =
     (let level = int (wLevel w) - 1; zeros = replicate 4 (gl_zero fr)
      in \<lparr>vLevel = level, vAccKey = accKey, vSiblings = wSiblings w,
          vNewRoot = oldRoot, vInsKey = zeros, vInsValue = 0, vIsOld0 = True, vOldValue = 0,
          vMode = '''',
          vProofHashCounter =
            (if \<not> feaIsZero fr oldRoot
             then min (length (wSiblings w)) (nat (level + 1)) + (if wFoundValue w \<noteq> 0 then 2 else 0)
             else 0),
          vSiblingLeftChild = zeros, vSiblingRightChild = zeros\<rparr>)"

section \<open>Replacing a child on the path\<close>

text \<open>
  The new hash goes into the node of the level; when \<open>track\<close> holds the old child, unless equal,
  is reported to the state manager, whose answer is ignored.
\<close>

definition reportDeleted :: "('s, 'e) Smt \<Rightarrow> SmtContext \<Rightarrow> 'e list \<Rightarrow> ('s, unit) prog" where
  "reportDeleted S ctx nodeToDelete =
     bindP (liftP (fea2string (smtFr S) nodeToDelete)) (\<lambda>nodeToDeleteString.
       if nodeToDeleteString \<noteq> ''0''
       then ignoreP (smtDeleteNode S ctx nodeToDeleteString)
       else retP ())"

definition replaceChild ::
  "('s, 'e) Smt \<Rightarrow> SmtContext \<Rightarrow> bool \<Rightarrow> nat \<Rightarrow> bool \<Rightarrow> 'e list \<Rightarrow> 'e list list \<Rightarrow> ('s, 'e list list) prog"
where
  "replaceChild S ctx track l b h siblings =
     (let nodeToDelete = slot b (siblings ! l);
          siblings' = siblings[l := putSlot b h (siblings ! l)]
      in bindP (if track \<and> \<not> feaIsEqual (smtFr S) nodeToDelete h
                then reportDeleted S ctx nodeToDelete else retP ())
           (\<lambda>_. retP siblings'))"

section \<open>Setting a value other than zero\<close>

definition smtUpdate ::
  "('s, 'e) Smt \<Rightarrow> SmtContext \<Rightarrow> bool list \<Rightarrow> nat \<Rightarrow> 'e SmtWalk \<Rightarrow> 'e SmtVars \<Rightarrow> ('s, 'e SmtVars) prog"
where
  "smtUpdate S ctx keys value w v =
     bindP (hashSaveZero S ctx (scalar2fea8 (smtFr S) value)) (\<lambda>newValH.
     bindP (hashSaveOne S ctx (wFoundRKey w @ newValH)) (\<lambda>newLeafHash.
     let v' = v\<lparr>vMode := ''update'', vOldValue := wFoundValue w,
                vProofHashCounter := vProofHashCounter v + 2\<rparr>
     in if vLevel v \<ge> 0
        then bindP (replaceChild S ctx (bUseStateManager ctx \<and> wFoundValue w \<noteq> value)
                      (nat (vLevel v)) (keys ! nat (vLevel v)) newLeafHash (vSiblings v))
               (\<lambda>siblings. retP (v'\<lparr>vSiblings := siblings\<rparr>))
        else retP (v'\<lparr>vNewRoot := newLeafHash\<rparr>)))"

text \<open>The first level from \<open>n\<close> on at which two keys differ; the arrays have 256 bits.\<close>

fun splitLevel :: "bool list \<Rightarrow> bool list \<Rightarrow> nat \<Rightarrow> nat outcome" where
  "splitLevel (a # as) (b # bs) n = (if a = b then splitLevel as bs (n + 1) else Ret n)"
| "splitLevel as bs n = Undef"

definition smtInsertFound ::
  "('s, 'e) Smt \<Rightarrow> SmtContext \<Rightarrow> bool list \<Rightarrow> 'e list \<Rightarrow> nat \<Rightarrow> 'e SmtWalk \<Rightarrow> 'e SmtVars \<Rightarrow> ('s, 'e SmtVars) prog"
where
  "smtInsertFound S ctx keys key value w v =
     (let fr = smtFr S; foundKeys = splitKey fr (wFoundKey w); start = nat (vLevel v + 1);
          zeros = replicate 4 (gl_zero fr)
      in bindP (liftP (splitLevel (drop start keys) (drop start foundKeys) start)) (\<lambda>level2.
         bindP (liftP (removeKeyBits fr (wFoundKey w) (level2 + 1))) (\<lambda>oldKey.
         bindP (hashSaveOne S ctx (oldKey @ wFoundValueHash w)) (\<lambda>oldLeafHash.
         bindP (liftP (removeKeyBits fr key (level2 + 1))) (\<lambda>newKey.
         bindP (hashSaveZero S ctx (scalar2fea8 fr value)) (\<lambda>newValH.
         bindP (hashSaveOne S ctx (newKey @ newValH)) (\<lambda>newLeafHash.
         bindP (hashSaveZero S ctx (if keys ! level2 then oldLeafHash @ newLeafHash
                                    else newLeafHash @ oldLeafHash)) (\<lambda>r2.
         bindP (foldP (\<lambda>l r2. hashSaveZero S ctx (if keys ! l then zeros @ r2 else r2 @ zeros))
                  (rev [start..<level2]) r2) (\<lambda>r2.
         let v' = v\<lparr>vMode := ''insertFound'', vInsKey := wFoundKey w, vInsValue := wFoundValue w,
                    vIsOld0 := False,
                    vProofHashCounter := vProofHashCounter v + 4 + (level2 - start)\<rparr>
         in if vLevel v \<ge> 0
            then retP (v'\<lparr>vSiblings := (vSiblings v)[nat (vLevel v) :=
                            putSlot (keys ! nat (vLevel v)) r2 (vSiblings v ! nat (vLevel v))]\<rparr>)
            else retP (v'\<lparr>vNewRoot := r2\<rparr>))))))))))"

definition smtInsertNotFound ::
  "('s, 'e) Smt \<Rightarrow> SmtContext \<Rightarrow> bool list \<Rightarrow> 'e list \<Rightarrow> nat \<Rightarrow> 'e SmtVars \<Rightarrow> ('s, 'e SmtVars) prog"
where
  "smtInsertNotFound S ctx keys key value v =
     bindP (liftP (removeKeyBits (smtFr S) key (nat (vLevel v + 1)))) (\<lambda>newKey.
     bindP (hashSaveZero S ctx (scalar2fea8 (smtFr S) value)) (\<lambda>newValH.
     bindP (hashSaveOne S ctx (newKey @ newValH)) (\<lambda>newLeafHash.
     let v' = v\<lparr>vMode := ''insertNotFound'', vProofHashCounter := vProofHashCounter v + 2\<rparr>
     in if vLevel v \<ge> 0
        then bindP (replaceChild S ctx (bUseStateManager ctx) (nat (vLevel v))
                      (keys ! nat (vLevel v)) newLeafHash (vSiblings v))
               (\<lambda>siblings. retP (v'\<lparr>vSiblings := siblings\<rparr>))
        else retP (v'\<lparr>vNewRoot := newLeafHash\<rparr>))))"

section \<open>Setting the value zero\<close>

text \<open>
  Climbing while the node of the level has a single child; \<open>l\<close> is \<open>level + 1\<close> and the unique child
  of the current level has been found.
\<close>

fun uniqueClimb :: "'e gl \<Rightarrow> 'e list list \<Rightarrow> nat \<Rightarrow> int outcome" where
  "uniqueClimb fr siblings 0 = Ret (- 1)"
| "uniqueClimb fr siblings (Suc 0) = Ret (- 1)"
| "uniqueClimb fr siblings (Suc (Suc l)) =
     bindO (getUniqueSibling fr (siblings ! l)) (\<lambda>uKey.
       if uKey \<ge> 0 then uniqueClimb fr siblings (Suc l) else Ret (int l))"

text \<open>The remaining child of the node is a leaf (\<open>mode = "deleteFound"\<close>): it moves up.  \<open>leaf\<close> is what
  the last read left in \<open>dbValue\<close>.\<close>

definition smtDeleteLeaf ::
  "('s, 'e) Smt \<Rightarrow> SmtContext \<Rightarrow> bool list \<Rightarrow> int \<Rightarrow> 'e list \<Rightarrow> 'e SmtVars \<Rightarrow> ('s, 'e SmtVars) prog"
where
  "smtDeleteLeaf S ctx keys uKey leaf v =
     (let fr = smtFr S; valH = [leaf ! 4, leaf ! 5, leaf ! 6, leaf ! 7];
          rKey = [leaf ! 0, leaf ! 1, leaf ! 2, leaf ! 3]
      in bindP (smtRead S ctx leaf valH None) (\<lambda>dbValue.
         bindP (guardP (8 \<le> length dbValue) ZKR_SMT_INVALID_DATA_SIZE) (\<lambda>_.
         bindP (liftP (joinKey fr (vAccKey v @ [of_int uKey]) rKey)) (\<lambda>insKey.
         bindP (liftP (uniqueClimb fr (vSiblings v) (nat (vLevel v + 1)))) (\<lambda>level.
         bindP (liftP (removeKeyBits fr insKey (nat (level + 1)))) (\<lambda>oldKey.
         bindP (hashSaveOne S ctx (oldKey @ valH)) (\<lambda>oldLeafHash.
         let v' = v\<lparr>vMode := ''deleteFound'', vLevel := level, vInsKey := insKey,
                    vInsValue := snd (fea2scalar8 fr (take 8 dbValue) 0), vIsOld0 := False,
                    vProofHashCounter := vProofHashCounter v + 3\<rparr>
         in if level \<ge> 0
            then retP (v'\<lparr>vSiblings := (vSiblings v)[nat level :=
                            putSlot (keys ! nat level) oldLeafHash (vSiblings v ! nat level)]\<rparr>)
            else retP (v'\<lparr>vNewRoot := oldLeafHash\<rparr>))))))))"

text \<open>The other child stays where it is: its two children are reported in the result.\<close>

definition smtDeleteNotFound ::
  "('s, 'e) Smt \<Rightarrow> SmtContext \<Rightarrow> bool list \<Rightarrow> 'e list \<Rightarrow> 'e SmtVars \<Rightarrow> ('s, 'e SmtVars) prog" where
  "smtDeleteNotFound S ctx keys dbValue0 v =
     (let l = nat (vLevel v); siblingRoot = slot (\<not> keys ! l) (vSiblings v ! l)
      in bindP (smtRead S ctx dbValue0 siblingRoot None) (\<lambda>dbValue.
         bindP (definedP (8 \<le> length dbValue)) (\<lambda>_.
         retP (v\<lparr>vMode := ''deleteNotFound'',
                 vSiblingLeftChild := slot False dbValue, vSiblingRightChild := slot True dbValue,
                 vProofHashCounter := vProofHashCounter v + 1\<rparr>))))"

definition smtDelete ::
  "('s, 'e) Smt \<Rightarrow> SmtContext \<Rightarrow> bool list \<Rightarrow> 'e SmtWalk \<Rightarrow> 'e SmtVars \<Rightarrow> ('s, 'e SmtVars) prog" where
  "smtDelete S ctx keys w v0 =
     (let fr = smtFr S; zeros = replicate 4 (gl_zero fr); v = v0\<lparr>vOldValue := wFoundValue w\<rparr>
      in if vLevel v < 0 then retP (v\<lparr>vMode := ''deleteNotFound'', vNewRoot := zeros\<rparr>)
         else (let l = nat (vLevel v); b = keys ! l; nodeToDelete = slot b (vSiblings v ! l);
                   siblings = (vSiblings v)[l := putSlot b zeros (vSiblings v ! l)]
               in bindP (if bUseStateManager ctx then reportDeleted S ctx nodeToDelete else retP ()) (\<lambda>_.
                  bindP (liftP (getUniqueSibling fr (siblings ! l))) (\<lambda>uKey.
                  if uKey < 0 then smtDeleteNotFound S ctx keys (wDbValue w) (v\<lparr>vSiblings := siblings\<rparr>)
                  else let auxFea = map (\<lambda>i. siblings ! l ! (nat uKey * 4 + i)) [0..<4]
                       in bindP (smtRead S ctx (wDbValue w) auxFea (Some (keys, l))) (\<lambda>dbValue.
                          let v' = v\<lparr>vSiblings := siblings[l + 1 := dbValue]\<rparr>
                          in if length dbValue > 8 \<and> gl_equal fr (dbValue ! 8) (gl_one fr)
                             then smtDeleteLeaf S ctx keys uKey dbValue v'
                             else smtDeleteNotFound S ctx keys dbValue v')))))"

definition smtZeroToZero :: "'e list \<Rightarrow> 'e SmtWalk \<Rightarrow> 'e SmtVars \<Rightarrow> 'e SmtVars" where
  "smtZeroToZero oldRoot w v =
     (let v' = (if wFound w
                then v\<lparr>vInsKey := wFoundKey w, vInsValue := wFoundValue w, vIsOld0 := False\<rparr> else v)
      in v'\<lparr>vMode := ''zeroToZero'', vNewRoot := oldRoot\<rparr>)"

section \<open>Climbing up to the new root\<close>

text \<open>The loop of lines 761 to 805; the recursion is on \<open>level + 1\<close>.\<close>

primrec smtClimb ::
  "('s, 'e) Smt \<Rightarrow> SmtContext \<Rightarrow> bool list \<Rightarrow> nat \<Rightarrow> nat \<Rightarrow> 'e SmtVars \<Rightarrow> ('s, 'e SmtVars) prog"
where
  "smtClimb S ctx keys increment 0 v = retP (v\<lparr>vLevel := - 1\<rparr>)"
| "smtClimb S ctx keys increment (Suc l) v =
     bindP (hashSave S ctx (take 12 (vSiblings v ! l))) (\<lambda>newRoot.
     bindP (if l > 0
            then replaceChild S ctx (bUseStateManager ctx) (l - 1) (keys ! (l - 1)) newRoot (vSiblings v)
            else retP (vSiblings v)) (\<lambda>siblings.
     smtClimb S ctx keys increment l
       (v\<lparr>vNewRoot := newRoot, vSiblings := siblings,
          vProofHashCounter := vProofHashCounter v + increment\<rparr>)))"

section \<open>set and get\<close>

definition smtChange ::
  "('s, 'e) Smt \<Rightarrow> SmtContext \<Rightarrow> bool list \<Rightarrow> 'e list \<Rightarrow> 'e list \<Rightarrow> nat \<Rightarrow> 'e SmtWalk \<Rightarrow> 'e SmtVars
     \<Rightarrow> ('s, 'e SmtVars) prog"
where
  "smtChange S ctx keys oldRoot key value w v =
     (if value \<noteq> 0
      then if wFound w
           then if feaIsEqual (smtFr S) key (wFoundKey w) then smtUpdate S ctx keys value w v
                else smtInsertFound S ctx keys key value w v
           else smtInsertNotFound S ctx keys key value v
      else if wFound w \<and> feaIsEqual (smtFr S) key (wFoundKey w) then smtDelete S ctx keys w v
           else retP (smtZeroToZero oldRoot w v))"

definition smtFinish ::
  "('s, 'e) Smt \<Rightarrow> SmtContext \<Rightarrow> 'e list \<Rightarrow> 'e list \<Rightarrow> ('s, unit) prog" where
  "smtFinish S ctx oldRoot newRoot =
     (if bUseStateManager ctx
      then bindP (liftP (fea2string (smtFr S) newRoot)) (\<lambda>root.
           sm_setNewStateRoot (smtOps S) (ctxBatchUUID ctx) (ctxBlock ctx) (ctxTx ctx) root
             (ctxPersistence ctx))
      else if ctxPersistence ctx = PERSISTENCE_DATABASE \<and> \<not> feaIsEqual (smtFr S) oldRoot newRoot
      then updateStateRoot S newRoot
      else retP ())"

definition smtStart :: "('s, 'e) Smt \<Rightarrow> SmtContext \<Rightarrow> 'e list \<Rightarrow> ('s, unit) prog" where
  "smtStart S ctx oldRoot =
     (if bUseStateManager ctx
      then bindP (liftP (fea2string (smtFr S) oldRoot)) (\<lambda>root.
           sm_setOldStateRoot (smtOps S) (ctxBatchUUID ctx) (ctxBlock ctx) (ctxTx ctx) root
             (ctxPersistence ctx))
      else retP ())"

definition smtSet ::
  "('s, 'e) Smt \<Rightarrow> string \<Rightarrow> nat \<Rightarrow> nat \<Rightarrow> 'e list \<Rightarrow> 'e list \<Rightarrow> nat \<Rightarrow> nat \<Rightarrow> ('s, 'e SmtSetResult) prog"
where
  "smtSet S batchUUID block tx oldRoot key value persistence =
     (let fr = smtFr S; ctx = smtContext S batchUUID block tx persistence; keys = splitKey fr key
      in bindP (smtStart S ctx oldRoot) (\<lambda>_.
         bindP (smtWalk S ctx True keys keys (walkStart fr (replicate 12 (gl_zero fr)) oldRoot)) (\<lambda>w.
         bindP (liftP (popBack (wAccKey w))) (\<lambda>accKey.
         bindP (smtChange S ctx keys oldRoot key value w (smtVars fr oldRoot w accKey)) (\<lambda>v.
         bindP (smtClimb S ctx keys (if vMode v = ''zeroToZero'' then 0 else 1) (nat (vLevel v + 1))
                  (v\<lparr>vSiblings := take (nat (vLevel v + 1)) (vSiblings v)\<rparr>)) (\<lambda>v.
         bindP (smtFinish S ctx oldRoot (vNewRoot v)) (\<lambda>_.
         retP \<lparr>srOldRoot = oldRoot, srNewRoot = vNewRoot v, srKey = key, srSiblings = vSiblings v,
               srInsKey = vInsKey v, srInsValue = vInsValue v, srIsOld0 = vIsOld0 v,
               srOldValue = vOldValue v, srNewValue = value, srMode = vMode v,
               srProofHashCounter = vProofHashCounter v,
               srSiblingLeftChild = vSiblingLeftChild v,
               srSiblingRightChild = vSiblingRightChild v\<rparr>)))))))"

record 'e SmtGetResult =
  grRoot :: "'e list"
  grKey :: "'e list"
  grSiblings :: "'e list list"
  grInsKey :: "'e list"
  grInsValue :: nat
  grIsOld0 :: bool
  grValue :: nat
  grProofHashCounter :: nat

definition smtGetResult :: "'e gl \<Rightarrow> 'e list \<Rightarrow> 'e list \<Rightarrow> 'e SmtWalk \<Rightarrow> 'e SmtGetResult" where
  "smtGetResult fr root key w =
     (let match = feaIsEqual fr key (wFoundKey w); other = (wFound w \<and> \<not> match);
          value = (if wFound w \<and> match then wFoundValue w else 0);
          siblings = take (wLevel w) (wSiblings w)
      in \<lparr>grRoot = root, grKey = key, grSiblings = siblings,
          grInsKey = (if other then wFoundKey w else replicate 4 (gl_zero fr)),
          grInsValue = (if other then wFoundValue w else 0),
          grIsOld0 = (\<not> other), grValue = value,
          grProofHashCounter =
            (if \<not> feaIsZero fr root
             then length siblings + (if value \<noteq> 0 \<or> other then 2 else 0) else 0)\<rparr>)"

definition smtGet :: "('s, 'e) Smt \<Rightarrow> string \<Rightarrow> 'e list \<Rightarrow> 'e list \<Rightarrow> ('s, 'e SmtGetResult) prog" where
  "smtGet S batchUUID root key =
     (let fr = smtFr S;
          ctx = smtContext S batchUUID 0 0 PERSISTENCE_CACHE;
          keys = splitKey fr key
      in bindP (smtWalk S ctx False keys keys (walkStart fr [] root)) (\<lambda>w.
         bindP (liftP (popBack (wAccKey w))) (\<lambda>_. retP (smtGetResult fr root key w))))"

end
