(* ===== verification/Smt_Tree.thy ===== *)
theory Smt_Tree
  imports Scalar
begin

text \<open>
  The abstract sparse Merkle tree, the specification of \<open>Smt::set\<close> and \<open>Smt::get\<close>
  (src/src/hashdb/smt.cpp): a binary trie over the 256 path bits of a key in which a subtree with
  a single entry is a leaf at its root.  Keys are the lists of the four 64-bit representatives of
  the key elements.  The trie determines the vectors of twelve words the code hashes and stores
  (\<open>treeVecs\<close>) and its root hash (\<open>treeRoot\<close>), for a hash function \<open>H\<close> on representatives, and
  the trie itself is determined by its contents (\<open>wfTree_unique\<close>), so the root is a function of
  the set of key/value pairs and not of the history of updates.
\<close>

section \<open>Tries\<close>

datatype smt_tree = Empty | Leaf "u64 list" nat | Node smt_tree smt_tree

text \<open>An intermediate node at the root; in a well-formed trie, two entries or more.\<close>

fun isNode :: "smt_tree \<Rightarrow> bool" where
  "isNode (Node l r) = True"
| "isNode t = False"

lemma isNodeE: "isNode t \<Longrightarrow> (\<And>l r. t = Node l r \<Longrightarrow> thesis) \<Longrightarrow> thesis"
  by (cases t) auto

definition keyBits :: "u64 list \<Rightarrow> bool list" where
  "keyBits k = concat (map (\<lambda>i. [bit (k ! 0) i, bit (k ! 1) i, bit (k ! 2) i, bit (k ! 3) i]) [0..<64])"

lemma splitKey_keyBits: "length key = 4 \<Longrightarrow> splitKey fr key = keyBits (map (toU64 fr) key)"
  by (simp add: splitKey_def keyBits_def Let_def)

lemma length_keyBits [simp]: "length (keyBits k) = 256"
  by (simp add: keyBits_def length_concat comp_def sum_list_triv)

definition wfKey :: "u64 list \<Rightarrow> bool" where
  "wfKey k \<longleftrightarrow> length k = 4 \<and> (\<forall>w\<in>set k. unat w < ScalarGoldilocksPrime)"

fun contents :: "smt_tree \<Rightarrow> u64 list \<Rightarrow> nat option" where
  "contents Empty = Map.empty"
| "contents (Leaf k v) = [k \<mapsto> v]"
| "contents (Node l r) = contents l ++ contents r"

text \<open>The value the code reports for an absent key is zero.\<close>

definition valueOf :: "smt_tree \<Rightarrow> u64 list \<Rightarrow> nat" where
  "valueOf t k = (case contents t k of None \<Rightarrow> 0 | Some v \<Rightarrow> v)"

text \<open>
  Well-formed subtrees below a path.  No node has a single entry below it, and leaves are at most
  252 bits deep: \<open>removeKeyBits\<close> and \<open>joinKey\<close> are defined up to there.
\<close>

fun lonely :: "smt_tree \<Rightarrow> smt_tree \<Rightarrow> bool" where
  "lonely Empty Empty = True"
| "lonely Empty (Leaf k v) = True"
| "lonely (Leaf k v) Empty = True"
| "lonely l r = False"

fun wfTree :: "bool list \<Rightarrow> smt_tree \<Rightarrow> bool" where
  "wfTree p Empty = True"
| "wfTree p (Leaf k v) \<longleftrightarrow>
     wfKey k \<and> take (length p) (keyBits k) = p \<and> 0 < v \<and> v < 2 ^ 256 \<and> length p \<le> 252"
| "wfTree p (Node l r) \<longleftrightarrow>
     wfTree (p @ [False]) l \<and> wfTree (p @ [True]) r \<and> \<not> lonely l r \<and> length p < 252"

section \<open>Lookup and update\<close>

fun treeGet :: "nat \<Rightarrow> smt_tree \<Rightarrow> u64 list \<Rightarrow> nat" where
  "treeGet n Empty key = 0"
| "treeGet n (Leaf k v) key = (if k = key then v else 0)"
| "treeGet n (Node l r) key = treeGet (Suc n) (if keyBits key ! n then r else l) key"

definition mkNode :: "smt_tree \<Rightarrow> smt_tree \<Rightarrow> smt_tree" where
  "mkNode l r = (if lonely l r then (if l = Empty then r else l) else Node l r)"

text \<open>The branch that separates two keys from level \<open>n\<close> on.\<close>

function treeFork :: "nat \<Rightarrow> u64 list \<Rightarrow> nat \<Rightarrow> u64 list \<Rightarrow> nat \<Rightarrow> smt_tree" where
  "treeFork n k v k' v' =
     (if n \<ge> 256 then Empty
      else if keyBits k ! n = keyBits k' ! n
      then (if keyBits k ! n then Node Empty (treeFork (Suc n) k v k' v')
            else Node (treeFork (Suc n) k v k' v') Empty)
      else if keyBits k ! n then Node (Leaf k' v') (Leaf k v) else Node (Leaf k v) (Leaf k' v'))"
  by auto
termination by (relation "measure (\<lambda>(n, _). 256 - n)") auto

declare treeFork.simps [simp del]

fun treeInsert :: "nat \<Rightarrow> smt_tree \<Rightarrow> u64 list \<Rightarrow> nat \<Rightarrow> smt_tree" where
  "treeInsert n Empty key v = Leaf key v"
| "treeInsert n (Leaf k w) key v = (if k = key then Leaf key v else treeFork n key v k w)"
| "treeInsert n (Node l r) key v =
     (if keyBits key ! n then Node l (treeInsert (Suc n) r key v)
      else Node (treeInsert (Suc n) l key v) r)"

fun treeDelete :: "nat \<Rightarrow> smt_tree \<Rightarrow> u64 list \<Rightarrow> smt_tree" where
  "treeDelete n Empty key = Empty"
| "treeDelete n (Leaf k w) key = (if k = key then Empty else Leaf k w)"
| "treeDelete n (Node l r) key =
     (if keyBits key ! n then mkNode l (treeDelete (Suc n) r key)
      else mkNode (treeDelete (Suc n) l key) r)"

definition treeSet :: "smt_tree \<Rightarrow> u64 list \<Rightarrow> nat \<Rightarrow> smt_tree" where
  "treeSet t key v = (if v = 0 then treeDelete 0 t key else treeInsert 0 t key v)"

section \<open>Hashes\<close>

definition zeros4 :: "u64 list" where "zeros4 = [0, 0, 0, 0]"
definition ones4 :: "u64 list" where "ones4 = [1, 0, 0, 0]"

definition remKey :: "nat \<Rightarrow> u64 list \<Rightarrow> u64 list" where
  "remKey n k = map (\<lambda>i. drop_bit (laneBits n i) (k ! i)) [0..<4]"

definition valueVec :: "nat \<Rightarrow> u64 list" where
  "valueVec v = valueWords v @ zeros4"

definition leafVec :: "(u64 list \<Rightarrow> u64 list) \<Rightarrow> nat \<Rightarrow> u64 list \<Rightarrow> nat \<Rightarrow> u64 list" where
  "leafVec H n k v = remKey n k @ H (valueVec v) @ ones4"

fun treeRoot :: "(u64 list \<Rightarrow> u64 list) \<Rightarrow> nat \<Rightarrow> smt_tree \<Rightarrow> u64 list" where
  "treeRoot H n Empty = zeros4"
| "treeRoot H n (Leaf k v) = H (leafVec H n k v)"
| "treeRoot H n (Node l r) = H (treeRoot H (Suc n) l @ treeRoot H (Suc n) r @ zeros4)"

definition nodeVec :: "(u64 list \<Rightarrow> u64 list) \<Rightarrow> nat \<Rightarrow> smt_tree \<Rightarrow> smt_tree \<Rightarrow> u64 list" where
  "nodeVec H n l r = treeRoot H (Suc n) l @ treeRoot H (Suc n) r @ zeros4"

fun treeVecs :: "(u64 list \<Rightarrow> u64 list) \<Rightarrow> nat \<Rightarrow> smt_tree \<Rightarrow> u64 list set" where
  "treeVecs H n Empty = {}"
| "treeVecs H n (Leaf k v) = {leafVec H n k v, valueVec v}"
| "treeVecs H n (Node l r) = insert (nodeVec H n l r) (treeVecs H (Suc n) l \<union> treeVecs H (Suc n) r)"

section \<open>Paths and contents\<close>

lemma wfTree_contents:
  "wfTree p t \<Longrightarrow> contents t k = Some v \<Longrightarrow>
   wfKey k \<and> take (length p) (keyBits k) = p \<and> 0 < v \<and> v < 2 ^ 256"
proof (induction p t arbitrary: k v rule: wfTree.induct)
  case (3 p l r)
  from 3(4) consider "contents l k = Some v" | "contents r k = Some v"
    by (auto simp: map_add_Some_iff)
  then show ?case
  proof cases
    case 1
    with 3 have "wfKey k \<and> take (Suc (length p)) (keyBits k) = p @ [False] \<and> 0 < v \<and> v < 2 ^ 256"
      by (metis length_append_singleton wfTree.simps(3))
    then show ?thesis
      by (metis append_eq_conv_conj le_add2 length_append_singleton min.absorb1 plus_1_eq_Suc take_take)
  next
    case 2
    with 3 have "wfKey k \<and> take (Suc (length p)) (keyBits k) = p @ [True] \<and> 0 < v \<and> v < 2 ^ 256"
      by (metis length_append_singleton wfTree.simps(3))
    then show ?thesis
      by (metis append_eq_conv_conj le_add2 length_append_singleton min.absorb1 plus_1_eq_Suc take_take)
  qed
qed (auto split: if_splits)

lemma wfTree_bit:
  assumes "wfTree (p @ [b]) t" "contents t k = Some v"
  shows "keyBits k ! length p = b"
proof -
  have "take (length (p @ [b])) (keyBits k) = p @ [b]" using wfTree_contents [OF assms] by blast
  then show ?thesis by (metis length_append_singleton lessI nth_append_length nth_take)
qed

lemma wfTree_children_disjoint:
  assumes "wfTree p (Node l r)"
  shows "dom (contents l) \<inter> dom (contents r) = {}"
  using wfTree_bit [of p False l] wfTree_bit [of p True r] assms by fastforce

lemma contents_Node_bit:
  assumes "wfTree p (Node l r)"
  shows "contents (Node l r) k = contents (if keyBits k ! length p then r else l) k"
proof (cases "keyBits k ! length p")
  case True
  with assms have "contents l k = None"
    using wfTree_bit [of p False l k] by (cases "contents l k") auto
  with True show ?thesis by (simp add: map_add_def split: option.split)
next
  case False
  with assms have "contents r k = None"
    using wfTree_bit [of p True r k] by (cases "contents r k") auto
  with False show ?thesis by (simp add: map_add_def)
qed

lemma valueOf_Node:
  "wfTree p (Node l r) \<Longrightarrow> valueOf (Node l r) k = valueOf (if keyBits k ! length p then r else l) k"
  by (simp only: valueOf_def contents_Node_bit)

lemma treeGet_valueOf: "wfTree p t \<Longrightarrow> treeGet (length p) t k = valueOf t k"
proof (induction p t rule: wfTree.induct)
  case (3 p l r)
  then show ?case
    using valueOf_Node [OF 3(3)] by (cases "keyBits k ! length p") simp_all
qed (simp_all add: valueOf_def)

section \<open>The contents determine the trie\<close>

lemma dom_contents [simp]:
  "dom (contents Empty) = {}" "dom (contents (Leaf k v)) = {k}"
  "dom (contents (Node l r)) = dom (contents l) \<union> dom (contents r)"
  by (simp_all add: Un_commute)

declare contents.simps [simp del]

lemma contents_finite [simp]: "finite (dom (contents t))"
  by (induction t) simp_all

lemma wfTree_Empty_iff: "wfTree p t \<Longrightarrow> dom (contents t) = {} \<longleftrightarrow> t = Empty"
proof (induction p t rule: wfTree.induct)
  case (3 p l r)
  then show ?case by (cases l; cases r) (simp_all del: dom_eq_empty_conv)
qed (simp_all del: dom_eq_empty_conv)

lemma wfTree_card:
  "wfTree p t \<Longrightarrow> (case t of Empty \<Rightarrow> 0 | Leaf _ _ \<Rightarrow> 1 | Node _ _ \<Rightarrow> 2) \<le> card (dom (contents t))"
proof (induction p t rule: wfTree.induct)
  case (3 p l r)
  have "dom (contents l) \<inter> dom (contents r) = {}"
    using 3(3) by (rule wfTree_children_disjoint)
  then have "card (dom (contents (Node l r))) = card (dom (contents l)) + card (dom (contents r))"
    by (simp add: card_Un_disjoint)
  with 3 show ?case by (cases l; cases r) simp_all
qed simp_all

lemma wfTree_Node_card: "wfTree p (Node l r) \<Longrightarrow> 2 \<le> card (dom (contents (Node l r)))"
  using wfTree_card [of p "Node l r"] by simp

theorem wfTree_unique_aux:
  "wfTree p t \<Longrightarrow> wfTree p t' \<Longrightarrow> contents t = contents t' \<Longrightarrow> t = t'"
proof (induction p t arbitrary: t' rule: wfTree.induct)
  case (1 p)
  then show ?case using wfTree_Empty_iff [of p t'] by (metis dom_contents(1))
next
  case (2 p k v)
  show ?case
  proof (cases t')
    case Empty
    with 2 have "dom (contents (Leaf k v)) = dom (contents Empty)" by simp
    then show ?thesis by simp
  next
    case (Leaf k' v')
    with 2(3) have "[k \<mapsto> v] = [k' \<mapsto> v']" by (simp only: contents.simps)
    then show ?thesis using Leaf by (metis fun_upd_eqD fun_upd_same fun_upd_other option.inject option.distinct(1))
  next
    case (Node l r)
    with 2 wfTree_Node_card [of p l r] have "2 \<le> card (dom (contents (Leaf k v)))" by metis
    then show ?thesis by simp
  qed
next
  case (3 p l r)
  show ?case
  proof (cases t')
    case Empty
    with 3 have "dom (contents (Node l r)) = {}" by simp
    then show ?thesis using wfTree_Empty_iff [OF 3(3)] by simp
  next
    case (Leaf k' v')
    with 3 wfTree_Node_card [of p l r] have "2 \<le> card (dom (contents (Leaf k' v')))" by metis
    then show ?thesis by simp
  next
    case (Node l' r')
    have side: "contents l k = contents l' k \<and> contents r k = contents r' k" for k
    proof -
      have e: "contents (if keyBits k ! length p then r else l) k =
          contents (if keyBits k ! length p then r' else l') k"
        using contents_Node_bit [OF 3(3), of k] contents_Node_bit [of p l' r' k] 3(4,5) Node by metis
      have n: "contents t k = None" if "wfTree (p @ [\<not> keyBits k ! length p]) t" for t
        using that by (cases "contents t k") (auto dest: wfTree_bit)
      show ?thesis
        using e n [of l] n [of l'] n [of r] n [of r'] 3(3,4) Node
        by (cases "keyBits k ! length p") auto
    qed
    with 3 Node show ?thesis by (metis ext wfTree.simps(3))
  qed
qed

section \<open>Updates refine the update of a map\<close>

lemma prefix_snoc:
  "take (length p) bits = p \<Longrightarrow> length p < length bits \<Longrightarrow>
   take (length (p @ [bits ! length p])) bits = p @ [bits ! length p]"
  by (simp add: take_Suc_conv_app_nth)

lemma prefix_shorten: "take (length (p @ [b])) bits = p @ [b] \<Longrightarrow> take (length p) bits = p"
  by (metis append_eq_conv_conj le_add1 length_append min.absorb1 take_take)

text \<open>Two keys are separable when they differ within the first 252 bits.\<close>

definition separable :: "u64 list \<Rightarrow> u64 list \<Rightarrow> bool" where
  "separable k k' \<longleftrightarrow> (\<exists>i<252. keyBits k ! i \<noteq> keyBits k' ! i)"

lemma separable_sym: "separable k k' \<longleftrightarrow> separable k' k"
  by (auto simp: separable_def)

lemma separable_level:
  assumes "separable k k'" "take n (keyBits k) = take n (keyBits k')" "n \<le> 256"
  shows "n < 252 \<and> (\<exists>i\<ge>n. i < 252 \<and> keyBits k ! i \<noteq> keyBits k' ! i)"
proof -
  obtain i where i: "i < 252" "keyBits k ! i \<noteq> keyBits k' ! i" using assms(1) by (auto simp: separable_def)
  moreover have "n \<le> i" using assms(2) i by (metis leI nth_take)
  ultimately show ?thesis by auto
qed

lemma wfTree_treeFork:
  assumes "wfKey k" "wfKey k'" "separable k k'"
    and v: "0 < v" "v < 2 ^ 256" "0 < v'" "v' < 2 ^ 256"
    and p: "take (length p) (keyBits k) = p" "take (length p) (keyBits k') = p"
  shows "wfTree p (treeFork (length p) k v k' v') \<and> (\<exists>l r. treeFork (length p) k v k' v' = Node l r)
     \<and> contents (treeFork (length p) k v k' v') = [k' \<mapsto> v', k \<mapsto> v]"
  using p
proof (induction "252 - length p" arbitrary: p)
  case 0
  have "length p \<le> 256" using 0(2) by (metis length_keyBits length_take min.cobounded1)
  with separable_level [OF assms(3), of "length p"] 0 show ?case by simp
next
  case (Suc d)
  have len: "length p \<le> 256" using Suc(3) by (metis length_keyBits length_take min.cobounded1)
  with separable_level [OF assms(3), of "length p"] Suc have n: "length p < 252" by simp
  let ?b = "keyBits k ! length p" and ?b' = "keyBits k' ! length p"
  have snoc: "take (length (p @ [?b])) (keyBits k) = p @ [?b]"
    "take (length (p @ [?b'])) (keyBits k') = p @ [?b']"
    using Suc n by (simp_all only: prefix_snoc length_keyBits)
  show ?case
  proof (cases "?b = ?b'")
    case True
    have IH: "wfTree (p @ [?b]) (treeFork (length (p @ [?b])) k v k' v') \<and>
      (\<exists>l r. treeFork (length (p @ [?b])) k v k' v' = Node l r) \<and>
      contents (treeFork (length (p @ [?b])) k v k' v') = [k' \<mapsto> v', k \<mapsto> v]"
      using Suc(2) snoc True by (intro Suc(1)) auto
    then show ?thesis using True n
      by (cases ?b; subst (1 2 3) treeFork.simps) (auto simp: contents.simps)
  next
    case False
    have ne: "k \<noteq> k'" using assms(3) by (auto simp: separable_def)
    have leaf: "wfTree (p @ [?b]) (Leaf k v)" "wfTree (p @ [?b']) (Leaf k' v')"
      using snoc assms n by simp_all
    from False n ne leaf show ?thesis
      by (cases ?b; subst (1 2 3) treeFork.simps) (auto simp: contents.simps map_add_def fun_eq_iff)
  qed
qed

lemma wfTree_treeInsert:
  assumes "wfTree p t" "wfKey key" "take (length p) (keyBits key) = p" "0 < v" "v < 2 ^ 256"
    "length p \<le> 252" "\<And>k. k \<in> dom (contents t) \<Longrightarrow> k \<noteq> key \<Longrightarrow> separable key k"
  shows "wfTree p (treeInsert (length p) t key v) \<and>
         contents (treeInsert (length p) t key v) = (contents t)(key \<mapsto> v) \<and>
         (\<not> (\<exists>k w. treeInsert (length p) t key v = Leaf k w) \<or> t = Empty \<or> (\<exists>w. t = Leaf key w)) \<and>
         treeInsert (length p) t key v \<noteq> Empty"
  using assms
proof (induction p t rule: wfTree.induct)
  case (2 p k w)
  show ?case
  proof (cases "k = key")
    case False
    have "separable key k" using 2(7) [of k] False by simp
    with 2(1-5) wfTree_treeFork [of key k v w p]
    have "wfTree p (treeFork (length p) key v k w)"
      "\<exists>l r. treeFork (length p) key v k w = Node l r"
      "contents (treeFork (length p) key v k w) = [k \<mapsto> w, key \<mapsto> v]" by auto
    with False show ?thesis by (auto simp: contents.simps)
  qed (use 2 in \<open>simp add: contents.simps fun_eq_iff\<close>)
next
  case (3 p l r)
  let ?b = "keyBits key ! length p"
  have n: "length p < 252" using 3(3) by simp
  have snoc: "take (length (p @ [?b])) (keyBits key) = p @ [?b]"
    using 3(5) n by (simp only: prefix_snoc length_keyBits)
  show ?case
  proof (cases ?b)
    case True
    have IH: "wfTree (p @ [True]) (treeInsert (length (p @ [True])) r key v) \<and>
         contents (treeInsert (length (p @ [True])) r key v) = (contents r)(key \<mapsto> v) \<and>
         (\<not> (\<exists>k w. treeInsert (length (p @ [True])) r key v = Leaf k w) \<or> r = Empty \<or> (\<exists>w. r = Leaf key w)) \<and>
         treeInsert (length (p @ [True])) r key v \<noteq> Empty"
      using 3(3,4,6,7,9) n snoc True by (intro 3(2)) auto
    then have "\<not> lonely l (treeInsert (Suc (length p)) r key v)"
      using 3(3) by (cases l; cases "treeInsert (Suc (length p)) r key v") auto
    with IH True 3(3) show ?thesis by (auto simp: contents.simps)
  next
    case False
    have IH: "wfTree (p @ [False]) (treeInsert (length (p @ [False])) l key v) \<and>
         contents (treeInsert (length (p @ [False])) l key v) = (contents l)(key \<mapsto> v) \<and>
         (\<not> (\<exists>k w. treeInsert (length (p @ [False])) l key v = Leaf k w) \<or> l = Empty \<or> (\<exists>w. l = Leaf key w)) \<and>
         treeInsert (length (p @ [False])) l key v \<noteq> Empty"
      using 3(3,4,6,7,9) n snoc False by (intro 3(1)) auto
    then have "\<not> lonely (treeInsert (Suc (length p)) l key v) r"
      using 3(3) by (cases r; cases "treeInsert (Suc (length p)) l key v") auto
    moreover have "contents r key = None"
      using wfTree_bit [of p True r key] 3(3) False by (cases "contents r key") auto
    ultimately show ?thesis using IH False 3(3)
      by (auto simp: contents.simps map_add_def fun_eq_iff split: option.splits)
  qed
qed (simp_all add: contents.simps)

lemma mkNode_wf:
  assumes "wfTree (p @ [False]) l" "wfTree (p @ [True]) r" "length p < 252"
  shows "wfTree p (mkNode l r) \<and> contents (mkNode l r) = contents l ++ contents r"
proof -
  have up: "wfTree p t" if "wfTree (p @ [b]) t" "t = Empty \<or> (\<exists>k v. t = Leaf k v)" for t b
    using that assms(3) prefix_shorten [of p b] by auto
  show ?thesis
  proof (cases "lonely l r")
    case True
    then show ?thesis using up [OF assms(1)] up [OF assms(2)]
      by (cases l; cases r) (simp_all add: mkNode_def contents.simps)
  qed (use assms in \<open>simp add: mkNode_def contents.simps\<close>)
qed

lemma wfTree_treeDelete:
  assumes "wfTree p t"
  shows "wfTree p (treeDelete (length p) t key) \<and>
         contents (treeDelete (length p) t key) = (contents t)(key := None)"
  using assms
proof (induction p t rule: wfTree.induct)
  case (3 p l r)
  have n: "length p < 252" using 3(3) by simp
  show ?case
  proof (cases "keyBits key ! length p")
    case True
    have "contents l key = None"
      using wfTree_bit [of p False l key] 3(3) True by (cases "contents l key") auto
    with True 3 n mkNode_wf [of p l "treeDelete (length (p @ [True])) r key"] show ?thesis
      by (auto simp: contents.simps map_add_def fun_eq_iff split: option.splits)
  next
    case False
    have "contents r key = None"
      using wfTree_bit [of p True r key] 3(3) False by (cases "contents r key") auto
    with False 3 n mkNode_wf [of p "treeDelete (length (p @ [False])) l key" r] show ?thesis
      by (auto simp: contents.simps map_add_def fun_eq_iff split: option.splits)
  qed
qed (auto simp: contents.simps)

end
