(* ===== verification/Smt_Walk.thy ===== *)
theory Smt_Walk
  imports Smt Smt_Tree
begin

text \<open>
  The interface between the tree and its stores (locale \<open>node_store\<close>), the hash library, and the
  search loop: on a store that holds the vectors of a trie, \<open>smtWalk\<close> finds the entry of the key.
  A store is seen through its \<open>view\<close>, the representatives of the node read under a key string.
\<close>

section \<open>Children of a node vector\<close>

lemma map_slot: "of_bool b * 4 + 4 \<le> length sib \<Longrightarrow> map f (slot b sib) = slot b (map f sib)"
  by (cases b) (auto simp: slot_def)

lemma length_slot [simp]: "length (slot b sib) = 4"
  by (simp add: slot_def)

lemma length_putSlot [simp]: "length (putSlot b h sib) = length sib"
  by (simp add: putSlot_def upt_4)

lemma map_putSlot: "length h = 4 \<Longrightarrow> map f (putSlot b h sib) = putSlot b (map f h) (map f sib)"
  by (simp add: putSlot_def upt_4 map_update)

definition pairVec :: "bool \<Rightarrow> u64 list \<Rightarrow> u64 list \<Rightarrow> u64 list" where
  "pairVec b own other = (if b then other @ own @ zeros4 else own @ other @ zeros4)"

lemma length_zeros4 [simp]: "length zeros4 = 4" "length ones4 = 4"
  by (simp_all add: zeros4_def ones4_def)

lemma length_pairVec [simp]:
  "length own = 4 \<Longrightarrow> length other = 4 \<Longrightarrow> length (pairVec b own other) = 12"
  by (simp add: pairVec_def)

lemma slot_append:
  assumes "length a = 4" "length b = 4"
  shows "slot False (a @ b @ c) = a" "slot True (a @ b @ c) = b"
  using assms length_4_conv [of a] length_4_conv [of b]
  by (simp_all add: slot_def upt_4 nth_append)

lemma putSlot_append:
  assumes "length a = 4" "length b = 4" "length h = 4"
  shows "putSlot False h (a @ b @ c) = h @ b @ c" "putSlot True h (a @ b @ c) = a @ h @ c"
  using assms by (auto simp: putSlot_def upt_4 length_Suc_conv numeral_eq_Suc)

lemma slot_pairVec:
  assumes "length own = 4" "length other = 4"
  shows "slot b (pairVec b own other) = own" "slot (\<not> b) (pairVec b own other) = other"
  using assms by (cases b; simp add: pairVec_def slot_append)+

lemma putSlot_pairVec:
  "length own = 4 \<Longrightarrow> length other = 4 \<Longrightarrow> length h = 4 \<Longrightarrow>
   putSlot b h (pairVec b own other) = pairVec b h other"
  by (cases b) (simp_all add: pairVec_def putSlot_append)

lemma pairVec_capacity:
  "length own = 4 \<Longrightarrow> length other = 4 \<Longrightarrow> pairVec b own other ! 8 = 0"
  by (simp add: pairVec_def zeros4_def nth_append)

section \<open>A trie seen along a path\<close>

fun plug :: "(bool \<times> smt_tree) list \<Rightarrow> smt_tree \<Rightarrow> smt_tree" where
  "plug [] t = t"
| "plug ((b, s) # ps) t = (if b then Node s (plug ps t) else Node (plug ps t) s)"

fun pathVecs :: "(u64 list \<Rightarrow> u64 list) \<Rightarrow> nat \<Rightarrow> (bool \<times> smt_tree) list \<Rightarrow> smt_tree \<Rightarrow> u64 list list" where
  "pathVecs H n [] t = []"
| "pathVecs H n ((b, s) # ps) t =
     pairVec b (treeRoot H (Suc n) (plug ps t)) (treeRoot H (Suc n) s) # pathVecs H (Suc n) ps t"

lemma plug_append: "plug (ps @ qs) t = plug ps (plug qs t)"
  by (induction ps) auto

lemma length_pathVecs [simp]: "length (pathVecs H n ps t) = length ps"
  by (induction H n ps t rule: pathVecs.induct) simp_all

lemma pathVecs_append:
  "pathVecs H n (ps @ qs) t = pathVecs H n ps (plug qs t) @ pathVecs H (n + length ps) qs t"
  by (induction ps arbitrary: n) (auto simp: plug_append)

lemma treeRoot_plug_Cons:
  "treeRoot H n (plug ((b, s) # ps) t) =
     H (pairVec b (treeRoot H (Suc n) (plug ps t)) (treeRoot H (Suc n) s))"
  by (simp add: pairVec_def)

lemma treeVecs_plug_Cons:
  "treeVecs H n (plug ((b, s) # ps) t) =
     insert (pairVec b (treeRoot H (Suc n) (plug ps t)) (treeRoot H (Suc n) s))
       (treeVecs H (Suc n) (plug ps t) \<union> treeVecs H (Suc n) s)"
  by (auto simp: pairVec_def nodeVec_def)

section \<open>The hash function\<close>

locale hash_library = goldilocks fr for fr :: "'e gl" +
  fixes poseidon :: "'e list \<Rightarrow> 'e list" and H :: "u64 list \<Rightarrow> u64 list"
  assumes poseidon_words: "length v = 12 \<Longrightarrow> map (toU64 fr) (poseidon v) = H (map (toU64 fr) v)"
    and length_H: "length (H w) = 4"
begin

lemma length_poseidon: "length v = 12 \<Longrightarrow> length (poseidon v) = 4"
  using poseidon_words [of v] length_H by (metis length_map)

lemma length_treeRoot [simp]: "length (treeRoot H n t) = 4"
  by (induction t) (simp_all add: length_H)

lemma length_remKey [simp]: "length (remKey n k) = 4"
  by (simp add: remKey_def)

lemma length_leafVec [simp]: "length (leafVec H n k v) = 12"
  by (simp add: leafVec_def length_H)

lemma length_valueVec [simp]: "length (valueVec v) = 12"
  by (simp add: valueVec_def)

lemma length_treeVecs: "w \<in> treeVecs H n t \<Longrightarrow> length w = 12"
  by (induction t arbitrary: n) (auto simp: nodeVec_def)

lemma feaIsZero_words: "length h = 4 \<Longrightarrow> feaIsZero fr h \<longleftrightarrow> map (toU64 fr) h = zeros4"
  using length_4_conv [of h] by (auto simp: feaIsZero_def zeros4_def isZero_iff list_eq_iff_nth_eq
      less_Suc_eq numeral_eq_Suc)

lemma feaIsEqual_words:
  "length a = 4 \<Longrightarrow> length b = 4 \<Longrightarrow> feaIsEqual fr a b \<longleftrightarrow> map (toU64 fr) a = map (toU64 fr) b"
  by (auto simp: feaIsEqual_def equal_iff list_eq_iff_nth_eq less_Suc_eq numeral_eq_Suc)

end

section \<open>The stores\<close>

text \<open>
  The contract of the stores for one update.  Between updates the store is \<open>idle\<close>; \<open>start\<close> makes it
  \<open>busy\<close> and \<open>finish\<close> idle again.  Reading never changes what can be read; writing a node that is
  absent, or present with the same content, adds it; deleting only takes note.  A read is given the
  vector it is to leave its result in (\<open>prev\<close>), and what that vector held before does not matter.
\<close>

locale node_store =
  fixes fr :: "'e gl"
    and nread :: "'e list \<Rightarrow> 'e list \<Rightarrow> (bool list \<times> nat) option \<Rightarrow> ('s, 'e list) prog"
    and nwrite :: "string \<Rightarrow> 'e list \<Rightarrow> 'e list \<Rightarrow> ('s, unit) prog"
    and ndelete :: "string \<Rightarrow> ('s, unit) prog"
    and nstart :: "'e list \<Rightarrow> ('s, unit) prog"
    and nfinish :: "'e list \<Rightarrow> 'e list \<Rightarrow> ('s, unit) prog"
    and view :: "'s \<Rightarrow> string \<Rightarrow> u64 list option"
    and idle busy :: "'s \<Rightarrow> bool"
  assumes read_law: "\<lbrakk>idle s \<or> busy s; length h = 4; view s (keystr (map (toU64 fr) h)) = Some w\<rbrakk> \<Longrightarrow>
      \<exists>v t. nread prev h tree s = (Ret v, t) \<and> map (toU64 fr) v = w \<and> view t = view s \<and>
            (idle s \<longrightarrow> idle t) \<and> (busy s \<longrightarrow> busy t)"
    and write_law: "\<lbrakk>busy s; length h = 4; length v = 12; k = keystr (map (toU64 fr) h);
        view s k = None \<or> view s k = Some (map (toU64 fr) v)\<rbrakk> \<Longrightarrow>
      \<exists>t. nwrite k h v s = (Ret (), t) \<and> busy t \<and> view t = (view s)(k \<mapsto> map (toU64 fr) v)"
    and delete_law: "\<lbrakk>busy s; length h = 4\<rbrakk> \<Longrightarrow>
      \<exists>r t. ndelete (keystr (map (toU64 fr) h)) s = (r, t) \<and> (r = Ret () \<or> (\<exists>e. r = Fail e)) \<and>
            busy t \<and> view t = view s"
    and start_law: "\<lbrakk>idle s; length r = 4\<rbrakk> \<Longrightarrow>
      \<exists>t. nstart r s = (Ret (), t) \<and> busy t \<and> view t = view s"
    and finish_law: "\<lbrakk>busy s; length r = 4; length r' = 4\<rbrakk> \<Longrightarrow>
      \<exists>t. nfinish r r' s = (Ret (), t) \<and> idle t \<and> view t = view s"

text \<open>The tree on a store: what the lemmas on \<open>smtSet\<close> and \<open>smtGet\<close> assume.\<close>

locale smt_on_store =
  hash_library "smtFr S" "smtPoseidon S" H +
  node_store "smtFr S" "smtRead S ctx" "smtWrite S ctx" "smtDeleteNode S ctx" "smtStart S ctx"
    "smtFinish S ctx" view idle busy
  for S :: "('s, 'e) Smt" and ctx :: SmtContext and H view idle busy

section \<open>Growing stores\<close>

text \<open>
  \<open>stored\<close>: every vector of a set is found under its hash.  \<open>collisionFree\<close>: no two vectors of the
  set \<open>V\<close> that an update writes, nor one of them and a stored node, have the same hash.
  \<open>grows\<close>: the store gained vectors of \<open>V\<close> only.
\<close>

definition stored :: "(u64 list \<Rightarrow> u64 list) \<Rightarrow> (string \<Rightarrow> u64 list option) \<Rightarrow> u64 list set \<Rightarrow> bool" where
  "stored H N U \<longleftrightarrow> (\<forall>w\<in>U. N (keystr (H w)) = Some w)"

definition collisionFree ::
  "(u64 list \<Rightarrow> u64 list) \<Rightarrow> (string \<Rightarrow> u64 list option) \<Rightarrow> u64 list set \<Rightarrow> bool" where
  "collisionFree H N V \<longleftrightarrow>
     inj_on H V \<and> (\<forall>w\<in>V. N (keystr (H w)) = None \<or> N (keystr (H w)) = Some w)"

definition grows ::
  "(u64 list \<Rightarrow> u64 list) \<Rightarrow> u64 list set \<Rightarrow> (string \<Rightarrow> u64 list option) \<Rightarrow> (string \<Rightarrow> u64 list option) \<Rightarrow> bool"
where
  "grows H V N N' \<longleftrightarrow> (\<forall>k. N' k = N k \<or> (\<exists>w\<in>V. k = keystr (H w) \<and> N' k = Some w))"

lemma grows_refl [simp, intro]: "grows H V N N"
  by (simp add: grows_def)

lemma grows_trans: "grows H V N N' \<Longrightarrow> grows H V N' N'' \<Longrightarrow> grows H V N N''"
  unfolding grows_def by metis

lemma grows_upd: "w \<in> V \<Longrightarrow> grows H V N (N(keystr (H w) \<mapsto> w))"
  by (auto simp: grows_def)

lemma grows_map_le: "collisionFree H N V \<Longrightarrow> grows H V N N' \<Longrightarrow> N \<subseteq>\<^sub>m N'"
  unfolding collisionFree_def grows_def map_le_def
  by (metis domIff option.distinct(1))

lemma stored_mono: "N \<subseteq>\<^sub>m N' \<Longrightarrow> stored H N U \<Longrightarrow> stored H N' U"
  by (force simp: stored_def map_le_def)

lemma map_le_Some: "N \<subseteq>\<^sub>m N' \<Longrightarrow> N k = Some w \<Longrightarrow> N' k = Some w"
  by (metis domI map_le_def)

lemma stored_subset: "stored H N U \<Longrightarrow> U' \<subseteq> U \<Longrightarrow> stored H N U'"
  by (auto simp: stored_def)

lemma stored_Un: "stored H N (U \<union> U') \<longleftrightarrow> stored H N U \<and> stored H N U'"
  by (auto simp: stored_def)

lemma stored_insert: "stored H N (insert w U) \<longleftrightarrow> N (keystr (H w)) = Some w \<and> stored H N U"
  by (auto simp: stored_def)

lemma stored_empty [simp]: "stored H N {}"
  by (simp add: stored_def)

context hash_library begin

lemma collisionFree_grows:
  assumes "collisionFree H N V" "grows H V N N'"
  shows "collisionFree H N' V"
proof -
  have "N' (keystr (H w)) = None \<or> N' (keystr (H w)) = Some w" if w: "w \<in> V" for w
  proof -
    from assms(2) consider "N' (keystr (H w)) = N (keystr (H w))"
      | w' where "w' \<in> V" "keystr (H w) = keystr (H w')" "N' (keystr (H w)) = Some w'"
      unfolding grows_def by metis
    then show ?thesis
    proof cases
      case 1
      with assms(1) w show ?thesis by (auto simp: collisionFree_def)
    next
      case 2
      then have "H w = H w'" using keystr_inj length_H by blast
      with 2 w assms(1) show ?thesis by (auto simp: collisionFree_def inj_on_def)
    qed
  qed
  with assms(1) show ?thesis by (simp add: collisionFree_def)
qed

lemma map_le_grows: "collisionFree H N V \<Longrightarrow> grows H V N N' \<Longrightarrow> grows H V N' N'' \<Longrightarrow> N' \<subseteq>\<^sub>m N''"
  using collisionFree_grows grows_map_le by blast

end

section \<open>Reading and saving nodes of a trie\<close>

context smt_on_store begin

abbreviation W :: "'e list \<Rightarrow> u64 list" where "W \<equiv> map (toU64 (smtFr S))"

text \<open>A run of an update that started with the view \<open>N\<close> and writes vectors of \<open>V\<close>.\<close>

definition running :: "u64 list set \<Rightarrow> (string \<Rightarrow> u64 list option) \<Rightarrow> 's \<Rightarrow> bool" where
  "running V N s \<longleftrightarrow> busy s \<and> collisionFree H N V \<and> grows H V N (view s)"

lemma running_keeps: "running V N s \<Longrightarrow> stored H N U \<Longrightarrow> stored H (view s) U"
  unfolding running_def using grows_map_le stored_mono by blast

lemma running_read:
  assumes "running V N s" "length h = 4" "W h = H w" "view s (keystr (H w)) = Some w"
  shows "\<exists>v t. smtRead S ctx prev h tree s = (Ret v, t) \<and> W v = w \<and> running V N t \<and> view t = view s"
  using read_law [of s h w prev tree] assms unfolding running_def by auto

lemma running_hashSave:
  assumes "running V N s" "length v = 12" "W v \<in> V"
  shows "\<exists>h t. hashSave S ctx v s = (Ret h, t) \<and> length h = 4 \<and> W h = H (W v) \<and>
               running V N t \<and> view s \<subseteq>\<^sub>m view t \<and> view t (keystr (H (W v))) = Some (W v)"
proof -
  let ?h = "smtPoseidon S v"
  have h: "length ?h = 4" "W ?h = H (W v)" using assms(2) length_poseidon poseidon_words by auto
  have cf: "collisionFree H (view s) V"
    using assms(1) collisionFree_grows unfolding running_def by blast
  then have "view s (keystr (W ?h)) = None \<or> view s (keystr (W ?h)) = Some (W v)"
    using assms(3) h by (auto simp: collisionFree_def)
  then obtain t where t: "smtWrite S ctx (keystr (W ?h)) ?h v s = (Ret (), t)" "busy t"
      "view t = (view s)(keystr (W ?h) \<mapsto> W v)"
    using write_law [of s ?h v] assms(1,2) h unfolding running_def by blast
  have g: "grows H V (view s) (view t)"
    using grows_upd [OF assms(3), of H "view s"] t(3) h by simp
  then have "running V N t" using assms(1) t(2) unfolding running_def using grows_trans by blast
  moreover have "view s \<subseteq>\<^sub>m view t" using grows_map_le cf g by blast
  moreover have "hashSave S ctx v s = (Ret ?h, t)"
    using t(1) h by (simp add: hashSave_def Let_def liftP_def bindP_def retP_def)
  ultimately show ?thesis using h t(3) by auto
qed

lemma W_capacity: "W (capacityZero S) = zeros4" "W (capacityOne S) = ones4"
    "length (capacityZero S) = 4" "length (capacityOne S) = 4"
  by (simp_all add: capacityZero_def capacityOne_def zeros4_def ones4_def toU64_zero toU64_one
      replicate_4)

lemma running_hashSaveZero:
  assumes "running V N s" "length a = 8" "W a @ zeros4 \<in> V"
  shows "\<exists>h t. hashSaveZero S ctx a s = (Ret h, t) \<and> length h = 4 \<and> W h = H (W a @ zeros4) \<and>
               running V N t \<and> view s \<subseteq>\<^sub>m view t \<and>
               view t (keystr (H (W a @ zeros4))) = Some (W a @ zeros4)"
  using running_hashSave [of V N s "a @ capacityZero S"] assms
  by (simp add: hashSaveZero_def W_capacity)

lemma running_hashSaveOne:
  assumes "running V N s" "length a = 8" "W a @ ones4 \<in> V"
  shows "\<exists>h t. hashSaveOne S ctx a s = (Ret h, t) \<and> length h = 4 \<and> W h = H (W a @ ones4) \<and>
               running V N t \<and> view s \<subseteq>\<^sub>m view t \<and>
               view t (keystr (H (W a @ ones4))) = Some (W a @ ones4)"
  using running_hashSave [of V N s "a @ capacityOne S"] assms
  by (simp add: hashSaveOne_def W_capacity)

lemma running_reportDeleted:
  assumes "running V N s" "length h = 4"
  shows "\<exists>t. reportDeleted S ctx h s = (Ret (), t) \<and> running V N t \<and> view t = view s"
proof -
  obtain r t where "smtDeleteNode S ctx (keystr (W h)) s = (r, t)" "r = Ret () \<or> (\<exists>e. r = Fail e)"
      "busy t" "view t = view s"
    using delete_law [of s h] assms unfolding running_def by blast
  then have "ignoreP (smtDeleteNode S ctx (keystr (W h))) s = (Ret (), t)" "running V N t"
    using assms(1) unfolding running_def by (auto simp: ignoreP_def)
  moreover have "keystr (W h) \<noteq> ''0''"
    using length_keystr [of "W h"] by (metis One_nat_def length_Cons list.size(3) numeral_eq_one_iff
        semiring_norm(85))
  ultimately show ?thesis
    using \<open>view t = view s\<close> assms(2) by (auto simp: reportDeleted_def liftP_def bindP_def)
qed

end

section \<open>Keys of leaves\<close>

context hash_library begin

lemma words_dropKeyBits:
  assumes "length key = 4"
  shows "map (toU64 fr) (dropKeyBits fr key m) = remKey m (map (toU64 fr) key)"
proof -
  have "toU64 fr (fromU64 fr (drop_bit n (toU64 fr x))) = drop_bit n (toU64 fr x)" for n x
    using unat_drop_bit_le [of n "toU64 fr x"] toU64_less [of x]
    by (intro toU64_fromU64_less) (rule le_less_trans)
  then show ?thesis using assms by (simp add: dropKeyBits_def remKey_def)
qed

lemma words_fromU64: "wfKey k \<Longrightarrow> map (toU64 fr) (map (fromU64 fr) k) = k"
  by (auto simp: wfKey_def toU64_fromU64_less intro: map_idI)

lemma wfKey_words: "length key = 4 \<Longrightarrow> wfKey (map (toU64 fr) key)"
  by (auto simp: wfKey_def toU64_less)

lemma joinKey_leaf:
  assumes "wfKey k" "take (length p) (keyBits k) = p" "length p \<le> 252"
    and "length rk = 4" "map (toU64 fr) rk = remKey (length p) k"
  shows "\<exists>fk. joinKey fr (map of_bool p) rk = Ret fk \<and> length fk = 4 \<and> map (toU64 fr) fk = k"
proof -
  let ?key = "map (fromU64 fr) k"
  have len: "length ?key = 4" using assms(1) by (simp add: wfKey_def)
  have w: "map (toU64 fr) ?key = k" using words_fromU64 assms(1) by blast
  have "same_key fr rk (dropKeyBits fr ?key (length (map of_bool p :: u64 list)))"
    using assms(5) words_dropKeyBits [OF len] w by (simp add: same_key_def)
  moreover have "map (\<lambda>b. b \<noteq> 0) (map of_bool p :: u64 list)
      = take (length (map of_bool p :: u64 list)) (splitKey fr ?key)"
    using assms(2) splitKey_keyBits [OF len, of fr] w by (simp add: comp_def)
  ultimately have "\<exists>k'. joinKey fr (map of_bool p) rk = Ret k' \<and> length k' = 4 \<and> same_key fr k' ?key"
    using assms(3,4) len goldilocks_axioms by (intro joinKey_dropKeyBits) simp_all
  then show ?thesis using w by (auto simp: same_key_def)
qed

end

section \<open>The search loop\<close>

context smt_on_store begin

text \<open>What the loop leaves when it ends below path \<open>p\<close> in the subtree \<open>t\<close>, empty or a leaf.\<close>

definition walkEnd :: "bool list \<Rightarrow> u64 list list \<Rightarrow> smt_tree \<Rightarrow> 'e SmtWalk \<Rightarrow> bool" where
  "walkEnd p vecs t w \<longleftrightarrow>
     wLevel w = length p \<and> wAccKey w = map of_bool p \<and>
     (case t of
        Empty \<Rightarrow> \<not> wFound w \<and> wFoundValue w = 0 \<and> map W (wSiblings w) = vecs
      | Leaf k v \<Rightarrow> wFound w \<and> map W (wSiblings w) = vecs @ [leafVec H (length p) k v] \<and>
          length (wFoundKey w) = 4 \<and> W (wFoundKey w) = k \<and>
          length (wFoundRKey w) = 4 \<and> W (wFoundRKey w) = remKey (length p) k \<and>
          length (wFoundValueHash w) = 4 \<and> W (wFoundValueHash w) = H (valueVec v) \<and>
          wFoundValue w = v
      | Node l r \<Rightarrow> False)"

text \<open>What holds at the head of the loop.\<close>

definition walkAt :: "bool list \<Rightarrow> u64 list list \<Rightarrow> smt_tree \<Rightarrow> 'e SmtWalk \<Rightarrow> bool" where
  "walkAt p vecs t w \<longleftrightarrow>
     length (wR w) = 4 \<and> W (wR w) = treeRoot H (length p) t \<and> wLevel w = length p \<and>
     wAccKey w = map of_bool p \<and> map W (wSiblings w) = vecs \<and> \<not> wFound w \<and> wFoundValue w = 0"

text \<open>A run of reads: the store stays \<open>idle\<close> or \<open>busy\<close>, and its view does not change.\<close>

definition quiet :: "'s \<Rightarrow> 's \<Rightarrow> bool" where
  "quiet s t \<longleftrightarrow> view t = view s \<and> (idle s \<longrightarrow> idle t) \<and> (busy s \<longrightarrow> busy t)"

lemma quiet_refl [simp]: "quiet s s"
  by (simp add: quiet_def)

lemma quiet_trans: "quiet s t \<Longrightarrow> quiet t u \<Longrightarrow> quiet s u"
  by (simp add: quiet_def)

lemma quiet_read:
  assumes "idle s \<or> busy s" "length h = 4" "W h = H w" "stored H (view s) U" "w \<in> U"
  shows "\<exists>v t. smtRead S ctx prev h tree s = (Ret v, t) \<and> W v = w \<and> quiet s t"
  using read_law [of s h w prev tree] assms unfolding quiet_def stored_def by auto

lemma quiet_active: "quiet s t \<Longrightarrow> idle s \<or> busy s \<Longrightarrow> idle t \<or> busy t"
  by (auto simp: quiet_def)

lemma four_nths: "length a = 4 \<Longrightarrow> [(a @ b) ! 0, (a @ b) ! 1, (a @ b) ! 2, (a @ b) ! 3] = a"
  using length_4_conv [of a] by (simp add: nth_append)

lemma next_four_nths:
  "length a = 4 \<Longrightarrow> length b = 4 \<Longrightarrow>
   [(a @ b @ c) ! 4, (a @ b @ c) ! 5, (a @ b @ c) ! 6, (a @ b @ c) ! 7] = b"
  using length_4_conv [of b] by (simp add: nth_append)

lemma words_nths:
  assumes "W sib = a @ b @ c" "length a = 4" "length b = 4" "length c = 4"
  shows "W [sib ! 0, sib ! 1, sib ! 2, sib ! 3] = a" "W [sib ! 4, sib ! 5, sib ! 6, sib ! 7] = b"
    "toU64 (smtFr S) (sib ! 8) = c ! 0" "length sib = 12"
proof -
  show len: "length sib = 12" using arg_cong [OF assms(1), of length] assms(2-4) by simp
  have "W [sib ! 0, sib ! 1, sib ! 2, sib ! 3] = [W sib ! 0, W sib ! 1, W sib ! 2, W sib ! 3]"
    "W [sib ! 4, sib ! 5, sib ! 6, sib ! 7] = [W sib ! 4, W sib ! 5, W sib ! 6, W sib ! 7]"
    using len by simp_all
  then show "W [sib ! 0, sib ! 1, sib ! 2, sib ! 3] = a" "W [sib ! 4, sib ! 5, sib ! 6, sib ! 7] = b"
    unfolding assms(1) using four_nths next_four_nths assms by simp_all
  have "toU64 (smtFr S) (sib ! 8) = W sib ! 8" using len by simp
  then show "toU64 (smtFr S) (sib ! 8) = c ! 0" unfolding assms(1) using assms by (simp add: nth_append)
qed

lemma walkVisit_read:
  assumes "idle s \<or> busy s" "stored H (view s) U" "vec \<in> U" "length vec = 12"
    and w: "length (wR w) = 4" "W (wR w) = H vec"
  shows "\<exists>sib t. W sib = vec \<and> quiet s t \<and>
     walkVisit S ctx c12 keys w s =
       (let w' = w\<lparr>wSiblings := wSiblings w @ [sib], wDbValue := sib\<rparr>
        in if vec ! 8 = 1 then walkLeaf S ctx w' sib else retP w') t"
proof -
  obtain sib t where t: "smtRead S ctx (wDbValue w) (wR w) (Some (keys, wLevel w)) s = (Ret sib, t)"
      "W sib = vec" "quiet s t"
    using quiet_read assms by blast
  have len: "length sib = 12" using t(2) assms(4) by (metis length_map)
  have "gl_equal (smtFr S) (sib ! 8) (gl_one (smtFr S)) \<longleftrightarrow> vec ! 8 = 1"
    using len t(2) by (auto simp: equal_iff toU64_one)
  with len t show ?thesis
    by (intro exI [of _ sib] exI [of _ t])
      (simp add: walkVisit_def bindP_def definedP_def Let_def retP_def)
qed

lemma walkLeaf_run:
  assumes act: "idle s \<or> busy s" and st: "stored H (view s) (treeVecs H (length p) (Leaf k v))"
    and wf: "wfTree p (Leaf k v)" and sib: "W sib = leafVec H (length p) k v"
    and w: "wAccKey w = map of_bool p" "wLevel w = length p" "wFoundValue w = 0"
      "map W (wSiblings w) = vecs @ [leafVec H (length p) k v]"
  shows "\<exists>w' t. walkLeaf S ctx w sib s = (Ret w', t) \<and> quiet s t \<and> walkEnd p vecs (Leaf k v) w'"
proof -
  let ?vh = "[sib ! 4, sib ! 5, sib ! 6, sib ! 7]" and ?rk = "[sib ! 0, sib ! 1, sib ! 2, sib ! 3]"
  have words: "W ?rk = remKey (length p) k" "W ?vh = H (valueVec v)"
    using words_nths(1,2) [of sib "remKey (length p) k" "H (valueVec v)" ones4] sib length_H
    by (simp_all add: leafVec_def)
  have "W ?vh = H (valueVec v)" "length ?vh = 4" using words by simp_all
  from quiet_read [OF act this(2,1) st, where tree = None and prev = "wDbValue w"] obtain dv t where
    t: "smtRead S ctx (wDbValue w) ?vh None s = (Ret dv, t)" "W dv = valueVec v" "quiet s t" by auto
  have len: "length dv = 12" using t(2) length_valueVec by (metis length_map)
  have "map (toU64 (smtFr S)) (take 8 dv) = valueWords v"
    using t(2) by (simp add: valueVec_def take_map [symmetric])
  then have fv: "fea2scalar8 (smtFr S) (take 8 dv) x = (True, v)" for x
    using wf by (intro fea2scalar8_chunks) simp_all
  have "length ?rk = 4" by simp
  then obtain fk where fk: "joinKey (smtFr S) (map of_bool p) ?rk = Ret fk" "length fk = 4" "W fk = k"
    using joinKey_leaf [of k p ?rk] wf words(1) by auto
  show ?thesis
    using t fk len words w fv
    by (auto simp: walkLeaf_def Let_def bindP_def definedP_def retP_def liftP_def walkEnd_def)
qed

end

context smt_on_store begin

lemma walkDown_run:
  assumes "W (last (wSiblings w)) = pairVec b own other" "length own = 4" "length other = 4"
  shows "walkDown b w s =
    (Ret (w\<lparr>wR := slot b (last (wSiblings w)), wAccKey := wAccKey w @ [of_bool b],
            wLevel := wLevel w + 1\<rparr>), s) \<and>
    W (slot b (last (wSiblings w))) = own"
proof -
  have len: "length (last (wSiblings w)) = 12"
    using arg_cong [OF assms(1), of length] assms(2,3) by simp
  then show ?thesis using assms
    by (cases b) (simp_all add: walkDown_def definedP_def bindP_def retP_def map_slot slot_pairVec
        del: of_bool_eq)
qed

lemma smtWalk_run:
  assumes "idle s \<or> busy s" "wfTree p t" "stored H (view s) (treeVecs H (length p) t)"
    and "\<And>x. x \<in> treeVecs H (length p) t \<Longrightarrow> H x \<noteq> zeros4"
    and "length keys = 256" "length p \<le> 252" "walkAt p vecs t w"
  shows "\<exists>ps e w' u. t = plug ps e \<and> map fst ps = take (length ps) (drop (length p) keys) \<and>
           smtWalk S ctx c12 keys (drop (length p) keys) w s = (Ret w', u) \<and> quiet s u \<and>
           walkEnd (p @ map fst ps) (vecs @ pathVecs H (length p) ps e) e w'"
  using assms
proof (induction t arbitrary: p vecs w s)
  case Empty
  have "feaIsZero (smtFr S) (wR w)" using Empty(7) by (simp add: walkAt_def feaIsZero_words)
  then have "smtWalk S ctx c12 keys (drop (length p) keys) w s = (Ret w, s)"
    by (cases "drop (length p) keys") (simp_all add: retP_def)
  moreover have "walkEnd p vecs Empty w" using Empty(7) by (simp add: walkEnd_def walkAt_def)
  ultimately show ?case by (intro exI [of _ "[]"] exI [of _ Empty] exI [of _ w] exI [of _ s]) simp
next
  case (Leaf k v)
  let ?vec = "leafVec H (length p) k v"
  have at: "length (wR w) = 4" "W (wR w) = H ?vec" "wLevel w = length p" "wAccKey w = map of_bool p"
    "map W (wSiblings w) = vecs" "\<not> wFound w" "wFoundValue w = 0"
    using Leaf(7) by (simp_all add: walkAt_def)
  have nz: "\<not> feaIsZero (smtFr S) (wR w)" using at(1,2) Leaf(4) [of ?vec] by (simp add: feaIsZero_words)
  have one: "?vec ! 8 = 1" by (simp add: leafVec_def nth_append length_H ones4_def)
  obtain sib t where t: "W sib = ?vec" "quiet s t" "walkVisit S ctx c12 keys w s =
      walkLeaf S ctx (w\<lparr>wSiblings := wSiblings w @ [sib], wDbValue := sib\<rparr>) sib t"
    using walkVisit_read [OF Leaf(1,3), of ?vec w c12 keys] at one by (auto simp: Let_def)
  have "stored H (view t) (treeVecs H (length p) (Leaf k v))" using t(2) Leaf(3) by (simp add: quiet_def)
  then obtain w' u where u: "walkLeaf S ctx (w\<lparr>wSiblings := wSiblings w @ [sib], wDbValue := sib\<rparr>) sib t = (Ret w', u)"
      "quiet t u" "walkEnd p vecs (Leaf k v) w'"
    using walkLeaf_run [of t p k v sib "w\<lparr>wSiblings := wSiblings w @ [sib], wDbValue := sib\<rparr>" vecs]
      Leaf(1,2) t(1,2) at quiet_active by auto
  have "wFound w'" using u(3) by (simp add: walkEnd_def)
  then have "smtWalk S ctx c12 keys (drop (length p) keys) w s = (Ret w', u)"
    using nz at(6) t(3) u(1) by (cases "drop (length p) keys") (simp_all add: bindP_def retP_def)
  moreover have "quiet s u" using quiet_trans t(2) u(2) by blast
  ultimately show ?case
    using u(3) by (intro exI [of _ "[]"] exI [of _ "Leaf k v"] exI [of _ w'] exI [of _ u]) simp
next
  case (Node l r)
  let ?n = "length p"
  let ?b = "keys ! ?n"
  let ?own = "if ?b then r else l" and ?other = "if ?b then l else r"
  let ?vec = "pairVec ?b (treeRoot H (Suc ?n) ?own) (treeRoot H (Suc ?n) ?other)"
  have vec: "nodeVec H ?n l r = ?vec" by (simp add: nodeVec_def pairVec_def)
  have root: "treeRoot H ?n (Node l r) = H ?vec" by (simp add: pairVec_def)
  have mem: "?vec \<in> treeVecs H ?n (Node l r)" using vec by simp
  have n: "?n < 252" using Node.prems(2) by simp
  have at: "length (wR w) = 4" "W (wR w) = H ?vec" "wLevel w = ?n" "wAccKey w = map of_bool p"
    "map W (wSiblings w) = vecs" "\<not> wFound w" "wFoundValue w = 0"
    using Node.prems(7) root by (simp_all add: walkAt_def)
  have nz: "\<not> feaIsZero (smtFr S) (wR w)"
    using at(1,2) Node.prems(4) [OF mem] by (simp add: feaIsZero_words)
  obtain sib t where t: "W sib = ?vec" "quiet s t"
      "walkVisit S ctx c12 keys w s = retP (w\<lparr>wSiblings := wSiblings w @ [sib], wDbValue := sib\<rparr>) t"
    using walkVisit_read [OF Node.prems(1,3) mem, of w c12 keys] at
    by (auto simp: Let_def pairVec_capacity)
  define w1 where "w1 = w\<lparr>wSiblings := wSiblings w @ [sib], wDbValue := sib\<rparr>"
  define w2 where "w2 = w1\<lparr>wR := slot ?b sib, wAccKey := wAccKey w @ [of_bool ?b],
    wLevel := wLevel w + 1\<rparr>"
  have down: "walkDown ?b w1 t = (Ret w2, t)" "W (slot ?b sib) = treeRoot H (Suc ?n) ?own"
    using walkDown_run [of w1 ?b "treeRoot H (Suc ?n) ?own" "treeRoot H (Suc ?n) ?other" t] t(1)
    by (simp_all add: w1_def w2_def)
  have bits: "drop ?n keys = ?b # drop (Suc ?n) keys"
    using n Node.prems(5) by (simp add: Cons_nth_drop_Suc)
  have act: "idle t \<or> busy t" using quiet_active t(2) Node.prems(1) by blast
  have wf: "wfTree (p @ [?b]) ?own" using Node.prems(2) by simp
  have sub: "treeVecs H (length (p @ [?b])) ?own \<subseteq> treeVecs H ?n (Node l r)" by auto
  have st: "stored H (view t) (treeVecs H (length (p @ [?b])) ?own)"
    using Node.prems(3) t(2) stored_subset sub by (metis quiet_def)
  have at2: "walkAt (p @ [?b]) (vecs @ [?vec]) ?own w2"
    using at t(1) down(2) by (simp add: walkAt_def w2_def w1_def)
  have "\<exists>ps e w' u. ?own = plug ps e \<and>
      map fst ps = take (length ps) (drop (length (p @ [?b])) keys) \<and>
      smtWalk S ctx c12 keys (drop (length (p @ [?b])) keys) w2 t = (Ret w', u) \<and> quiet t u \<and>
      walkEnd ((p @ [?b]) @ map fst ps) ((vecs @ [?vec]) @ pathVecs H (length (p @ [?b])) ps e) e w'"
  proof -
    have nz': "\<And>x. x \<in> treeVecs H (length (p @ [?b])) ?own \<Longrightarrow> H x \<noteq> zeros4"
      using Node.prems(4) sub by blast
    have len: "length (p @ [?b]) \<le> 252" using n by simp
    show ?thesis
    proof (cases ?b)
      case True
      then have own: "?own = r" by simp
      show ?thesis unfolding own
        by (rule Node.IH(2) [OF act wf [unfolded own] st [unfolded own] nz' [unfolded own]
              Node.prems(5) len at2 [unfolded own]])
    next
      case False
      then have own: "?own = l" by simp
      show ?thesis unfolding own
        by (rule Node.IH(1) [OF act wf [unfolded own] st [unfolded own] nz' [unfolded own]
              Node.prems(5) len at2 [unfolded own]])
    qed
  qed
  then obtain ps e w' u where u: "?own = plug ps e"
      "map fst ps = take (length ps) (drop (Suc ?n) keys)"
      "smtWalk S ctx c12 keys (drop (Suc ?n) keys) w2 t = (Ret w', u)" "quiet t u"
      "walkEnd (p @ ?b # map fst ps) (vecs @ ?vec # pathVecs H (Suc ?n) ps e) e w'"
    by auto
  have "Node l r = plug ((?b, ?other) # ps) e" using u(1) by (cases ?b) simp_all
  moreover have "smtWalk S ctx c12 keys (drop ?n keys) w s = (Ret w', u)"
    using nz at(6) t(3) down(1) u(3) unfolding bits w1_def by (simp add: bindP_def retP_def)
  moreover have "quiet s u" using quiet_trans t(2) u(4) by blast
  moreover have "map fst ((?b, ?other) # ps) = take (length ((?b, ?other) # ps)) (drop ?n keys)"
    using u(2) unfolding bits by simp
  ultimately show ?case
    using u(1,5) by (intro exI [of _ "(?b, ?other) # ps"] exI [of _ e] exI [of _ w'] exI [of _ u])
      (simp add: u(1) [symmetric])
qed

end

end
