(* ===== verification/Smt_Path.thy ===== *)
theory Smt_Path
  imports Smt_Walk
begin

text \<open>
  Tries cut along the path of a key (\<open>plug\<close>): how lookup, update, deletion and the set of vectors of
  a trie decompose, and the climb from a changed subtree to the new root (\<open>smtClimb\<close>).
\<close>

section \<open>Operations on a trie cut along a path\<close>

definition follows :: "bool list \<Rightarrow> nat \<Rightarrow> (bool \<times> smt_tree) list \<Rightarrow> bool" where
  "follows keys n ps \<longleftrightarrow> map fst ps = take (length ps) (drop n keys)"

lemma follows_Nil [simp]: "follows keys n []"
  by (simp add: follows_def)

lemma follows_Cons:
  assumes "follows keys n ((b, s) # ps)"
  shows "keys ! n = b \<and> follows keys (Suc n) ps"
proof -
  have n: "n < length keys" using assms by (cases "n < length keys") (auto simp: follows_def)
  have "drop n keys = keys ! n # drop (Suc n) keys" using n by (simp add: Cons_nth_drop_Suc)
  then show ?thesis using assms by (simp add: follows_def)
qed

lemma follows_append:
  "follows keys n (ps @ qs) \<Longrightarrow> follows keys n ps \<and> follows keys (n + length ps) qs"
proof (induction ps arbitrary: n)
  case (Cons x ps)
  obtain b s where x: "x = (b, s)" by (cases x)
  have n: "n < length keys" using Cons.prems by (cases "n < length keys") (auto simp: follows_def)
  have d: "drop n keys = keys ! n # drop (Suc n) keys" using n by (simp add: Cons_nth_drop_Suc)
  have "follows keys (Suc n) (ps @ qs)" "keys ! n = b"
    using follows_Cons [of keys n b s "ps @ qs"] Cons.prems x by simp_all
  then show ?case using Cons.IH [of "Suc n"] d x by (auto simp: follows_def)
qed simp

lemma follows_nth: "follows keys 0 ps \<Longrightarrow> i < length ps \<Longrightarrow> keys ! i = fst (ps ! i)"
  unfolding follows_def by (metis drop0 length_map nth_map nth_take)

lemma treeGet_plug:
  "follows (keyBits key) n ps \<Longrightarrow> treeGet n (plug ps t) key = treeGet (n + length ps) t key"
  by (induction ps arbitrary: n) (auto dest!: follows_Cons)

lemma treeInsert_plug:
  "follows (keyBits key) n ps \<Longrightarrow>
   treeInsert n (plug ps t) key v = plug ps (treeInsert (n + length ps) t key v)"
  by (induction ps arbitrary: n) (auto dest!: follows_Cons)

fun collapse :: "(bool \<times> smt_tree) list \<Rightarrow> smt_tree \<Rightarrow> smt_tree" where
  "collapse [] t = t"
| "collapse ((b, s) # ps) t = (if b then mkNode s (collapse ps t) else mkNode (collapse ps t) s)"

lemma treeDelete_plug:
  "follows (keyBits key) n ps \<Longrightarrow>
   treeDelete n (plug ps t) key = collapse ps (treeDelete (n + length ps) t key)"
  by (induction ps arbitrary: n) (auto dest!: follows_Cons)

lemma collapse_append: "collapse (ps @ qs) t = collapse ps (collapse qs t)"
  by (induction ps) auto

lemma mkNode_Node [simp]: "mkNode l (Node a b) = Node l (Node a b)" "mkNode (Node a b) r = Node (Node a b) r"
  by (cases l; simp add: mkNode_def) (cases r; simp add: mkNode_def)

lemma collapse_Node [simp]: "collapse ps (Node l r) = plug ps (Node l r)"
proof (induction ps)
  case (Cons x ps)
  then show ?case by (cases x; cases ps) auto
qed simp

lemma collapse_Leaf_snoc:
  "collapse (ps @ [(b, s)]) (Leaf k v) =
     (if s = Empty then collapse ps (Leaf k v) else plug (ps @ [(b, s)]) (Leaf k v))"
  by (cases s; cases b) (simp_all add: collapse_append plug_append mkNode_def)

lemma collapse_Empty_snoc:
  "collapse (ps @ [(b, Leaf k v)]) Empty = collapse ps (Leaf k v)"
  "collapse (ps @ [(b, Node l r)]) Empty = plug (ps @ [(b, Node l r)]) Empty"
  by (cases b; simp add: collapse_append plug_append mkNode_def)+

lemma wfTree_plug_snoc:
  "wfTree p (plug (ps @ [(b, s)]) t) \<Longrightarrow> wfTree (p @ map fst ps) (if b then Node s t else Node t s)"
proof (induction ps arbitrary: p)
  case (Cons x ps)
  obtain c u where x: "x = (c, u)" by (cases x)
  have "wfTree (p @ [c]) (plug (ps @ [(b, s)]) t)" using Cons.prems x by (cases c) simp_all
  from Cons.IH [OF this] show ?case using x by simp
qed (cases b, simp_all)

lemma wfTree_plug: "wfTree p (plug ps t) \<Longrightarrow> wfTree (p @ map fst ps) t"
proof (induction ps arbitrary: p)
  case (Cons x ps)
  obtain c u where x: "x = (c, u)" by (cases x)
  have "wfTree (p @ [c]) (plug ps t)" using Cons.prems x by (cases c) simp_all
  from Cons.IH [OF this] show ?case using x by simp
qed simp

lemma wfTree_plug_depth: "wfTree p (plug ps t) \<Longrightarrow> ps \<noteq> [] \<Longrightarrow> length p + length ps \<le> 252"
proof (induction ps arbitrary: p)
  case (Cons x ps)
  obtain c u where x: "x = (c, u)" by (cases x)
  have "wfTree (p @ [c]) (plug ps t)" "length p < 252" using Cons.prems x by (cases c; simp)+
  then show ?case using Cons.IH [of "p @ [c]"] by (cases ps) auto
qed simp

section \<open>The vectors of a trie cut along a path\<close>

fun sideVecs :: "(u64 list \<Rightarrow> u64 list) \<Rightarrow> nat \<Rightarrow> (bool \<times> smt_tree) list \<Rightarrow> u64 list set" where
  "sideVecs H n [] = {}"
| "sideVecs H n ((b, s) # ps) = treeVecs H (Suc n) s \<union> sideVecs H (Suc n) ps"

lemma treeVecs_plug:
  "treeVecs H n (plug ps t) =
     set (pathVecs H n ps t) \<union> treeVecs H (n + length ps) t \<union> sideVecs H n ps"
proof (induction ps arbitrary: n)
  case (Cons x ps)
  obtain b s where x: "x = (b, s)" by (cases x)
  show ?case unfolding x treeVecs_plug_Cons Cons.IH by auto
qed simp

lemma sideVecs_append: "sideVecs H n (ps @ qs) = sideVecs H n ps \<union> sideVecs H (n + length ps) qs"
  by (induction ps arbitrary: n) auto

lemma pathVecs_nth:
  "i < length ps \<Longrightarrow> pathVecs H n ps t ! i =
     pairVec (fst (ps ! i)) (treeRoot H (Suc (n + i)) (plug (drop (Suc i) ps) t))
       (treeRoot H (Suc (n + i)) (snd (ps ! i)))"
proof (induction ps arbitrary: n i)
  case (Cons x ps)
  then show ?case by (cases x; cases i) auto
qed simp

section \<open>Climbing\<close>

context smt_on_store begin

text \<open>
  The siblings of the levels below \<open>length ps\<close> are the nodes of the path with anything in the slot
  of the path, except in the last one, whose slot holds the root of the new subtree.
\<close>

definition onPath :: "(bool \<times> smt_tree) list \<Rightarrow> 'e list list \<Rightarrow> bool" where
  "onPath ps sibs \<longleftrightarrow> length ps \<le> length sibs \<and>
     (\<forall>i < length ps. \<exists>own. length own = 4 \<and>
        W (sibs ! i) = pairVec (fst (ps ! i)) own (treeRoot H (Suc i) (snd (ps ! i))))"

definition climbReady :: "(bool \<times> smt_tree) list \<Rightarrow> smt_tree \<Rightarrow> 'e SmtVars \<Rightarrow> bool" where
  "climbReady ps sub v \<longleftrightarrow> onPath ps (vSiblings v) \<and>
     (if ps = [] then length (vNewRoot v) = 4 \<and> W (vNewRoot v) = treeRoot H 0 sub
      else slot (fst (last ps)) (W (vSiblings v ! (length ps - 1))) = treeRoot H (length ps) sub)"

lemma onPath_pathVecs:
  assumes "take (length ps) (map W sibs) = pathVecs H 0 ps t"
  shows "onPath ps sibs"
proof -
  have len: "length ps \<le> length sibs"
    using arg_cong [OF assms, of length] by simp
  moreover have "\<exists>own. length own = 4 \<and>
      W (sibs ! i) = pairVec (fst (ps ! i)) own (treeRoot H (Suc i) (snd (ps ! i)))"
    if i: "i < length ps" for i
  proof -
    have "W (sibs ! i) = pathVecs H 0 ps t ! i"
      using arg_cong [OF assms, of "\<lambda>l. l ! i"] i len by simp
    then show ?thesis using pathVecs_nth [OF i, of H 0 t]
      by (intro exI [of _ "treeRoot H (Suc i) (plug (drop (Suc i) ps) t)"]) simp
  qed
  ultimately show ?thesis by (simp add: onPath_def)
qed

lemma onPath_take: "onPath (ps @ qs) sibs \<Longrightarrow> onPath ps sibs"
  by (auto simp: onPath_def nth_append split: if_splits)

lemma onPath_putSlot:
  assumes "onPath ps sibs" "length h = 4" "l < length ps" "b = fst (ps ! l)"
  shows "onPath ps (sibs[l := putSlot b h (sibs ! l)]) \<and> slot b (W (putSlot b h (sibs ! l))) = W h"
proof -
  obtain own where own: "length own = 4"
      "W (sibs ! l) = pairVec b own (treeRoot H (Suc l) (snd (ps ! l)))"
    using assms by (auto simp: onPath_def)
  have put: "W (putSlot b h (sibs ! l)) = pairVec b (W h) (treeRoot H (Suc l) (snd (ps ! l)))"
    using own assms(2) by (simp add: map_putSlot putSlot_pairVec)
  have "onPath ps (sibs[l := putSlot b h (sibs ! l)])"
    using assms put unfolding onPath_def by (auto simp: nth_list_update intro!: exI [of _ "W h"])
  with put show ?thesis using assms(2) by (simp add: slot_pairVec)
qed

lemma running_replaceChild:
  assumes "running V N s"
  shows "\<exists>t. replaceChild S ctx track l b h sibs s =
               (Ret (sibs[l := putSlot b h (sibs ! l)]), t) \<and> running V N t \<and> view t = view s"
proof -
  obtain t where t: "reportDeleted S ctx (slot b (sibs ! l)) s = (Ret (), t)" "running V N t"
      "view t = view s"
    using running_reportDeleted [OF assms length_slot] by blast
  show ?thesis
  proof (cases "track \<and> \<not> feaIsEqual (smtFr S) (slot b (sibs ! l)) h")
    case True
    with t show ?thesis by (auto simp: replaceChild_def Let_def bindP_def retP_def)
  next
    case False
    with assms show ?thesis
      by (intro exI [of _ s]) (simp add: replaceChild_def Let_def bindP_def retP_def if_not_P)
  qed
qed

end

context smt_on_store begin

lemma onPath_snoc_vec:
  assumes "onPath (ps @ [(b, u)]) sibs" "slot b (W (sibs ! length ps)) = own"
  shows "W (sibs ! length ps) = pairVec b own (treeRoot H (Suc (length ps)) u) \<and>
         length (sibs ! length ps) = 12"
proof -
  obtain own' where "length own' = 4"
      "W (sibs ! length ps) = pairVec b own' (treeRoot H (Suc (length ps)) u)"
    using assms(1) by (auto simp: onPath_def)
  then show ?thesis using assms(2) by (metis length_map length_pairVec length_treeRoot slot_pairVec(1))
qed

lemma smtClimb_run:
  assumes "running V N s" "climbReady ps sub v" "set (pathVecs H 0 ps sub) \<subseteq> V" "follows keys 0 ps"
  shows "\<exists>r sibs t. smtClimb S ctx keys inc (length ps) v s =
      (Ret (v\<lparr>vNewRoot := r, vSiblings := sibs, vLevel := - 1,
              vProofHashCounter := vProofHashCounter v + inc * length ps\<rparr>), t) \<and>
     running V N t \<and> view s \<subseteq>\<^sub>m view t \<and> length r = 4 \<and> W r = treeRoot H 0 (plug ps sub) \<and>
     stored H (view t) (set (pathVecs H 0 ps sub)) \<and>
     map W (take (length ps) sibs) = pathVecs H 0 ps sub \<and>
     drop (length ps) sibs = drop (length ps) (vSiblings v)"
  using assms
proof (induction ps arbitrary: s v sub rule: rev_induct)
  case Nil
  have "smtClimb S ctx keys inc (length []) v s =
      (Ret (v\<lparr>vNewRoot := vNewRoot v, vSiblings := vSiblings v, vLevel := - 1,
              vProofHashCounter := vProofHashCounter v + inc * length []\<rparr>), s)"
    by (simp add: retP_def)
  then show ?case using Nil
    by (intro exI [of _ "vNewRoot v"] exI [of _ "vSiblings v"] exI [of _ s])
      (simp add: climbReady_def)
next
  case (snoc x ps)
  obtain b u where x: "x = (b, u)" by (cases x)
  let ?l = "length ps" and ?sibs = "vSiblings v"
  let ?vec = "pairVec b (treeRoot H (Suc ?l) sub) (treeRoot H (Suc ?l) u)"
  have path: "onPath (ps @ [(b, u)]) ?sibs" "slot b (W (?sibs ! ?l)) = treeRoot H (Suc ?l) sub"
    using snoc.prems(2) x by (simp_all add: climbReady_def)
  have vec: "W (?sibs ! ?l) = ?vec" "length (?sibs ! ?l) = 12"
    using onPath_snoc_vec [OF path] by simp_all
  have sub': "pathVecs H 0 (ps @ [x]) sub = pathVecs H 0 ps (plug [(b, u)] sub) @ [?vec]"
    using pathVecs_append [of H 0 ps "[(b, u)]" sub] x by simp
  have root: "H ?vec = treeRoot H ?l (plug [(b, u)] sub)" using treeRoot_plug_Cons by simp
  have in_V: "W (?sibs ! ?l) \<in> V" using snoc.prems(3) sub' vec by simp
  obtain h t where h: "hashSave S ctx (?sibs ! ?l) s = (Ret h, t)" "length h = 4" "W h = H ?vec"
      "running V N t" "view s \<subseteq>\<^sub>m view t" "view t (keystr (H ?vec)) = Some ?vec"
    using running_hashSave [OF snoc.prems(1) vec(2) in_V] vec(1) by auto
  define sibs1 where "sibs1 = (if ?l > 0 then ?sibs[?l - 1 := putSlot (keys ! (?l - 1)) h (?sibs ! (?l - 1))] else ?sibs)"
  obtain t1 where t1: "(if ?l > 0 then replaceChild S ctx (bUseStateManager ctx) (?l - 1) (keys ! (?l - 1)) h ?sibs
       else retP ?sibs) t = (Ret sibs1, t1)" "running V N t1" "view t1 = view t"
    using running_replaceChild [OF h(4), of "bUseStateManager ctx" "?l - 1" "keys ! (?l - 1)" h ?sibs] h(4)
    by (cases "ps = []") (auto simp: sibs1_def retP_def)
  define v1 where "v1 = v\<lparr>vNewRoot := h, vSiblings := sibs1,
    vProofHashCounter := vProofHashCounter v + inc\<rparr>"
  have fol: "follows keys 0 ps" using snoc.prems(4) follows_append by blast
  have ready: "climbReady ps (plug [(b, u)] sub) v1"
  proof (cases "ps = []")
    case True
    then show ?thesis using h(2,3) root path(1) by (simp add: climbReady_def v1_def onPath_def)
  next
    case False
    let ?k = "?l - 1"
    have k: "?k < ?l" using False by simp
    have bk: "keys ! ?k = fst (ps ! ?k)" using follows_nth [OF fol k] .
    have "onPath ps ?sibs" using path(1) onPath_take by blast
    from onPath_putSlot [OF this h(2) k bk]
    moreover have "?k < length ?sibs" using path(1) k by (simp add: onPath_def)
    ultimately show ?thesis using False h(3) root bk
      by (simp add: climbReady_def v1_def sibs1_def last_conv_nth del: plug.simps treeRoot.simps)
  qed
  have incl: "set (pathVecs H 0 ps (plug [(b, u)] sub)) \<subseteq> V" using snoc.prems(3) sub' by auto
  from snoc.IH [OF t1(2) ready incl fol]
  obtain r sibs t2 where IH: "smtClimb S ctx keys inc ?l v1 t1 =
      (Ret (v1\<lparr>vNewRoot := r, vSiblings := sibs, vLevel := - 1,
              vProofHashCounter := vProofHashCounter v1 + inc * ?l\<rparr>), t2)"
      "running V N t2" "view t1 \<subseteq>\<^sub>m view t2" "length r = 4"
      "W r = treeRoot H 0 (plug ps (plug [(b, u)] sub))"
      "stored H (view t2) (set (pathVecs H 0 ps (plug [(b, u)] sub)))"
      "map W (take ?l sibs) = pathVecs H 0 ps (plug [(b, u)] sub)"
      "drop ?l sibs = drop ?l (vSiblings v1)"
    by auto
  have run: "smtClimb S ctx keys inc (length (ps @ [x])) v s =
      (Ret (v\<lparr>vNewRoot := r, vSiblings := sibs, vLevel := - 1,
              vProofHashCounter := vProofHashCounter v + inc * length (ps @ [x])\<rparr>), t2)"
    using h(1) t1(1) IH(1) vec(2) by (simp add: bindP_def v1_def add.assoc)
  have "view s \<subseteq>\<^sub>m view t2" using h(5) t1(3) IH(3) map_le_trans by metis
  moreover have "stored H (view t2) (set (pathVecs H 0 (ps @ [x]) sub))"
  proof -
    have "view t2 (keystr (H ?vec)) = Some ?vec" 
      by (rule map_le_Some [OF IH(3)]) (simp only: t1(3) h(6))
    then show ?thesis using IH(6) unfolding sub' by (simp add: stored_def del: plug.simps)
  qed
  moreover have drop1: "drop ?l sibs = drop ?l ?sibs"
    using IH(8) by (simp add: v1_def sibs1_def)
  moreover have "map W (take (length (ps @ [x])) sibs) = pathVecs H 0 (ps @ [x]) sub"
  proof -
    have "?l < length ?sibs" using path(1) by (simp add: onPath_def)
    then have "take 1 (drop ?l ?sibs) = [?sibs ! ?l]" by (simp add: take_Suc hd_drop_conv_nth)
    then have "take (Suc ?l) sibs = take ?l sibs @ [?sibs ! ?l]"
      using drop1 take_add [of ?l 1 sibs] by simp
    then show ?thesis using IH(7) vec(1) sub' by simp
  qed
  moreover have "drop (length (ps @ [x])) sibs = drop (length (ps @ [x])) ?sibs"
    using arg_cong [OF drop1, of "drop 1"] by simp
  ultimately show ?case
    using run IH(2,4,5) x by (intro exI [of _ r] exI [of _ sibs] exI [of _ t2]) (simp add: plug_append)
qed

end

end
