(* ===== verification/Smt_Set.thy ===== *)
theory Smt_Set
  imports Smt_Path
begin

text \<open>
  \<open>smtSet\<close> on a store that holds a trie: every branch of the update (lines 186 to 750 of smt.cpp)
  leaves the siblings and the store ready for the climb to the root of the updated trie.
\<close>

section \<open>Tries of the branches\<close>

lemma collapse_wf: "wfTree p (plug ps e) \<Longrightarrow> collapse ps e = plug ps e"
proof (induction ps arbitrary: p)
  case (Cons x ps)
  obtain b s where x: "x = (b, s)" by (cases x)
  have "wfTree (p @ [b]) (plug ps e)" using Cons.prems x by (cases b) simp_all
  then show ?case using Cons.IH Cons.prems x by (cases b) (simp_all add: mkNode_def)
qed simp

definition chain :: "bool list \<Rightarrow> nat \<Rightarrow> nat \<Rightarrow> (bool \<times> smt_tree) list" where
  "chain keys n m = map (\<lambda>i. (keys ! i, Empty)) [n..<m]"

lemma length_chain [simp]: "length (chain keys n m) = m - n"
  by (simp add: chain_def)

lemma chain_refl [simp]: "chain keys n n = []"
  by (simp add: chain_def)

lemma chain_Suc: "n \<le> m \<Longrightarrow> chain keys n (Suc m) = chain keys n m @ [(keys ! m, Empty)]"
  by (simp add: chain_def)

lemma chain_Cons: "n < m \<Longrightarrow> chain keys n m = (keys ! n, Empty) # chain keys (Suc n) m"
  by (simp add: chain_def upt_rec)

lemma sideVecs_chain [simp]: "sideVecs H n' (chain keys n m) = {}"
proof -
  have "sideVecs H n' (map (\<lambda>i. (keys ! i, Empty)) xs) = {}" for xs
    by (induction xs arbitrary: n') simp_all
  then show ?thesis by (simp add: chain_def)
qed

definition forkNode :: "bool \<Rightarrow> smt_tree \<Rightarrow> smt_tree \<Rightarrow> smt_tree" where
  "forkNode b new old = (if b then Node old new else Node new old)"

lemma treeFork_chain:
  assumes "n \<le> m" "m < 256" "\<And>i. n \<le> i \<Longrightarrow> i < m \<Longrightarrow> keyBits k ! i = keyBits k' ! i"
    "keyBits k ! m \<noteq> keyBits k' ! m"
  shows "treeFork n k v k' v' = plug (chain (keyBits k) n m) (forkNode (keyBits k ! m) (Leaf k v) (Leaf k' v'))"
  using assms
proof (induction "m - n" arbitrary: n)
  case 0
  then have "n = m" by simp
  with 0 show ?case by (subst treeFork.simps) (auto simp: forkNode_def)
next
  case (Suc d)
  then have n: "n < m" by simp
  have "treeFork (Suc n) k v k' v'
      = plug (chain (keyBits k) (Suc n) m) (forkNode (keyBits k ! m) (Leaf k v) (Leaf k' v'))"
    using Suc(2-) by (intro Suc(1)) auto
  then show ?case using n Suc(4,5) by (subst treeFork.simps) (simp add: chain_Cons)
qed

lemma drop_nth: "n < length xs \<Longrightarrow> drop n xs = xs ! n # drop (Suc n) xs"
  by (rule Cons_nth_drop_Suc [symmetric])

lemma splitLevel_Ret:
  assumes "length a = length b" "n \<le> m" "m < length a"
    "\<And>i. n \<le> i \<Longrightarrow> i < m \<Longrightarrow> a ! i = b ! i" "a ! m \<noteq> b ! m"
  shows "splitLevel (drop n a) (drop n b) n = Ret m"
  using assms
proof (induction "m - n" arbitrary: n)
  case 0
  then have "n = m" by simp
  moreover have "drop m a = a ! m # drop (Suc m) a" "drop m b = b ! m # drop (Suc m) b"
    using 0(2,4) by (intro drop_nth; simp)+
  ultimately show ?case using 0(6) by simp
next
  case (Suc d)
  then have n: "n < m" by simp
  have "drop n a = a ! n # drop (Suc n) a" "drop n b = b ! n # drop (Suc n) b"
    using n Suc(3,5) by (intro drop_nth; simp)+
  moreover have "splitLevel (drop (Suc n) a) (drop (Suc n) b) (Suc n) = Ret m"
    using Suc(2-) n by (intro Suc(1)) auto
  ultimately show ?case using Suc(6) n by simp
qed

lemma first_difference:
  assumes "separable k k'" "take n (keyBits k) = take n (keyBits k')" "n \<le> 256"
  obtains m where "n \<le> m" "m < 252" "keyBits k ! m \<noteq> keyBits k' ! m"
    "\<And>i. n \<le> i \<Longrightarrow> i < m \<Longrightarrow> keyBits k ! i = keyBits k' ! i"
proof -
  let ?P = "\<lambda>i. n \<le> i \<and> i < 252 \<and> keyBits k ! i \<noteq> keyBits k' ! i"
  define m where "m = (LEAST i. ?P i)"
  obtain i where "?P i" using separable_level [OF assms] by auto
  then have P: "?P m" unfolding m_def by (rule LeastI)
  have "keyBits k ! i = keyBits k' ! i" if "n \<le> i" "i < m" for i
    using not_less_Least [of i ?P] that P unfolding m_def by simp
  with P show thesis by (intro that [of m]) auto
qed

section \<open>Unique children\<close>

text \<open>The modes the code reports, in terms of the trie.\<close>

definition modeOf :: "smt_tree \<Rightarrow> smt_tree \<Rightarrow> u64 list \<Rightarrow> nat \<Rightarrow> string set" where
  "modeOf T e key value =
     (if value = 0
      then if valueOf T key = 0 then {''zeroToZero''} else {''deleteFound'', ''deleteNotFound''}
      else if valueOf T key \<noteq> 0 then {''update''}
      else if e = Empty then {''insertNotFound''} else {''insertFound''})"

context hash_library begin

lemma getUniqueSibling_pairVec:
  assumes "map (toU64 fr) a = pairVec b own other" "length own = 4" "length other = 4"
  shows "getUniqueSibling fr a = Ret
    (if own \<noteq> zeros4 \<and> other = zeros4 then of_bool b
     else if own = zeros4 \<and> other \<noteq> zeros4 then of_bool (\<not> b) else - 1)"
proof -
  have len: "length a = 12" using arg_cong [OF assms(1), of length] assms(2,3) by simp
  define g where "g i = feaIsZero fr [a ! (4 * i), a ! (4 * i + 1), a ! (4 * i + 2), a ! (4 * i + 3)]" for i
  define x y where "x = (if b then other else own)" and "y = (if b then own else other)"
  have xy: "map (toU64 fr) a = x @ y @ zeros4" "length x = 4" "length y = 4"
    using assms by (auto simp: pairVec_def x_def y_def)
  have g: "g i \<longleftrightarrow> take 4 (drop (4 * i) (x @ y @ zeros4)) = zeros4" if "i < 3" for i
  proof -
    have "[a ! (4 * i), a ! (4 * i + 1), a ! (4 * i + 2), a ! (4 * i + 3)] = take 4 (drop (4 * i) a)"
      using that len by (intro nth_equalityI) (auto simp: less_Suc_eq numeral_eq_Suc)
    moreover have "length (take 4 (drop (4 * i) a)) = 4" using that len by simp
    ultimately show ?thesis
      unfolding g_def by (simp only: feaIsZero_words take_map [symmetric] drop_map [symmetric] xy(1))
  qed
  have g3: "g 0 \<longleftrightarrow> x = zeros4" "g 1 \<longleftrightarrow> y = zeros4" "g 2"
    using g [of 0] g [of 1] g [of 2] xy(2,3) by simp_all
  have three: "[0..<length a div 4] = [0, 1, 2 :: nat]" using len by (simp add: upt_rec)
  have "getUniqueSibling fr a =
      (let (nFound, fnd) = foldl (\<lambda>(nFound, fnd) i. if \<not> g i then (nFound + 1, int i) else (nFound, fnd))
             (0 :: nat, 0) [0, 1, 2]
       in Ret (if nFound = 1 then fnd else - 1))"
    unfolding getUniqueSibling_def g_def three using len by simp
  then show ?thesis using g3 by (cases b) (auto simp: x_def y_def)
qed

end

section \<open>Saving leaves, placing subtrees, chains\<close>

context smt_on_store begin

lemma running_saveLeaf:
  assumes "running V N s" "valueVec value \<in> V" "leafVec H n k value \<in> V"
    "length rk = 4" "W rk = remKey n k"
  shows "\<exists>vh lh u t. hashSaveZero S ctx (scalar2fea8 (smtFr S) value) s = (Ret vh, u) \<and>
           hashSaveOne S ctx (rk @ vh) u = (Ret lh, t) \<and>
           length lh = 4 \<and> W lh = treeRoot H n (Leaf k value) \<and> running V N t \<and>
           view s \<subseteq>\<^sub>m view t \<and> stored H (view t) (treeVecs H n (Leaf k value))"
proof -
  have vw: "W (scalar2fea8 (smtFr S) value) = valueWords value"
    by (rule map_toU64_scalar2fea8) (rule goldilocks_axioms)
  obtain vh t where t: "hashSaveZero S ctx (scalar2fea8 (smtFr S) value) s = (Ret vh, t)" "length vh = 4"
      "W vh = H (valueVec value)" "running V N t" "view s \<subseteq>\<^sub>m view t"
      "view t (keystr (H (valueVec value))) = Some (valueVec value)"
    using running_hashSaveZero [OF assms(1), of "scalar2fea8 (smtFr S) value"] assms(2) vw
    by (auto simp: valueVec_def)
  have lv: "W (rk @ vh) @ ones4 = leafVec H n k value" using assms(5) t(3) by (simp add: leafVec_def)
  obtain lh u where u: "hashSaveOne S ctx (rk @ vh) t = (Ret lh, u)" "length lh = 4"
      "W lh = H (leafVec H n k value)" "running V N u" "view t \<subseteq>\<^sub>m view u"
      "view u (keystr (H (leafVec H n k value))) = Some (leafVec H n k value)"
    using running_hashSaveOne [OF t(4), of "rk @ vh"] assms(3,4) t(2) lv by auto
  have "view u (keystr (H (valueVec value))) = Some (valueVec value)"
    by (rule map_le_Some [OF u(5) t(6)])
  then have "stored H (view u) (treeVecs H n (Leaf k value))" using u(6) by (simp add: stored_def)
  moreover have "view s \<subseteq>\<^sub>m view u" using map_le_trans t(5) u(5) by blast
  ultimately show ?thesis using t(1) u
    by (intro exI [of _ vh] exI [of _ lh] exI [of _ t] exI [of _ u]) simp
qed

text \<open>The new subtree becomes the child at the end of the path, or the root.\<close>

lemma climbReady_place:
  assumes "onPath ps (vSiblings v)" "follows keys 0 ps" "length lh = 4"
    "W lh = treeRoot H (length ps) sub" "ps \<noteq> []" "l = length ps - 1"
  shows "climbReady ps sub (v\<lparr>vSiblings := (vSiblings v)[l := putSlot (keys ! l) lh (vSiblings v ! l)]\<rparr>)"
proof -
  have l: "l < length ps" using assms(5,6) by simp
  have b: "keys ! l = fst (ps ! l)" using follows_nth assms(2) l by blast
  have "l < length (vSiblings v)" using assms(1) l by (simp add: onPath_def)
  with onPath_putSlot [OF assms(1,3) l b] show ?thesis
    using assms(4-6) b by (simp add: climbReady_def last_conv_nth)
qed

lemma running_place:
  assumes "running V N s" "onPath ps (vSiblings v)" "vLevel v = int (length ps) - 1"
    "follows keys 0 ps" "length lh = 4" "W lh = treeRoot H (length ps) sub"
    "vSiblings x = vSiblings v"
  shows "\<exists>y t.
      (if 0 \<le> vLevel v
       then bindP (replaceChild S ctx track (nat (vLevel v)) (keys ! nat (vLevel v)) lh (vSiblings v))
              (\<lambda>siblings. retP (x\<lparr>vSiblings := siblings\<rparr>))
       else retP (x\<lparr>vNewRoot := lh\<rparr>)) s = (Ret y, t) \<and> running V N t \<and> view t = view s \<and>
      climbReady ps sub y \<and> (\<exists>sibs r. y = x\<lparr>vSiblings := sibs, vNewRoot := r\<rparr>)"
proof (cases "ps = []")
  case True
  have "x\<lparr>vNewRoot := lh\<rparr> = x\<lparr>vSiblings := vSiblings x, vNewRoot := lh\<rparr>" by simp
  then have "\<exists>sibs r. x\<lparr>vNewRoot := lh\<rparr> = x\<lparr>vSiblings := sibs, vNewRoot := r\<rparr>" by blast
  moreover have "climbReady ps sub (x\<lparr>vNewRoot := lh\<rparr>)"
    using True assms by (simp add: climbReady_def onPath_def)
  moreover have "\<not> 0 \<le> vLevel v" using True assms(3) by simp
  ultimately show ?thesis using assms(1)
    by (intro exI [of _ "x\<lparr>vNewRoot := lh\<rparr>"] exI [of _ s]) (simp only: if_False retP_def)
next
  case False
  define l where "l = length ps - 1"
  have nl: "nat (vLevel v) = l" "0 \<le> vLevel v" using assms(3) False by (simp_all add: l_def)
  define sibs where "sibs = (vSiblings v)[l := putSlot (keys ! l) lh (vSiblings v ! l)]"
  obtain t where t: "replaceChild S ctx track l (keys ! l) lh (vSiblings v) s = (Ret sibs, t)"
      "running V N t" "view t = view s"
    using running_replaceChild [OF assms(1), of track l "keys ! l" lh "vSiblings v"]
    by (auto simp: sibs_def)
  have "climbReady ps sub (x\<lparr>vSiblings := sibs\<rparr>)"
    using climbReady_place [of ps x keys lh sub l] assms(2,4-7) False
    by (simp add: sibs_def l_def)
  moreover have "\<exists>sibs' r. x\<lparr>vSiblings := sibs\<rparr> = x\<lparr>vSiblings := sibs', vNewRoot := r\<rparr>"
    by (intro exI [of _ sibs] exI [of _ "vNewRoot x"]) simp
  ultimately show ?thesis using t nl
    by (intro exI [of _ "x\<lparr>vSiblings := sibs\<rparr>"] exI [of _ t]) (simp add: bindP_def retP_def)
qed

text \<open>The chain of nodes with one child that leads to a fork.\<close>

lemma running_chain:
  assumes "running V N s" "n \<le> m" "length r2 = 4" "W r2 = treeRoot H m sub"
    "set (pathVecs H n (chain keys n m) sub) \<subseteq> V"
  shows "\<exists>r t. foldP (\<lambda>l r2. hashSaveZero S ctx
               (if keys ! l then replicate 4 (gl_zero (smtFr S)) @ r2
                else r2 @ replicate 4 (gl_zero (smtFr S)))) (rev [n..<m]) r2 s = (Ret r, t) \<and>
           length r = 4 \<and> W r = treeRoot H n (plug (chain keys n m) sub) \<and> running V N t \<and>
           view s \<subseteq>\<^sub>m view t \<and> stored H (view t) (set (pathVecs H n (chain keys n m) sub))"
  using assms
proof (induction "m - n" arbitrary: m s r2 sub)
  case 0
  then have "m = n" by simp
  with 0 show ?case by (simp add: retP_def)
next
  case (Suc d)
  obtain m' where m: "m = Suc m'" "n \<le> m'" using Suc(2,4) by (cases m) auto
  let ?b = "keys ! m'" and ?sub = "plug [(keys ! m', Empty)] sub"
  let ?vec = "pairVec ?b (treeRoot H m sub) zeros4"
  let ?z = "replicate 4 (gl_zero (smtFr S))"
  have vecs: "pathVecs H n (chain keys n m) sub = pathVecs H n (chain keys n m') ?sub @ [?vec]"
    unfolding m(1) chain_Suc [OF m(2)] pathVecs_append using m by simp
  have z: "W ?z = zeros4" "length ?z = 4" by (simp_all add: replicate_4 zeros4_def toU64_zero)
  have wa: "W (if ?b then ?z @ r2 else r2 @ ?z) @ zeros4 = ?vec"
    using z Suc(6) by (simp add: pairVec_def del: replicate_4)
  have la: "length (if ?b then ?z @ r2 else r2 @ ?z) = 8" using Suc(5) by simp
  obtain h t where h: "hashSaveZero S ctx (if ?b then ?z @ r2 else r2 @ ?z) s = (Ret h, t)"
      "length h = 4" "W h = H ?vec" "running V N t" "view s \<subseteq>\<^sub>m view t"
      "view t (keystr (H ?vec)) = Some ?vec"
    using running_hashSaveZero [OF Suc(3) la] Suc(7) wa vecs by auto
  have "W h = treeRoot H m' ?sub" using h(3) treeRoot_plug_Cons [of H m' ?b Empty "[]" sub] m by simp
  moreover have "d = m' - n" using Suc(2) m by simp
  moreover have "set (pathVecs H n (chain keys n m') ?sub) \<subseteq> V" using Suc(7) vecs by simp
  ultimately obtain r u where
    u: "foldP (\<lambda>l r2. hashSaveZero S ctx (if keys ! l then ?z @ r2 else r2 @ ?z)) (rev [n..<m']) h t = (Ret r, u)"
      "length r = 4" "W r = treeRoot H n (plug (chain keys n m') ?sub)" "running V N u"
      "view t \<subseteq>\<^sub>m view u" "stored H (view u) (set (pathVecs H n (chain keys n m') ?sub))"
    using Suc(1) [of m' t h ?sub] m(2) h(2,4) by blast
  have "view u (keystr (H ?vec)) = Some ?vec" by (rule map_le_Some [OF u(5) h(6)])
  then have "stored H (view u) (set (pathVecs H n (chain keys n m) sub))"
    unfolding vecs using u(6) by (simp add: stored_def)
  moreover have "plug (chain keys n m) sub = plug (chain keys n m') ?sub"
    unfolding m(1) chain_Suc [OF m(2)] plug_append ..
  moreover have "view s \<subseteq>\<^sub>m view u" using map_le_trans h(5) u(5) by blast
  ultimately show ?case using h(1) u m by (intro exI [of _ r] exI [of _ u]) (simp add: bindP_def)
qed

end

section \<open>The branches of an update\<close>

context smt_on_store begin

text \<open>
  What every branch has to leave for the climb to the root of \<open>T'\<close>; \<open>U\<close> are the vectors of the
  old trie.
\<close>

definition changed :: "smt_tree \<Rightarrow> u64 list set \<Rightarrow> bool list \<Rightarrow> 'e SmtVars \<Rightarrow> 's \<Rightarrow> bool" where
  "changed T' U keys v t \<longleftrightarrow>
     (\<exists>ps sub. T' = plug ps sub \<and> follows keys 0 ps \<and> vLevel v = int (length ps) - 1 \<and>
               climbReady ps sub v \<and> stored H (view t) (treeVecs H (length ps) sub) \<and>
               sideVecs H 0 ps \<subseteq> U)"

text \<open>The situation after the search for the key \<open>key\<close> in the trie \<open>plug ps e\<close>.\<close>

definition searched ::
  "'e list \<Rightarrow> 'e list \<Rightarrow> (bool \<times> smt_tree) list \<Rightarrow> smt_tree \<Rightarrow> 'e SmtWalk \<Rightarrow> bool" where
  "searched oldRoot key ps e w \<longleftrightarrow>
     length key = 4 \<and> length oldRoot = 4 \<and> W oldRoot = treeRoot H 0 (plug ps e) \<and>
     wfTree [] (plug ps e) \<and> follows (splitKey (smtFr S) key) 0 ps \<and>
     walkEnd (map fst ps) (pathVecs H 0 ps e) e w"

lemma searched_vars:
  assumes "searched oldRoot key ps e w"
  shows "vLevel (smtVars (smtFr S) oldRoot w (butlast (wAccKey w))) = int (length ps) - 1"
    "nat (vLevel (smtVars (smtFr S) oldRoot w (butlast (wAccKey w))) + 1) = length ps"
    "vSiblings (smtVars (smtFr S) oldRoot w (butlast (wAccKey w))) = wSiblings w"
    "take (length ps) (map W (wSiblings w)) = pathVecs H 0 ps e"
    "onPath ps (wSiblings w)"
    "splitKey (smtFr S) key = keyBits (W key)"
    "length ps \<le> 252" "vNewRoot (smtVars (smtFr S) oldRoot w (butlast (wAccKey w))) = oldRoot"
proof -
  show "vLevel (smtVars (smtFr S) oldRoot w (butlast (wAccKey w))) = int (length ps) - 1"
    "nat (vLevel (smtVars (smtFr S) oldRoot w (butlast (wAccKey w))) + 1) = length ps"
    "vSiblings (smtVars (smtFr S) oldRoot w (butlast (wAccKey w))) = wSiblings w"
    "vNewRoot (smtVars (smtFr S) oldRoot w (butlast (wAccKey w))) = oldRoot"
    using assms by (simp_all add: smtVars_def Let_def searched_def walkEnd_def)
  show t: "take (length ps) (map W (wSiblings w)) = pathVecs H 0 ps e"
    using assms by (cases e) (simp_all add: searched_def walkEnd_def)
  then show "onPath ps (wSiblings w)" by (rule onPath_pathVecs)
  show "splitKey (smtFr S) key = keyBits (W key)"
    using assms by (simp add: searched_def splitKey_keyBits)
  show "length ps \<le> 252"
    using assms wfTree_plug_depth [of "[]" ps e] by (cases "ps = []") (auto simp: searched_def)
qed

lemma searched_insert:
  "searched oldRoot key ps e w \<Longrightarrow>
   treeInsert 0 (plug ps e) (W key) value = plug ps (treeInsert (length ps) e (W key) value)"
  using treeInsert_plug [of "W key" 0 ps e "value"] searched_vars(6)
  by (auto simp: searched_def splitKey_keyBits)

text \<open>The search pushes a bit exactly when the trie has a node at its root.\<close>

lemma searched_popBack:
  assumes "searched oldRoot key ps e w"
  shows "popBack (wAccKey w) = (if isNode (plug ps e) then Ret (butlast (wAccKey w)) else Undef)"
proof -
  have w: "wAccKey w = map of_bool (map fst ps)" "e \<noteq> Node l r" for l r
    using assms by (auto simp: searched_def walkEnd_def)
  have "isNode (plug ps e) \<longleftrightarrow> ps \<noteq> []"
  proof (cases ps)
    case Nil
    then show ?thesis using w(2) by (cases e) auto
  next
    case (Cons q qs)
    then show ?thesis by (cases q) simp
  qed
  then show ?thesis by (simp add: popBack_def w(1))
qed

lemma smtUpdate_run:
  assumes run: "running V N s" and se: "searched oldRoot key ps (Leaf k w0) w" "k = W key"
    and val: "value \<noteq> 0"
    and V: "treeVecs H 0 (treeSet (plug ps (Leaf k w0)) (W key) value) \<subseteq> V"
  shows "\<exists>v t. smtUpdate S ctx (splitKey (smtFr S) key) value w (smtVars (smtFr S) oldRoot w (butlast (wAccKey w))) s = (Ret v, t) \<and>
     running V N t \<and> view s \<subseteq>\<^sub>m view t \<and> vMode v = ''update'' \<and> vOldValue v = w0 \<and>
     changed (treeSet (plug ps (Leaf k w0)) (W key) value) (sideVecs H 0 ps) (splitKey (smtFr S) key) v t"
proof -
  let ?keys = "splitKey (smtFr S) key" and ?v = "smtVars (smtFr S) oldRoot w (butlast (wAccKey w))" and ?n = "length ps"
  note vars = searched_vars [OF se(1)]
  have T': "treeSet (plug ps (Leaf k w0)) (W key) value = plug ps (Leaf k value)"
    using val searched_insert [OF se(1), of "value"] se(2) by (simp add: treeSet_def)
  have w: "length (wFoundRKey w) = 4" "W (wFoundRKey w) = remKey ?n k" "wFoundValue w = w0"
    using se(1) by (simp_all add: searched_def walkEnd_def)
  have "valueVec value \<in> V" "leafVec H ?n k value \<in> V" using V unfolding T' treeVecs_plug by auto
  from running_saveLeaf [OF run this w(1,2)] obtain vh lh t0 t where
    ex: "hashSaveZero S ctx (scalar2fea8 (smtFr S) value) s = (Ret vh, t0)"
      "hashSaveOne S ctx (wFoundRKey w @ vh) t0 = (Ret lh, t)"
    and t: "length lh = 4" "W lh = treeRoot H ?n (Leaf k value)" "running V N t" "view s \<subseteq>\<^sub>m view t"
      "stored H (view t) (treeVecs H ?n (Leaf k value))" by blast
  have fol: "follows ?keys 0 ps" using se(1) by (simp add: searched_def)
  define x where "x = ?v\<lparr>vMode := ''update'', vOldValue := wFoundValue w,
    vProofHashCounter := vProofHashCounter ?v + 2\<rparr>"
  have eq: "smtUpdate S ctx ?keys value w ?v s =
      (if 0 \<le> vLevel ?v
       then bindP (replaceChild S ctx (bUseStateManager ctx \<and> wFoundValue w \<noteq> value)
                     (nat (vLevel ?v)) (?keys ! nat (vLevel ?v)) lh (vSiblings ?v))
              (\<lambda>siblings. retP (x\<lparr>vSiblings := siblings\<rparr>))
       else retP (x\<lparr>vNewRoot := lh\<rparr>)) t"
    by (simp add: smtUpdate_def Let_def x_def bindP_def ex)
  have "vSiblings x = vSiblings ?v" "onPath ps (vSiblings ?v)" using vars by (simp_all add: x_def)
  from running_place [OF t(3) this(2) vars(1) fol t(1,2) this(1)]
  obtain y u where u: "smtUpdate S ctx ?keys value w ?v s = (Ret y, u)" "running V N u" "view u = view t"
      "climbReady ps (Leaf k value) y" "\<exists>sibs r. y = x\<lparr>vSiblings := sibs, vNewRoot := r\<rparr>"
    unfolding eq by blast
  have "changed (plug ps (Leaf k value)) (sideVecs H 0 ps) ?keys y u"
    unfolding changed_def using u vars(1) fol t(5)
    by (intro exI [of _ ps] exI [of _ "Leaf k value"]) (auto simp: x_def)
  then show ?thesis unfolding T' using u t(4) w(3) by (auto simp: x_def)
qed

end

context smt_on_store begin

lemma smtInsertNotFound_run:
  assumes run: "running V N s" and se: "searched oldRoot key ps Empty w" and val: "value \<noteq> 0"
    and V: "treeVecs H 0 (treeSet (plug ps Empty) (W key) value) \<subseteq> V"
  shows "\<exists>v t. smtInsertNotFound S ctx (splitKey (smtFr S) key) key value (smtVars (smtFr S) oldRoot w (butlast (wAccKey w))) s
       = (Ret v, t) \<and>
     running V N t \<and> view s \<subseteq>\<^sub>m view t \<and> vMode v = ''insertNotFound'' \<and> vOldValue v = 0 \<and>
     changed (treeSet (plug ps Empty) (W key) value) (sideVecs H 0 ps) (splitKey (smtFr S) key) v t"
proof -
  let ?keys = "splitKey (smtFr S) key" and ?v = "smtVars (smtFr S) oldRoot w (butlast (wAccKey w))" and ?n = "length ps"
  let ?rk = "dropKeyBits (smtFr S) key ?n"
  note vars = searched_vars [OF se]
  have T': "treeSet (plug ps Empty) (W key) value = plug ps (Leaf (W key) value)"
    using val searched_insert [OF se, of "value"] by (simp add: treeSet_def)
  have "length key = 4" using se by (simp add: searched_def)
  then have rk: "length ?rk = 4" "W ?rk = remKey ?n (W key)" using words_dropKeyBits by simp_all
  have "valueVec value \<in> V" "leafVec H ?n (W key) value \<in> V" using V unfolding T' treeVecs_plug by auto
  from running_saveLeaf [OF run this rk] obtain vh lh t0 t where
    ex: "hashSaveZero S ctx (scalar2fea8 (smtFr S) value) s = (Ret vh, t0)"
      "hashSaveOne S ctx (?rk @ vh) t0 = (Ret lh, t)"
    and t: "length lh = 4" "W lh = treeRoot H ?n (Leaf (W key) value)" "running V N t"
      "view s \<subseteq>\<^sub>m view t" "stored H (view t) (treeVecs H ?n (Leaf (W key) value))" by blast
  have fol: "follows ?keys 0 ps" using se by (simp add: searched_def)
  define x where "x = ?v\<lparr>vMode := ''insertNotFound'', vProofHashCounter := vProofHashCounter ?v + 2\<rparr>"
  have eq: "smtInsertNotFound S ctx ?keys key value ?v s =
      (if 0 \<le> vLevel ?v
       then bindP (replaceChild S ctx (bUseStateManager ctx)
                     (nat (vLevel ?v)) (?keys ! nat (vLevel ?v)) lh (vSiblings ?v))
              (\<lambda>siblings. retP (x\<lparr>vSiblings := siblings\<rparr>))
       else retP (x\<lparr>vNewRoot := lh\<rparr>)) t"
    using removeKeyBits_Ret [OF vars(7), of "smtFr S" key] vars(2)
    by (simp add: smtInsertNotFound_def Let_def x_def bindP_def liftP_def ex)
  have "vSiblings x = vSiblings ?v" "onPath ps (vSiblings ?v)" using vars by (simp_all add: x_def)
  from running_place [OF t(3) this(2) vars(1) fol t(1,2) this(1)]
  obtain y u where u: "smtInsertNotFound S ctx ?keys key value ?v s = (Ret y, u)" "running V N u"
      "view u = view t" "climbReady ps (Leaf (W key) value) y"
      "\<exists>sibs r. y = x\<lparr>vSiblings := sibs, vNewRoot := r\<rparr>"
    unfolding eq by blast
  have "changed (plug ps (Leaf (W key) value)) (sideVecs H 0 ps) ?keys y u"
    unfolding changed_def using u vars(1) fol t(5)
    by (intro exI [of _ ps] exI [of _ "Leaf (W key) value"]) (auto simp: x_def)
  then show ?thesis unfolding T' using u t(4) by (auto simp: x_def smtVars_def Let_def)
qed

lemma smtInsertFound_run:
  assumes run: "running V N s" and se: "searched oldRoot key ps (Leaf k w0) w" and val: "value \<noteq> 0"
    and sep: "separable (W key) k" and old: "stored H (view s) (treeVecs H 0 (plug ps (Leaf k w0)))"
    and V: "treeVecs H 0 (treeSet (plug ps (Leaf k w0)) (W key) value) \<subseteq> V"
  shows "\<exists>v t. smtInsertFound S ctx (splitKey (smtFr S) key) key value w (smtVars (smtFr S) oldRoot w (butlast (wAccKey w))) s
       = (Ret v, t) \<and>
     running V N t \<and> view s \<subseteq>\<^sub>m view t \<and> vMode v = ''insertFound'' \<and> vOldValue v = 0 \<and>
     changed (treeSet (plug ps (Leaf k w0)) (W key) value) (sideVecs H 0 ps) (splitKey (smtFr S) key) v t"
proof -
  let ?keys = "splitKey (smtFr S) key" and ?v = "smtVars (smtFr S) oldRoot w (butlast (wAccKey w))" and ?n = "length ps"
  note vars = searched_vars [OF se]
  have key: "length key = 4" using se by (simp add: searched_def)
  have fol: "follows ?keys 0 ps" using se by (simp add: searched_def)
  have w: "length (wFoundKey w) = 4" "W (wFoundKey w) = k" "length (wFoundValueHash w) = 4"
    "W (wFoundValueHash w) = H (valueVec w0)"
    using se by (simp_all add: searched_def walkEnd_def)
  have keys: "splitKey (smtFr S) (wFoundKey w) = keyBits k" using w splitKey_keyBits by blast
  have wf: "wfTree (map fst ps) (Leaf k w0)"
    using wfTree_plug [of "[]" ps "Leaf k w0"] se by (simp add: searched_def)
  have "take ?n (keyBits (W key)) = take ?n (keyBits k)"
    using wf fol vars(6) by (simp add: follows_def)
  from first_difference [OF sep this] vars(7) obtain m where m: "?n \<le> m" "m < 252"
      "keyBits (W key) ! m \<noteq> keyBits k ! m"
      "\<And>i. ?n \<le> i \<Longrightarrow> i < m \<Longrightarrow> keyBits (W key) ! i = keyBits k ! i" by auto
  let ?b = "keyBits (W key) ! m"
  let ?fork = "forkNode ?b (Leaf (W key) value) (Leaf k w0)"
  let ?chain = "chain (keyBits (W key)) ?n m"
  have ne: "k \<noteq> W key" using sep by (auto simp: separable_def)
  have T': "treeSet (plug ps (Leaf k w0)) (W key) value = plug ps (plug ?chain ?fork)"
    using val searched_insert [OF se, of "value"] ne m
    by (simp add: treeSet_def treeFork_chain [of ?n m "W key" k])
  have sl: "splitLevel (drop ?n ?keys) (drop ?n (keyBits k)) ?n = Ret m"
    unfolding vars(6) using m by (intro splitLevel_Ret) auto
  have fv: "treeVecs H m ?fork = {nodeVec H m (if ?b then Leaf k w0 else Leaf (W key) value)
        (if ?b then Leaf (W key) value else Leaf k w0), leafVec H (Suc m) k w0, valueVec w0,
        leafVec H (Suc m) (W key) value, valueVec value}"
    by (cases ?b) (auto simp: forkNode_def)
  have V1: "set (pathVecs H ?n ?chain ?fork) \<subseteq> V" "treeVecs H m ?fork \<subseteq> V"
    using V m(1) unfolding T' treeVecs_plug by auto
  let ?orem = "dropKeyBits (smtFr S) (wFoundKey w) (Suc m)"
  let ?nrem = "dropKeyBits (smtFr S) key (Suc m)"
  have rem: "removeKeyBits (smtFr S) (wFoundKey w) (Suc m) = Ret ?orem"
    "removeKeyBits (smtFr S) key (Suc m) = Ret ?nrem"
    using m(2) by (simp_all add: removeKeyBits_Ret)
  have ow: "W (?orem @ wFoundValueHash w) @ ones4 = leafVec H (Suc m) k w0"
    using words_dropKeyBits [OF w(1)] w by (simp add: leafVec_def)
  have ol: "length (?orem @ wFoundValueHash w) = 8" using w by simp
  obtain oh t1 where t1: "hashSaveOne S ctx (?orem @ wFoundValueHash w) s = (Ret oh, t1)" "length oh = 4"
      "W oh = H (leafVec H (Suc m) k w0)" "running V N t1" "view s \<subseteq>\<^sub>m view t1"
      "view t1 (keystr (H (leafVec H (Suc m) k w0))) = Some (leafVec H (Suc m) k w0)"
    using running_hashSaveOne [OF run ol] V1(2) unfolding fv ow by auto
  have nr: "length ?nrem = 4" "W ?nrem = remKey (Suc m) (W key)" using words_dropKeyBits [OF key] by simp_all
  have "valueVec value \<in> V" "leafVec H (Suc m) (W key) value \<in> V" using V1(2) unfolding fv by auto
  from running_saveLeaf [OF t1(4) this nr] obtain vh nh t0 t2 where
    ex: "hashSaveZero S ctx (scalar2fea8 (smtFr S) value) t1 = (Ret vh, t0)"
      "hashSaveOne S ctx (?nrem @ vh) t0 = (Ret nh, t2)"
    and t2: "length nh = 4" "W nh = treeRoot H (Suc m) (Leaf (W key) value)" "running V N t2"
      "view t1 \<subseteq>\<^sub>m view t2" "stored H (view t2) (treeVecs H (Suc m) (Leaf (W key) value))" by blast
  let ?node = "if ?keys ! m then oh @ nh else nh @ oh"
  have nw: "W ?node @ zeros4 = nodeVec H m (if ?b then Leaf k w0 else Leaf (W key) value)
        (if ?b then Leaf (W key) value else Leaf k w0)"
    using t1(3) t2(2) vars(6) by (simp add: nodeVec_def)
  have nl: "length ?node = 8" using t1(2) t2(1) by simp
  obtain r2 t3 where t3: "hashSaveZero S ctx ?node t2 = (Ret r2, t3)" "length r2 = 4"
      "W r2 = H (W ?node @ zeros4)" "running V N t3" "view t2 \<subseteq>\<^sub>m view t3"
      "view t3 (keystr (H (W ?node @ zeros4))) = Some (W ?node @ zeros4)"
    using running_hashSaveZero [OF t2(3) nl] V1(2) unfolding fv nw by auto
  have r2: "W r2 = treeRoot H m ?fork"
    using t3(3) unfolding nw by (cases ?b) (simp_all add: forkNode_def nodeVec_def)
  have "keyBits (W key) = ?keys" using vars(6) by simp
  with running_chain [OF t3(4) m(1) t3(2) r2, of "keyBits (W key)"] V1(1) obtain r t4 where
    t4: "foldP (\<lambda>l r2. hashSaveZero S ctx
               (if ?keys ! l then replicate 4 (gl_zero (smtFr S)) @ r2
                else r2 @ replicate 4 (gl_zero (smtFr S)))) (rev [?n..<m]) r2 t3 = (Ret r, t4)"
      "length r = 4" "W r = treeRoot H ?n (plug ?chain ?fork)" "running V N t4"
      "view t3 \<subseteq>\<^sub>m view t4" "stored H (view t4) (set (pathVecs H ?n ?chain ?fork))"
    by auto
  have le: "view s \<subseteq>\<^sub>m view t4" "view t1 \<subseteq>\<^sub>m view t4" "view t2 \<subseteq>\<^sub>m view t4"
    using t1(5) t2(4) t3(5) t4(5) map_le_trans by blast+
  have st: "stored H (view t4) (treeVecs H ?n (plug ?chain ?fork))"
  proof -
    have "valueVec w0 \<in> treeVecs H 0 (plug ps (Leaf k w0))" by (simp add: treeVecs_plug)
    then have "view t4 (keystr (H (valueVec w0))) = Some (valueVec w0)"
      using stored_mono [OF le(1) old] by (simp add: stored_def)
    moreover have "view t4 (keystr (H (leafVec H (Suc m) k w0))) = Some (leafVec H (Suc m) k w0)"
      by (rule map_le_Some [OF le(2) t1(6)])
    moreover have "view t4 (keystr (H (W ?node @ zeros4))) = Some (W ?node @ zeros4)"
      by (rule map_le_Some [OF t4(5) t3(6)])
    moreover have "stored H (view t4) (treeVecs H (Suc m) (Leaf (W key) value))"
      by (rule stored_mono [OF le(3) t2(5)])
    ultimately have "stored H (view t4) (treeVecs H m ?fork)"
      unfolding fv nw by (simp add: stored_def)
    then show ?thesis using t4(6) m(1) by (simp add: treeVecs_plug stored_Un)
  qed
  define x where "x = ?v\<lparr>vMode := ''insertFound'', vInsKey := wFoundKey w, vInsValue := wFoundValue w,
    vIsOld0 := False, vProofHashCounter := vProofHashCounter ?v + 4 + (m - ?n)\<rparr>"
  define y where "y = (if 0 \<le> vLevel ?v
    then x\<lparr>vSiblings := (vSiblings ?v)[nat (vLevel ?v) :=
           putSlot (?keys ! nat (vLevel ?v)) r (vSiblings ?v ! nat (vLevel ?v))]\<rparr>
    else x\<lparr>vNewRoot := r\<rparr>)"
  have eq: "smtInsertFound S ctx ?keys key value w ?v s = (Ret y, t4)"
    using vars(2) sl rem keys t1(1) ex t3(1) t4(1)
    by (simp add: smtInsertFound_def Let_def bindP_def liftP_def x_def y_def retP_def)
  have ready: "climbReady ps (plug ?chain ?fork) y"
  proof (cases "ps = []")
    case True
    then show ?thesis using t4(2,3) vars(1) by (simp add: y_def climbReady_def onPath_def)
  next
    case False
    then have l: "nat (vLevel ?v) = ?n - 1" "0 \<le> vLevel ?v" using vars(1) by simp_all
    have "onPath ps (vSiblings x)" using vars(3,5) by (simp add: x_def)
    from climbReady_place [OF this fol t4(2,3) False l(1)]
    show ?thesis using l by (simp add: y_def x_def)
  qed
  have "changed (plug ps (plug ?chain ?fork)) (sideVecs H 0 ps) ?keys y t4"
    unfolding changed_def using ready st fol vars(1)
    by (intro exI [of _ ps] exI [of _ "plug ?chain ?fork"]) (simp add: y_def x_def)
  then show ?thesis unfolding T' using eq t4(4) le(1)
    by (intro exI [of _ y] exI [of _ t4]) (simp add: y_def x_def smtVars_def Let_def)
qed

end

section \<open>Deleting\<close>

context smt_on_store begin

lemma treeRoot_zero_iff:
  assumes "\<And>x. x \<in> treeVecs H n t \<Longrightarrow> H x \<noteq> zeros4"
  shows "treeRoot H n t = zeros4 \<longleftrightarrow> t = Empty"
  using assms by (cases t) (auto simp: nodeVec_def)

lemma uniqueClimb_run:
  assumes "\<And>i. i < length qs \<Longrightarrow> \<exists>own. length own = 4 \<and> own \<noteq> zeros4 \<and>
      W (sibs ! i) = pairVec (fst (qs ! i)) own (treeRoot H (Suc i) (snd (qs ! i)))"
    and "\<And>i. i < length qs \<Longrightarrow> treeRoot H (Suc i) (snd (qs ! i)) = zeros4 \<longleftrightarrow> snd (qs ! i) = Empty"
  shows "\<exists>j \<le> length qs. uniqueClimb (smtFr S) sibs (Suc (length qs)) = Ret (int j - 1) \<and>
           collapse qs (Leaf k v) = plug (take j qs) (Leaf k v)"
  using assms
proof (induction qs rule: rev_induct)
  case (snoc q qs)
  obtain b u where q: "q = (b, u)" by (cases q)
  obtain own where own: "length own = 4" "own \<noteq> zeros4"
      "W (sibs ! length qs) = pairVec b own (treeRoot H (Suc (length qs)) u)"
    using snoc.prems(1) [of "length qs"] q by auto
  have u: "treeRoot H (Suc (length qs)) u = zeros4 \<longleftrightarrow> u = Empty"
    using snoc.prems(2) [of "length qs"] q by simp
  have g: "getUniqueSibling (smtFr S) (sibs ! length qs) = Ret (if u = Empty then of_bool b else - 1)"
    using getUniqueSibling_pairVec [OF own(3,1) length_treeRoot] own(2) u by simp
  have IH: "\<exists>j \<le> length qs. uniqueClimb (smtFr S) sibs (Suc (length qs)) = Ret (int j - 1) \<and>
      collapse qs (Leaf k v) = plug (take j qs) (Leaf k v)"
  proof (rule snoc.IH)
    fix i assume i: "i < length qs"
    show "\<exists>own. length own = 4 \<and> own \<noteq> zeros4 \<and>
        W (sibs ! i) = pairVec (fst (qs ! i)) own (treeRoot H (Suc i) (snd (qs ! i)))"
      using snoc.prems(1) [of i] i by (simp add: nth_append)
    show "treeRoot H (Suc i) (snd (qs ! i)) = zeros4 \<longleftrightarrow> snd (qs ! i) = Empty"
      using snoc.prems(2) [of i] i by (simp add: nth_append)
  qed
  show ?case
  proof (cases "u = Empty")
    case True
    with IH obtain j where "j \<le> length qs" "uniqueClimb (smtFr S) sibs (Suc (length qs)) = Ret (int j - 1)"
      "collapse qs (Leaf k v) = plug (take j qs) (Leaf k v)" by auto
    then show ?thesis using g q True
      by (intro exI [of _ j]) (simp add: collapse_Leaf_snoc)
  next
    case False
    then show ?thesis using g q
      by (intro exI [of _ "Suc (length qs)"]) (simp add: collapse_Leaf_snoc)
  qed
qed simp

lemma smtDeleteNotFound_run:
  assumes run: "running V N s" and fol: "follows keys 0 (qs @ [(b, u)])"
    and path: "onPath (qs @ [(b, u)]) (vSiblings v)"
    and slot: "slot b (W (vSiblings v ! length qs)) = zeros4"
    and lvl: "vLevel v = int (length qs)"
    and u: "treeVecs H (Suc (length qs)) u \<subseteq> U" "stored H (view s) U" "u \<noteq> Empty"
  shows "\<exists>lc rc t. smtDeleteNotFound S ctx keys prev v s =
      (Ret (v\<lparr>vMode := ''deleteNotFound'', vSiblingLeftChild := lc, vSiblingRightChild := rc,
              vProofHashCounter := vProofHashCounter v + 1\<rparr>), t) \<and>
     running V N t \<and> view t = view s"
proof -
  let ?l = "length qs"
  have vec: "W (vSiblings v ! ?l) = pairVec b zeros4 (treeRoot H (Suc ?l) u)"
    "length (vSiblings v ! ?l) = 12"
    using onPath_snoc_vec [OF path slot] by simp_all
  have kb: "keys ! ?l = b" using follows_nth [OF fol, of ?l] by simp
  have root: "W (slot (\<not> b) (vSiblings v ! ?l)) = treeRoot H (Suc ?l) u"
    using vec by (cases b) (simp_all add: map_slot slot_pairVec [where b = True, simplified]
        slot_pairVec [where b = False, simplified])
  obtain vec' where vec': "vec' \<in> treeVecs H (Suc ?l) u" "treeRoot H (Suc ?l) u = H vec'"
    using u(3) by (cases u) (auto simp: nodeVec_def)
  have "view s (keystr (H vec')) = Some vec'" using u(1,2) vec'(1) by (auto simp: stored_def)
  from running_read [OF run length_slot, of "\<not> b" "vSiblings v ! ?l" vec' prev None] root vec' this
  obtain dv t where t: "smtRead S ctx prev (slot (\<not> b) (vSiblings v ! ?l)) None s = (Ret dv, t)"
      "W dv = vec'" "running V N t" "view t = view s" by auto
  have "length dv = 12" using t(2) length_treeVecs [OF vec'(1)] by (metis length_map)
  then show ?thesis
    using t lvl kb by (auto simp: smtDeleteNotFound_def Let_def bindP_def definedP_def retP_def)
qed

end

context smt_on_store begin

lemma treeVecs_plug_drop:
  "j \<le> length ps \<Longrightarrow> treeVecs H (n + j) (plug (drop j ps) e) \<subseteq> treeVecs H n (plug ps e)"
  using treeVecs_plug [of H n "take j ps" "plug (drop j ps) e"]
  by (auto simp: plug_append [symmetric] min_absorb2)

lemma sideVecs_nth: "i < length qs \<Longrightarrow> treeVecs H (Suc (n + i)) (snd (qs ! i)) \<subseteq> sideVecs H n qs"
proof (induction qs arbitrary: i n)
  case (Cons q qs)
  obtain b u where "q = (b, u)" by (cases q)
  then show ?case using Cons.IH [of "i - 1" "Suc n"] Cons.prems by (cases i) auto
qed simp

lemma sideVecs_take: "sideVecs H n (take j qs) \<subseteq> sideVecs H n qs"
  using sideVecs_append [of H n "take j qs" "drop j qs"] by simp

lemma smtDeleteLeaf_run:
  fixes b :: bool
  assumes run: "running V N s" and fol: "follows keys 0 qs" and path: "onPath qs (vSiblings v)"
    and own: "\<And>i. i < length qs \<Longrightarrow> \<exists>own. length own = 4 \<and> own \<noteq> zeros4 \<and>
      W (vSiblings v ! i) = pairVec (fst (qs ! i)) own (treeRoot H (Suc i) (snd (qs ! i)))"
    and nz: "\<And>i. i < length qs \<Longrightarrow> treeRoot H (Suc i) (snd (qs ! i)) = zeros4 \<longleftrightarrow> snd (qs ! i) = Empty"
    and v: "vLevel v = int (length qs)" "vAccKey v = map of_bool (map fst qs)"
    and leaf: "W leaf = leafVec H (Suc (length qs)) k w" "wfTree (map fst qs @ [b]) (Leaf k w)"
    and st: "view s (keystr (H (valueVec w))) = Some (valueVec w)"
    and V: "treeVecs H 0 (collapse qs (Leaf k w)) \<subseteq> V"
  shows "\<exists>y t. smtDeleteLeaf S ctx keys (of_bool b) leaf v s = (Ret y, t) \<and> running V N t \<and>
     view s \<subseteq>\<^sub>m view t \<and> vMode y = ''deleteFound'' \<and> vOldValue y = vOldValue v \<and>
     changed (collapse qs (Leaf k w)) (sideVecs H 0 qs) keys y t"
proof -
  let ?vh = "[leaf ! 4, leaf ! 5, leaf ! 6, leaf ! 7]" and ?rk = "[leaf ! 0, leaf ! 1, leaf ! 2, leaf ! 3]"
  have words: "W ?rk = remKey (Suc (length qs)) k" "W ?vh = H (valueVec w)"
    using words_nths(1,2) [of leaf "remKey (Suc (length qs)) k" "H (valueVec w)" ones4] leaf(1) length_H
    by (simp_all add: leafVec_def)
  have l4: "length ?vh = 4" "length ?rk = 4" by simp_all
  obtain dv t where t: "smtRead S ctx leaf ?vh None s = (Ret dv, t)" "W dv = valueVec w" "running V N t"
      "view t = view s"
    using running_read [OF run l4(1) words(2) st, of leaf None] by auto
  have dl: "length dv = 12" using t(2) length_valueVec by (metis length_map)
  have "wfKey k" "take (length (map fst qs @ [b])) (keyBits k) = map fst qs @ [b]"
    "length (map fst qs @ [b]) \<le> 252" using leaf(2) by simp_all
  from joinKey_leaf [OF this l4(2)] words(1) obtain ik where
    ik: "joinKey (smtFr S) (map of_bool (map fst qs) @ [of_bool b]) ?rk = Ret ik" "length ik = 4" "W ik = k"
    by auto
  have ob: "(of_int (of_bool b) :: u64) = of_bool b" by simp
  obtain j where j: "j \<le> length qs"
      "uniqueClimb (smtFr S) (vSiblings v) (Suc (length qs)) = Ret (int j - 1)"
      "collapse qs (Leaf k w) = plug (take j qs) (Leaf k w)"
    using uniqueClimb_run [OF own nz] by blast
  have jd: "j \<le> 252" using j(1) leaf(2) by simp
  let ?ok = "dropKeyBits (smtFr S) ik j"
  have ow: "W (?ok @ ?vh) @ ones4 = leafVec H j k w"
    using words_dropKeyBits [OF ik(2)] ik(3) words(2) by (simp add: leafVec_def)
  have lenj: "length (take j qs) = j" using j(1) by simp
  have inV: "leafVec H j k w \<in> V" using V lenj unfolding j(3) treeVecs_plug by (simp del: length_take)
  obtain h u where u: "hashSaveOne S ctx (?ok @ ?vh) t = (Ret h, u)" "length h = 4"
      "W h = H (leafVec H j k w)" "running V N u" "view t \<subseteq>\<^sub>m view u"
      "view u (keystr (H (leafVec H j k w))) = Some (leafVec H j k w)"
    using running_hashSaveOne [OF t(3), of "?ok @ ?vh"] inV ow by auto
  define x where "x = v\<lparr>vMode := ''deleteFound'', vLevel := int j - 1, vInsKey := ik,
    vInsValue := snd (fea2scalar8 (smtFr S) (take 8 dv) 0), vIsOld0 := False,
    vProofHashCounter := vProofHashCounter v + 3\<rparr>"
  define y where "y = (if 0 \<le> int j - 1
    then x\<lparr>vSiblings := (vSiblings v)[nat (int j - 1) :=
           putSlot (keys ! nat (int j - 1)) h (vSiblings v ! nat (int j - 1))]\<rparr>
    else x\<lparr>vNewRoot := h\<rparr>)"
  have eq: "smtDeleteLeaf S ctx keys (of_bool b) leaf v s = (Ret y, u)"
    using t(1) dl v ik(1) ob j(2) removeKeyBits_Ret [OF jd, of "smtFr S" ik] u(1)
    by (cases "j = 0") (simp_all add: smtDeleteLeaf_def Let_def bindP_def guardP_def liftP_def x_def
        y_def retP_def nat_add_distrib)
  have path': "onPath (take j qs) (vSiblings x)"
    using path onPath_take [of "take j qs" "drop j qs"] by (simp add: x_def)
  have fol': "follows keys 0 (take j qs)"
    using fol follows_append [of keys 0 "take j qs" "drop j qs"] by simp
  have hw: "W h = treeRoot H (length (take j qs)) (Leaf k w)" using u(3) lenj by simp
  have ready: "climbReady (take j qs) (Leaf k w) y"
  proof (cases "j = 0")
    case True
    then show ?thesis using u(2) hw by (simp add: y_def climbReady_def onPath_def)
  next
    case False
    then have ne: "take j qs \<noteq> []" and l: "nat (int j - 1) = length (take j qs) - 1" "0 \<le> int j - 1"
      using lenj by (auto simp del: length_take)
    from climbReady_place [OF path' fol' u(2) hw ne l(1)]
    show ?thesis using l by (simp add: y_def x_def)
  qed
  have "view u (keystr (H (valueVec w))) = Some (valueVec w)"
    by (rule map_le_Some [OF u(5)]) (simp only: t(4) st)
  then have "stored H (view u) (treeVecs H (length (take j qs)) (Leaf k w))"
    using u(6) lenj by (simp add: stored_def)
  then have "changed (plug (take j qs) (Leaf k w)) (sideVecs H 0 qs) keys y u"
    unfolding changed_def using ready fol' sideVecs_take [of 0 j qs] lenj
    by (intro exI [of _ "take j qs"] exI [of _ "Leaf k w"]) (simp add: y_def x_def)
  then show ?thesis unfolding j(3) using eq u(4,5) t(4)
    by (intro exI [of _ y] exI [of _ u]) (simp add: y_def x_def)
qed

end

context smt_on_store begin

lemma smtDelete_run:
  assumes run: "running V N s" and se: "searched oldRoot key ps (Leaf k w0) w" "k = W key"
    and old: "stored H (view s) (treeVecs H 0 (plug ps (Leaf k w0)))"
    and nz: "\<And>x. x \<in> treeVecs H 0 (plug ps (Leaf k w0)) \<Longrightarrow> H x \<noteq> zeros4"
    and V: "treeVecs H 0 (treeSet (plug ps (Leaf k w0)) (W key) 0) \<subseteq> V"
  shows "\<exists>v t. smtDelete S ctx (splitKey (smtFr S) key) w (smtVars (smtFr S) oldRoot w (butlast (wAccKey w))) s = (Ret v, t) \<and>
     running V N t \<and> view s \<subseteq>\<^sub>m view t \<and> vMode v \<in> {''deleteFound'', ''deleteNotFound''} \<and>
     vOldValue v = w0 \<and>
     changed (treeSet (plug ps (Leaf k w0)) (W key) 0) (treeVecs H 0 (plug ps (Leaf k w0)))
       (splitKey (smtFr S) key) v t"
proof (cases ps rule: rev_cases)
  case Nil
  let ?v = "smtVars (smtFr S) oldRoot w (butlast (wAccKey w))" and ?z = "replicate 4 (gl_zero (smtFr S))"
  define y where "y = ?v\<lparr>vOldValue := wFoundValue w, vMode := ''deleteNotFound'', vNewRoot := ?z\<rparr>"
  have w: "wFoundValue w = w0" using se(1) by (simp add: searched_def walkEnd_def)
  have "vLevel ?v = -1" using searched_vars(1) [OF se(1)] Nil by simp
  then have eq: "smtDelete S ctx (splitKey (smtFr S) key) w ?v s = (Ret y, s)" and l: "vLevel y = -1"
    by (simp_all add: smtDelete_def Let_def retP_def y_def)
  have "climbReady [] Empty y"
    by (simp add: climbReady_def onPath_def y_def replicate_4 zeros4_def toU64_zero)
  then have "changed Empty (treeVecs H 0 (plug ps (Leaf k w0))) (splitKey (smtFr S) key) y s"
    unfolding changed_def using l by (intro exI [of _ "[]"] exI [of _ Empty]) simp
  moreover have "treeSet (plug ps (Leaf k w0)) (W key) 0 = Empty" using se(2) Nil by (simp add: treeSet_def)
  ultimately show ?thesis using eq run w by (intro exI [of _ y] exI [of _ s]) (simp add: y_def)
next
  case (snoc qs q)
  obtain b u where q: "q = (b, u)" by (cases q)
  let ?keys = "splitKey (smtFr S) key" and ?v = "smtVars (smtFr S) oldRoot w (butlast (wAccKey w))" and ?l = "length qs"
  let ?z = "replicate 4 (gl_zero (smtFr S))" and ?old = "treeVecs H 0 (plug ps (Leaf k w0))"
  have ps: "ps = qs @ [(b, u)]" using snoc q by simp
  note vars = searched_vars [OF se(1)]
  have w: "wFoundValue w = w0" "wAccKey w = map of_bool (map fst ps)"
    using se(1) by (simp_all add: searched_def walkEnd_def)
  have fol: "follows ?keys 0 (qs @ [(b, u)])" using se(1) ps by (simp add: searched_def)
  have kb: "?keys ! ?l = b" using follows_nth [OF fol, of ?l] by simp
  have wfu: "wfTree (map fst qs @ [\<not> b]) u" "u \<noteq> Empty"
    using wfTree_plug_snoc [of "[]" qs b u "Leaf k w0"] se(1) ps
    by (cases b; cases u; simp add: searched_def)+
  have subu: "treeVecs H (Suc ?l) u \<subseteq> ?old" unfolding ps treeVecs_plug sideVecs_append by auto
  have T': "treeSet (plug ps (Leaf k w0)) (W key) 0 = collapse (qs @ [(b, u)]) Empty"
    using treeDelete_plug [of "W key" 0 ps "Leaf k w0"] fol vars(6) se(2) ps by (simp add: treeSet_def)
  have zw: "W ?z = zeros4" "length ?z = 4" by (simp_all add: replicate_4 zeros4_def toU64_zero)
  have path0: "onPath (qs @ [(b, u)]) (wSiblings w)" using vars(5) ps by simp
  define sibs where "sibs = (wSiblings w)[?l := putSlot b ?z (wSiblings w ! ?l)]"
  have ll: "?l < length (wSiblings w)" using path0 by (simp add: onPath_def)
  have path: "onPath (qs @ [(b, u)]) sibs" and slot0: "slot b (W (sibs ! ?l)) = zeros4"
    using onPath_putSlot [OF path0 zw(2), of ?l b] zw(1) ll by (simp_all add: sibs_def)
  have vec: "W (sibs ! ?l) = pairVec b zeros4 (treeRoot H (Suc ?l) u)" "length (sibs ! ?l) = 12"
    using onPath_snoc_vec [OF path slot0] by simp_all
  have ru: "treeRoot H (Suc ?l) u \<noteq> zeros4"
    using treeRoot_zero_iff [of "Suc ?l" u] nz subu wfu(2) by blast
  have unique: "getUniqueSibling (smtFr S) (sibs ! ?l) = Ret (of_bool (\<not> b))"
    using getUniqueSibling_pairVec [OF vec(1)] ru by simp
  obtain t where t: "(if bUseStateManager ctx then reportDeleted S ctx (slot b (wSiblings w ! ?l)) else retP ()) s
      = (Ret (), t)" "running V N t" "view t = view s"
    using running_reportDeleted [OF run length_slot, of b "wSiblings w ! ?l"] run
    by (cases "bUseStateManager ctx") (auto simp: retP_def)
  define aux where "aux = slot (\<not> b) (sibs ! ?l)"
  have aux_eq: "map (\<lambda>i. sibs ! ?l ! (nat (of_bool (\<not> b)) * 4 + i)) [0..<4] = aux"
    by (cases b) (simp_all add: aux_def slot_def)
  have auxw: "W aux = treeRoot H (Suc ?l) u" "length aux = 4"
    unfolding aux_def using vec slot_pairVec(2) [of zeros4 "treeRoot H (Suc ?l) u" b]
    by (cases b; simp add: map_slot)+
  obtain vec' where vec': "vec' \<in> treeVecs H (Suc ?l) u" "treeRoot H (Suc ?l) u = H vec'"
      "vec' ! 8 = (case u of Leaf k v \<Rightarrow> 1 | _ \<Rightarrow> 0)"
      "\<And>k v. u = Leaf k v \<Longrightarrow> vec' = leafVec H (Suc ?l) k v"
  proof (cases u)
    case (Leaf k' v')
    then show ?thesis
      by (intro that [of "leafVec H (Suc ?l) k' v'"]) (simp_all add: leafVec_def nth_append length_H ones4_def)
  next
    case (Node l r)
    then show ?thesis
      by (intro that [of "nodeVec H (Suc ?l) l r"]) (simp_all add: nodeVec_def nth_append zeros4_def)
  qed (use wfu(2) in simp)
  have "view t (keystr (H vec')) = Some vec'" using subu vec'(1) old t(3) by (auto simp: stored_def)
  from running_read [OF t(2) auxw(2), of vec', OF _ this, of "wDbValue w" "Some (?keys, ?l)"] auxw(1) vec'(2)
  obtain dv t1 where t1: "smtRead S ctx (wDbValue w) aux (Some (?keys, ?l)) t = (Ret dv, t1)" "W dv = vec'"
      "running V N t1" "view t1 = view t" by auto
  have dl: "length dv = 12" using t1(2) length_treeVecs [OF vec'(1)] by (metis length_map)
  have d8: "gl_equal (smtFr S) (dv ! 8) (gl_one (smtFr S)) \<longleftrightarrow> (\<exists>k v. u = Leaf k v)"
  proof -
    have "toU64 (smtFr S) (dv ! 8) = W dv ! 8" using dl by simp
    then have "toU64 (smtFr S) (dv ! 8) = vec' ! 8" by (simp only: t1(2))
    then show ?thesis using vec'(3) by (cases u) (simp_all add: equal_iff toU64_one)
  qed
  define v1 where "v1 = ?v\<lparr>vOldValue := wFoundValue w, vSiblings := sibs[?l + 1 := dv]\<rparr>"
  have lvl: "vLevel ?v = int ?l" using vars(1) ps by simp
  have run_eq: "smtDelete S ctx ?keys w ?v s =
      (if \<exists>k v. u = Leaf k v then smtDeleteLeaf S ctx ?keys (of_bool (\<not> b)) dv v1
       else smtDeleteNotFound S ctx ?keys dv v1) t1"
    using lvl kb t(1) unique aux_eq t1(1) d8 dl vars(3)
    by (cases "bUseStateManager ctx"; cases b)
      (simp_all add: smtDelete_def Let_def bindP_def liftP_def retP_def v1_def sibs_def)
  have v1: "vSiblings v1 = sibs[?l + 1 := dv]" "vLevel v1 = int ?l" "vOldValue v1 = w0"
    "vAccKey v1 = map of_bool (map fst qs)"
    using lvl w ps by (simp_all add: v1_def smtVars_def Let_def butlast_append)
  have keep: "sibs[?l + 1 := dv] ! i = sibs ! i" if "i \<le> ?l" for i using that by simp
  have path1: "onPath (qs @ [(b, u)]) (vSiblings v1)"
    using path keep unfolding onPath_def v1(1) by (auto simp: less_Suc_eq_le)
  have st1: "stored H (view t1) ?old" using old t(3) t1(4) by simp
  have le: "view s \<subseteq>\<^sub>m view t1" using t(3) t1(4) by simp
  show ?thesis
  proof (cases u)
    case Empty
    then show ?thesis using wfu(2) by simp
  next
    case (Leaf k' v')
    have T'': "treeSet (plug ps (Leaf k w0)) (W key) 0 = collapse qs (Leaf k' v')"
      unfolding T' Leaf by (rule collapse_Empty_snoc)
    have own: "\<exists>own. length own = 4 \<and> own \<noteq> zeros4 \<and>
        W (vSiblings v1 ! i) = pairVec (fst (qs ! i)) own (treeRoot H (Suc i) (snd (qs ! i)))"
      if i: "i < length qs" for i
    proof -
      let ?own = "treeRoot H (Suc i) (plug (drop (Suc i) ps) (Leaf k w0))"
      have ips: "i < length ps" "ps ! i = qs ! i" using i ps by (simp_all add: nth_append)
      have "W (wSiblings w ! i) = pathVecs H 0 ps (Leaf k w0) ! i"
      proof -
        have "W (wSiblings w ! i) = take (length ps) (map W (wSiblings w)) ! i" using ips ll i by simp
        then show ?thesis by (simp only: vars(4))
      qed
      then have vi: "W (vSiblings v1 ! i) = pairVec (fst (qs ! i)) ?own (treeRoot H (Suc i) (snd (qs ! i)))"
        using pathVecs_nth [OF ips(1), of H 0 "Leaf k w0"] ips keep [of i] i
        by (simp add: v1(1) sibs_def)
      have "plug (drop (Suc i) ps) (Leaf k w0) \<noteq> Empty"
        by (cases "drop (Suc i) ps") (auto split: prod.splits if_splits)
      moreover have "treeVecs H (Suc i) (plug (drop (Suc i) ps) (Leaf k w0)) \<subseteq> ?old"
        using treeVecs_plug_drop [of "Suc i" ps 0 "Leaf k w0"] ips by simp
      ultimately have "?own \<noteq> zeros4"
        using treeRoot_zero_iff [of "Suc i" "plug (drop (Suc i) ps) (Leaf k w0)"] nz by blast
      with vi show ?thesis by (intro exI [of _ ?own]) simp
    qed
    have nz': "treeRoot H (Suc i) (snd (qs ! i)) = zeros4 \<longleftrightarrow> snd (qs ! i) = Empty"
      if i: "i < length qs" for i
    proof (rule treeRoot_zero_iff)
      fix x assume "x \<in> treeVecs H (Suc i) (snd (qs ! i))"
      then have "x \<in> sideVecs H 0 qs" using i sideVecs_nth [of i qs 0] by auto
      then show "H x \<noteq> zeros4" using nz unfolding ps treeVecs_plug sideVecs_append by simp
    qed
    have leaf: "W dv = leafVec H (Suc (length qs)) k' v'" "wfTree (map fst qs @ [\<not> b]) (Leaf k' v')"
      using t1(2) vec'(4) [OF Leaf] wfu(1) Leaf by simp_all
    have "valueVec v' \<in> ?old" using subu Leaf by auto
    then have vst: "view t1 (keystr (H (valueVec v'))) = Some (valueVec v')" using st1 by (simp add: stored_def)
    have folq: "follows ?keys 0 qs" using fol follows_append by blast
    have pathq: "onPath qs (vSiblings v1)" using path1 onPath_take by blast
    have Vq: "treeVecs H 0 (collapse qs (Leaf k' v')) \<subseteq> V" using V unfolding T'' .
    from smtDeleteLeaf_run [OF t1(3) folq pathq own nz' v1(2,4) leaf vst Vq]
    obtain y t2 where y: "smtDeleteLeaf S ctx ?keys (of_bool (\<not> b)) dv v1 t1 = (Ret y, t2)"
        "running V N t2" "view t1 \<subseteq>\<^sub>m view t2" "vMode y = ''deleteFound''" "vOldValue y = vOldValue v1"
        "changed (collapse qs (Leaf k' v')) (sideVecs H 0 qs) ?keys y t2" by blast
    have "sideVecs H 0 qs \<subseteq> ?old" unfolding ps treeVecs_plug sideVecs_append by auto
    then have "changed (collapse qs (Leaf k' v')) ?old ?keys y t2"
      using y(6) unfolding changed_def by blast
    moreover have "smtDelete S ctx ?keys w ?v s = (Ret y, t2)" using run_eq y(1) Leaf by simp
    moreover have "view s \<subseteq>\<^sub>m view t2" using le y(3) map_le_trans by blast
    ultimately show ?thesis unfolding T'' using y(2,4,5) v1(3) by auto
  next
    case (Node l r)
    have T'': "treeSet (plug ps (Leaf k w0)) (W key) 0 = plug ps Empty"
      using T' by (simp only: Node collapse_Empty_snoc ps)
    have slot1: "slot b (W (vSiblings v1 ! ?l)) = zeros4" using slot0 keep [of ?l] v1(1) by simp
    from smtDeleteNotFound_run [OF t1(3) fol path1 slot1 v1(2) subu st1 wfu(2)]
    obtain lc rc t2 where y: "smtDeleteNotFound S ctx ?keys dv v1 t1 =
        (Ret (v1\<lparr>vMode := ''deleteNotFound'', vSiblingLeftChild := lc, vSiblingRightChild := rc,
                 vProofHashCounter := vProofHashCounter v1 + 1\<rparr>), t2)"
        "running V N t2" "view t2 = view t1" by blast
    let ?y = "v1\<lparr>vMode := ''deleteNotFound'', vSiblingLeftChild := lc, vSiblingRightChild := rc,
                 vProofHashCounter := vProofHashCounter v1 + 1\<rparr>"
    have "climbReady ps Empty ?y" using path1 slot1 ps by (simp add: climbReady_def)
    moreover have "sideVecs H 0 ps \<subseteq> ?old" unfolding treeVecs_plug by auto
    ultimately have "changed (plug ps Empty) ?old ?keys ?y t2"
      unfolding changed_def using fol ps v1(2) by (intro exI [of _ ps] exI [of _ Empty]) simp
    moreover have "smtDelete S ctx ?keys w ?v s = (Ret ?y, t2)" using run_eq y(1) Node by simp
    ultimately show ?thesis unfolding T'' using y(2,3) le v1(3)
      by (intro exI [of _ ?y] exI [of _ t2]) simp
  qed
qed

end

section \<open>set and get\<close>

lemma smtRead_cong:
  assumes "bUseStateManager c = bUseStateManager c'" "ctxBatchUUID c = ctxBatchUUID c'"
  shows "smtRead S c = smtRead S c'"
  by (intro ext) (unfold smtRead_def assms, rule refl)

lemma smtWalk_cong:
  assumes "smtRead S c = smtRead S c'"
  shows "smtWalk S c c12 keys bits = smtWalk S c' c12 keys bits"
proof -
  have leaf: "walkLeaf S c = walkLeaf S c'" by (intro ext) (unfold walkLeaf_def assms, rule refl)
  have visit: "walkVisit S c = walkVisit S c'"
    by (intro ext) (unfold walkVisit_def assms leaf, rule refl)
  show ?thesis
  proof (induction bits)
    case Nil
    show ?case by (intro ext) (unfold smtWalk.simps visit, rule refl)
  next
    case (Cons b bits)
    show ?case by (intro ext) (unfold smtWalk.simps visit Cons.IH, rule refl)
  qed
qed

context smt_on_store begin

lemma smtZeroToZero_changed:
  assumes se: "searched oldRoot key ps e w" and e: "e = Empty \<or> (\<exists>k w0. e = Leaf k w0 \<and> k \<noteq> W key)"
    and old: "stored H (view s) (treeVecs H 0 (plug ps e))"
  shows "changed (treeSet (plug ps e) (W key) 0) (treeVecs H 0 (plug ps e)) (splitKey (smtFr S) key)
           (smtZeroToZero oldRoot w (smtVars (smtFr S) oldRoot w (butlast (wAccKey w)))) s \<and>
         treeSet (plug ps e) (W key) 0 = plug ps e"
proof -
  let ?v = "smtVars (smtFr S) oldRoot w (butlast (wAccKey w))" and ?keys = "splitKey (smtFr S) key"
  note vars = searched_vars [OF se]
  have fol: "follows ?keys 0 ps" using se by (simp add: searched_def)
  have "treeDelete (length ps) e (W key) = e" using e by auto
  moreover have "collapse ps e = plug ps e" using se collapse_wf [of "[]"] by (simp add: searched_def)
  ultimately have T': "treeSet (plug ps e) (W key) 0 = plug ps e"
    using treeDelete_plug [of "W key" 0 ps e] fol vars(6) by (simp add: treeSet_def)
  let ?y = "smtZeroToZero oldRoot w ?v"
  have y: "vSiblings ?y = wSiblings w" "vNewRoot ?y = oldRoot" "vLevel ?y = vLevel ?v"
    using vars(3) by (simp_all add: smtZeroToZero_def Let_def)
  have "climbReady ps e ?y"
  proof (cases "ps = []")
    case True
    then show ?thesis using se y by (simp add: climbReady_def onPath_def searched_def)
  next
    case False
    let ?i = "length ps - 1"
    have i: "?i < length ps" "Suc ?i = length ps" using False by simp_all
    have "?i < length (wSiblings w)" using vars(5) i(1) by (simp add: onPath_def)
    then have "W (wSiblings w ! ?i) = take (length ps) (map W (wSiblings w)) ! ?i" using i(1) by simp
    then have "W (wSiblings w ! ?i) = pairVec (fst (ps ! ?i)) (treeRoot H (length ps) e)
        (treeRoot H (length ps) (snd (ps ! ?i)))"
      using pathVecs_nth [OF i(1), of H 0 e] i(2) unfolding vars(4) by (simp only: add_0 drop_all plug.simps le_refl)
    then have "slot (fst (last ps)) (W (wSiblings w ! ?i)) = treeRoot H (length ps) e"
      using False by (simp add: last_conv_nth slot_pairVec)
    then show ?thesis using False vars(5) y by (simp add: climbReady_def)
  qed
  moreover have "stored H (view s) (treeVecs H (length ps) e)"
    using old stored_subset unfolding treeVecs_plug by auto
  moreover have "sideVecs H 0 ps \<subseteq> treeVecs H 0 (plug ps e)" unfolding treeVecs_plug by auto
  ultimately show ?thesis
    unfolding T' changed_def using fol vars(1) y(3)
    by (intro conjI exI [of _ ps] exI [of _ e]) simp_all
qed

lemma searched_value:
  assumes "searched oldRoot key ps e w"
  shows "valueOf (plug ps e) (W key) = (case e of Leaf k v \<Rightarrow> if k = W key then v else 0 | _ \<Rightarrow> 0)"
    "\<And>k v. e = Leaf k v \<Longrightarrow> 0 < v \<and> k \<in> dom (contents (plug ps e))"
proof -
  have wf: "wfTree [] (plug ps e)" and fol: "follows (keyBits (W key)) 0 ps"
    using assms searched_vars(6) [OF assms] by (simp_all add: searched_def)
  have "treeGet (length ps) e (W key) = (case e of Leaf k v \<Rightarrow> if k = W key then v else 0 | _ \<Rightarrow> 0)"
    using assms by (cases e) (auto simp: searched_def walkEnd_def)
  then show "valueOf (plug ps e) (W key) = (case e of Leaf k v \<Rightarrow> if k = W key then v else 0 | _ \<Rightarrow> 0)"
    using treeGet_valueOf [OF wf, of "W key"] treeGet_plug [OF fol, of e] by simp
  have "dom (contents e) \<subseteq> dom (contents (plug ps e))"
  proof (induction ps)
    case (Cons x ps)
    then show ?case by (cases x) (simp add: le_supI1 le_supI2)
  qed simp
  then show "0 < v \<and> k \<in> dom (contents (plug ps e))" if "e = Leaf k v" for k v
    using that wfTree_plug [OF wf] by auto
qed

lemma smtChange_run:
  assumes run: "running V N s" and se: "searched oldRoot key ps e w"
    and old: "stored H (view s) (treeVecs H 0 (plug ps e))"
    and nz: "\<And>x. x \<in> treeVecs H 0 (plug ps e) \<Longrightarrow> H x \<noteq> zeros4"
    and sep: "value \<noteq> 0 \<Longrightarrow> \<forall>k \<in> dom (contents (plug ps e)). k \<noteq> W key \<longrightarrow> separable (W key) k"
    and V: "treeVecs H 0 (treeSet (plug ps e) (W key) value) \<subseteq> V"
  shows "\<exists>v t. smtChange S ctx (splitKey (smtFr S) key) oldRoot key value w (smtVars (smtFr S) oldRoot w (butlast (wAccKey w))) s
       = (Ret v, t) \<and> running V N t \<and> view s \<subseteq>\<^sub>m view t \<and>
     vOldValue v = valueOf (plug ps e) (W key) \<and>
     vMode v \<in> modeOf (plug ps e) e (W key) value \<and>
     changed (treeSet (plug ps e) (W key) value) (treeVecs H 0 (plug ps e)) (splitKey (smtFr S) key) v t"
proof -
  note val = searched_value [OF se]
  have side: "sideVecs H 0 ps \<subseteq> treeVecs H 0 (plug ps e)" unfolding treeVecs_plug by auto
  have up: "changed T' (sideVecs H 0 ps) keys v t \<Longrightarrow> changed T' (treeVecs H 0 (plug ps e)) keys v t"
    for T' keys v t using side unfolding changed_def by blast
  have key: "length key = 4" using se by (simp add: searched_def)
  consider (empty) "e = Empty" "\<not> wFound w" "wFoundValue w = 0"
    | (leaf) k w0 where "e = Leaf k w0" "wFound w" "wFoundValue w = w0" "0 < w0"
        "feaIsEqual (smtFr S) key (wFoundKey w) \<longleftrightarrow> W key = k"
    using se val(2) feaIsEqual_words [OF key, of "wFoundKey w"]
    by (cases e) (auto simp: searched_def walkEnd_def)
  then show ?thesis
  proof cases
    case empty
    show ?thesis
    proof (cases "value = 0")
      case True
      have "changed (treeSet (plug ps e) (W key) 0) (treeVecs H 0 (plug ps e)) (splitKey (smtFr S) key)
           (smtZeroToZero oldRoot w (smtVars (smtFr S) oldRoot w (butlast (wAccKey w)))) s"
        using smtZeroToZero_changed [OF se _ old, THEN conjunct1] empty(1) by blast
      then show ?thesis using True empty run val(1)
        by (simp add: smtChange_def retP_def modeOf_def smtZeroToZero_def Let_def smtVars_def)
    next
      case False
      with smtInsertNotFound_run [OF run se [unfolded empty(1)] False V [unfolded empty(1)]]
      obtain v t where
        "smtInsertNotFound S ctx (splitKey (smtFr S) key) key value (smtVars (smtFr S) oldRoot w (butlast (wAccKey w))) s = (Ret v, t)"
        "running V N t" "view s \<subseteq>\<^sub>m view t" "vMode v = ''insertNotFound''" "vOldValue v = 0"
        "changed (treeSet (plug ps e) (W key) value) (sideVecs H 0 ps) (splitKey (smtFr S) key) v t"
        unfolding empty(1) by blast
      then show ?thesis using False empty val(1) up by (simp add: smtChange_def modeOf_def)
    qed
  next
    case (leaf k w0)
    note e = leaf(1)
    show ?thesis
    proof (cases "value = 0")
      case v0: True
      show ?thesis
      proof (cases "W key = k")
        case True
        from smtDelete_run [OF run se [unfolded e] True [symmetric] old [unfolded e] nz [unfolded e]
            V [unfolded e v0]]
        obtain v t where
          "smtDelete S ctx (splitKey (smtFr S) key) w (smtVars (smtFr S) oldRoot w (butlast (wAccKey w))) s = (Ret v, t)"
          "running V N t" "view s \<subseteq>\<^sub>m view t" "vMode v \<in> {''deleteFound'', ''deleteNotFound''}"
          "vOldValue v = w0"
          "changed (treeSet (plug ps e) (W key) value) (treeVecs H 0 (plug ps e)) (splitKey (smtFr S) key) v t"
          unfolding e v0 by blast
        then show ?thesis using v0 leaf True val(1) by (simp add: smtChange_def modeOf_def)
      next
        case False
        have "changed (treeSet (plug ps e) (W key) 0) (treeVecs H 0 (plug ps e)) (splitKey (smtFr S) key)
             (smtZeroToZero oldRoot w (smtVars (smtFr S) oldRoot w (butlast (wAccKey w)))) s"
          using smtZeroToZero_changed [OF se _ old, THEN conjunct1] leaf(1) False by blast
        then show ?thesis using v0 leaf False run val(1)
          by (simp add: smtChange_def retP_def modeOf_def smtZeroToZero_def Let_def smtVars_def)
      qed
    next
      case v: False
      show ?thesis
      proof (cases "W key = k")
        case True
        from smtUpdate_run [OF run se [unfolded e] True [symmetric] v V [unfolded e]]
        obtain v' t where
          "smtUpdate S ctx (splitKey (smtFr S) key) value w (smtVars (smtFr S) oldRoot w (butlast (wAccKey w))) s = (Ret v', t)"
          "running V N t" "view s \<subseteq>\<^sub>m view t" "vMode v' = ''update''" "vOldValue v' = w0"
          "changed (treeSet (plug ps e) (W key) value) (sideVecs H 0 ps) (splitKey (smtFr S) key) v' t"
          unfolding e by blast
        then show ?thesis using v leaf True val(1) up by (simp add: smtChange_def modeOf_def)
      next
        case False
        have "k \<noteq> W key" using False by simp
        then have "separable (W key) k"
          by (rule sep [OF v, THEN bspec, THEN mp, OF val(2) [OF leaf(1), THEN conjunct2]])
        from smtInsertFound_run [OF run se [unfolded e] v this old [unfolded e] V [unfolded e]]
        obtain v' t where
          "smtInsertFound S ctx (splitKey (smtFr S) key) key value w (smtVars (smtFr S) oldRoot w (butlast (wAccKey w))) s = (Ret v', t)"
          "running V N t" "view s \<subseteq>\<^sub>m view t" "vMode v' = ''insertFound''" "vOldValue v' = 0"
          "changed (treeSet (plug ps e) (W key) value) (sideVecs H 0 ps) (splitKey (smtFr S) key) v' t"
          unfolding e by blast
        then show ?thesis using v leaf False val(1) up by (simp add: smtChange_def modeOf_def)
      qed
    qed
  qed
qed

end

context smt_on_store begin

lemma walkStart_at:
  assumes "length root = 4" "W root = treeRoot H 0 T"
  shows "walkAt [] [] T (walkStart (smtFr S) prev root)"
  using assms by (simp add: walkAt_def walkStart_def)

lemma search_run:
  assumes act: "idle s \<or> busy s" and wf: "wfTree [] T" and st: "stored H (view s) (treeVecs H 0 T)"
    and nz: "\<And>x. x \<in> treeVecs H 0 T \<Longrightarrow> H x \<noteq> zeros4"
    and root: "length root = 4" "W root = treeRoot H 0 T" and key: "length key = 4"
  shows "\<exists>ps e w t. T = plug ps e \<and> searched root key ps e w \<and> quiet s t \<and>
     smtWalk S ctx c12 (splitKey (smtFr S) key) (splitKey (smtFr S) key) (walkStart (smtFr S) prev root) s
       = (Ret w, t)"
proof -
  let ?keys = "splitKey (smtFr S) key"
  obtain ps e w t where t: "T = plug ps e" "map fst ps = take (length ps) ?keys"
      "smtWalk S ctx c12 ?keys ?keys (walkStart (smtFr S) prev root) s = (Ret w, t)" "quiet s t"
      "walkEnd (map fst ps) (pathVecs H 0 ps e) e w"
    using smtWalk_run [OF act wf, of ?keys "[]" "walkStart (smtFr S) prev root" c12] st nz walkStart_at [OF root]
    by auto
  have "searched root key ps e w"
    using t(2,5) key root wf unfolding t(1) by (simp add: searched_def follows_def)
  then show ?thesis using t(1,3,4) by auto
qed

lemma smtGet_run:
  assumes act: "idle s \<or> busy s" and wf: "wfTree [] T" and st: "stored H (view s) (treeVecs H 0 T)"
    and nz: "\<And>x. x \<in> treeVecs H 0 T \<Longrightarrow> H x \<noteq> zeros4"
    and root: "length root = 4" "W root = treeRoot H 0 T" and key: "length key = 4"
    and ctx: "ctx = smtContext S batchUUID block tx persistence" and node: "isNode T"
  shows "\<exists>r t. smtGet S batchUUID root key s = (Ret r, t) \<and> quiet s t \<and>
     grValue r = valueOf T (W key) \<and>
     (\<exists>ps e. T = plug ps e \<and> map fst ps = take (length ps) (keyBits (W key)) \<and>
             map W (grSiblings r) = pathVecs H 0 ps e \<and>
             (if grIsOld0 r then e = Empty \<or> (\<exists>v. e = Leaf (W key) v)
              else e = Leaf (W (grInsKey r)) (grInsValue r) \<and> W (grInsKey r) \<noteq> W key))"
proof -
  let ?c = "smtContext S batchUUID 0 0 PERSISTENCE_CACHE" and ?keys = "splitKey (smtFr S) key"
  have "smtWalk S ?c False ?keys ?keys = smtWalk S ctx False ?keys ?keys"
    by (intro smtWalk_cong smtRead_cong) (simp_all add: ctx smtContext_def)
  moreover obtain ps e w t where t: "T = plug ps e" "searched root key ps e w" "quiet s t"
     "smtWalk S ctx False ?keys ?keys (walkStart (smtFr S) [] root) s = (Ret w, t)"
    using search_run [OF act wf st nz root key] by blast
  moreover have "popBack (wAccKey w) = Ret (butlast (wAccKey w))"
    using searched_popBack [OF t(2)] node t(1) by simp
  ultimately have run: "smtGet S batchUUID root key s = (Ret (smtGetResult (smtFr S) root key w), t)"
    by (simp add: smtGet_def Let_def bindP_def liftP_def retP_def)
  let ?r = "smtGetResult (smtFr S) root key w"
  note vars = searched_vars [OF t(2)] and val = searched_value [OF t(2)]
  have w: "walkEnd (map fst ps) (pathVecs H 0 ps e) e w" using t(2) by (simp add: searched_def)
  then have lvl: "wLevel w = length ps" by (simp add: walkEnd_def)
  have eq: "length (wFoundKey w) = 4 \<Longrightarrow>
      feaIsEqual (smtFr S) key (wFoundKey w) \<longleftrightarrow> W key = W (wFoundKey w)"
    using feaIsEqual_words key by blast
  have sib: "map W (grSiblings ?r) = pathVecs H 0 ps e"
    using vars(4) lvl by (simp add: smtGetResult_def Let_def take_map)
  have "grValue ?r = valueOf T (W key)"
    using val(1) w eq t(1) by (cases e) (auto simp: smtGetResult_def Let_def walkEnd_def)
  moreover have "if grIsOld0 ?r then e = Empty \<or> (\<exists>v. e = Leaf (W key) v)
      else e = Leaf (W (grInsKey ?r)) (grInsValue ?r) \<and> W (grInsKey ?r) \<noteq> W key"
    using w eq by (cases e) (auto simp: smtGetResult_def Let_def walkEnd_def)
  moreover have "map fst ps = take (length ps) (keyBits (W key))"
    using t(2) vars(6) by (simp add: searched_def follows_def)
  ultimately show ?thesis using run t(1,3) sib by blast
qed

text \<open>On a trie without a node at its root, empty or a single leaf, both run \<open>pop_back\<close> on an empty vector.\<close>

lemma smtGet_undefined:
  assumes act: "idle s \<or> busy s" and wf: "wfTree [] T" and st: "stored H (view s) (treeVecs H 0 T)"
    and nz: "\<And>x. x \<in> treeVecs H 0 T \<Longrightarrow> H x \<noteq> zeros4"
    and root: "length root = 4" "W root = treeRoot H 0 T" and key: "length key = 4"
    and ctx: "ctx = smtContext S batchUUID block tx persistence" and node: "\<not> isNode T"
  shows "fst (smtGet S batchUUID root key s) = Undef"
proof -
  let ?c = "smtContext S batchUUID 0 0 PERSISTENCE_CACHE" and ?keys = "splitKey (smtFr S) key"
  have "smtWalk S ?c False ?keys ?keys = smtWalk S ctx False ?keys ?keys"
    by (intro smtWalk_cong smtRead_cong) (simp_all add: ctx smtContext_def)
  moreover obtain ps e w t where t: "T = plug ps e" "searched root key ps e w"
     "smtWalk S ctx False ?keys ?keys (walkStart (smtFr S) [] root) s = (Ret w, t)"
    using search_run [OF act wf st nz root key] by blast
  moreover have "popBack (wAccKey w) = Undef" using searched_popBack [OF t(2)] node t(1) by simp
  ultimately show ?thesis by (simp add: smtGet_def Let_def bindP_def liftP_def)
qed

lemma smtSet_undefined:
  assumes act: "idle s" and wf: "wfTree [] T" and st: "stored H (view s) (treeVecs H 0 T)"
    and nz: "\<And>x. x \<in> treeVecs H 0 T \<Longrightarrow> H x \<noteq> zeros4"
    and root: "length root = 4" "W root = treeRoot H 0 T" and key: "length key = 4"
    and ctx: "ctx = smtContext S batchUUID block tx persistence" and node: "\<not> isNode T"
  shows "fst (smtSet S batchUUID block tx root key value persistence s) = Undef"
proof -
  let ?keys = "splitKey (smtFr S) key"
  obtain t0 where t0: "smtStart S ctx root s = (Ret (), t0)" "busy t0" "view t0 = view s"
    using start_law [OF act root(1)] by blast
  have "stored H (view t0) (treeVecs H 0 T)" using st t0(3) by simp
  from search_run [OF disjI2 [OF t0(2)] wf this nz root key] obtain ps e w t where
    t: "T = plug ps e" "searched root key ps e w"
      "smtWalk S ctx True ?keys ?keys (walkStart (smtFr S) (replicate 12 (gl_zero (smtFr S))) root) t0 = (Ret w, t)"
    by blast
  have "popBack (wAccKey w) = Undef" using searched_popBack [OF t(2)] node t(1) by simp
  then show ?thesis using t0(1) t(3) by (simp add: smtSet_def Let_def ctx [symmetric] bindP_def liftP_def)
qed

lemma smtSet_run:
  assumes act: "idle s" and wf: "wfTree [] T" and st: "stored H (view s) (treeVecs H 0 T)"
    and nz: "\<And>x. x \<in> treeVecs H 0 T \<Longrightarrow> H x \<noteq> zeros4"
    and root: "length root = 4" "W root = treeRoot H 0 T" and key: "length key = 4"
    and ctx: "ctx = smtContext S batchUUID block tx persistence" and node: "isNode T"
    and sep: "value \<noteq> 0 \<Longrightarrow> \<forall>k \<in> dom (contents T). k \<noteq> W key \<longrightarrow> separable (W key) k"
    and cf: "collisionFree H (view s) (treeVecs H 0 (treeSet T (W key) value))"
  shows "\<exists>r t. smtSet S batchUUID block tx root key value persistence s = (Ret r, t) \<and> idle t \<and>
     length (srNewRoot r) = 4 \<and> W (srNewRoot r) = treeRoot H 0 (treeSet T (W key) value) \<and>
     stored H (view t) (treeVecs H 0 (treeSet T (W key) value)) \<and> view s \<subseteq>\<^sub>m view t \<and>
     grows H (treeVecs H 0 (treeSet T (W key) value)) (view s) (view t) \<and>
     srOldValue r = valueOf T (W key) \<and> srNewValue r = value \<and> srOldRoot r = root \<and> srKey r = key \<and>
     (\<exists>e. srMode r \<in> modeOf T e (W key) value)"
proof -
  let ?T' = "treeSet T (W key) value" and ?keys = "splitKey (smtFr S) key"
  let ?V = "treeVecs H 0 ?T'"
  obtain t0 where t0: "smtStart S ctx root s = (Ret (), t0)" "busy t0" "view t0 = view s"
    using start_law [OF act root(1)] by blast
  have st0: "stored H (view t0) (treeVecs H 0 T)" using st t0(3) by simp
  obtain ps e w t1 where t1: "T = plug ps e" "searched root key ps e w" "quiet t0 t1"
     "smtWalk S ctx True ?keys ?keys (walkStart (smtFr S) (replicate 12 (gl_zero (smtFr S))) root) t0 = (Ret w, t1)"
    using search_run [OF disjI2 [OF t0(2)] wf st0 nz root key] by blast
  have v1: "view t1 = view s" "busy t1" using t1(3) t0 by (simp_all add: quiet_def)
  have run1: "running ?V (view s) t1" using v1 cf by (simp add: running_def)
  have st1: "stored H (view t1) (treeVecs H 0 (plug ps e))" using st v1 t1(1) by simp
  obtain v t2 where t2: "smtChange S ctx ?keys root key value w (smtVars (smtFr S) root w (butlast (wAccKey w))) t1 = (Ret v, t2)"
      "running ?V (view s) t2" "view t1 \<subseteq>\<^sub>m view t2" "vOldValue v = valueOf T (W key)"
      "vMode v \<in> modeOf T e (W key) value" "changed ?T' (treeVecs H 0 T) ?keys v t2"
    using smtChange_run [OF run1 t1(2) st1, of "value"] nz sep unfolding t1(1) by blast
  obtain ps' sub where c: "?T' = plug ps' sub" "follows ?keys 0 ps'" "vLevel v = int (length ps') - 1"
      "climbReady ps' sub v" "stored H (view t2) (treeVecs H (length ps') sub)"
      "sideVecs H 0 ps' \<subseteq> treeVecs H 0 T"
    using t2(6) unfolding changed_def by blast
  have lvl: "nat (vLevel v + 1) = length ps'" using c(3) by simp
  let ?v = "v\<lparr>vSiblings := take (length ps') (vSiblings v)\<rparr>"
  have ready: "climbReady ps' sub ?v"
    using c(4) by (cases "ps' = []") (auto simp: climbReady_def onPath_def)
  have pv: "set (pathVecs H 0 ps' sub) \<subseteq> ?V" unfolding c(1) treeVecs_plug by auto
  let ?inc = "if vMode v = ''zeroToZero'' then 0 else 1"
  obtain r sibs t3 where t3: "smtClimb S ctx ?keys ?inc (length ps') ?v t2 =
      (Ret (?v\<lparr>vNewRoot := r, vSiblings := sibs, vLevel := - 1,
              vProofHashCounter := vProofHashCounter ?v + ?inc * length ps'\<rparr>), t3)"
      "running ?V (view s) t3" "view t2 \<subseteq>\<^sub>m view t3" "length r = 4" "W r = treeRoot H 0 (plug ps' sub)"
      "stored H (view t3) (set (pathVecs H 0 ps' sub))"
    using smtClimb_run [OF t2(2) ready pv c(2), of ?inc] by blast
  obtain t4 where t4: "smtFinish S ctx root r t3 = (Ret (), t4)" "idle t4" "view t4 = view t3"
    using finish_law [of t3 root r] t3(2,4) root(1) by (auto simp: running_def)
  have le: "view s \<subseteq>\<^sub>m view t4" "view t2 \<subseteq>\<^sub>m view t4"
    using t2(3) t3(3) t4(3) v1(1) map_le_trans by metis+
  have "stored H (view t4) (sideVecs H 0 ps')"
    using stored_mono [OF le(1) st] stored_subset c(6) by blast
  moreover have "stored H (view t4) (treeVecs H (length ps') sub)" by (rule stored_mono [OF le(2) c(5)])
  moreover have "stored H (view t4) (set (pathVecs H 0 ps' sub))" using t3(6) t4(3) by simp
  ultimately have "stored H (view t4) ?V" unfolding c(1) treeVecs_plug by (simp add: stored_Un)
  moreover have "grows H ?V (view s) (view t4)" using t3(2) t4(3) by (simp add: running_def)
  moreover obtain res where "smtSet S batchUUID block tx root key value persistence s = (Ret res, t4)"
    "srNewRoot res = r" "srOldValue res = vOldValue v" "srNewValue res = value" "srOldRoot res = root"
    "srKey res = key" "srMode res = vMode v"
    using t0(1) t1(4) t2(1) t3(1) t4(1) lvl searched_popBack [OF t1(2)] node t1(1)
    by (simp add: smtSet_def Let_def ctx [symmetric] bindP_def liftP_def retP_def)
  ultimately show ?thesis using t2(4,5) t3(4,5) t4(2) le(1) c(1) by (intro exI [of _ res] exI [of _ t4]) auto
qed

end

end
