(* ===== verification/Hashdb_Store.thy ===== *)
theory Hashdb_Store
  imports State_Nodes Database_View Smt_Set
begin

text \<open>
  The tree on its two stores: the state manager and the database as the operations \<open>hashdb_ops\<close> that
  smt.cpp calls (the singleton \<open>stateManager\<close> and the parameter \<open>db\<close>), and the proof that together they
  keep the contract \<open>node_store\<close>.  With the state manager, what it holds for the batch hides what is
  durable in the database; without it, nodes are written to the database at once.
\<close>

section \<open>The stores the tree calls\<close>

definition liftSnd :: "('d, 'a) prog \<Rightarrow> ('s \<times> 'd, 'a) prog" where
  "liftSnd = zoomP snd (\<lambda>d (s, _). (s, d))"

lemma liftSnd_run: "liftSnd m (s, d) = (fst (m d), s, snd (m d))"
  by (simp add: liftSnd_def zoomP_def split_beta)

definition hashdbOps ::
  "('e, 'r) DatabaseConfig \<Rightarrow> bool \<Rightarrow> ('e sm_state \<times> ('e, 'r) Database, 'e) hashdb_ops" where
  "hashdbOps C stateManagerOn =
     \<lparr>config_stateManager = stateManagerOn,
      sm_setOldStateRoot = (\<lambda>u block tx r p. liftFst (setOldStateRoot u block tx r p)),
      sm_setNewStateRoot = (\<lambda>u block tx r p. liftFst (setNewStateRoot u block tx r p)),
      sm_readNode = (\<lambda>u k. liftFst (readNode u k)),
      sm_writeNode = (\<lambda>u block tx k v p. liftFst (writeNode u block tx k v p)),
      sm_deleteNode = (\<lambda>u block tx k p. liftFst (deleteNode u block tx k p)),
      db_read = (\<lambda>k h v0 tree. liftSnd (dbRead C k h v0 False tree)),
      db_write = (\<lambda>k h v persistent. liftSnd (dbWrite C k (Some h) v persistent)),
      db_updateStateRoot = (\<lambda>r. liftSnd (dbUpdateStateRoot C r))\<rparr>"

definition smtModel ::
  "('e, 'r) DatabaseConfig \<Rightarrow> bool \<Rightarrow> ('e list \<Rightarrow> 'e list) \<Rightarrow> ('e sm_state \<times> ('e, 'r) Database, 'e) Smt" where
  "smtModel C stateManagerOn poseidon =
     \<lparr>smtFr = cfFr C, smtPoseidon = poseidon, smtOps = hashdbOps C stateManagerOn\<rparr>"

section \<open>What can be read, and the phases of an update\<close>

definition storeView ::
  "('e, 'r) DatabaseConfig \<Rightarrow> ('r \<Rightarrow> string \<Rightarrow> u64 list option) \<Rightarrow> SmtContext
     \<Rightarrow> 'e sm_state \<times> ('e, 'r) Database \<Rightarrow> string \<Rightarrow> u64 list option"
where
  "storeView C rv ctx s k =
     (case if bUseStateManager ctx then smNodes (fst s) (ctxBatchUUID ctx) k else None of
        Some v \<Rightarrow> Some (map (toU64 (cfFr C)) v)
      | None \<Rightarrow> durable C rv (snd s) k)"

definition storeIdle ::
  "('e, 'r) DatabaseConfig \<Rightarrow> ('r \<Rightarrow> string \<Rightarrow> u64 list option) \<Rightarrow> SmtContext
     \<Rightarrow> 'e sm_state \<times> ('e, 'r) Database \<Rightarrow> bool"
where
  "storeIdle C rv ctx s \<longleftrightarrow> dbConsistent C rv (snd s) \<and> wfState (fst s) \<and>
     (bUseStateManager ctx \<longrightarrow>
        readyAt (ctxBatchUUID ctx) (ctxBlock ctx) (ctxTx ctx) (ctxPersistence ctx) (fst s))"

definition storeBusy ::
  "('e, 'r) DatabaseConfig \<Rightarrow> ('r \<Rightarrow> string \<Rightarrow> u64 list option) \<Rightarrow> SmtContext
     \<Rightarrow> 'e sm_state \<times> ('e, 'r) Database \<Rightarrow> bool"
where
  "storeBusy C rv ctx s \<longleftrightarrow> dbConsistent C rv (snd s) \<and> wfState (fst s) \<and>
     (bUseStateManager ctx \<longrightarrow>
        openAt (ctxBatchUUID ctx) (ctxBlock ctx) (ctxTx ctx) (ctxPersistence ctx) (fst s))"

text \<open>
  The updates considered: multi-write is on, and the update goes through the state manager with any
  persistence, or directly to the database with persistence.  Without multi-write \<open>Database::read\<close>
  appends to the vector that \<open>set\<close> and \<open>get\<close> reuse (\<open>dbRead_direct\<close>).
\<close>

definition supported :: "('e, 'r) DatabaseConfig \<Rightarrow> SmtContext \<Rightarrow> bool" where
  "supported C ctx \<longleftrightarrow> dbMultiWrite C \<and>
     (if bUseStateManager ctx then ctxPersistence ctx < PERSISTENCE_SIZE
      else ctxPersistence ctx = PERSISTENCE_DATABASE)"

text \<open>The hypotheses on what is not in the repository: field, hash function and server.\<close>

locale hashdb_store = hash_library "cfFr C" poseidon H
  for C :: "('e, 'r) DatabaseConfig" and poseidon :: "'e list \<Rightarrow> 'e list" and H +
  fixes rv :: "'r \<Rightarrow> string \<Rightarrow> u64 list option" and stateManagerOn :: bool and ctx :: SmtContext
  assumes remote: "remoteAnswers C rv" and sup: "supported C ctx"
begin

abbreviation S where "S \<equiv> smtModel C stateManagerOn poseidon"
abbreviation view where "view \<equiv> storeView C rv ctx"

lemma fr_S [simp]: "smtFr S = cfFr C" "smtPoseidon S = poseidon" "smtOps S = hashdbOps C stateManagerOn"
  by (simp_all add: smtModel_def)

lemma view_pair: "view (s, d) k = (case if bUseStateManager ctx then smNodes s (ctxBatchUUID ctx) k else None of
     Some v \<Rightarrow> Some (map (toU64 (cfFr C)) v) | None \<Rightarrow> durable C rv d k)"
  by (simp only: storeView_def fst_conv snd_conv)

lemma view_nodes: "smNodes t = smNodes s \<Longrightarrow> view (t, d) = view (s, d)"
  by (rule ext) (simp only: view_pair)

lemma view_direct: "\<not> bUseStateManager ctx \<Longrightarrow> view (s, d) = durable C rv d"
  by (rule ext) (simp add: view_pair)

lemma view_durable: "sameDurable C rv d d' \<Longrightarrow> view (s, d') = view (s, d)"
  by (rule ext) (simp only: view_pair sameDurable_view)

lemma store_read:
  assumes "dbConsistent C rv d" "length h = 4" "view (s, d) (keystr (map (toU64 (cfFr C)) h)) = Some w"
  shows "\<exists>v d'. smtRead S ctx prev h tree (s, d) = (Ret v, s, d') \<and> map (toU64 (cfFr C)) v = w \<and> sameDurable C rv d d'"
proof -
  let ?k = "keystr (map (toU64 (cfFr C)) h)"
  let ?m = "if bUseStateManager ctx then smNodes s (ctxBatchUUID ctx) ?k else None"
  show ?thesis
  proof (cases ?m)
    case (Some v)
    then have "smtRead S ctx prev h tree (s, d) = (Ret v, s, d)"
      using assms(2)
      by (simp add: smtRead_def hashdbOps_def bindP_def liftP_def liftFst_run readNode_keystr split: if_splits)
    then show ?thesis using Some assms(1,3) sameDurable_refl by (auto simp: view_pair)
  next
    case None
    then have "durable C rv d ?k = Some w" using assms(3) by (simp add: view_pair)
    then obtain v d' where d': "dbRead C ?k h prev False tree d = (Ret v, d')" "sameDurable C rv d d'"
      "map (toU64 (cfFr C)) v = w"
      using dbRead_run [OF remote goldilocks_axioms assms(1) keystr_not_root [OF assms(2)]] sup
      unfolding supported_def by blast
    then have "smtRead S ctx prev h tree (s, d) = (Ret v, s, d')"
      using assms(2) None
      by (simp add: smtRead_def hashdbOps_def bindP_def liftP_def liftFst_run liftSnd_run readNode_keystr split: if_splits)
    then show ?thesis using d' by blast
  qed
qed

lemma store_write:
  assumes "storeBusy C rv ctx (s, d)" "length h = 4"
    "view (s, d) k = None \<or> view (s, d) k = Some (map (toU64 (cfFr C)) v)" "k = keystr (map (toU64 (cfFr C)) h)"
  shows "\<exists>t. smtWrite S ctx k h v (s, d) = (Ret (), t) \<and> storeBusy C rv ctx t \<and>
     view t = (view (s, d))(k \<mapsto> map (toU64 (cfFr C)) v)"
proof (cases "bUseStateManager ctx")
  case True
  let ?u = "ctxBatchUUID ctx"
  obtain t where t: "writeNode ?u (ctxBlock ctx) (ctxTx ctx) k v (ctxPersistence ctx) s = (Ret (), t)"
    "openAt ?u (ctxBlock ctx) (ctxTx ctx) (ctxPersistence ctx) t"
    "smNodes t = (smNodes s)(?u := (smNodes s ?u)(k \<mapsto> v))"
    using writeNode_open [of ?u "ctxBlock ctx" "ctxTx ctx" "ctxPersistence ctx" s] assms(1,4) True sup
    by (auto simp: storeBusy_def supported_def)
  have "view (t, d) = (view (s, d))(k \<mapsto> map (toU64 (cfFr C)) v)"
    using True t(3) by (auto simp: view_pair fun_eq_iff split: option.split)
  moreover have "storeBusy C rv ctx (t, d)" using assms(1) True t(2) by (simp add: storeBusy_def openAt_def)
  moreover have "smtWrite S ctx k h v (s, d) = (Ret (), t, d)"
    using True t(1) by (simp add: smtWrite_def hashdbOps_def liftFst_run)
  ultimately show ?thesis by blast
next
  case False
  note view = view_direct [OF False]
  obtain d' where d': "dbWrite C k (Some h) v True d = (Ret (), d')" "dbConsistent C rv d'"
    "durable C rv d' = (durable C rv d)(k \<mapsto> map (toU64 (cfFr C)) v)"
    using dbWrite_run [OF remote goldilocks_axioms _ keystr_not_root [OF assms(2)], of d v "Some h"] assms(1,3,4) view
    by (auto simp: storeBusy_def)
  have "smtWrite S ctx k h v (s, d) = (Ret (), s, d')"
    using False d'(1) sup by (simp add: smtWrite_def hashdbOps_def liftSnd_run supported_def)
  moreover have "storeBusy C rv ctx (s, d')" using assms(1) False d'(2) by (simp add: storeBusy_def)
  ultimately show ?thesis using d'(3) view by auto
qed

lemma store_delete:
  assumes "storeBusy C rv ctx (s, d)" "length h = 4"
  shows "\<exists>r t. smtDeleteNode S ctx (keystr (map (toU64 (cfFr C)) h)) (s, d) = (r, t) \<and>
     (r = Ret () \<or> (\<exists>e. r = Fail e)) \<and> storeBusy C rv ctx t \<and> view t = view (s, d)"
proof (cases "bUseStateManager ctx")
  case True
  let ?u = "ctxBatchUUID ctx"
  obtain t where t: "deleteNode ?u (ctxBlock ctx) (ctxTx ctx) (keystr (map (toU64 (cfFr C)) h)) (ctxPersistence ctx) s = (Ret (), t)"
    "openAt ?u (ctxBlock ctx) (ctxTx ctx) (ctxPersistence ctx) t" "smNodes t = smNodes s"
    using deleteNode_open [of ?u "ctxBlock ctx" "ctxTx ctx" "ctxPersistence ctx" s] assms(1) True sup
    by (auto simp: storeBusy_def supported_def)
  then show ?thesis
    using assms(1) view_nodes [OF t(3)]
    by (auto simp: smtDeleteNode_def hashdbOps_def liftFst_run storeBusy_def openAt_def)
next
  case False
  have "wfState s" using assms(1) by (simp add: storeBusy_def)
  then obtain r t where t: "deleteNode (ctxBatchUUID ctx) (ctxBlock ctx) (ctxTx ctx) (keystr (map (toU64 (cfFr C)) h))
      (ctxPersistence ctx) s = (r, t)" "r = Ret () \<or> (\<exists>e. r = Fail e)" "wfState t" "smNodes t = smNodes s"
    using deleteNode_total by blast
  then show ?thesis
    using assms(1) False view_nodes [OF t(4)]
    by (auto simp: smtDeleteNode_def hashdbOps_def liftFst_run storeBusy_def)
qed

lemma store_start:
  assumes "storeIdle C rv ctx (s, d)" "length r = 4"
  shows "\<exists>t. smtStart S ctx r (s, d) = (Ret (), t) \<and> storeBusy C rv ctx t \<and> view t = view (s, d)"
proof (cases "bUseStateManager ctx")
  case True
  let ?u = "ctxBatchUUID ctx"
  obtain t where t: "setOldStateRoot ?u (ctxBlock ctx) (ctxTx ctx) (keystr (map (toU64 (cfFr C)) r)) (ctxPersistence ctx) s = (Ret (), t)"
    "openAt ?u (ctxBlock ctx) (ctxTx ctx) (ctxPersistence ctx) t" "smNodes t = smNodes s"
    using setOldStateRoot_ready [of ?u "ctxBlock ctx" "ctxTx ctx" "ctxPersistence ctx" s] assms(1) True sup
    by (auto simp: storeIdle_def supported_def)
  then show ?thesis
    using assms True view_nodes [OF t(3)]
    by (auto simp: smtStart_def hashdbOps_def bindP_def liftP_def liftFst_run storeIdle_def storeBusy_def openAt_def)
next
  case False
  then show ?thesis using assms by (simp add: smtStart_def retP_def storeIdle_def storeBusy_def)
qed

lemma store_finish:
  assumes "storeBusy C rv ctx (s, d)" "length r = 4" "length r' = 4"
  shows "\<exists>t. smtFinish S ctx r r' (s, d) = (Ret (), t) \<and> storeIdle C rv ctx t \<and> view t = view (s, d)"
proof (cases "bUseStateManager ctx")
  case True
  let ?u = "ctxBatchUUID ctx"
  obtain t where t: "setNewStateRoot ?u (ctxBlock ctx) (ctxTx ctx) (keystr (map (toU64 (cfFr C)) r')) (ctxPersistence ctx) s = (Ret (), t)"
    "readyAt ?u (ctxBlock ctx) (ctxTx ctx) (ctxPersistence ctx) t" "smNodes t = smNodes s"
    using setNewStateRoot_open [of ?u "ctxBlock ctx" "ctxTx ctx" "ctxPersistence ctx" s] assms(1) True sup
    by (auto simp: storeBusy_def supported_def)
  then show ?thesis
    using assms True view_nodes [OF t(3)]
    by (auto simp: smtFinish_def hashdbOps_def bindP_def liftP_def liftFst_run storeIdle_def storeBusy_def readyAt_def)
next
  case False
  have d: "dbConsistent C rv d" "dbMultiWrite C" using assms(1) False sup by (simp_all add: storeBusy_def supported_def)
  obtain d' where d': "dbUpdateStateRoot C r' d = (Ret (), d')" "dbConsistent C rv d'" "durable C rv d' = durable C rv d"
    using dbUpdateStateRoot_run [OF goldilocks_axioms d assms(3)] by blast
  then show ?thesis
    using assms(1) False view_direct [OF False]
    by (auto simp: smtFinish_def updateStateRoot_def hashdbOps_def liftSnd_run retP_def storeIdle_def storeBusy_def)
qed

end

sublocale hashdb_store \<subseteq> tree: smt_on_store "smtModel C stateManagerOn poseidon" ctx H "storeView C rv ctx"
  "storeIdle C rv ctx" "storeBusy C rv ctx"
proof (intro smt_on_store.intro node_store.intro, unfold fr_S)
  show "hash_library (cfFr C) poseidon H" by (rule hash_library_axioms)
next
  fix s :: "'e sm_state \<times> ('e, 'r) Database" and prev h :: "'e list" and tree w
  assume act: "storeIdle C rv ctx s \<or> storeBusy C rv ctx s" and h: "length h = 4"
    and v: "storeView C rv ctx s (keystr (map (toU64 (cfFr C)) h)) = Some w"
  obtain sm d where s: "s = (sm, d)" by (cases s)
  have "dbConsistent C rv d" using act s by (auto simp: storeIdle_def storeBusy_def)
  then obtain v d' where r: "smtRead S ctx prev h tree s = (Ret v, sm, d')" "map (toU64 (cfFr C)) v = w"
    "sameDurable C rv d d'" using store_read [OF _ h v [unfolded s]] s by blast
  moreover have "storeView C rv ctx (sm, d') = storeView C rv ctx s" using view_durable [OF r(3)] s by simp
  moreover have "storeIdle C rv ctx s \<longrightarrow> storeIdle C rv ctx (sm, d')" "storeBusy C rv ctx s \<longrightarrow> storeBusy C rv ctx (sm, d')"
    using r(3) s by (auto simp: storeIdle_def storeBusy_def sameDurable_def)
  ultimately show "\<exists>v t. smtRead S ctx prev h tree s = (Ret v, t) \<and> map (toU64 (cfFr C)) v = w \<and>
      storeView C rv ctx t = storeView C rv ctx s \<and> (storeIdle C rv ctx s \<longrightarrow> storeIdle C rv ctx t) \<and>
      (storeBusy C rv ctx s \<longrightarrow> storeBusy C rv ctx t)" by blast
next
  fix s :: "'e sm_state \<times> ('e, 'r) Database" and h v :: "'e list" and k
  assume "storeBusy C rv ctx s" "length h = 4" "length v = 12" "k = keystr (map (toU64 (cfFr C)) h)"
    "storeView C rv ctx s k = None \<or> storeView C rv ctx s k = Some (map (toU64 (cfFr C)) v)"
  then show "\<exists>t. smtWrite S ctx k h v s = (Ret (), t) \<and> storeBusy C rv ctx t \<and>
      storeView C rv ctx t = (storeView C rv ctx s)(k \<mapsto> map (toU64 (cfFr C)) v)"
    using store_write [of "fst s" "snd s" h k v] by simp
next
  fix s :: "'e sm_state \<times> ('e, 'r) Database" and h :: "'e list"
  assume "storeBusy C rv ctx s" "length h = 4"
  then show "\<exists>r t. smtDeleteNode S ctx (keystr (map (toU64 (cfFr C)) h)) s = (r, t) \<and>
      (r = Ret () \<or> (\<exists>e. r = Fail e)) \<and> storeBusy C rv ctx t \<and> storeView C rv ctx t = storeView C rv ctx s"
    using store_delete [of "fst s" "snd s" h] by simp
next
  fix s :: "'e sm_state \<times> ('e, 'r) Database" and r :: "'e list"
  assume "storeIdle C rv ctx s" "length r = 4"
  then show "\<exists>t. smtStart S ctx r s = (Ret (), t) \<and> storeBusy C rv ctx t \<and>
      storeView C rv ctx t = storeView C rv ctx s"
    using store_start [of "fst s" "snd s" r] by simp
next
  fix s :: "'e sm_state \<times> ('e, 'r) Database" and r r' :: "'e list"
  assume "storeBusy C rv ctx s" "length r = 4" "length r' = 4"
  then show "\<exists>t. smtFinish S ctx r r' s = (Ret (), t) \<and> storeIdle C rv ctx t \<and>
      storeView C rv ctx t = storeView C rv ctx s"
    using store_finish [of "fst s" "snd s" r r'] by simp
qed

end
