(* ===== verification/Smt_Ready.thy ===== *)
theory Smt_Ready
  imports Hashdb_Store
begin

text \<open>
  The correctness of \<open>Smt::set\<close> and \<open>Smt::get\<close> on the program's own stores (Hashdb_Store): together
  they implement a finite map from keys to values, the root returned is the root of the abstract
  trie, and what was stored under other roots stays readable.  What is not in the repository enters
  as hypotheses: the field and the hash function (\<open>hash_library\<close>), the database server
  (\<open>remoteAnswers\<close>), and that the hash has no collision on the nodes at hand.
\<close>

section \<open>Stores that hold a trie under a root\<close>

definition holdsTree ::
  "('e, 'r) DatabaseConfig \<Rightarrow> ('r \<Rightarrow> string \<Rightarrow> u64 list option) \<Rightarrow> (u64 list \<Rightarrow> u64 list) \<Rightarrow> SmtContext
     \<Rightarrow> 'e sm_state \<times> ('e, 'r) Database \<Rightarrow> smt_tree \<Rightarrow> 'e list \<Rightarrow> bool"
where
  "holdsTree C rv H ctx s T root \<longleftrightarrow> wfTree [] T \<and> stored H (storeView C rv ctx s) (treeVecs H 0 T) \<and>
     (\<forall>w \<in> treeVecs H 0 T. H w \<noteq> zeros4) \<and> length root = 4 \<and> map (toU64 (cfFr C)) root = treeRoot H 0 T"

text \<open>
  The hash function on the nodes of a trie: no hash is zero, which stands for the empty trie, and no
  two nodes, nor a node and one that is stored already, have the same hash.
\<close>

definition hashSafe :: "(u64 list \<Rightarrow> u64 list) \<Rightarrow> (string \<Rightarrow> u64 list option) \<Rightarrow> smt_tree \<Rightarrow> bool" where
  "hashSafe H N T \<longleftrightarrow> collisionFree H N (treeVecs H 0 T) \<and> (\<forall>w \<in> treeVecs H 0 T. H w \<noteq> zeros4)"

lemma contents_treeSet:
  assumes "wfTree [] T" "wfKey k" "v < 2 ^ 256" "v \<noteq> 0 \<Longrightarrow> \<forall>k' \<in> dom (contents T). k' \<noteq> k \<longrightarrow> separable k k'"
  shows "wfTree [] (treeSet T k v) \<and> contents (treeSet T k v) = (contents T)(k := if v = 0 then None else Some v)"
  using wfTree_treeDelete [OF assms(1), of k] wfTree_treeInsert [OF assms(1,2), of v] assms
  by (auto simp: treeSet_def)

lemma valueOf_treeSet:
  assumes "wfTree [] T" "wfKey k" "v < 2 ^ 256" "v \<noteq> 0 \<Longrightarrow> \<forall>k' \<in> dom (contents T). k' \<noteq> k \<longrightarrow> separable k k'"
  shows "valueOf (treeSet T k v) k' = (if k' = k then v else valueOf T k')"
  using contents_treeSet [OF assms] by (simp add: valueOf_def)

context hashdb_store begin

abbreviation W where "W \<equiv> map (toU64 (cfFr C))"

lemma holdsTree_mono:
  "holdsTree C rv H ctx s T root \<Longrightarrow> view s \<subseteq>\<^sub>m view t \<Longrightarrow> holdsTree C rv H ctx t T root"
  unfolding holdsTree_def by (metis stored_mono)

lemma set_tree:
  assumes s: "storeIdle C rv ctx s" "holdsTree C rv H ctx s T root"
    and key: "length key = 4" and v: "value < 2 ^ 256"
    and sep: "value \<noteq> 0 \<longrightarrow> (\<forall>k \<in> dom (contents T). k \<noteq> W key \<longrightarrow> separable (W key) k)"
    and safe: "hashSafe H (view s) (treeSet T (W key) value)"
    and ctx: "ctx = smtContext S u block tx p" and node: "isNode T"
  shows "\<exists>r t. smtSet S u block tx root key value p s = (Ret r, t) \<and> storeIdle C rv ctx t \<and>
     holdsTree C rv H ctx t (treeSet T (W key) value) (srNewRoot r) \<and> view s \<subseteq>\<^sub>m view t \<and>
     grows H (treeVecs H 0 (treeSet T (W key) value)) (view s) (view t) \<and>
     srOldValue r = valueOf T (W key) \<and> srNewValue r = value \<and> srOldRoot r = root \<and> srKey r = key \<and>
     (\<exists>e. srMode r \<in> modeOf T e (W key) value)"
proof -
  have T: "wfTree [] T" "stored H (view s) (treeVecs H 0 T)" "\<And>w. w \<in> treeVecs H 0 T \<Longrightarrow> H w \<noteq> zeros4"
    "length root = 4" "W root = treeRoot H 0 T"
    using s(2) by (simp_all add: holdsTree_def)
  have T': "wfTree [] (treeSet T (W key) value)"
    using contents_treeSet [OF T(1) wfKey_words [OF key] v mp [OF sep]] by blast
  have safe': "collisionFree H (view s) (treeVecs H 0 (treeSet T (W key) value))"
    "\<forall>w \<in> treeVecs H 0 (treeSet T (W key) value). H w \<noteq> zeros4" using safe by (simp_all add: hashSafe_def)
  show ?thesis
    using tree.smtSet_run [where root = root and key = key and T = T and batchUUID = u and block = block and
        tx = tx and persistence = p, unfolded fr_S, OF s(1) T(1,2) T(3) T(4,5) key ctx node mp [OF sep] safe'(1)]
      T' safe'(2) unfolding holdsTree_def by blast
qed

lemma get_tree:
  assumes s: "storeIdle C rv ctx s" "holdsTree C rv H ctx s T root"
    and key: "length key = 4" and ctx: "ctx = smtContext S u block tx p" and node: "isNode T"
  shows "\<exists>r t. smtGet S u root key s = (Ret r, t) \<and> storeIdle C rv ctx t \<and> view t = view s \<and>
     grValue r = valueOf T (W key) \<and>
     (\<exists>ps e. T = plug ps e \<and> map fst ps = take (length ps) (keyBits (W key)) \<and>
             map W (grSiblings r) = pathVecs H 0 ps e \<and>
             (if grIsOld0 r then e = Empty \<or> (\<exists>v. e = Leaf (W key) v)
              else e = Leaf (W (grInsKey r)) (grInsValue r) \<and> W (grInsKey r) \<noteq> W key))"
proof -
  have T: "wfTree [] T" "stored H (view s) (treeVecs H 0 T)" "\<And>w. w \<in> treeVecs H 0 T \<Longrightarrow> H w \<noteq> zeros4"
    "length root = 4" "W root = treeRoot H 0 T"
    using s(2) by (simp_all add: holdsTree_def)
  show ?thesis
    using tree.smtGet_run [where root = root and key = key and T = T and batchUUID = u and block = block and
        tx = tx and persistence = p, unfolded fr_S, OF disjI1 [OF s(1)] T(1,2) T(3) T(4,5) key ctx node]
      s(1) unfolding tree.quiet_def by blast
qed

lemma undefined_tree:
  assumes s: "storeIdle C rv ctx s" "holdsTree C rv H ctx s T root"
    and key: "length key = 4" and ctx: "ctx = smtContext S u block tx p" and node: "\<not> isNode T"
  shows "fst (smtGet S u root key s) = Undef \<and> fst (smtSet S u block tx root key value p s) = Undef"
proof -
  have T: "wfTree [] T" "stored H (view s) (treeVecs H 0 T)" "\<And>w. w \<in> treeVecs H 0 T \<Longrightarrow> H w \<noteq> zeros4"
    "length root = 4" "W root = treeRoot H 0 T"
    using s(2) by (simp_all add: holdsTree_def)
  show ?thesis
    using tree.smtGet_undefined [where root = root and key = key and T = T and batchUUID = u and block = block and
        tx = tx and persistence = p, unfolded fr_S, OF disjI1 [OF s(1)] T(1,2) T(3) T(4,5) key ctx node]
      tree.smtSet_undefined [where root = root and key = key and T = T and batchUUID = u and block = block and
        tx = tx and persistence = p, unfolded fr_S, OF s(1) T(1,2) T(3) T(4,5) key ctx node] by blast
qed

end

section \<open>A store ready for updates\<close>

text \<open>
  The stores hold the trie \<open>T\<close> under \<open>root\<close>, between two updates of a transaction, and the parts that
  are not in the repository behave as documented.
\<close>

definition treeReady ::
  "('e, 'r) DatabaseConfig \<Rightarrow> ('r \<Rightarrow> string \<Rightarrow> u64 list option) \<Rightarrow> ('e list \<Rightarrow> 'e list) \<Rightarrow> (u64 list \<Rightarrow> u64 list)
     \<Rightarrow> bool \<Rightarrow> SmtContext \<Rightarrow> 'e sm_state \<times> ('e, 'r) Database \<Rightarrow> smt_tree \<Rightarrow> 'e list \<Rightarrow> bool"
where
  "treeReady C rv poseidon H stateManagerOn ctx s T root \<longleftrightarrow>
     hash_library (cfFr C) poseidon H \<and> remoteAnswers C rv \<and> supported C ctx \<and>
     ctx = smtContext (smtModel C stateManagerOn poseidon) (ctxBatchUUID ctx) (ctxBlock ctx) (ctxTx ctx) (ctxPersistence ctx) \<and>
     storeIdle C rv ctx s \<and> holdsTree C rv H ctx s T root"

text \<open>
  An update the trie can take: a value of 256 bits, a key that differs from the stored ones within the
  first 252 bits of the path (the depth \<open>joinKey\<close> and \<open>removeKeyBits\<close> are defined for), no collision.
\<close>

definition updateSafe ::
  "(u64 list \<Rightarrow> u64 list) \<Rightarrow> (string \<Rightarrow> u64 list option) \<Rightarrow> smt_tree \<Rightarrow> u64 list \<Rightarrow> nat \<Rightarrow> bool"
where
  "updateSafe H N T k v \<longleftrightarrow> v < 2 ^ 256 \<and> (v \<noteq> 0 \<longrightarrow> (\<forall>k' \<in> dom (contents T). k' \<noteq> k \<longrightarrow> separable k k')) \<and>
     hashSafe H N (treeSet T k v)"

lemma treeReady_store: "treeReady C rv poseidon H on ctx s T root \<Longrightarrow> hashdb_store C poseidon H rv ctx"
  by (simp add: treeReady_def hashdb_store_def hashdb_store_axioms_def)

lemma treeReady_wf: "treeReady C rv poseidon H on ctx s T root \<Longrightarrow> wfTree [] T"
  by (simp add: treeReady_def holdsTree_def)

lemma treeReady_root:
  "treeReady C rv poseidon H on ctx s T root \<Longrightarrow> map (toU64 (cfFr C)) root = treeRoot H 0 T"
  by (simp add: treeReady_def holdsTree_def)

lemma treeReady_key:
  "treeReady C rv poseidon H on ctx s T root \<Longrightarrow> length key = 4 \<Longrightarrow> wfKey (map (toU64 (cfFr C)) key)"
  unfolding treeReady_def using hash_library.wfKey_words by blast

lemma treeReady_mono:
  assumes "treeReady C rv poseidon H on ctx s T root" "storeIdle C rv ctx t"
    "storeView C rv ctx s \<subseteq>\<^sub>m storeView C rv ctx t"
  shows "treeReady C rv poseidon H on ctx t T root"
  using assms hashdb_store.holdsTree_mono [OF treeReady_store [OF assms(1)], of s T root t]
  by (simp add: treeReady_def)

lemma set_ready:
  assumes rdy: "treeReady C rv poseidon H on ctx s T root" and key: "length key = 4"
    and safe: "updateSafe H (storeView C rv ctx s) T (map (toU64 (cfFr C)) key) value" and node: "isNode T"
  obtains r t where
    "smtSet (smtModel C on poseidon) (ctxBatchUUID ctx) (ctxBlock ctx) (ctxTx ctx) root key value (ctxPersistence ctx) s
       = (Ret r, t)"
    "treeReady C rv poseidon H on ctx t (treeSet T (map (toU64 (cfFr C)) key) value) (srNewRoot r)"
    "storeView C rv ctx s \<subseteq>\<^sub>m storeView C rv ctx t"
    "grows H (treeVecs H 0 (treeSet T (map (toU64 (cfFr C)) key) value)) (storeView C rv ctx s) (storeView C rv ctx t)"
    "srOldValue r = valueOf T (map (toU64 (cfFr C)) key)" "srNewValue r = value" "srOldRoot r = root" "srKey r = key"
    "\<exists>e. srMode r \<in> modeOf T e (map (toU64 (cfFr C)) key) value"
proof -
  have "storeIdle C rv ctx s" "holdsTree C rv H ctx s T root"
    "ctx = smtContext (smtModel C on poseidon) (ctxBatchUUID ctx) (ctxBlock ctx) (ctxTx ctx) (ctxPersistence ctx)"
    using rdy by (simp_all add: treeReady_def)
  note st = this
  have "value < 2 ^ 256" "hashSafe H (storeView C rv ctx s) (treeSet T (map (toU64 (cfFr C)) key) value)"
    "value \<noteq> 0 \<longrightarrow> (\<forall>k \<in> dom (contents T). k \<noteq> map (toU64 (cfFr C)) key \<longrightarrow> separable (map (toU64 (cfFr C)) key) k)"
    using safe by (simp_all add: updateSafe_def)
  note run = hashdb_store.set_tree [OF treeReady_store [OF rdy] st(1,2) key this(1) this(3) this(2) st(3) node]
  show ?thesis using run rdy by (elim exE conjE) (rule that; (assumption | rule exI, assumption | simp add: treeReady_def))
qed

lemma get_ready:
  assumes rdy: "treeReady C rv poseidon H on ctx s T root" and key: "length key = 4" and node: "isNode T"
  obtains r t where
    "smtGet (smtModel C on poseidon) (ctxBatchUUID ctx) root key s = (Ret r, t)"
    "treeReady C rv poseidon H on ctx t T root" "storeView C rv ctx t = storeView C rv ctx s"
    "grValue r = valueOf T (map (toU64 (cfFr C)) key)"
    "\<exists>ps e. T = plug ps e \<and> map fst ps = take (length ps) (keyBits (map (toU64 (cfFr C)) key)) \<and>
        map (map (toU64 (cfFr C))) (grSiblings r) = pathVecs H 0 ps e \<and>
        (if grIsOld0 r then e = Empty \<or> (\<exists>v. e = Leaf (map (toU64 (cfFr C)) key) v)
         else e = Leaf (map (toU64 (cfFr C)) (grInsKey r)) (grInsValue r) \<and>
              map (toU64 (cfFr C)) (grInsKey r) \<noteq> map (toU64 (cfFr C)) key)"
proof -
  have "storeIdle C rv ctx s" "holdsTree C rv H ctx s T root"
    "ctx = smtContext (smtModel C on poseidon) (ctxBatchUUID ctx) (ctxBlock ctx) (ctxTx ctx) (ctxPersistence ctx)"
    using rdy by (simp_all add: treeReady_def)
  then obtain r t where t:
    "smtGet (smtModel C on poseidon) (ctxBatchUUID ctx) root key s = (Ret r, t)" "storeIdle C rv ctx t"
    "storeView C rv ctx t = storeView C rv ctx s" "grValue r = valueOf T (map (toU64 (cfFr C)) key)"
    "\<exists>ps e. T = plug ps e \<and> map fst ps = take (length ps) (keyBits (map (toU64 (cfFr C)) key)) \<and>
        map (map (toU64 (cfFr C))) (grSiblings r) = pathVecs H 0 ps e \<and>
        (if grIsOld0 r then e = Empty \<or> (\<exists>v. e = Leaf (map (toU64 (cfFr C)) key) v)
         else e = Leaf (map (toU64 (cfFr C)) (grInsKey r)) (grInsValue r) \<and>
              map (toU64 (cfFr C)) (grInsKey r) \<noteq> map (toU64 (cfFr C)) key)"
    using hashdb_store.get_tree [OF treeReady_store [OF rdy]] key node by blast
  have "treeReady C rv poseidon H on ctx t T root" using treeReady_mono [OF rdy t(2)] t(3) by simp
  then show ?thesis using that t by blast
qed

text \<open>Both calls are undefined on a trie of at most one entry.\<close>

lemma undefined_ready:
  assumes rdy: "treeReady C rv poseidon H on ctx s T root" and key: "length key = 4" and node: "\<not> isNode T"
  shows "fst (smtGet (smtModel C on poseidon) (ctxBatchUUID ctx) root key s) = Undef"
    "fst (smtSet (smtModel C on poseidon) (ctxBatchUUID ctx) (ctxBlock ctx) (ctxTx ctx) root key value
       (ctxPersistence ctx) s) = Undef"
proof -
  have "storeIdle C rv ctx s" "holdsTree C rv H ctx s T root"
    "ctx = smtContext (smtModel C on poseidon) (ctxBatchUUID ctx) (ctxBlock ctx) (ctxTx ctx) (ctxPersistence ctx)"
    using rdy by (simp_all add: treeReady_def)
  from hashdb_store.undefined_tree [OF treeReady_store [OF rdy] this(1,2) key this(3) node]
  show "fst (smtGet (smtModel C on poseidon) (ctxBatchUUID ctx) root key s) = Undef"
    "fst (smtSet (smtModel C on poseidon) (ctxBatchUUID ctx) (ctxBlock ctx) (ctxTx ctx) root key value
       (ctxPersistence ctx) s) = Undef" by blast+
qed

text \<open>An update with a value other than zero leaves a node at the root.\<close>

lemma isNode_treeSet: "isNode T \<Longrightarrow> v \<noteq> 0 \<Longrightarrow> isNode (treeSet T k v)"
  by (erule isNodeE) (simp add: treeSet_def)

section \<open>A server kept in memory\<close>

text \<open>
  The hypotheses can be met: 64-bit words as field elements, a table in memory as the server, and a
  hash function that mixes the words of a vector.  The witnesses of the properties use this instance.
\<close>

definition mixHash :: "u64 list \<Rightarrow> u64 list" where
  "mixHash w = map gl_canon
     [unat (w ! 0) + 16 * unat (w ! 4), unat (w ! 1) + 16 * unat (w ! 5),
      unat (w ! 2) + 16 * unat (w ! 6), unat (w ! 3) + 16 * unat (w ! 7) + 256 * unat (w ! 8)]"

definition mixPoseidon :: "u64 list \<Rightarrow> u64 list" where
  "mixPoseidon v = mixHash (map (toU64 gl_word) v)"

definition tableView :: "(string \<Rightarrow> u64 list option) \<Rightarrow> string \<Rightarrow> u64 list option" where
  "tableView r k = map_option (map (toU64 gl_word)) (r k)"

definition tableSelect ::
  "bool \<Rightarrow> string \<Rightarrow> (string \<Rightarrow> u64 list option) \<Rightarrow> string list list option \<times> (string \<Rightarrow> u64 list option)" where
  "tableSelect bProgram k r =
     (case if bProgram then None else tableView r k of
        None \<Rightarrow> (Some [], r) | Some w \<Rightarrow> (Some [[k, hexPrefix @ nodeDigits w]], r))"

definition tableExec ::
  "sql_statement list \<Rightarrow> (string \<Rightarrow> u64 list option) \<Rightarrow> bool \<times> (string \<Rightarrow> u64 list option)" where
  "tableExec sts r =
     (case sts of
        [InsertRows False [(k, s)]] \<Rightarrow> (True, if r k = None then r(k \<mapsto> nodeOfString gl_word s) else r)
      | _ \<Rightarrow> (True, r))"

definition tableConfig :: "(u64, string \<Rightarrow> u64 list option) DatabaseConfig" where
  "tableConfig =
     \<lparr>cfFr = gl_word, dbMultiWrite = True, dbGetTree = False, dbReadOnly = False, useAssociativeCache = False,
      dbReadRetryDelay = 0, dbReadRetryCounter = 0, nodeRecordSize = (\<lambda>_ _. 1), programRecordSize = (\<lambda>_ _. 1),
      sqlSelect = tableSelect, sqlGetTree = (\<lambda>_ _ r. (Some [], r)), sqlExec = tableExec,
      dbStateRootvKey = replicate 4 (- 1)\<rparr>"

definition tableContext :: SmtContext where
  "tableContext = smtContext (smtModel tableConfig True mixPoseidon) ''u'' 0 0 PERSISTENCE_DATABASE"

text \<open>A server that holds the nodes of a trie, and nothing in the program's memory.\<close>

definition tableStore ::
  "u64 list list \<Rightarrow> u64 sm_state \<times> (u64, string \<Rightarrow> u64 list option) Database" where
  "tableStore ws =
     (Map.empty,
      \<lparr>bInitialized = True, useRemoteDB = True, dbMTCache = newCache 1000,
       dbMTACache = \<lparr>acLog2IndexesSize = 0, acLog2CacheSize = 0, acIndexes = [], acKeys = [], acValues = [],
                     acCurrentCacheIndex = 0, acAttempts = 0, acHits = 0\<rparr>,
       dbProgramCache = newCache 1000, multiWrite = newMultiWrite,
       dbRemote = map_of (map (\<lambda>w. (keystr (mixHash w), w)) ws)\<rparr>)"

lemma canonical_gl_words: "canonical (map (toU64 gl_word) v)"
  by (auto simp: canonical_def glw.toU64_less)

lemma canonical_fixed: "canonical w \<Longrightarrow> map (toU64 gl_word) w = w"
  by (intro map_idI) (auto simp: canonical_def gl_word_def gl_canon_def)

lemma canonical_gl_canon: "canonical (map gl_canon ns)"
  using prime_bounds(1) by (auto simp: canonical_def unat_gl_canon)

lemma table_library: "hash_library gl_word mixPoseidon mixHash"
proof (intro hash_library.intro hash_library_axioms.intro)
  show "goldilocks gl_word" by (rule glw.goldilocks_axioms)
  show "length (mixHash w) = 4" for w by (simp add: mixHash_def)
  show "map (toU64 gl_word) (mixPoseidon v) = mixHash (map (toU64 gl_word) v)" if "length v = 12" for v :: "u64 list"
    unfolding mixPoseidon_def mixHash_def by (rule canonical_fixed) (rule canonical_gl_canon)
qed

lemma table_remote: "remoteAnswers tableConfig tableView"
proof -
  have "\<exists>h r'. tableSelect False k r = (Some [[h, hexPrefix @ nodeDigits w]], r') \<and> tableView r' = tableView r"
    if "tableView r k = Some w" for r k w
    using that by (simp add: tableSelect_def)
  moreover have "canonical w" if "tableView r k = Some w" for r k w
    using that canonical_gl_words by (auto simp: tableView_def)
  moreover have "\<exists>r'. tableExec [InsertRows False [(k, nodeDigits w)]] r = (True, r') \<and>
        tableView r' = (if tableView r k = None then (tableView r)(k \<mapsto> w) else tableView r)" if "canonical w" for r k w
  proof -
    have "map (toU64 gl_word) (nodeOfString gl_word (nodeDigits w)) = w"
      using glw.nodeOfString_digits [of w] canonical_fixed [OF that] glw.nodeDigits_map [of w] by simp
    then show ?thesis
      by (intro exI [of _ "snd (tableExec [InsertRows False [(k, nodeDigits w)]] r)"])
         (auto simp: tableExec_def tableView_def fun_eq_iff)
  qed
  ultimately show ?thesis by (simp add: remoteAnswers_def tableConfig_def)
qed

interpretation table: hashdb_store tableConfig mixPoseidon mixHash tableView True tableContext
proof (intro hashdb_store.intro hashdb_store_axioms.intro table_remote)
  show "hash_library (cfFr tableConfig) mixPoseidon mixHash" using table_library by (simp add: tableConfig_def)
  show "supported tableConfig tableContext"
    by (simp add: supported_def tableContext_def smtContext_def smtModel_def hashdbOps_def) (simp add: tableConfig_def)
qed

lemma storeView_table:
  "storeView tableConfig tableView tableContext (tableStore ws) k =
     map_option (map (toU64 gl_word)) (map_of (map (\<lambda>w. (keystr (mixHash w), w)) ws) k)"
proof -
  have "findNode gl_word newMultiWrite k = None"
    by (simp add: findNode_def nodeIn_def pendingData_def storingData_def newMultiWrite_def mdReset_def)
  then show ?thesis
    by (simp add: storeView_def smNodes_def tableStore_def durable_def tableConfig_def tableView_def)
qed

lemma storeView_table_in:
  assumes "w \<in> set ws" "distinct (map mixHash ws)" "canonical w"
  shows "storeView tableConfig tableView tableContext (tableStore ws) (keystr (mixHash w)) = Some w"
proof -
  have len: "length (mixHash u) = 4" for u by (simp add: mixHash_def)
  have "inj_on keystr (mixHash ` set ws)"
    by (rule inj_onI) (use keystr_inj len in blast)
  then have "distinct (map (\<lambda>w. keystr (mixHash w)) ws)"
    using assms(2) by (simp add: distinct_map inj_on_def)
  then have "map_of (map (\<lambda>w. (keystr (mixHash w), w)) ws) (keystr (mixHash w)) = Some w"
    using assms(1) by (intro map_of_is_SomeI) (auto simp: comp_def)
  then show ?thesis using canonical_fixed [OF assms(3)] by (simp add: storeView_table)
qed

lemma table_ready:
  assumes T: "wfTree [] T" "treeVecs mixHash 0 T = set ws" "distinct (map mixHash ws)"
    and ws: "\<And>w. w \<in> set ws \<Longrightarrow> canonical w \<and> mixHash w \<noteq> zeros4" "canonical (treeRoot mixHash 0 T)"
  shows "treeReady tableConfig tableView mixPoseidon mixHash True tableContext (tableStore ws) T (treeRoot mixHash 0 T)"
proof -
  let ?d = "snd (tableStore ws)"
  have find: "findNode gl_word newMultiWrite k = None" for k
    by (simp add: findNode_def nodeIn_def pendingData_def storingData_def newMultiWrite_def mdReset_def)
  have "pendingToFlushDataIndex newMultiWrite < length (mwData newMultiWrite)" by (simp add: newMultiWrite_def)
  then have "dbConsistent tableConfig tableView ?d"
    unfolding dbConsistent_def truthful_def
    by (simp add: tableStore_def tableConfig_def durable_def find newCache_def wfCache_def cacheContent_def)
  then have idle: "storeIdle tableConfig tableView tableContext (tableStore ws)"
    by (simp add: storeIdle_def tableStore_def wfState_def readyAt_def persistenceAt_def blockAt_def txAt_def)
  have holds: "holdsTree tableConfig tableView mixHash tableContext (tableStore ws) T (treeRoot mixHash 0 T)"
    using T ws storeView_table_in [OF _ T(3)] canonical_fixed [OF ws(2)] hash_library.length_treeRoot [OF table_library]
    by (simp add: holdsTree_def stored_def tableConfig_def)
  show ?thesis
    unfolding treeReady_def
    using table_library table_remote table.sup idle holds
    by (auto simp: tableContext_def smtContext_def tableConfig_def)
qed

text \<open>Two keys with the same first bit of their paths and different second bits.\<close>

definition branch :: smt_tree where
  "branch = Node Empty (Node (Leaf [1, 2, 3, 4] 5) (Leaf [1, 3, 3, 4] 6))"

definition branchNodes :: "u64 list list" where
  "branchNodes = [[0, 0, 0, 0, 1616, 17, 51, 4420, 0, 0, 0, 0], [80, 1, 3, 260, 96, 1, 3, 260, 0, 0, 0, 0],
     [0, 1, 3, 4, 5, 0, 0, 0, 1, 0, 0, 0], [5, 0, 0, 0, 0, 0, 0, 0, 0, 0, 0, 0],
     [0, 1, 3, 4, 6, 0, 0, 0, 1, 0, 0, 0], [6, 0, 0, 0, 0, 0, 0, 0, 0, 0, 0, 0]]"

lemmas mix_simps = mixHash_def gl_canon_def ScalarGoldilocksPrime_def valueVec_def leafVec_def valueWords_def chunk32_def
  remKey_def laneBits_def zeros4_def ones4_def nodeVec_def upt_rec

lemma branch_nodes: "treeVecs mixHash 0 branch = set branchNodes" "treeRoot mixHash 0 branch = [25856, 272, 816, 70720]"
  by (auto simp: branch_def branchNodes_def mix_simps)

lemma branchNodes_safe: "distinct (map mixHash branchNodes)" "w \<in> set branchNodes \<Longrightarrow> canonical w \<and> mixHash w \<noteq> zeros4"
  by (auto simp: branchNodes_def mix_simps canonical_def)

lemma keyBits_1: "keyBits k ! 1 = bit (k ! 1) 0"
  by (simp add: keyBits_def upt_conv_Cons)

lemma keyBits_0: "keyBits k ! 0 = bit (k ! 0) 0"
  by (simp add: keyBits_def upt_conv_Cons)

lemma branch_wf: "wfTree [] branch" "isNode branch"
proof -
  have "take (Suc (Suc 0)) (keyBits k) = [bit (k ! 0) 0, bit (k ! 1) 0]" for k
    by (simp add: keyBits_def upt_conv_Cons)
  then show "wfTree [] branch" by (simp add: branch_def wfKey_def ScalarGoldilocksPrime_def)
qed (simp add: branch_def)

lemma branch_ready:
  "treeReady tableConfig tableView mixPoseidon mixHash True tableContext (tableStore branchNodes) branch [25856, 272, 816, 70720]"
proof -
  have "wfTree [] branch" by (rule branch_wf)
  moreover note branchNodes_safe
  moreover have "canonical (treeRoot mixHash 0 branch)" by (simp add: branch_nodes canonical_def ScalarGoldilocksPrime_def)
  ultimately show ?thesis using table_ready [of branch branchNodes] branch_nodes by simp
qed

text \<open>A third key, which differs from the other two in the first bit of its path.\<close>

lemma branch_grown:
  "treeSet branch [2, 2, 3, 4] 7 = Node (Leaf [2, 2, 3, 4] 7) (Node (Leaf [1, 2, 3, 4] 5) (Leaf [1, 3, 3, 4] 6))"
  by (simp add: treeSet_def branch_def keyBits_0)

definition grownNodes :: "u64 list list" where
  "grownNodes = [[113, 2, 3, 260, 1616, 17, 51, 4420, 0, 0, 0, 0], [1, 2, 3, 4, 7, 0, 0, 0, 1, 0, 0, 0],
     [7, 0, 0, 0, 0, 0, 0, 0, 0, 0, 0, 0], [80, 1, 3, 260, 96, 1, 3, 260, 0, 0, 0, 0],
     [0, 1, 3, 4, 5, 0, 0, 0, 1, 0, 0, 0], [5, 0, 0, 0, 0, 0, 0, 0, 0, 0, 0, 0],
     [0, 1, 3, 4, 6, 0, 0, 0, 1, 0, 0, 0], [6, 0, 0, 0, 0, 0, 0, 0, 0, 0, 0, 0]]"

lemma grown_nodes:
  "treeVecs mixHash 0 (treeSet branch [2, 2, 3, 4] 7) = set grownNodes"
  "treeRoot mixHash 0 (treeSet branch [2, 2, 3, 4] 7) = [25969, 274, 819, 70980]"
  by (auto simp: branch_grown grownNodes_def mix_simps)

lemma storeView_table_None:
  assumes "mixHash w \<notin> mixHash ` set ws"
  shows "storeView tableConfig tableView tableContext (tableStore ws) (keystr (mixHash w)) = None"
proof -
  have len: "length (mixHash u) = 4" for u by (simp add: mixHash_def)
  have "keystr (mixHash w) \<notin> keystr ` mixHash ` set ws" using assms keystr_inj len by blast
  then show ?thesis by (auto simp: storeView_table map_of_eq_None_iff image_image)
qed

lemma collisionFree_table:
  assumes "distinct (map mixHash ws)" "distinct (map mixHash us)" "\<And>w. w \<in> set ws \<Longrightarrow> canonical w"
    "\<And>u. u \<in> set us \<Longrightarrow> u \<in> set ws \<or> mixHash u \<notin> mixHash ` set ws"
  shows "collisionFree mixHash (storeView tableConfig tableView tableContext (tableStore ws)) (set us)"
proof -
  let ?N = "storeView tableConfig tableView tableContext (tableStore ws)"
  have "?N (keystr (mixHash u)) = None \<or> ?N (keystr (mixHash u)) = Some u" if "u \<in> set us" for u
    using assms(4) [OF that] storeView_table_in [OF _ assms(1), of u] assms(3) [of u] storeView_table_None [of u ws] by blast
  then show ?thesis using assms(2) by (simp add: collisionFree_def distinct_map)
qed

lemma branchNodes_hashes:
  "map mixHash branchNodes = [[25856, 272, 816, 70720], [1616, 17, 51, 4420], [80, 1, 3, 260], [5, 0, 0, 0],
     [96, 1, 3, 260], [6, 0, 0, 0]]"
  by (simp add: branchNodes_def mix_simps)

lemma grownNodes_hashes:
  "map mixHash grownNodes = [[25969, 274, 819, 70980], [113, 2, 3, 260], [7, 0, 0, 0], [1616, 17, 51, 4420],
     [80, 1, 3, 260], [5, 0, 0, 0], [96, 1, 3, 260], [6, 0, 0, 0]]"
  by (simp add: grownNodes_def mix_simps)

lemma hashes_nonzero: "zeros4 \<notin> set (map h ws) \<Longrightarrow> w \<in> set ws \<Longrightarrow> h w \<noteq> zeros4"
  by (auto simp: image_iff)

lemma grownNodes_safe: "distinct (map mixHash grownNodes)" "w \<in> set grownNodes \<Longrightarrow> canonical w \<and> mixHash w \<noteq> zeros4"
proof -
  show "distinct (map mixHash grownNodes)" unfolding grownNodes_hashes by simp
  have "zeros4 \<notin> set (map mixHash grownNodes)" unfolding grownNodes_hashes by (simp add: zeros4_def)
  moreover have "\<forall>w \<in> set grownNodes. canonical w" by (simp add: grownNodes_def canonical_def ScalarGoldilocksPrime_def)
  ultimately show "w \<in> set grownNodes \<Longrightarrow> canonical w \<and> mixHash w \<noteq> zeros4" using hashes_nonzero [of mixHash grownNodes w] by blast
qed

lemma branch_safe:
  "updateSafe mixHash (storeView tableConfig tableView tableContext (tableStore branchNodes)) branch [2, 2, 3, 4] 7"
proof -
  have "mixHash ` set branchNodes = set (map mixHash branchNodes)" by simp
  then have new: "\<forall>u \<in> set grownNodes. u \<in> set branchNodes \<or> mixHash u \<notin> mixHash ` set branchNodes"
    unfolding branchNodes_hashes by (simp add: grownNodes_def) (simp add: branchNodes_def mix_simps)
  have "distinct (map mixHash grownNodes)" "\<forall>w \<in> set grownNodes. mixHash w \<noteq> zeros4"
    using grownNodes_safe by blast+
  then have "hashSafe mixHash (storeView tableConfig tableView tableContext (tableStore branchNodes)) (treeSet branch [2, 2, 3, 4] 7)"
    unfolding hashSafe_def grown_nodes using collisionFree_table [OF branchNodes_safe(1)] branchNodes_safe(2) new by blast
  moreover have "separable [2, 2, 3, 4] [1, 2, 3, 4]" "separable [2, 2, 3, 4] [1, 3, 3, 4]"
    unfolding separable_def by (rule exI [of _ 0]; simp add: keyBits_0)+
  ultimately show ?thesis unfolding updateSafe_def by (simp add: branch_def)
qed

lemma branch_values: "valueOf branch [1, 2, 3, 4] = 5" "valueOf branch [2, 2, 3, 4] = 0"
  by (simp_all add: valueOf_def branch_def contents.simps)

text \<open>The words of the keys and the fields of the context, for the witnesses.\<close>

lemma table_words:
  "cfFr tableConfig = gl_word" "toU64 gl_word 0 = 0" "toU64 gl_word 1 = 1" "toU64 gl_word 2 = 2"
  "toU64 gl_word 3 = 3" "toU64 gl_word 4 = 4"
  "toU64 gl_word 25856 = 25856" "toU64 gl_word 272 = 272" "toU64 gl_word 816 = 816" "toU64 gl_word 70720 = 70720"
  by (simp_all add: tableConfig_def gl_word_def gl_canon_def ScalarGoldilocksPrime_def)

lemma table_context:
  "ctxBatchUUID tableContext = ''u''" "ctxBlock tableContext = 0" "ctxTx tableContext = 0"
  "ctxPersistence tableContext = PERSISTENCE_DATABASE"
  by (simp_all add: tableContext_def smtContext_def)

lemma stored_collisionFree:
  assumes "stored H N V"
  shows "collisionFree H N V"
proof -
  have "w = w'" if "w \<in> V" "w' \<in> V" "H w = H w'" for w w'
    using assms that unfolding stored_def by (metis option.inject)
  then show ?thesis using assms unfolding collisionFree_def stored_def inj_on_def by blast
qed

lemma grows_stored:
  assumes "grows H V N N'" "stored H N V"
  shows "N' = N"
proof
  fix k show "N' k = N k" using assms unfolding grows_def stored_def by metis
qed

text \<open>Going back to a trie whose nodes are still stored is always safe.\<close>

lemma updateSafe_back:
  assumes "treeReady C rv poseidon H on ctx s T root" "treeSet T' k v = T" "v < 2 ^ 256"
    "v \<noteq> 0 \<longrightarrow> (\<forall>k' \<in> dom (contents T'). k' \<noteq> k \<longrightarrow> separable k k')"
  shows "updateSafe H (storeView C rv ctx s) T' k v"
  using assms stored_collisionFree [of H "storeView C rv ctx s" "treeVecs H 0 T"]
  by (simp add: updateSafe_def hashSafe_def treeReady_def holdsTree_def)

lemma treeSet_absent:
  assumes "wfTree [] T" "valueOf T k = 0"
  shows "treeSet T k 0 = T"
proof -
  have "contents T k = None"
    using assms(2) wfTree_contents [OF assms(1)] by (cases "contents T k") (auto simp: valueOf_def)
  then have "contents (treeSet T k 0) = contents T"
    using wfTree_treeDelete [OF assms(1), of k] by (simp add: treeSet_def fun_upd_idem)
  then show ?thesis
    using wfTree_unique_aux [of "[]"] wfTree_treeDelete [OF assms(1), of k] assms(1) by (simp add: treeSet_def)
qed

lemma treeSet_undo:
  assumes T: "wfTree [] T" "wfKey k" and v: "v < 2 ^ 256"
    and sep: "\<forall>k' \<in> dom (contents T). k' \<noteq> k \<longrightarrow> separable k k'"
  shows "treeSet (treeSet T k v) k (valueOf T k) = T"
proof -
  have T': "wfTree [] (treeSet T k v)" "contents (treeSet T k v) = (contents T)(k := if v = 0 then None else Some v)"
    using contents_treeSet [OF T v] sep by blast+
  have old: "valueOf T k < 2 ^ 256" "contents T k = (if valueOf T k = 0 then None else Some (valueOf T k))"
    using wfTree_contents [OF T(1), of k] by (cases "contents T k"; force simp: valueOf_def)+
  have "\<forall>k' \<in> dom (contents (treeSet T k v)). k' \<noteq> k \<longrightarrow> separable k k'"
    using sep by (simp add: T'(2) dom_fun_upd del: fun_upd_apply split: if_splits)
  then have "wfTree [] (treeSet (treeSet T k v) k (valueOf T k))"
    "contents (treeSet (treeSet T k v) k (valueOf T k)) = contents T"
    using contents_treeSet [OF T'(1) T(2) old(1)] old(2) by (auto simp: T'(2) fun_upd_idem)
  then show ?thesis using wfTree_unique_aux [of "[]"] T(1) by blast
qed

lemma grown_ready:
  "treeReady tableConfig tableView mixPoseidon mixHash True tableContext (tableStore grownNodes)
     (treeSet branch [2, 2, 3, 4] 7) [25969, 274, 819, 70980]"
proof -
  have "wfTree [] (treeSet branch [2, 2, 3, 4] 7)"
    by (rule conjunct1 [OF contents_treeSet]) (use branch_ready branch_safe in
      \<open>simp_all add: treeReady_def holdsTree_def updateSafe_def wfKey_def ScalarGoldilocksPrime_def\<close>)
  moreover note grownNodes_safe
  moreover have "canonical (treeRoot mixHash 0 (treeSet branch [2, 2, 3, 4] 7))"
    by (simp add: grown_nodes canonical_def ScalarGoldilocksPrime_def)
  ultimately show ?thesis using table_ready [of "treeSet branch [2, 2, 3, 4] 7" grownNodes] grown_nodes by simp
qed

end
