(* ===== verification/Smt_Props.thy ===== *)
theory Smt_Props
  imports Smt_Ready
begin

text \<open>
  The properties of \<open>Smt::set\<close> and \<open>Smt::get\<close> (src/src/hashdb/smt.cpp) on the state manager and the
  database, each with a witness on the server in memory of Smt_Ready.  \<open>treeReady\<close> says that the stores
  hold a trie under a root, \<open>updateSafe\<close> that an update does not make the hash collide.
\<close>

text \<open>C1: An update through Smt::set of a trie with two entries or more (an intermediate node at its root),
  with multi-write on and an update that is updateSafe (a value below 2^256, a key that differs from the
  other keys within the first 252 bits of the path, no hash collision), never fails and implements the
  update of a finite map: from stores that hold a trie under the old root, it leads to stores that hold the
  trie with the new value under the new root it returns; a value of zero removes the key.  On a trie with at
  most one entry the call is undefined: it runs accKey.pop_back() on an empty vector.\<close>
theorem smtSet_refines_update:
  assumes "treeReady C rv poseidon H on ctx s T root" "length key = 4"
    "updateSafe H (storeView C rv ctx s) T (map (toU64 (cfFr C)) key) value"
  shows "if isNode T
     then \<exists>r t. smtSet (smtModel C on poseidon) (ctxBatchUUID ctx) (ctxBlock ctx) (ctxTx ctx) root key value
              (ctxPersistence ctx) s = (Ret r, t) \<and>
       treeReady C rv poseidon H on ctx t (treeSet T (map (toU64 (cfFr C)) key) value) (srNewRoot r) \<and>
       contents (treeSet T (map (toU64 (cfFr C)) key) value) =
         (contents T)(map (toU64 (cfFr C)) key := if value = 0 then None else Some value)
     else fst (smtSet (smtModel C on poseidon) (ctxBatchUUID ctx) (ctxBlock ctx) (ctxTx ctx) root key value
              (ctxPersistence ctx) s) = Undef"
proof (cases "isNode T")
  case True
  have "contents (treeSet T (map (toU64 (cfFr C)) key) value) =
      (contents T)(map (toU64 (cfFr C)) key := if value = 0 then None else Some value)"
    using contents_treeSet [OF treeReady_wf treeReady_key, OF assms(1) assms(1,2)] assms(3)
    unfolding updateSafe_def by blast
  moreover obtain r t where "smtSet (smtModel C on poseidon) (ctxBatchUUID ctx) (ctxBlock ctx) (ctxTx ctx) root key value
      (ctxPersistence ctx) s = (Ret r, t)"
    "treeReady C rv poseidon H on ctx t (treeSet T (map (toU64 (cfFr C)) key) value) (srNewRoot r)"
    using set_ready [OF assms True] by metis
  ultimately show ?thesis using True by simp
qed (use undefined_ready(2) [OF assms(1,2)] in simp)

theorem smtSet_refines_update_witness:
  "\<exists>r t. smtSet (smtModel tableConfig True mixPoseidon) ''u'' 0 0 [25856, 272, 816, 70720] [2, 2, 3, 4] 7
           PERSISTENCE_DATABASE (tableStore branchNodes) = (Ret r, t) \<and>
     treeReady tableConfig tableView mixPoseidon mixHash True tableContext t
       (treeSet branch [2, 2, 3, 4] 7) (srNewRoot r) \<and>
     contents (treeSet branch [2, 2, 3, 4] 7) = (contents branch)([2, 2, 3, 4] \<mapsto> 7)"
  using smtSet_refines_update [OF branch_ready, of "[2, 2, 3, 4]" 7] branch_safe branch_wf(2)
  by (simp add: table_words table_context)

text \<open>C2: Smt::get on stores that hold a trie with two entries or more (an intermediate node at its root),
  with multi-write on, never fails and returns the value of the key, zero when it is absent, without changing
  what is stored; on a trie with at most one entry it is undefined (accKey.pop_back()).  The siblings it returns are the hashed vectors of the
  nodes on the path of the key, and the path ends as it reports: at no node or at the leaf of the key
  (isOld0), or at the leaf of another key, which it returns with its value.\<close>
theorem smtGet_returns_value:
  assumes "treeReady C rv poseidon H on ctx s T root" "length key = 4"
  shows "if isNode T
     then \<exists>r t. smtGet (smtModel C on poseidon) (ctxBatchUUID ctx) root key s = (Ret r, t) \<and>
       treeReady C rv poseidon H on ctx t T root \<and> storeView C rv ctx t = storeView C rv ctx s \<and>
       grValue r = valueOf T (map (toU64 (cfFr C)) key) \<and>
       (\<exists>ps e. T = plug ps e \<and> map fst ps = take (length ps) (keyBits (map (toU64 (cfFr C)) key)) \<and>
          map (map (toU64 (cfFr C))) (grSiblings r) = pathVecs H 0 ps e \<and>
          (if grIsOld0 r then e = Empty \<or> (\<exists>v. e = Leaf (map (toU64 (cfFr C)) key) v)
           else e = Leaf (map (toU64 (cfFr C)) (grInsKey r)) (grInsValue r) \<and>
                map (toU64 (cfFr C)) (grInsKey r) \<noteq> map (toU64 (cfFr C)) key))
     else fst (smtGet (smtModel C on poseidon) (ctxBatchUUID ctx) root key s) = Undef"
proof (cases "isNode T")
  case True
  show ?thesis unfolding if_P [OF True] by (rule get_ready [OF assms True]) blast
qed (use undefined_ready(1) [OF assms] in simp)

theorem smtGet_returns_value_witness:
  "\<exists>r t. smtGet (smtModel tableConfig True mixPoseidon) ''u'' [25856, 272, 816, 70720] [1, 2, 3, 4] (tableStore branchNodes)
           = (Ret r, t) \<and> grValue r = 5"
  using smtGet_returns_value [OF branch_ready, of "[1, 2, 3, 4]"] branch_wf(2) branch_values
  by (auto simp: table_words table_context)

text \<open>C3: What a set writes, the gets after it find: under the new root the key has the new value and
  every other key the value it had before.  Multi-write is on, the update is updateSafe, and the trie has
  two entries or more before and after it (below that the two calls are undefined).\<close>
theorem smtGet_after_smtSet:
  assumes "treeReady C rv poseidon H on ctx s T root" "length key = 4" "length key' = 4"
    "updateSafe H (storeView C rv ctx s) T (map (toU64 (cfFr C)) key) value"
    "isNode T" "isNode (treeSet T (map (toU64 (cfFr C)) key) value)"
  shows "\<exists>r t g u. smtSet (smtModel C on poseidon) (ctxBatchUUID ctx) (ctxBlock ctx) (ctxTx ctx) root key value
              (ctxPersistence ctx) s = (Ret r, t) \<and>
       smtGet (smtModel C on poseidon) (ctxBatchUUID ctx) (srNewRoot r) key' t = (Ret g, u) \<and>
       grValue g = (if map (toU64 (cfFr C)) key' = map (toU64 (cfFr C)) key then value
                    else valueOf T (map (toU64 (cfFr C)) key'))"
proof -
  obtain r t where t: "smtSet (smtModel C on poseidon) (ctxBatchUUID ctx) (ctxBlock ctx) (ctxTx ctx) root key value
      (ctxPersistence ctx) s = (Ret r, t)"
    "treeReady C rv poseidon H on ctx t (treeSet T (map (toU64 (cfFr C)) key) value) (srNewRoot r)"
    using set_ready [OF assms(1,2,4,5)] by metis
  obtain g u where "smtGet (smtModel C on poseidon) (ctxBatchUUID ctx) (srNewRoot r) key' t = (Ret g, u)"
    "grValue g = valueOf (treeSet T (map (toU64 (cfFr C)) key) value) (map (toU64 (cfFr C)) key')"
    using get_ready [OF t(2) assms(3,6)] by metis
  moreover have "valueOf (treeSet T (map (toU64 (cfFr C)) key) value) (map (toU64 (cfFr C)) key') =
      (if map (toU64 (cfFr C)) key' = map (toU64 (cfFr C)) key then value else valueOf T (map (toU64 (cfFr C)) key'))"
    using assms(4) unfolding updateSafe_def
    by (intro valueOf_treeSet treeReady_wf [OF assms(1)] treeReady_key [OF assms(1,2)]) blast+
  ultimately show ?thesis using t(1) by metis
qed

theorem smtGet_after_smtSet_witness:
  "\<exists>r t g u. smtSet (smtModel tableConfig True mixPoseidon) ''u'' 0 0 [25856, 272, 816, 70720] [2, 2, 3, 4] 7
           PERSISTENCE_DATABASE (tableStore branchNodes) = (Ret r, t) \<and>
     smtGet (smtModel tableConfig True mixPoseidon) ''u'' (srNewRoot r) [1, 2, 3, 4] t = (Ret g, u) \<and> grValue g = 5"
  using smtGet_after_smtSet [OF branch_ready, of "[2, 2, 3, 4]" "[1, 2, 3, 4]" 7] branch_safe branch_wf(2) branch_values
    isNode_treeSet [of branch 7 "[2, 2, 3, 4]"]
  by (simp add: table_words table_context)

text \<open>C23: An update does not disturb the other tries the stores hold: a root of the past, or of another
  tree, is still readable after it, with the same values.  Multi-write is on, the update is updateSafe, and
  both tries have two entries or more.\<close>
theorem smtSet_keeps_other_roots:
  assumes "treeReady C rv poseidon H on ctx s T root" "length key = 4" "length key' = 4"
    "updateSafe H (storeView C rv ctx s) T (map (toU64 (cfFr C)) key) value"
    "treeReady C rv poseidon H on ctx s T' root'" "isNode T" "isNode T'"
  shows "\<exists>r t g u. smtSet (smtModel C on poseidon) (ctxBatchUUID ctx) (ctxBlock ctx) (ctxTx ctx) root key value
              (ctxPersistence ctx) s = (Ret r, t) \<and> treeReady C rv poseidon H on ctx t T' root' \<and>
       smtGet (smtModel C on poseidon) (ctxBatchUUID ctx) root' key' t = (Ret g, u) \<and>
       grValue g = valueOf T' (map (toU64 (cfFr C)) key')"
proof -
  obtain r t where t: "smtSet (smtModel C on poseidon) (ctxBatchUUID ctx) (ctxBlock ctx) (ctxTx ctx) root key value
      (ctxPersistence ctx) s = (Ret r, t)" "storeView C rv ctx s \<subseteq>\<^sub>m storeView C rv ctx t"
    "treeReady C rv poseidon H on ctx t (treeSet T (map (toU64 (cfFr C)) key) value) (srNewRoot r)"
    using set_ready [OF assms(1,2,4,6)] by metis
  have T': "treeReady C rv poseidon H on ctx t T' root'"
    using treeReady_mono [OF assms(5) _ t(2)] t(3) by (simp add: treeReady_def)
  show ?thesis using t(1) T' get_ready [OF T' assms(3,7)] by metis
qed

theorem smtSet_keeps_other_roots_witness:
  "\<exists>r t g u. smtSet (smtModel tableConfig True mixPoseidon) ''u'' 0 0 [25856, 272, 816, 70720] [2, 2, 3, 4] 7
           PERSISTENCE_DATABASE (tableStore branchNodes) = (Ret r, t) \<and>
     smtGet (smtModel tableConfig True mixPoseidon) ''u'' [25856, 272, 816, 70720] [2, 2, 3, 4] t = (Ret g, u) \<and> grValue g = 0"
  using smtSet_keeps_other_roots [OF branch_ready, of "[2, 2, 3, 4]" "[2, 2, 3, 4]" 7, OF _ _ _ branch_ready] branch_safe branch_wf(2)
    branch_values
  by (auto simp: table_words table_context)

text \<open>C10: The root is a function of the contents: whatever the order of the updates, the store and the
  transaction that led to them, the root that a successful, updateSafe update with multi-write on returns is
  the root under which any stores hold a trie with the same keys and values.\<close>
theorem smtSet_root_canonical:
  assumes "treeReady C rv poseidon H on ctx s T root" "length key = 4"
    "updateSafe H (storeView C rv ctx s) T (map (toU64 (cfFr C)) key) value"
    "smtSet (smtModel C on poseidon) (ctxBatchUUID ctx) (ctxBlock ctx) (ctxTx ctx) root key value
       (ctxPersistence ctx) s = (Ret r, t)"
    "treeReady C' rv' poseidon' H on' ctx' s' T' root'"
    "contents T' = (contents T)(map (toU64 (cfFr C)) key := if value = 0 then None else Some value)"
  shows "map (toU64 (cfFr C)) (srNewRoot r) = map (toU64 (cfFr C')) root'"
proof -
  have node: "isNode T" using undefined_ready(2) [OF assms(1,2), of "value"] assms(4) by (cases "isNode T") auto
  have "treeReady C rv poseidon H on ctx t (treeSet T (map (toU64 (cfFr C)) key) value) (srNewRoot r)"
    using set_ready [OF assms(1-3) node] assms(4) by (metis outcome.inject(1) prod.inject)
  moreover have "contents (treeSet T (map (toU64 (cfFr C)) key) value) = contents T'"
    using contents_treeSet [OF treeReady_wf treeReady_key, OF assms(1) assms(1,2)] assms(3,6)
    unfolding updateSafe_def by metis
  ultimately show ?thesis
    using wfTree_unique_aux [OF treeReady_wf treeReady_wf] assms(5) treeReady_root by metis
qed

theorem smtSet_root_canonical_witness:
  "\<exists>r t. smtSet (smtModel tableConfig True mixPoseidon) ''u'' 0 0 [25856, 272, 816, 70720] [2, 2, 3, 4] 7
           PERSISTENCE_DATABASE (tableStore branchNodes) = (Ret r, t) \<and>
     map (toU64 gl_word) (srNewRoot r) = map (toU64 gl_word) [25969, 274, 819, 70980]"
proof -
  have k: "map (toU64 (cfFr tableConfig)) [2, 2, 3, 4] = [2, 2, 3, 4]" by (simp add: table_words)
  obtain r t where t: "smtSet (smtModel tableConfig True mixPoseidon) (ctxBatchUUID tableContext) (ctxBlock tableContext)
      (ctxTx tableContext) [25856, 272, 816, 70720] [2, 2, 3, 4] 7 (ctxPersistence tableContext) (tableStore branchNodes) = (Ret r, t)"
    by (rule set_ready [OF branch_ready, of "[2, 2, 3, 4]" 7, unfolded k, OF _ branch_safe branch_wf(2)]) (simp, blast)
  have "contents (treeSet branch [2, 2, 3, 4] 7) = (contents branch)([2, 2, 3, 4] \<mapsto> 7)"
    using contents_treeSet [OF branch_wf(1), of "[2, 2, 3, 4]" 7] branch_safe
    by (simp add: updateSafe_def wfKey_def ScalarGoldilocksPrime_def)
  then show ?thesis
    using smtSet_root_canonical [OF branch_ready _ _ t grown_ready] branch_safe k t by (simp add: table_words table_context)
qed

text \<open>C28: What an updateSafe update of a trie with two entries or more reports, with multi-write on: the root and key it was given, the new value, the value the key had
  before, and the mode that fits the case: zeroToZero, deleteFound or deleteNotFound, update,
  insertNotFound or insertFound.\<close>
theorem smtSet_reports:
  assumes "treeReady C rv poseidon H on ctx s T root" "length key = 4"
    "updateSafe H (storeView C rv ctx s) T (map (toU64 (cfFr C)) key) value" "isNode T"
  shows "\<exists>r t e. smtSet (smtModel C on poseidon) (ctxBatchUUID ctx) (ctxBlock ctx) (ctxTx ctx) root key value
              (ctxPersistence ctx) s = (Ret r, t) \<and>
       srOldRoot r = root \<and> srKey r = key \<and> srNewValue r = value \<and>
       srOldValue r = valueOf T (map (toU64 (cfFr C)) key) \<and>
       srMode r \<in> modeOf T e (map (toU64 (cfFr C)) key) value"
  by (rule set_ready [OF assms]) blast

theorem smtSet_reports_witness:
  "\<exists>r t. smtSet (smtModel tableConfig True mixPoseidon) ''u'' 0 0 [25856, 272, 816, 70720] [2, 2, 3, 4] 7
           PERSISTENCE_DATABASE (tableStore branchNodes) = (Ret r, t) \<and>
     srOldValue r = 0 \<and> srMode r \<in> {''insertFound'', ''insertNotFound''}"
  using smtSet_reports [OF branch_ready, of "[2, 2, 3, 4]" 7] branch_safe branch_wf(2) branch_values
  by (fastforce simp: table_words table_context modeOf_def split: if_splits)

text \<open>Setting an absent key to zero (zeroToZero) changes neither the root nor what is stored.\<close>
theorem smtSet_absent_zero:
  assumes "treeReady C rv poseidon H on ctx s T root" "length key = 4"
    "valueOf T (map (toU64 (cfFr C)) key) = 0" "isNode T"
  shows "\<exists>r t. smtSet (smtModel C on poseidon) (ctxBatchUUID ctx) (ctxBlock ctx) (ctxTx ctx) root key 0
              (ctxPersistence ctx) s = (Ret r, t) \<and>
       map (toU64 (cfFr C)) (srNewRoot r) = map (toU64 (cfFr C)) root \<and>
       storeView C rv ctx t = storeView C rv ctx s \<and> srMode r = ''zeroToZero''"
proof -
  have T: "treeSet T (map (toU64 (cfFr C)) key) 0 = T" by (rule treeSet_absent [OF treeReady_wf [OF assms(1)] assms(3)])
  have "updateSafe H (storeView C rv ctx s) T (map (toU64 (cfFr C)) key) 0"
    using updateSafe_back [OF assms(1) T] by simp
  then obtain r t e where t: "smtSet (smtModel C on poseidon) (ctxBatchUUID ctx) (ctxBlock ctx) (ctxTx ctx) root key 0
      (ctxPersistence ctx) s = (Ret r, t)" "treeReady C rv poseidon H on ctx t T (srNewRoot r)"
      "grows H (treeVecs H 0 T) (storeView C rv ctx s) (storeView C rv ctx t)"
      "srMode r \<in> modeOf T e (map (toU64 (cfFr C)) key) 0"
    using set_ready [OF assms(1,2) _ assms(4)] T by metis
  moreover have "storeView C rv ctx t = storeView C rv ctx s"
    using grows_stored [OF t(3)] assms(1) by (simp add: treeReady_def holdsTree_def)
  ultimately show ?thesis
    using treeReady_root [OF assms(1)] treeReady_root [OF t(2)] assms(3) by (auto simp: modeOf_def)
qed

theorem smtSet_absent_zero_witness:
  "\<exists>r t. smtSet (smtModel tableConfig True mixPoseidon) ''u'' 0 0 [25856, 272, 816, 70720] [2, 2, 3, 4] 0
           PERSISTENCE_DATABASE (tableStore branchNodes) = (Ret r, t) \<and>
     map (toU64 gl_word) (srNewRoot r) = [25856, 272, 816, 70720]"
  using smtSet_absent_zero [OF branch_ready, of "[2, 2, 3, 4]"] branch_wf(2) branch_values
  by (auto simp: table_words table_context)

text \<open>C29: An updateSafe update with a value other than zero, of a trie with two entries or more and with
  multi-write on, is undone by setting the key back to the value it had (zero when it was absent): the second
  update returns the root the first one started from.\<close>
theorem smtSet_undo:
  assumes "treeReady C rv poseidon H on ctx s T root" "length key = 4"
    "updateSafe H (storeView C rv ctx s) T (map (toU64 (cfFr C)) key) value" "value \<noteq> 0" "isNode T"
  shows "\<exists>r t r' t'. smtSet (smtModel C on poseidon) (ctxBatchUUID ctx) (ctxBlock ctx) (ctxTx ctx) root key value
              (ctxPersistence ctx) s = (Ret r, t) \<and>
       smtSet (smtModel C on poseidon) (ctxBatchUUID ctx) (ctxBlock ctx) (ctxTx ctx) (srNewRoot r) key (srOldValue r)
              (ctxPersistence ctx) t = (Ret r', t') \<and>
       map (toU64 (cfFr C)) (srNewRoot r') = map (toU64 (cfFr C)) root"
proof -
  let ?k = "map (toU64 (cfFr C)) key" and ?T' = "treeSet T (map (toU64 (cfFr C)) key) value"
  note wf = treeReady_wf [OF assms(1)] and wk = treeReady_key [OF assms(1,2)]
  have safe: "value < 2 ^ 256" "\<forall>k' \<in> dom (contents T). k' \<noteq> ?k \<longrightarrow> separable ?k k'"
    using assms(3,4) by (simp_all add: updateSafe_def)
  obtain r t where t: "smtSet (smtModel C on poseidon) (ctxBatchUUID ctx) (ctxBlock ctx) (ctxTx ctx) root key value
      (ctxPersistence ctx) s = (Ret r, t)" "storeView C rv ctx s \<subseteq>\<^sub>m storeView C rv ctx t"
    "treeReady C rv poseidon H on ctx t ?T' (srNewRoot r)" "srOldValue r = valueOf T ?k"
    using set_ready [OF assms(1-3,5)] by metis
  have undo: "treeSet ?T' ?k (valueOf T ?k) = T" by (rule treeSet_undo [OF wf wk safe])
  have "treeReady C rv poseidon H on ctx t T root"
    using treeReady_mono [OF assms(1) _ t(2)] t(3) by (simp add: treeReady_def)
  moreover have "valueOf T ?k < 2 ^ 256"
    using wfTree_contents [OF wf, of ?k] by (cases "contents T ?k") (auto simp: valueOf_def)
  moreover have "\<forall>k' \<in> dom (contents ?T'). k' \<noteq> ?k \<longrightarrow> separable ?k k'"
    using contents_treeSet [OF wf wk safe(1)] safe(2) by (simp add: dom_fun_upd del: fun_upd_apply)
  ultimately have "updateSafe H (storeView C rv ctx t) ?T' ?k (valueOf T ?k)"
    using updateSafe_back [OF _ undo] by blast
  then obtain r' t' where t': "smtSet (smtModel C on poseidon) (ctxBatchUUID ctx) (ctxBlock ctx) (ctxTx ctx)
      (srNewRoot r) key (valueOf T ?k) (ctxPersistence ctx) t = (Ret r', t')"
    "treeReady C rv poseidon H on ctx t' T (srNewRoot r')"
    using set_ready [OF t(3) assms(2) _ isNode_treeSet [OF assms(5,4)]] undo by metis
  show ?thesis
    using t(1,4) t'(1) treeReady_root [OF t'(2)] treeReady_root [OF assms(1)] by (intro exI conjI) auto
qed

theorem smtSet_undo_witness:
  "\<exists>r t r' t'. smtSet (smtModel tableConfig True mixPoseidon) ''u'' 0 0 [25856, 272, 816, 70720] [2, 2, 3, 4] 7
           PERSISTENCE_DATABASE (tableStore branchNodes) = (Ret r, t) \<and>
     smtSet (smtModel tableConfig True mixPoseidon) ''u'' 0 0 (srNewRoot r) [2, 2, 3, 4] (srOldValue r)
           PERSISTENCE_DATABASE t = (Ret r', t') \<and>
     map (toU64 gl_word) (srNewRoot r') = [25856, 272, 816, 70720]"
  using smtSet_undo [OF branch_ready, of "[2, 2, 3, 4]" 7] branch_safe branch_wf(2)
  by (simp add: table_words table_context)

end
