(* ===== verification/State_Props.thy ===== *)
theory State_Props
  imports State_Nodes
begin

text \<open>
  The properties of the state manager (src/src/hashdb/state_manager.cpp).  The witnesses run it with a
  database that does nothing (\<open>noDb\<close>).
\<close>

section \<open>Sequences of calls\<close>

definition runCalls :: "bool \<Rightarrow> ('d, 'e) flush_db \<Rightarrow> 'e sm_call list \<Rightarrow> ('e sm_state \<times> 'd, unit) prog" where
  "runCalls purge B cs = foldP (\<lambda>c _. runCall purge B c) cs ()"

lemma runCalls_Cons: "runCalls purge B (c # cs) = bindP (runCall purge B c) (\<lambda>_. runCalls purge B cs)"
  by (simp add: runCalls_def)

lemma runCalls_nodes:
  "runCalls purge B cs (s, d) = (Ret (), t, d') \<Longrightarrow> smNodes t = fold specCall cs (smNodes s)"
proof (induction cs arbitrary: s d)
  case Nil
  then show ?case by (simp add: runCalls_def retP_def)
next
  case (Cons c cs)
  obtain r s1 d1 where c: "runCall purge B c (s, d) = (r, s1, d1)" by (metis prod_cases3)
  with Cons.prems have "r = Ret ()" "runCalls purge B cs (s1, d1) = (Ret (), t, d')"
    by (auto simp: runCalls_Cons bindP_def split: outcome.splits)
  then show ?case using Cons.IH runCall_nodes c by (metis fold_simps(2))
qed

fun callBatch :: "'e sm_call \<Rightarrow> string" where
  "callBatch (SetOldStateRoot u block tx r p) = u"
| "callBatch (SetNewStateRoot u block tx r p) = u"
| "callBatch (WriteNode u block tx k v p) = u"
| "callBatch (DeleteNode u block tx k p) = u"
| "callBatch (WriteProgram u block tx k v p) = u"
| "callBatch (FinishTx u r p) = u"
| "callBatch (StartBlock u r p) = u"
| "callBatch (FinishBlock u r p) = u"
| "callBatch (Flush u r p) = u"
| "callBatch (CancelBatch u) = u"

lemma keeps_atBatch_other: "u' \<noteq> u \<Longrightarrow> keeps (\<lambda>s. s u' = x) (atBatch u e m)"
  by (rule keepsI) (simp add: atBatch_def zoomP_def split_beta split: option.split)

lemma keeps_onBatch_other: "u' \<noteq> u \<Longrightarrow> keeps (\<lambda>s. s u' = x) (onBatch u m)"
  using keeps_atBatch_other [of u' u x ZKR_STATE_MANAGER m] by (auto simp: keeps_def onBatch_def)

lemma keeps_createBatch_other: "u' \<noteq> u \<Longrightarrow> keeps (\<lambda>s. s u' = x) (createBatch u)"
  by (rule keepsI) (simp add: createBatch_def modifyP_def)

lemmas keeps_other = keeps_same keeps_bindP keeps_if keeps_atBatch_other keeps_onBatch_other keeps_createBatch_other

lemma keeps_calls_other:
  assumes "u' \<noteq> u"
  shows "keeps (\<lambda>s. s u' = x) (setStateRoot u block tx r isOld p)"
    "keeps (\<lambda>s. s u' = x) (writeNode u block tx k v p)" "keeps (\<lambda>s. s u' = x) (deleteNode u block tx k p)"
    "keeps (\<lambda>s. s u' = x) (writeProgram u block tx k w p)" "keeps (\<lambda>s. s u' = x) (finishTx purge u r p)"
    "keeps (\<lambda>s. s u' = x) (startBlock u r p)" "keeps (\<lambda>s. s u' = x) (finishBlock purge u r p)"
    "keeps (\<lambda>s. s u' = x) (cancelBatch u)"
  unfolding setStateRoot_def writeNode_def deleteNode_def writeProgram_def finishTx_def startBlock_def finishBlock_def
  by ((intro keeps_other assms; simp add: assms)+) (simp add: keeps_def cancelBatch_def assms)

lemma flush_other:
  assumes "flush purge B u r p (s, d) = (x, t, d')" "u' \<noteq> u"
  shows "t u' = s u'"
  using assms by (auto simp: flush_def bindP_def liftP_def split: outcome.splits prod.splits sum.splits option.splits)

lemma runCall_other:
  assumes "runCall purge B c (s, d) = (r, t, d')" "u \<noteq> callBatch c"
  shows "t u = s u"
proof (cases c)
  case (Flush v r p)
  then show ?thesis using assms flush_other [of purge B v r p s d _ t d' u]
    by (auto simp: bindP_def retP_def split: outcome.splits prod.splits)
qed (use assms keepsD [OF keeps_calls_other(1), where s = s] keepsD [OF keeps_calls_other(2), where s = s]
       keepsD [OF keeps_calls_other(3), where s = s] keepsD [OF keeps_calls_other(4), where s = s]
       keepsD [OF keeps_calls_other(5), where s = s] keepsD [OF keeps_calls_other(6), where s = s]
       keepsD [OF keeps_calls_other(7), where s = s] keepsD [OF keeps_calls_other(8), where s = s]
     in \<open>auto simp: liftFst_run setOldStateRoot_def setNewStateRoot_def\<close>)

lemma reachable_runCalls:
  assumes "sm_reachable purge B s"
  shows "sm_reachable purge B (snd (runCalls purge B cs s))"
  using assms
proof (induction cs arbitrary: s)
  case Nil
  then show ?case by (simp add: runCalls_def retP_def)
next
  case (Cons c cs)
  obtain r t where t: "runCall purge B c s = (r, t)" by (cases "runCall purge B c s")
  then have "sm_reachable purge B t" using sm_reachable.call [OF Cons.prems] by blast
  then show ?case using Cons.IH [of t] t by (cases r) (simp_all add: runCalls_Cons bindP_def)
qed

text \<open>A database that does nothing, and an update of the tree in the first transaction of a batch.\<close>

definition noDb :: "(unit, u64) flush_db" where
  "noDb = \<lparr>fd_purge = True, fd_fr = gl_word, fd_order = (\<lambda>ks. ks), fd_setProgram = (\<lambda>_ _ _. retP ()),
     fd_write = (\<lambda>_ _ _. retP ()), fd_updateStateRoot = (\<lambda>_. retP ()), fd_flush = retP None\<rparr>"

definition oneUpdate :: "u64 sm_call list" where
  "oneUpdate = [SetOldStateRoot ''u'' 0 0 (keystr [1, 2, 3, 4]) 1, WriteNode ''u'' 0 0 (keystr [5, 6, 7, 8]) [9] 1]"

lemma oneUpdate_run:
  "\<exists>s. runCalls True noDb oneUpdate (\<lambda>_. None, ()) = (Ret (), s, ()) \<and> openAt ''u'' 0 0 1 s \<and>
       sm_reachable True noDb (s, ())"
proof -
  have "readyAt ''u'' 0 0 1 ((\<lambda>_. None) :: u64 sm_state)"
    by (simp add: readyAt_def wfState_def persistenceAt_def blockAt_def)
  then obtain s1 where s1: "setOldStateRoot ''u'' 0 0 (keystr [1, 2, 3, 4]) 1 (\<lambda>_. None) = (Ret (), s1 :: u64 sm_state)"
    "openAt ''u'' 0 0 1 s1"
    using setOldStateRoot_ready [of "''u''" 0 0 1 "\<lambda>_. None" "[1, 2, 3, 4]"] by auto
  then obtain s2 where s2: "writeNode ''u'' 0 0 (keystr [5, 6, 7, 8]) [9] 1 s1 = (Ret (), s2)" "openAt ''u'' 0 0 1 s2"
    using writeNode_open [of "''u''" 0 0 1 s1 "[5, 6, 7, 8]"] by auto
  have run: "runCalls True noDb oneUpdate (\<lambda>_. None, ()) = (Ret (), s2, ())"
    using s1(1) s2(1) by (simp add: runCalls_def oneUpdate_def bindP_def liftFst_run retP_def)
  then show ?thesis
    using s2(2) reachable_runCalls [OF sm_reachable.init [of True noDb "()"], of oneUpdate] by simp
qed

section \<open>A sub-state is closed once\<close>

lemma atP_Ret:
  assumes "atP get put i m s = (Ret x, t)"
  shows "i < length (get s) \<and> (\<exists>y. m (get s ! i) = (Ret x, y) \<and> t = put ((get s)[i := y]) s)"
  using assms by (auto simp: atP_def zoomP_def split: if_splits prod.splits)

lemma createTxs_new: "createTxs tx False bl = (if tx < length (blTxState bl) then Ret () else Fail ZKR_STATE_MANAGER, bl)"
  by (simp add: createTxs_def Let_def)

definition closeBlock :: "nat \<Rightarrow> string \<Rightarrow> nat \<Rightarrow> ('e BlockState, unit) prog" where
  "closeBlock tx r p = bindP (modifyP (blockRoot r False p)) (\<lambda>_. bindP (createTxs tx False) (\<lambda>_.
     atTx tx (atPersistence p (closeSubState r))))"

lemma closeBlock_twice:
  assumes "closeBlock tx r p bl = (Ret (), bl')" "r \<noteq> []"
  shows "\<exists>bl''. closeBlock tx r' p bl' = (Fail ZKR_STATE_MANAGER, bl'')"
proof -
  have tx: "tx < length (blTxState bl)" "atTx tx (atPersistence p (closeSubState r)) (blockRoot r False p bl) = (Ret (), bl')"
    using assms(1) by (auto simp: closeBlock_def bindP_def modifyP_def createTxs_new split: if_splits)
  from atP_Ret [OF tx(2) [unfolded atTx_def]] obtain y where
    y: "atPersistence p (closeSubState r) (blTxState (blockRoot r False p bl) ! tx) = (Ret (), y)"
       "bl' = (blockRoot r False p bl)\<lparr>blTxState := (blTxState (blockRoot r False p bl))[tx := y]\<rparr>" by auto
  from atP_Ret [OF y(1) [unfolded atPersistence_def]] obtain q q' where
    q: "p < length (txPersistence y)" "closeSubState r q = (Ret (), q')" "txPersistence y ! p = q'" by auto
  have "\<exists>q''. closeSubState r' q' = (Fail ZKR_STATE_MANAGER, q'')"
    using q(2) assms(2) by (auto simp: closeSubState_def Let_def split: if_splits)
  then show ?thesis using q tx(1) y(2)
    by (auto simp: closeBlock_def bindP_def modifyP_def createTxs_new atTx_def atPersistence_def atP_def zoomP_def)
qed

lemma setNewStateRoot_close:
  "setNewStateRoot u block tx root p =
     bindP (normalKey root) (\<lambda>r. bindP (guardP (p < PERSISTENCE_SIZE) ZKR_STATE_MANAGER) (\<lambda>_. bindP (retP ()) (\<lambda>_.
       atBatch u ZKR_STATE_MANAGER (bindP (modifyP (batchRoot block r False p)) (\<lambda>_. atBlock block (closeBlock tx r p))))))"
  by (simp add: setNewStateRoot_def setStateRoot_def closeBlock_def)

lemma batchRoot_again:
  "block < length (btBlockState b) \<Longrightarrow> btBlockState (batchRoot block r isOld p b) = btBlockState b"
  by (simp add: batchRoot_def Let_def)

lemma setNewStateRoot_twice:
  assumes "setNewStateRoot u block tx r p s = (Ret (), t)" "length (Remove0xIfPresent r') \<le> 64"
  shows "\<exists>t'. setNewStateRoot u block tx r' p t = (Fail ZKR_STATE_MANAGER, t')"
proof -
  have r: "length (Remove0xIfPresent r) \<le> 64" "p < PERSISTENCE_SIZE"
    using assms(1) by (auto simp: setNewStateRoot_close bindP_def normalKey_run guardP_def failP_def split: if_splits)
  have "length (normalised r) = 64" using r(1) by (simp add: normalised_def Let_def stringToLower_def)
  then have n: "normalised r \<noteq> []" by auto
  obtain b where b: "s u = Some b" using assms(1) r
    by (auto simp: setNewStateRoot_close bindP_def normalKey_run guardP_def retP_def atBatch_def split: option.splits)
  let ?b = "batchRoot block (normalised r) False p b"
  have "atBatch u ZKR_STATE_MANAGER (bindP (modifyP (batchRoot block (normalised r) False p))
      (\<lambda>_. atBlock block (closeBlock tx (normalised r) p))) s = (Ret (), t)"
    using assms(1) r by (simp add: setNewStateRoot_close bindP_def normalKey_run guardP_def retP_def)
  then obtain b' where b': "atBlock block (closeBlock tx (normalised r) p) ?b = (Ret (), b')" "t = s(u \<mapsto> b')"
    using b by (auto simp: atBatch_def zoomP_def bindP_def modifyP_def split: prod.splits)
  from atP_Ret [OF b'(1) [unfolded atBlock_def]] obtain y where
    y: "block < length (btBlockState ?b)" "closeBlock tx (normalised r) p (btBlockState ?b ! block) = (Ret (), y)"
       "b' = ?b\<lparr>btBlockState := (btBlockState ?b)[block := y]\<rparr>" by auto
  obtain y' where y': "closeBlock tx (normalised r') p y = (Fail ZKR_STATE_MANAGER, y')"
    using closeBlock_twice [OF y(2) n] by blast
  have "block < length (btBlockState b')" "btBlockState b' ! block = y" using y by simp_all
  then have "fst (atBlock block (closeBlock tx (normalised r') p) (batchRoot block (normalised r') False p b')) = Fail ZKR_STATE_MANAGER"
    using y' batchRoot_again [of block b'] by (simp add: atBlock_def atP_run)
  then show ?thesis
    using assms(2) r(2) b'(2)
    by (simp add: setNewStateRoot_close bindP_def normalKey_run guardP_def retP_def atBatch_def zoomP_def modifyP_def split_beta)
qed

section \<open>Properties\<close>

text \<open>C6: Whatever calls the state manager gets, in any order and with any arguments, its state stays well
  formed: the current sub-state of every transaction exists, a sub-state comes from an earlier one, every
  transaction has its four kinds of persistence, and no key occurs twice in a map.\<close>
theorem stateManager_invariant:
  "sm_reachable purge B (s, d) \<Longrightarrow> wfState s"
  using reachable_wf by fastforce

theorem stateManager_invariant_witness:
  "\<exists>s :: u64 sm_state. openAt ''u'' 0 0 1 s \<and> wfState s"
proof -
  obtain s :: "u64 sm_state" where s: "openAt ''u'' 0 0 1 s" "sm_reachable True noDb (s, ())"
    using oneUpdate_run by blast
  then show ?thesis using stateManager_invariant [OF s(2)] by blast
qed

text \<open>C7: On every state that calls can reach, the loop of flush that looks for the valid sub-states of a
  transaction ends, and it marks a chain of sub-states from the current one down to one that starts at the
  old root of the transaction, each ending where the next one starts; or it reports ZKR_STATE_MANAGER.
  The data of the sub-states stays as it was.\<close>
theorem flush_finds_chain:
  assumes "sm_reachable purge B (s, d)" "s u = Some b" "bl \<in> set (btBlockState b)" "x \<in> set (blTxState bl)"
    "q \<in> set (txPersistence x)" "tpSubState q \<noteq> []"
  shows "\<exists>r q'. findValid (tpCurrentSubState q) q = Some (r, q') \<and> sameData q q' \<and>
    (r = Fail ZKR_STATE_MANAGER \<or>
     r = Ret () \<and> (\<exists>cs. State_Inv.chain q (tpCurrentSubState q # cs) \<and>
                        validSet q' = validSet q \<union> set (tpCurrentSubState q # cs)))"
proof -
  have "wfPersistence q"
    using reachable_wf [OF assms(1)] assms(2-5)
    by (auto simp: wfState_def wfBatch_def wfBlock_def wfTx_def ran_def)
  then have "\<forall>i < length (tpSubState q). wfSubState i (tpSubState q ! i)" "tpCurrentSubState q < length (tpSubState q)"
    using assms(6) by (simp_all add: wfPersistence_def)
  then show ?thesis by (rule findValid_run)
qed

theorem flush_finds_chain_witness:
  "\<exists>q r q'. tpSubState (q :: u64 TxPersistenceState) \<noteq> [] \<and> findValid (tpCurrentSubState q) q = Some (r, q')"
proof -
  obtain s :: "u64 sm_state" where s: "openAt ''u'' 0 0 1 s" "sm_reachable True noDb (s, ())"
    using oneUpdate_run by blast
  obtain b where b: "s ''u'' = Some b" "0 < length (btBlockState b)" "0 < length (blTxState (btBlockState b ! 0))"
    "1 < length (txPersistence (blTxState (btBlockState b ! 0) ! 0))"
    "isOpen (txPersistence (blTxState (btBlockState b ! 0) ! 0) ! 1)"
    by (rule openAt_parts [OF s(1)]) auto
  then have "tpSubState (txPersistence (blTxState (btBlockState b ! 0) ! 0) ! 1) \<noteq> []" by (simp add: isOpen_def)
  then show ?thesis
    using flush_finds_chain [OF s(2) b(1) nth_mem [OF b(2)] nth_mem [OF b(3)] nth_mem [OF b(4)]] by blast
qed

text \<open>C4: The state manager implements one finite map of nodes per batch: after any sequence of successful
  calls, reading a key of a batch gives the node last written under it since the batch was last flushed or
  cancelled, whatever blocks, transactions and persistences were used, or ZKR_DB_KEY_NOT_FOUND.\<close>
theorem stateManager_refines_map:
  assumes "runCalls purge B cs (s, d) = (Ret (), t, d')" "length (Remove0xIfPresent k) \<le> 64"
  shows "readNode u k t =
    (case fold specCall cs (smNodes s) u (normalised k) of
       Some v \<Rightarrow> (Ret v, t) | None \<Rightarrow> (Fail ZKR_DB_KEY_NOT_FOUND, t))"
  unfolding readNode_run [OF assms(2)] runCalls_nodes [OF assms(1)] ..

theorem stateManager_refines_map_witness:
  "\<exists>s. runCalls True noDb oneUpdate (\<lambda>_. None, ()) = (Ret (), s, ()) \<and>
       readNode ''u'' (keystr [5, 6, 7, 8]) s = (Ret [9], s)"
proof -
  obtain s where s: "runCalls True noDb oneUpdate (\<lambda>_. None, ()) = (Ret (), s, ())" using oneUpdate_run by blast
  have "Remove0xIfPresent (keystr [5, 6, 7, 8]) = keystr [5, 6, 7, 8]"
  proof -
    have "lowerHex (keystr [5, 6, 7, 8] ! 1)" using lowerHex_keystr [of "[5, 6, 7, 8]"] by (simp add: list_all_length)
    then show ?thesis by (auto simp: Remove0xIfPresent_def dest: lowerHex_not_x)
  qed
  then show ?thesis
    using stateManager_refines_map [OF s, of "keystr [5, 6, 7, 8]" "''u''"] s by (simp add: oneUpdate_def)
qed

text \<open>C30: Batches do not interfere: a call for one batch, successful or not, leaves the whole state of every
  other batch as it is, flush included.\<close>
theorem stateManager_isolates_batches:
  assumes "runCall purge B c (s, d) = (r, t, d')" "u \<noteq> callBatch c"
  shows "t u = s u"
  by (rule runCall_other [OF assms])

theorem stateManager_isolates_batches_witness:
  "snd (cancelBatch ''u'' (\<lambda>_. Some newBatch)) ''v'' = Some (newBatch :: u64 BatchState)"
  using stateManager_isolates_batches [of True noDb "CancelBatch ''u''" "\<lambda>_. Some newBatch" "()" _ _ _ "''v''"]
  by (simp add: liftFst_run)



end
