(* ===== verification/Scalar_Props.thy ===== *)
theory Scalar_Props
  imports Multi_Write
begin

text \<open>
  The properties of the conversions of src/src/utils/scalar.cpp and scalar.hpp: what is encoded is
  decoded again, the strings and byte arrays are in normal form, the failures are the documented ones.
\<close>

section \<open>The digits of a key, element by element\<close>

lemma hexValue_append: "hexValue (s @ t) = hexValue s * 16 ^ length t + hexValue t"
proof (induction t rule: rev_induct)
  case (snoc c t)
  then show ?case by (simp add: hexValue_def algebra_simps flip: append_assoc)
qed (simp add: hexValue_def)

lemma hexValue_single: "hexValue [c] = (if (of_char c :: nat) < 58 then of_char c - 48 else of_char c - 87)"
  by (simp add: hexValue_def)

lemma hexValue_less: "list_all lowerHex s \<Longrightarrow> hexValue s < 16 ^ length s"
proof (induction s rule: rev_induct)
  case (snoc c s)
  then have "hexValue [c] < 16" "hexValue s + 1 \<le> 16 ^ length s"
    by (auto simp: hexValue_single lowerHex_def Let_def)
  then show ?case using mult_le_mono1 [of "hexValue s + 1" "16 ^ length s" 16] by (simp add: hexValue_append)
qed (simp add: hexValue_def)

lemma hexValue_char_inj:
  assumes "lowerHex c" "lowerHex d" "hexValue [c] = hexValue [d]"
  shows "c = d"
proof -
  have "m = n" if "48 \<le> m \<and> m \<le> 57 \<or> 97 \<le> m \<and> m \<le> 102" "48 \<le> n \<and> n \<le> 57 \<or> 97 \<le> n \<and> n \<le> 102"
      "(if m < 58 then m - 48 else m - 87) = (if n < 58 then n - 48 else n - 87)" for m n :: nat
    using that by (auto split: if_splits)
  from this [of "of_char c" "of_char d"] show ?thesis
    using assms by (simp add: hexValue_single lowerHex_def Let_def)
qed

lemma hexValue_inj:
  "length s = length t \<Longrightarrow> list_all lowerHex s \<Longrightarrow> list_all lowerHex t \<Longrightarrow> hexValue s = hexValue t \<Longrightarrow> s = t"
proof (induction s t rule: rev_induct2)
  case (4 c s d t)
  have "hexValue [c] < 16" "hexValue [d] < 16" using 4(3,4) hexValue_less [of "[c]"] hexValue_less [of "[d]"] by simp_all
  then have "hexValue s = hexValue t" "hexValue [c] = hexValue [d]"
    using 4(5) split_base [of "hexValue [c]" 16 "hexValue [d]" "hexValue s" "hexValue t"] by (simp_all add: hexValue_append)
  then show ?case using 4 hexValue_char_inj by simp
qed simp_all

lemma keystr_words:
  assumes "length ws = 4"
  shows "keystr ws = wordDigits (ws ! 3) @ wordDigits (ws ! 2) @ wordDigits (ws ! 1) @ wordDigits (ws ! 0)"
proof (rule hexValue_inj)
  show "list_all lowerHex (keystr ws)" by (rule lowerHex_keystr)
  show "list_all lowerHex (wordDigits (ws ! 3) @ wordDigits (ws ! 2) @ wordDigits (ws ! 1) @ wordDigits (ws ! 0))"
    using lowerHex_wordDigits by simp
  have "hexValue (keystr ws) = words2nat ws" by (simp add: keystr_def Let_def)
  then show "hexValue (keystr ws) =
      hexValue (wordDigits (ws ! 3) @ wordDigits (ws ! 2) @ wordDigits (ws ! 1) @ wordDigits (ws ! 0))"
    by (simp add: hexValue_append hexValue_wordDigits words2nat_def)
qed simp

lemma scalar2ba_too_big: "s \<ge> 256 ^ n \<Longrightarrow> scalar2ba_loop n bytes s = Exit"
proof (induction n bytes s rule: scalar2ba_loop.induct)
  case (2 n bytes s)
  have "256 ^ n * 256 div 256 \<le> s div 256" using 2(2) by (intro div_le_mono) (simp add: mult.commute)
  then have "drop_bit 8 s \<ge> 256 ^ n" by (simp add: drop_bit_eq_div)
  moreover from this have "drop_bit 8 s \<noteq> 0" by (metis le_zero_eq power_not_zero zero_neq_numeral)
  ultimately show ?case using 2(1) by (simp add: Let_def)
qed simp

section \<open>Properties\<close>

text \<open>C35: The string fea2string gives for a hash has 64 lower-case hexadecimal digits, normalising it
  changes nothing, two hashes have the same string only when their elements are equal, and string2fea
  reads the elements back from it.\<close>
theorem fea2string_roundtrip:
  assumes "goldilocks fr" "length fea = 4"
  shows "\<exists>s fea'. fea2string fr fea = Ret s \<and> length s = 64 \<and> list_all lowerHex s \<and>
     NormalizeToNFormat s 64 = Ret s \<and> stringToLower s = s \<and>
     (\<forall>b. length b = 4 \<longrightarrow> (fea2string fr b = Ret s) = (map (toU64 fr) b = map (toU64 fr) fea)) \<and>
     string2fea4 fr s = Ret fea' \<and> map (toU64 fr) fea' = map (toU64 fr) fea"
proof -
  let ?ws = "map (toU64 fr) fea" and ?s = "keystr (map (toU64 fr) fea)"
  have inj: "\<forall>b. length b = 4 \<longrightarrow> (fea2string fr b = Ret ?s) = (map (toU64 fr) b = ?ws)"
    using keystr_inj [of _ ?ws] assms(2) by auto
  have s: "?s = wordDigits (?ws ! 3) @ wordDigits (?ws ! 2) @ wordDigits (?ws ! 1) @ wordDigits (?ws ! 0)"
    using keystr_words [of ?ws] assms(2) by simp
  have part: "take 16 (drop (16 * (3 - i)) ?s) = wordDigits (toU64 fr (fea ! i))" if "i < 4" for i
    using that assms(2) unfolding s by (auto simp: less_Suc_eq numeral_eq_Suc)
  have "string2fe fr (wordDigits (toU64 fr x)) = gl_fromString16 fr (wordDigits (toU64 fr x))" for x
    using lowerHex_wordDigits [of "toU64 fr x"] lowerHex_not_x [of "wordDigits (toU64 fr x) ! 1"]
    by (simp add: string2fe_def Remove0xIfPresent_def list_all_length)
  then have "string2fea4 fr ?s = Ret (map (\<lambda>i. gl_fromString16 fr (wordDigits (toU64 fr (fea ! i)))) [0..<4])"
    using part by (simp add: string2fea4_def)
  moreover have "map (toU64 fr) (map (\<lambda>i. gl_fromString16 fr (wordDigits (toU64 fr (fea ! i)))) [0..<4]) = ?ws"
    using goldilocks.fromString_wordDigits [OF assms(1)] assms(2) by (auto intro!: nth_equalityI simp: comp_def)
  ultimately show ?thesis
    using inj lowerHex_keystr fea2string_Ret [OF assms(2)] keystr_normal
    by (intro exI [of _ ?s] exI [of _ "map (\<lambda>i. gl_fromString16 fr (wordDigits (toU64 fr (fea ! i)))) [0..<4]"]) simp
qed

theorem fea2string_roundtrip_witness:
  "\<exists>s fea'. fea2string gl_word [1, 2, 3, 4] = Ret s \<and> length s = 64 \<and> string2fea4 gl_word s = Ret fea' \<and>
     map (toU64 gl_word) fea' = map (toU64 gl_word) [1, 2, 3, 4]"
  using fea2string_roundtrip [OF glw.goldilocks_axioms, of "[1, 2, 3, 4]"] by auto

text \<open>A value of 256 bits survives the eight elements of 32 bits it is stored as.\<close>
theorem scalar_fea8_roundtrip:
  assumes "goldilocks fr" "v < 2 ^ 256"
  shows "fea2scalar8 fr (scalar2fea8 fr v) x = (True, v)"
  using fea2scalar8_chunks [of fr "scalar2fea8 fr v" v x] map_toU64_scalar2fea8 [OF assms(1)] assms(2) by simp

theorem scalar_fea8_roundtrip_witness:
  "fea2scalar8 gl_word (scalar2fea8 gl_word (2 ^ 256 - 1)) 0 = (True, 2 ^ 256 - 1)"
  by (rule scalar_fea8_roundtrip [OF glw.goldilocks_axioms]) simp

text \<open>Splitting four elements into eight of 32 bits and joining them again gives the same elements.\<close>
theorem sr4to8_sr8to4:
  assumes "goldilocks fr" "length a = 4"
  shows "map (toU64 fr) (sr8to4 fr (sr4to8 fr a)) = map (toU64 fr) a"
proof -
  have join: "toU64 fr (fromU64 fr (toU64 fr (fromU64 fr (x AND 0xFFFFFFFF)) +
      push_bit 32 (toU64 fr (fromU64 fr (drop_bit 32 x))))) = x"
    if "unat x < ScalarGoldilocksPrime" for x :: u64
  proof -
    have m: "x AND 0xFFFFFFFF = take_bit 32 x" by (simp add: take_bit_eq_mask mask_eq_exp_minus_1)
    have "unat (take_bit 32 x) < 2 ^ 32" by (simp add: unat_take_bit)
    moreover have "unat (drop_bit 32 x) < 2 ^ 32"
      using unat_u64_less [of x] by (subst unat_drop_bit_eq) (simp add: drop_bit_eq_div less_mult_imp_div_less)
    moreover have "take_bit 32 x + push_bit 32 (drop_bit 32 x) = x"
      using bits_ident [of 32 x] by (simp add: add.commute)
    ultimately show ?thesis
      using goldilocks.toU64_fromU64_32 [OF assms(1)] goldilocks.toU64_fromU64_less [OF assms(1) that] by (simp add: m)
  qed
  have "i < 4 \<Longrightarrow> sr4to8 fr a ! (2 * i) = fromU64 fr (toU64 fr (a ! i) AND 0xFFFFFFFF) \<and>
      sr4to8 fr a ! (2 * i + 1) = fromU64 fr (drop_bit 32 (toU64 fr (a ! i)))" for i
    by (auto simp: sr4to8_def less_Suc_eq numeral_eq_Suc)
  then show ?thesis
    using join goldilocks.toU64_less [OF assms(1)] assms(2) by (auto simp: sr8to4_def intro!: nth_equalityI)
qed

theorem sr4to8_sr8to4_witness:
  "map (toU64 gl_word) (sr8to4 gl_word (sr4to8 gl_word [0x123456789A, 2, 3, 4])) = map (toU64 gl_word) [0x123456789A, 2, 3, 4]"
  by (rule sr4to8_sr8to4 [OF glw.goldilocks_axioms]) simp

text \<open>C37: A node written to the database or to the multi-write buffers as a string of sixteen digits per
  element is read back element by element, by both readers; the string has the length the reader of the
  buffers checks.\<close>
theorem node_string_roundtrip:
  assumes "goldilocks fr"
  shows "\<exists>s w. valueString fr v = Ret s \<and> length s = 16 * length v \<and>
     map (toU64 fr) (nodeOfString fr s) = map (toU64 fr) v \<and>
     string2fea fr s = Ret w \<and> map (toU64 fr) w = map (toU64 fr) v"
  using goldilocks.valueString_eq [OF assms, of v] goldilocks.nodeOfString_digits [OF assms, of v]
    goldilocks.string2fea_digits [OF assms, of v] goldilocks.length_digits [OF assms, of v] by auto

theorem node_string_roundtrip_witness:
  "\<exists>s. valueString gl_word [5, 6, 7] = Ret s \<and> length s = 48 \<and>
     map (toU64 gl_word) (nodeOfString gl_word s) = map (toU64 gl_word) [5, 6, 7]"
  using node_string_roundtrip [OF glw.goldilocks_axioms, of "[5, 6, 7]"] by auto

text \<open>A byte array turned into a hexadecimal string is read back from it, with or without 0x.\<close>
theorem ba2string_string2ba:
  "\<exists>s. ba2string bs = Ret s \<and> length s = 2 * length bs \<and> string2ba s = Ret bs \<and> string2ba (''0x'' @ s) = Ret bs"
proof -
  let ?s = "concat (map byteDigits bs)"
  have "length ?s = 2 * length bs" by (induction bs) (simp_all add: byteDigits_def)
  moreover have "string2ba ?s = Ret bs" using string2ba_ba2string [of bs] by (simp add: ba2string_eq)
  moreover have "evenDigits (''0x'' @ ?s) = ?s" using \<open>length ?s = _\<close> by (simp add: evenDigits_def Remove0xIfPresent_def)
  then have "string2ba (''0x'' @ ?s) = Ret bs" by (simp add: string2ba_def pairs2bytes_digits)
  ultimately show ?thesis by (simp add: ba2string_eq)
qed

text \<open>C36: scalar2ba writes a scalar that fits in the buffer as the shortest big-endian byte array (one zero
  byte for zero), and scalar2bytesBE as exactly 32 bytes; ba2scalar reads both back.  A scalar that does not
  fit ends the process.\<close>
theorem scalar_bytes:
  assumes "n > 0"
  shows "(if s < 256 ^ n
      then \<exists>bytes. scalar2ba n s = Ret (bytes, length bytes) \<and> ba2scalar bytes = s \<and>
             length bytes \<le> n \<and> bytes \<noteq> [] \<and> (s > 0 \<longrightarrow> hd bytes \<noteq> 0)
      else scalar2ba n s = Exit) \<and>
    (if s < 2 ^ 256 then \<exists>bytes. scalar2bytesBE s = Ret bytes \<and> length bytes = 32 \<and> ba2scalar bytes = s
     else scalar2bytesBE s = Exit)"
proof -
  have fits: "\<exists>bytes. scalar2ba n s = Ret (bytes, length bytes) \<and> ba2scalar bytes = s \<and>
       length bytes \<le> n \<and> bytes \<noteq> [] \<and> (s > 0 \<longrightarrow> hd bytes \<noteq> 0)" if lt: "s < 256 ^ n"
  proof -
    obtain r k where r: "scalar2ba_loop n [] s = Ret (r, k)" using scalar2ba_loop_total [OF lt assms, of "[]"] by blast
    from scalar2ba_loop_Ret [OF r assms] show ?thesis using r by (auto simp: scalar2ba_def ba2scalar_def)
  qed
  have top: "drop_bit 256 s = 0 \<longleftrightarrow> s < 2 ^ 256" by (simp add: drop_bit_eq_div div_eq_0_iff)
  then have "\<exists>bytes. scalar2bytesBE s = Ret bytes" if "s < 2 ^ 256"
    using that by (simp add: scalar2bytesBE_def scalar2bytes_def)
  then have "\<exists>bytes. scalar2bytesBE s = Ret bytes \<and> length bytes = 32 \<and> ba2scalar bytes = s" if "s < 2 ^ 256"
    using that scalar2bytesBE_Ret by blast
  moreover have "scalar2bytesBE s = Exit" if "\<not> s < 2 ^ 256"
    using that top by (simp add: scalar2bytesBE_def scalar2bytes_def)
  ultimately show ?thesis using fits scalar2ba_too_big [of n s "[]"] by (auto simp: scalar2ba_def)
qed

theorem scalar_bytes_witness:
  "\<exists>bytes. scalar2ba 2 300 = Ret (bytes, length bytes) \<and> ba2scalar bytes = 300 \<and> length bytes \<le> 2"
  using scalar_bytes [of 2 300, THEN conjunct1] by (simp split: if_splits) blast

text \<open>Words of 64 and 32 bits turned into bits, least significant first, and joined again are the same;
  the bits are zeros and ones, as many as the word has.\<close>
theorem word_bits_roundtrip:
  "bits2u64 (u642bits v) = Ret v \<and> length (u642bits v) = 64 \<and> set (u642bits v) \<subseteq> {0, 1} \<and>
   bits2u32 (u322bits w) = Ret w \<and> length (u322bits w) = 32 \<and> set (u322bits w) \<subseteq> {0, 1}"
  by (simp only: bits2u64_u642bits bits2u32_u322bits u642bits_bits u322bits_bits simp_thms)

end
