(* ===== verification/Database_Props.thy ===== *)
theory Database_Props
  imports Smt_Ready
begin

text \<open>
  The properties of the caches, the multi-write buffers and the database class (src/src/hashdb).  The
  witnesses use the server in memory of Smt_Ready.
\<close>

section \<open>Flushing keeps what is durable\<close>

text \<open>The strings of nodes in a buffer have sixteen digits per element.\<close>

definition wellSized :: "MultiWriteData \<Rightarrow> bool" where
  "wellSized d \<longleftrightarrow> (\<forall>k s. (k, s) \<in> set (mdNodes d) \<union> set (mdNodesIntray d) \<longrightarrow> length s mod 16 = 0)"

lemma nodeIn_wellSized:
  "(\<And>s. map_of m k = Some s \<Longrightarrow> length s mod 16 = 0) \<Longrightarrow> nodeIn fr m k = map_option (nodeOfString fr) (map_of m k)"
  by (auto simp: nodeIn_def split: option.split)

lemma wellSized_lookup:
  assumes "wellSized d"
  shows "map_of (mdNodes d) k = Some s \<Longrightarrow> length s mod 16 = 0" "map_of (mdNodesIntray d) k = Some s \<Longrightarrow> length s mod 16 = 0"
  using assms map_of_SomeD [of "mdNodes d" k s] map_of_SomeD [of "mdNodesIntray d" k s]
  unfolding wellSized_def by auto

lemma nodeIn_accept:
  assumes "wellSized d"
  shows "nodeIn fr (mdNodes (acceptIntray d)) k =
    (case nodeIn fr (mdNodes d) k of Some v \<Rightarrow> Some v | None \<Rightarrow> nodeIn fr (mdNodesIntray d) k)"
proof -
  note size = wellSized_lookup [OF assms]
  have look: "map_of (mdNodes (acceptIntray d)) k = (map_of (mdNodesIntray d) ++ map_of (mdNodes d)) k"
    using acceptIntray_pending(1) [of d] acceptIntray_fields(4) [of d] by (simp add: pendingNodes_def fun_eq_iff)
  have e1: "nodeIn fr (mdNodes d) k = map_option (nodeOfString fr) (map_of (mdNodes d) k)"
    by (rule nodeIn_wellSized) (rule size(1))
  have e2: "nodeIn fr (mdNodesIntray d) k = map_option (nodeOfString fr) (map_of (mdNodesIntray d) k)"
    by (rule nodeIn_wellSized) (rule size(2))
  have e3: "nodeIn fr (mdNodes (acceptIntray d)) k = map_option (nodeOfString fr) (map_of (mdNodes (acceptIntray d)) k)"
    by (rule nodeIn_wellSized) (use look size in \<open>auto simp: map_add_def split: option.splits\<close>)
  show ?thesis unfolding e1 e2 e3 look by (simp add: map_add_def split: option.split)
qed

lemma findNode_accept:
  assumes "wellSized (pendingData m)" "pendingToFlushDataIndex m < length (mwData m)" "pendingToFlushDataIndex m \<noteq> storingDataIndex m"
  shows "findNode fr (updatePending acceptIntray m) k = findNode fr m k"
proof -
  let ?m = "updatePending acceptIntray m" and ?d = "pendingData m"
  have p: "pendingData ?m = acceptIntray ?d" "storingData ?m = storingData m"
    "storingFlushId ?m = storingFlushId m" "storedFlushId ?m = storedFlushId m"
    using assms(2,3) by (simp_all add: pendingData_def storingData_def updatePending_def)
  have "nodeIn fr [] k = None" by (simp add: nodeIn_def)
  then show ?thesis
    using p acceptIntray_fields(4) [of ?d] unfolding findNode_def p nodeIn_accept [OF assms(1)]
    by (simp split: option.splits)
qed

lemma dbFlush_accept:
  assumes "dbConsistent C rv d" "dbMultiWrite C" "\<not> dbReadOnly C" "wellSized (pendingData (multiWrite d))"
    "pendingToFlushDataIndex (multiWrite d) \<noteq> storingDataIndex (multiWrite d)"
  shows "\<exists>d'. dbFlush C d = (Ret (Some (lastFlushId (multiWrite d) + 1, storedFlushId (multiWrite d))), d') \<and>
     durable C rv d' = durable C rv d \<and> dbConsistent C rv d' \<and>
     mdNodesIntray (pendingData (multiWrite d')) = [] \<and> mdProgramIntray (pendingData (multiWrite d')) = [] \<and>
     lastFlushId (multiWrite d') = lastFlushId (multiWrite d) + 1"
proof -
  let ?m = "updatePending acceptIntray (multiWrite d)"
  let ?d = "d\<lparr>multiWrite := ?m\<lparr>lastFlushId := lastFlushId ?m + 1\<rparr>\<rparr>"
  have i: "pendingToFlushDataIndex (multiWrite d) < length (mwData (multiWrite d))" using assms(1) by (simp add: dbConsistent_def)
  have run: "dbFlush C d = (Ret (Some (lastFlushId (multiWrite d) + 1, storedFlushId (multiWrite d))), ?d)"
    using assms(2,3) by (simp add: dbFlush_def Let_def updatePending_def)
  have find: "findNode fr (m\<lparr>lastFlushId := x\<rparr>) k = findNode fr m k" for fr m x k
  proof -
    have "pendingData (m\<lparr>lastFlushId := x\<rparr>) = pendingData m" "storingData (m\<lparr>lastFlushId := x\<rparr>) = storingData m"
      "storingFlushId (m\<lparr>lastFlushId := x\<rparr>) = storingFlushId m" "storedFlushId (m\<lparr>lastFlushId := x\<rparr>) = storedFlushId m"
      by (simp_all add: pendingData_def storingData_def)
    then show ?thesis by (simp only: findNode_def)
  qed
  have same: "durable C rv ?d = durable C rv d"
    using findNode_accept [OF assms(4) i assms(5), of "cfFr C"]
    by (auto simp: durable_def find fun_eq_iff cong: option.case_cong)
  then have "dbConsistent C rv ?d" using assms(1) by (simp add: dbConsistent_def updatePending_def)
  moreover have "pendingData (multiWrite ?d) = acceptIntray (pendingData (multiWrite d))"
    using i by (simp add: pendingData_def updatePending_def)
  ultimately show ?thesis using run same acceptIntray_fields by (simp add: updatePending_def)
qed

section \<open>The server in memory\<close>

lemma table_consistent: "dbConsistent tableConfig tableView (snd (tableStore branchNodes))"
  using branch_ready by (simp add: treeReady_def storeIdle_def)

lemma table_durable: "durable tableConfig tableView (snd (tableStore ws)) k = storeView tableConfig tableView tableContext (tableStore ws) k"
  by (simp add: storeView_def tableStore_def smNodes_def)

lemma table_keystr: "length v = 4 \<Longrightarrow> keystr (map (toU64 gl_word) v) \<noteq> dbStateRootKey"
  by (rule glw.keystr_not_root)

lemma valueNode: "[5, 0, 0, 0, 0, 0, 0, 0, 0, 0, 0, 0] \<in> set branchNodes" "mixHash [5, 0, 0, 0, 0, 0, 0, 0, 0, 0, 0, 0] = [5, 0, 0, 0]"
  "map (toU64 gl_word) [5, 0, 0, 0] = [5, 0, 0, 0]"
  by (simp_all add: branchNodes_def mix_simps gl_word_def)

lemma valueNode_durable:
  "durable tableConfig tableView (snd (tableStore branchNodes)) (keystr [5, 0, 0, 0]) = Some [5, 0, 0, 0, 0, 0, 0, 0, 0, 0, 0, 0]"
  using storeView_table_in [OF valueNode(1) branchNodes_safe(1)] branchNodes_safe(2) [OF valueNode(1)] valueNode(2)
  by (simp add: table_durable)

lemma table_multi: "dbMultiWrite tableConfig"
  by (simp add: tableConfig_def)

section \<open>Properties\<close>

text \<open>C25: Database::read finds every durable node: when the node is in the multi-write buffers or in the table
  of the server, the read returns it and leaves the durable nodes and the consistency of the cache as they
  were, with or without get_tree and whichever nodes the cache has dropped.  It holds when multi-write is on or
  the vector given to read is empty, for the list cache (the associative one is off) whose nodes are the
  durable ones (dbConsistent).\<close>
theorem dbRead_durable:
  assumes "remoteAnswers C rv" "goldilocks (cfFr C)" "dbConsistent C rv d"
    "keystr ws \<noteq> dbStateRootKey" "durable C rv d (keystr ws) = Some w" "dbMultiWrite C \<or> prev = []"
  shows "\<exists>v d'. dbRead C (keystr ws) vkey prev update tree d = (Ret v, d') \<and> map (toU64 (cfFr C)) v = w \<and>
     dbConsistent C rv d' \<and> durable C rv d' = durable C rv d"
  using dbRead_run [OF assms] sameDurable_view unfolding sameDurable_def by metis

theorem dbRead_durable_witness:
  "\<exists>v d'. dbRead tableConfig (keystr [5, 0, 0, 0]) [5, 0, 0, 0] [8, 8] False None (snd (tableStore branchNodes)) = (Ret v, d') \<and>
     map (toU64 gl_word) v = [5, 0, 0, 0, 0, 0, 0, 0, 0, 0, 0, 0]"
  using dbRead_durable [OF table_remote _ table_consistent _ valueNode_durable,
      where vkey = "[5, 0, 0, 0]" and prev = "[8, 8]" and update = False and tree = None] glw.goldilocks_axioms
    table_keystr [of "[5, 0, 0, 0]"] valueNode(3) table_multi by (auto simp: table_words(1))



text \<open>With direct inserts (multi-write off) and the list cache, a node that only the server has is not read as it
  is: the elements the caller's vector held before come first, and the cache keeps them with the node.\<close>
theorem dbRead_direct_appends:
  assumes "remoteAnswers C rv" "goldilocks (cfFr C)" "bInitialized d" "useRemoteDB d" "\<not> useAssociativeCache C"
    "\<not> dbMultiWrite C" "cacheEnabled (dbMTCache d) \<Longrightarrow> cacheContent (dbMTCache d) (keystr ws) = None"
    "wfCache (dbMTCache d)" "rv (dbRemote d) (keystr ws) = Some w"
  shows "\<exists>v d'. dbRead C (keystr ws) vkey prev update None d = (Ret (prev @ v), d') \<and> map (toU64 (cfFr C)) v = w \<and>
     (cacheEnabled (dbMTCache d) \<longrightarrow> cacheContent (dbMTCache d') (keystr ws) = Some (prev @ v))"
  by (rule dbRead_direct [OF assms])

text \<open>The vector of twelve zeros that \<open>Smt::set\<close> hands to its first read.\<close>

theorem dbRead_direct_appends_witness:
  "\<exists>v d'. dbRead (tableConfig\<lparr>dbMultiWrite := False\<rparr>) (keystr [5, 0, 0, 0]) [5, 0, 0, 0] (replicate 12 0) False None
       (snd (tableStore branchNodes)) = (Ret (replicate 12 0 @ v), d') \<and> map (toU64 gl_word) v = [5, 0, 0, 0, 0, 0, 0, 0, 0, 0, 0, 0]"
proof -
  let ?C = "tableConfig\<lparr>dbMultiWrite := False\<rparr>" and ?d = "snd (tableStore branchNodes)"
  have "remoteAnswers ?C tableView" using table_remote by (simp add: remoteAnswers_def)
  moreover have "goldilocks (cfFr ?C)" using glw.goldilocks_axioms by (simp add: table_words(1))
  moreover have "tableView (dbRemote ?d) (keystr [5, 0, 0, 0]) = Some [5, 0, 0, 0, 0, 0, 0, 0, 0, 0, 0, 0]"
    using valueNode_durable by (simp add: table_durable storeView_table) (simp add: tableStore_def tableView_def)
  moreover have "bInitialized ?d" "useRemoteDB ?d" "\<not> useAssociativeCache ?C" "\<not> dbMultiWrite ?C"
    "cacheContent (dbMTCache ?d) k = None" "wfCache (dbMTCache ?d)" for k
    by (simp_all add: tableStore_def tableConfig_def newCache_def cacheContent_def wfCache_def)
  ultimately show ?thesis
    using dbRead_direct_appends [of ?C tableView ?d "[5, 0, 0, 0]" "[5, 0, 0, 0, 0, 0, 0, 0, 0, 0, 0, 0]" "[5, 0, 0, 0]"
        "replicate 12 0" False] by (auto simp: table_words(1))
qed



text \<open>C32: The caches drop the least recently used records and no others: adding a key puts it first with its
  old value (when it was there and is not to be updated) or with the new one; the other records keep their
  order, the ones dropped are the last ones, none when the key was there already, and the last one dropped
  would not have fitted.\<close>
theorem cacheAdd_drops_oldest:
  assumes "wfCache c" "dcMaxSize c > 0" "cacheAdd recordSize k v update c = (full, c')"
  shows "\<exists>w dropped. cacheContent c' k = Some w \<and>
     w = (case cacheContent c k of Some old \<Rightarrow> if update then v else old | None \<Rightarrow> v) \<and>
     hd (map crKey (dcRecords c')) = k \<and>
     filter (\<lambda>r. crKey r \<noteq> k) (dcRecords c) = tl (dcRecords c') @ dropped \<and>
     (cacheContent c k \<noteq> None \<longrightarrow> dropped = []) \<and>
     (dropped \<noteq> [] \<longrightarrow> dcCurrentSize c' + crSize (hd dropped) > dcMaxSize c)"
proof -
  obtain w where w: "cacheContent c' k = Some w"
    "cacheContent c k \<noteq> None \<and> \<not> update \<longrightarrow> cacheContent c k = Some w" "cacheContent c k = None \<or> update \<longrightarrow> w = v"
    using cacheAdd_run(3) [OF assms] by blast
  then have "w = (case cacheContent c k of Some old \<Rightarrow> if update then v else old | None \<Rightarrow> v)"
    by (cases "cacheContent c k") auto
  then show ?thesis using w(1) cacheAdd_run(4,5) [OF assms] by blast
qed

theorem cacheAdd_drops_oldest_witness:
  "cacheContent (snd (cacheAdd (\<lambda>_ _. 6) ''b'' (2 :: nat) False (snd (cacheAdd (\<lambda>_ _. 6) ''a'' 1 False (newCache 10))))) ''b'' = Some 2 \<and>
   cacheContent (snd (cacheAdd (\<lambda>_ _. 6) ''b'' (2 :: nat) False (snd (cacheAdd (\<lambda>_ _. 6) ''a'' 1 False (newCache 10))))) ''a'' = None"
proof -
  let ?c = "snd (cacheAdd (\<lambda>_ _. 6) ''a'' (1 :: nat) False (newCache 10))"
  have c: "wfCache ?c" "dcMaxSize ?c > 0" "cacheContent ?c ''b'' = None"
    by (simp_all add: cacheAdd_def cacheAddKeyValue_def cacheFindKey_def newCache_def wfCache_def cacheContent_def)
  have "cacheContent (snd (cacheAdd (\<lambda>_ _. 6) ''b'' 2 False ?c)) ''a'' = None"
    by (simp add: cacheAdd_def cacheAddKeyValue_def cacheFindKey_def newCache_def cacheContent_def)
  then show ?thesis
    using cacheAdd_drops_oldest [OF c(1,2), of "\<lambda>_ _. 6" "''b''" 2 False "fst (cacheAdd (\<lambda>_ _. 6) ''b'' 2 False ?c)"
        "snd (cacheAdd (\<lambda>_ _. 6) ''b'' 2 False ?c)"] c(3) by auto
qed

text \<open>C33: A cache never holds more than its maximal size, or only the record just added; its size is the sum
  of the records', and no key is in it twice.  Adding and finding keep this, and finding changes no content.\<close>
theorem cache_stays_bounded:
  assumes "wfCache c"
  shows "wfCache (snd (cacheAdd recordSize k v update c)) \<and> wfCache (snd (cacheFind k c)) \<and>
     cacheContent (snd (cacheFind k c)) = cacheContent c \<and>
     (\<forall>x. fst (cacheFind k c) = Some x \<longrightarrow> cacheContent c k = Some x) \<and>
     (let c' = snd (cacheAdd recordSize k v update c)
      in dcCurrentSize c' = sum_list (map crSize (dcRecords c')) \<and>
         (dcCurrentSize c' \<le> dcMaxSize c \<or> length (dcRecords c') \<le> 1))"
proof -
  have add: "wfCache (snd (cacheAdd recordSize k v update c)) \<and>
      dcMaxSize (snd (cacheAdd recordSize k v update c)) = dcMaxSize c"
  proof (cases "dcMaxSize c > 0")
    case True
    then show ?thesis using cacheAdd_run(1,2) [OF assms True] by (metis prod.collapse)
  qed (use assms in \<open>simp add: cacheAdd_def\<close>)
  then show ?thesis using cacheFind_run [OF assms, of k] unfolding wfCache_def Let_def by (metis prod.collapse)
qed

theorem cache_stays_bounded_witness:
  "wfCache (snd (cacheAdd (\<lambda>_ _. 6) ''a'' (1 :: nat) False (newCache 10)))"
proof -
  have "wfCache (newCache 10 :: nat DatabaseCache)" by (simp add: newCache_def wfCache_def)
  from cache_stays_bounded [OF this, of "\<lambda>_ _. 6" "''a''" 1 False] show ?thesis by blast
qed

text \<open>C34: What the associative cache finds under a key is a value one of its slots holds next to the very same
  key: an element hashed to the same place is never returned for another key.\<close>
theorem acFindKey_sound:
  assumes "acLog2CacheSize c < 32" "acFindKey fr key c = (Some v, c')"
  shows "\<exists>k. (k, v) \<in> acPairs c \<and> sameKey fr k key"
proof -
  let ?c = "c\<lparr>acAttempts := acAttempts c + 1\<rparr>"
  have run: "acFindLoop fr ?c key (take 4 key) = Some v" using assms(2) by (simp add: acFindKey_def Let_def split: option.splits)
  obtain k where "(k, v) \<in> acPairs ?c" "sameKey fr k key" 
    using acFindLoop_pairs [OF _ run] assms(1) by auto
  moreover have "acPairs ?c = acPairs c" by (simp add: acPairs_def keyAt_def valueAt_def acCacheSize_def)
  ultimately show ?thesis by blast
qed

definition oneSlot :: "u64 AssocCache" where
  "oneSlot = \<lparr>acLog2IndexesSize = 1, acLog2CacheSize = 0, acIndexes = [0, 0], acKeys = [1, 1, 1, 1],
     acValues = replicate 12 7, acCurrentCacheIndex = 1, acAttempts = 0, acHits = 0\<rparr>"

theorem acFindKey_sound_witness:
  "\<exists>v c' k. acFindKey gl_word [1, 1, 1, 1] oneSlot = (Some v, c') \<and> (k, v) \<in> acPairs oneSlot"
proof -
  have "\<exists>v c'. acFindKey gl_word [1, 1, 1, 1] oneSlot = (Some v, c')"
    by (simp add: acFindKey_def oneSlot_def gl_word_def acIndexesSize_def emptyCacheSlot_def acCacheSize_def cachePosition_def
        keyAt_def sameKey_def upt_rec)
  then obtain v c' where r: "acFindKey gl_word [1, 1, 1, 1] oneSlot = (Some v, c')" by blast
  have "acLog2CacheSize oneSlot < 32" by (simp add: oneSlot_def)
  from acFindKey_sound [OF this r] show ?thesis using r by blast
qed

end
