(* ===== verification/Db_Sender.thy ===== *)
theory Db_Sender
  imports Database
begin

text \<open>
  The thread that writes the multi-write buffers to the database server (src/src/hashdb/database.cpp:
  sendData, dbSenderThread, getFlushStatus, getFlushData).  The thread takes the pending buffer over under
  the lock, builds statements of a bounded size from it, sends each in a transaction of its own, and then
  tells which flush is stored; a statement that failed is sent again in the next round.
\<close>

section \<open>The text of the statements\<close>

record SenderConfig =
  dbNodesTableName :: string
  dbProgramTableName :: string
  dbMultiWriteSingleQuerySize :: nat

definition byteaOpen :: string where
  "byteaOpen = [CHR ''E'', CHR 0x27, CHR 0x5C, CHR 0x5C, CHR ''x'']"

definition rowText :: "string \<Rightarrow> string \<Rightarrow> string" where
  "rowText k v = ''( '' @ byteaOpen @ k @ [CHR 0x27] @ '', '' @ byteaOpen @ v @ [CHR 0x27] @ '' ) ''"

definition tableName :: "SenderConfig \<Rightarrow> bool \<Rightarrow> string" where
  "tableName S bProgram = (if bProgram then dbProgramTableName S else dbNodesTableName S)"

definition insertHead :: "SenderConfig \<Rightarrow> bool \<Rightarrow> string" where
  "insertHead S bProgram = ''INSERT INTO '' @ tableName S bProgram @ '' ( hash, data ) VALUES ''"

fun rowsText :: "(string \<times> string) list \<Rightarrow> string" where
  "rowsText [] = []"
| "rowsText [(k, v)] = rowText k v"
| "rowsText ((k, v) # rows) = rowText k v @ '', '' @ rowsText rows"

fun statementText :: "SenderConfig \<Rightarrow> sql_statement \<Rightarrow> string" where
  "statementText S (InsertRows bProgram rows) =
     insertHead S bProgram @ rowsText rows @ '' ON CONFLICT (hash) DO NOTHING;''"
| "statementText S (UpdateRow k v) =
     ''UPDATE '' @ tableName S False @ '' SET data = '' @ byteaOpen @ v @ [CHR 0x27] @
     '' WHERE hash = '' @ byteaOpen @ k @ [CHR 0x27] @ '';''"

definition queryText :: "SenderConfig \<Rightarrow> SingleQuery \<Rightarrow> string" where
  "queryText S q = concat (map (statementText S) (sqStatements q))"

section \<open>Building the statements\<close>

text \<open>
  The inner loop adds rows to the statement until the query has its maximal size.  It then leaves the
  loop before it advances to the next row, so the last row of a full query is also the first of the next.
\<close>

fun fillRows ::
  "nat \<Rightarrow> nat \<Rightarrow> bool \<Rightarrow> (string \<times> string) list \<Rightarrow> (string \<times> string) list \<times> (string \<times> string) list \<times> bool"
where
  "fillRows limit chars firstValue [] = ([], [], False)"
| "fillRows limit chars firstValue ((k, v) # rows) =
     (let chars = chars + (if firstValue then 0 else 2) + length (rowText k v)
      in if chars \<ge> limit then ([(k, v)], (k, v) # rows, True)
         else (case fillRows limit chars False rows of (taken, rest, full) \<Rightarrow> ((k, v) # taken, rest, full)))"

definition newQuery :: SingleQuery where
  "newQuery = \<lparr>sqStatements = [], sqFull = False, sqSent = False\<rparr>"

definition openQuery :: "SingleQuery list \<Rightarrow> SingleQuery list" where
  "openQuery qs = (if qs = [] \<or> sqFull (last qs) then qs @ [newQuery] else qs)"

definition addInsert ::
  "SenderConfig \<Rightarrow> bool \<Rightarrow> (string \<times> string) list \<Rightarrow> SingleQuery list
     \<Rightarrow> SingleQuery list \<times> (string \<times> string) list"
where
  "addInsert S bProgram rows qs0 =
     (let qs = openQuery qs0; q = last qs;
          chars = length (queryText S q) + length (insertHead S bProgram);
          (taken, rest, full) = fillRows (dbMultiWriteSingleQuerySize S) chars True rows
      in (butlast qs @ [q\<lparr>sqStatements := sqStatements q @ [InsertRows bProgram taken], sqFull := full\<rparr>], rest))"

partial_function (option) addRows ::
  "SenderConfig \<Rightarrow> bool \<Rightarrow> (string \<times> string) list \<Rightarrow> SingleQuery list \<Rightarrow> SingleQuery list option"
where
  "addRows S bProgram rows qs =
     (if rows = [] then Some qs
      else case addInsert S bProgram rows qs of (qs', rest) \<Rightarrow> addRows S bProgram rest qs')"

definition addUpdate :: "string \<Rightarrow> SingleQuery list \<Rightarrow> SingleQuery list" where
  "addUpdate root qs0 =
     (if root = [] then qs0
      else (let qs = openQuery qs0; q = last qs
            in butlast qs @ [q\<lparr>sqStatements := sqStatements q @ [UpdateRow dbStateRootKey root], sqFull := True\<rparr>]))"

definition buildQueries :: "SenderConfig \<Rightarrow> MultiWriteData \<Rightarrow> SingleQuery list option" where
  "buildQueries S data =
     (case addRows S False (mdNodes data) [] of
        None \<Rightarrow> None
      | Some qs \<Rightarrow> (case addRows S True (mdProgram data) qs of
          None \<Rightarrow> None | Some qs \<Rightarrow> Some (addUpdate (mdStateRoot data) qs)))"

section \<open>Sending\<close>

text \<open>Every query in a transaction; the first that fails stops the loop.\<close>

fun sendQueries ::
  "('e, 'r) DatabaseConfig \<Rightarrow> SingleQuery list \<Rightarrow> 'r \<Rightarrow> bool \<times> SingleQuery list \<times> 'r"
where
  "sendQueries C [] r = (True, [], r)"
| "sendQueries C (q # qs) r =
     (if sqSent q then (case sendQueries C qs r of (ok, qs, r) \<Rightarrow> (ok, q # qs, r))
      else (case sqlExec C (sqStatements q) r of
              (False, r) \<Rightarrow> (False, q # qs, r)
            | (True, r) \<Rightarrow> (case sendQueries C qs r of (ok, qs, r) \<Rightarrow> (ok, q\<lparr>sqSent := True\<rparr> # qs, r))))"

definition updateStoring :: "(MultiWriteData \<Rightarrow> MultiWriteData) \<Rightarrow> MultiWrite \<Rightarrow> MultiWrite" where
  "updateStoring f m = m\<lparr>mwData := (mwData m)[storingDataIndex m := f (mwData m ! storingDataIndex m)]\<rparr>"

definition markStored :: "MultiWrite \<Rightarrow> MultiWrite" where
  "markStored m = m\<lparr>storedFlushId := storingFlushId m\<rparr>"

text \<open>\<open>None\<close> when the building of the statements does not end.\<close>

definition sendData ::
  "('e, 'r) DatabaseConfig \<Rightarrow> SenderConfig \<Rightarrow> ('e, 'r) Database \<Rightarrow> (unit outcome \<times> ('e, 'r) Database) option"
where
  "sendData C S d =
     (let m = multiWrite d; data = storingData m
      in if dbReadOnly C then Some (Ret (), d\<lparr>multiWrite := markStored m\<rparr>)
         else if mdIsEmpty data \<or> mdStored data then Some (Ret (), d)
         else (case (if mdQueries data = [] then buildQueries S data else Some (mdQueries data)) of
                 None \<Rightarrow> None
               | Some [] \<Rightarrow> Some (Ret (), d\<lparr>multiWrite := markStored (updateStoring (\<lambda>x. x\<lparr>mdStored := True\<rparr>) m)\<rparr>)
               | Some qs \<Rightarrow> (case sendQueries C qs (dbRemote d) of
                     (True, _, r) \<Rightarrow> Some (Ret (), d\<lparr>dbRemote := r,
                        multiWrite := markStored (updateStoring (\<lambda>x. x\<lparr>mdQueries := [], mdStored := True\<rparr>) m)\<rparr>)
                   | (False, qs, r) \<Rightarrow> Some (Fail ZKR_DB_ERROR, d\<lparr>dbRemote := r,
                        multiWrite := updateStoring (\<lambda>x. x\<lparr>mdQueries := qs\<rparr>) m\<rparr>))))"

section \<open>The thread\<close>

text \<open>What a round does under the lock; the result says whether \<open>sendData\<close> is called.\<close>

definition nextIndex :: "nat \<Rightarrow> nat" where
  "nextIndex i = (i + 1) mod 3"

definition switchData :: "MultiWrite \<Rightarrow> MultiWrite" where
  "switchData m0 =
     (let m = updatePending acceptIntray m0;
          m = m\<lparr>storingDataIndex := nextIndex (storingDataIndex m),
                pendingToFlushDataIndex := nextIndex (pendingToFlushDataIndex m)\<rparr>
      in (updatePending (\<lambda>_. mdReset) m)\<lparr>storingFlushId := lastFlushId m\<rparr>)"

definition advanceSynchronizing :: "MultiWrite \<Rightarrow> MultiWrite" where
  "advanceSynchronizing m = m\<lparr>synchronizingDataIndex := nextIndex (synchronizingDataIndex m)\<rparr>"

definition senderTake :: "MultiWrite \<Rightarrow> bool \<times> MultiWrite" where
  "senderTake m =
     (if mdQueries (storingData m) \<noteq> [] then (True, m)
      else if mdIsEmpty (pendingData m) then (False, m\<lparr>storedFlushId := lastFlushId m\<rparr>)
      else (let m = switchData m
            in if mdIsEmpty (storingData m) then (False, advanceSynchronizing (markStored m)) else (True, m)))"

definition senderSend ::
  "('e, 'r) DatabaseConfig \<Rightarrow> SenderConfig \<Rightarrow> ('e, 'r) Database \<Rightarrow> ('e, 'r) Database option"
where
  "senderSend C S d =
     (case sendData C S d of
        None \<Rightarrow> None
      | Some (Ret _, d) \<Rightarrow> Some (d\<lparr>multiWrite := advanceSynchronizing (markStored (multiWrite d))\<rparr>)
      | Some (_, d) \<Rightarrow> Some d)"

definition senderRound ::
  "('e, 'r) DatabaseConfig \<Rightarrow> SenderConfig \<Rightarrow> ('e, 'r) Database \<Rightarrow> ('e, 'r) Database option"
where
  "senderRound C S d =
     (case senderTake (multiWrite d) of
        (False, m) \<Rightarrow> Some (d\<lparr>multiWrite := m\<rparr>)
      | (True, m) \<Rightarrow> senderSend C S (d\<lparr>multiWrite := m\<rparr>))"

section \<open>What the services ask\<close>

record FlushStatus =
  fsStoredFlushId :: nat
  fsStoringFlushId :: nat
  fsLastFlushId :: nat
  fsPendingToFlushNodes :: nat
  fsPendingToFlushProgram :: nat
  fsStoringNodes :: nat
  fsStoringProgram :: nat

definition getFlushStatus :: "MultiWrite \<Rightarrow> FlushStatus" where
  "getFlushStatus m = \<lparr>fsStoredFlushId = storedFlushId m, fsStoringFlushId = storingFlushId m,
     fsLastFlushId = lastFlushId m, fsPendingToFlushNodes = length (mdNodes (pendingData m)),
     fsPendingToFlushProgram = length (mdProgram (pendingData m)),
     fsStoringNodes = length (mdNodes (storingData m)), fsStoringProgram = length (mdProgram (storingData m))\<rparr>"

text \<open>
  The output parameters of \<open>getFlushData\<close> keep their values when the semaphore times out (\<open>woken\<close> is
  false) or the buffer has nothing for them; \<open>storedFlushId\<close> is never set.
\<close>

definition getFlushData ::
  "bool \<Rightarrow> MultiWrite \<Rightarrow> (string \<times> string) list \<Rightarrow> (string \<times> string) list \<Rightarrow> string
     \<Rightarrow> (string \<times> string) list \<times> (string \<times> string) list \<times> string"
where
  "getFlushData woken m nodes program stateRoot =
     (let data = mwData m ! synchronizingDataIndex m
      in if woken then (if mdNodes data \<noteq> [] then mdNodes data else nodes,
                        if mdProgram data \<noteq> [] then mdProgram data else program,
                        if mdStateRoot data \<noteq> [] then mdStateRoot data else stateRoot)
         else (nodes, program, stateRoot))"

end
