(* ===== verification/Sender_Build.thy ===== *)
theory Sender_Build
  imports Db_Sender
begin

text \<open>
  What \<open>sendData\<close> builds and what the server makes of it: the statements insert every row of the buffer,
  the building ends when every row fits into a query of its own, and a table that executes them has
  every row.
\<close>

section \<open>The statements of a list of queries\<close>

definition statementsOf :: "SingleQuery list \<Rightarrow> sql_statement list" where
  "statementsOf qs = concat (map sqStatements qs)"

text \<open>The rows a list of statements inserts, with the table (True for programs).\<close>

fun statementRows :: "sql_statement \<Rightarrow> (bool \<times> string \<times> string) set" where
  "statementRows (InsertRows b rows) = Pair b ` set rows"
| "statementRows (UpdateRow k v) = {}"

definition insertedRows :: "sql_statement list \<Rightarrow> (bool \<times> string \<times> string) set" where
  "insertedRows sts = \<Union> (statementRows ` set sts)"

lemma insertedRows_simps [simp]:
  "insertedRows [] = {}" "insertedRows (st # sts) = statementRows st \<union> insertedRows sts"
  "insertedRows (sts @ sts') = insertedRows sts \<union> insertedRows sts'"
  by (auto simp: insertedRows_def)

definition updatedKeys :: "sql_statement list \<Rightarrow> string set" where
  "updatedKeys sts = {k. \<exists>v. UpdateRow k v \<in> set sts}"

lemma updatedKeys_simps [simp]:
  "updatedKeys [] = {}" "updatedKeys (InsertRows b rows # sts) = updatedKeys sts"
  "updatedKeys (UpdateRow k v # sts) = insert k (updatedKeys sts)"
  "updatedKeys (sts @ sts') = updatedKeys sts \<union> updatedKeys sts'"
  by (auto simp: updatedKeys_def)

lemma statementsOf_simps [simp]:
  "statementsOf [] = []" "statementsOf (q # qs) = sqStatements q @ statementsOf qs"
  "statementsOf (qs @ qs') = statementsOf qs @ statementsOf qs'"
  by (simp_all add: statementsOf_def)

lemma openQuery_not_empty [simp]: "openQuery qs \<noteq> []"
  by (simp add: openQuery_def)

lemma statementsOf_openQuery [simp]: "statementsOf (openQuery qs) = statementsOf qs"
  by (simp add: openQuery_def newQuery_def)

lemma statementsOf_last:
  "qs \<noteq> [] \<Longrightarrow> statementsOf (butlast qs @ [(last qs)\<lparr>sqStatements := sqStatements (last qs) @ sts, sqFull := full\<rparr>]) =
     statementsOf qs @ sts"
  by (induction qs rule: rev_induct) simp_all

lemma unsent_openQuery: "list_all (Not \<circ> sqSent) (openQuery qs) = list_all (Not \<circ> sqSent) qs"
  by (simp add: openQuery_def newQuery_def)

lemma unsent_last:
  "list_all (Not \<circ> sqSent) qs \<Longrightarrow> qs \<noteq> [] \<Longrightarrow>
     list_all (Not \<circ> sqSent) (butlast qs @ [(last qs)\<lparr>sqStatements := sts, sqFull := full\<rparr>])"
  by (induction qs rule: rev_induct) simp_all

section \<open>Every row is inserted\<close>

lemma fillRows_rows:
  "fillRows limit n first rows = (taken, rest, full) \<Longrightarrow>
     set taken \<union> set rest = set rows \<and> length rest \<le> length rows \<and> (rest \<noteq> [] \<longleftrightarrow> full)"
proof (induction rows arbitrary: n first taken rest full)
  case (Cons row rows)
  obtain k v where row: "row = (k, v)" by fastforce
  let ?n = "n + (if first then 0 else 2) + length (rowText k v)"
  show ?case
  proof (cases "?n \<ge> limit")
    case True
    then show ?thesis using Cons.prems row by (auto simp: Let_def)
  next
    case False
    obtain t r f where rec: "fillRows limit ?n False rows = (t, r, f)" by (cases "fillRows limit ?n False rows")
    then have "taken = (k, v) # t \<and> rest = r \<and> full = f" using Cons.prems row False by (simp add: Let_def)
    then show ?thesis using Cons.IH [OF rec] row by auto
  qed
qed simp

lemma fillRows_progress:
  assumes "fillRows limit n True (row # rows) = (taken, rest, full)" "n + length (rowText (fst row) (snd row)) < limit"
  shows "length rest \<le> length rows"
proof -
  obtain k v where row: "row = (k, v)" by fastforce
  let ?n = "n + length (rowText k v)"
  obtain t r f where rec: "fillRows limit ?n False rows = (t, r, f)" by (cases "fillRows limit ?n False rows")
  then have "rest = r" using assms row by (simp add: Let_def)
  then show ?thesis using fillRows_rows [OF rec] by simp
qed

lemma addInsert_run:
  assumes "addInsert S b rows qs = (qs', rest)"
  shows "\<exists>taken. statementsOf qs' = statementsOf qs @ [InsertRows b taken] \<and> set taken \<union> set rest = set rows"
    "qs' \<noteq> []" "list_all (Not \<circ> sqSent) qs \<Longrightarrow> list_all (Not \<circ> sqSent) qs'"
    "length rest \<le> length rows" "rest \<noteq> [] \<longleftrightarrow> sqFull (last qs')"
proof -
  let ?qs = "openQuery qs"
  let ?n = "length (queryText S (last ?qs)) + length (insertHead S b)"
  obtain taken full where f: "fillRows (dbMultiWriteSingleQuerySize S) ?n True rows = (taken, rest, full)"
    "qs' = butlast ?qs @ [(last ?qs)\<lparr>sqStatements := sqStatements (last ?qs) @ [InsertRows b taken], sqFull := full\<rparr>]"
    using assms by (auto simp: addInsert_def Let_def split: prod.splits)
  show "\<exists>taken. statementsOf qs' = statementsOf qs @ [InsertRows b taken] \<and> set taken \<union> set rest = set rows"
    using f statementsOf_last [of ?qs] fillRows_rows [OF f(1)] by auto
  show "list_all (Not \<circ> sqSent) qs \<Longrightarrow> list_all (Not \<circ> sqSent) qs'"
    using f(2) unsent_last [of ?qs] unsent_openQuery by simp
  show "qs' \<noteq> []" "length rest \<le> length rows" "rest \<noteq> [] \<longleftrightarrow> sqFull (last qs')"
    using f(2) fillRows_rows [OF f(1)] by auto
qed

lemma addRows_run:
  assumes "addRows S b rows qs = Some qs'"
  shows "(\<exists>ins. statementsOf qs' = statementsOf qs @ map (InsertRows b) ins \<and> (\<Union> (set ` set ins)) = set rows) \<and>
    (list_all (Not \<circ> sqSent) qs \<longrightarrow> list_all (Not \<circ> sqSent) qs') \<and> (qs' = [] \<longrightarrow> rows = [])"
proof (rule addRows.raw_induct [where P = "\<lambda>S b rows qs qs'.
    (\<exists>ins. statementsOf qs' = statementsOf qs @ map (InsertRows b) ins \<and> (\<Union> (set ` set ins)) = set rows) \<and>
    (list_all (Not \<circ> sqSent) qs \<longrightarrow> list_all (Not \<circ> sqSent) qs') \<and> (qs' = [] \<longrightarrow> rows = [])", OF _ assms], goal_cases)
  case (1 addR S b rows qs qs')
  show ?case
  proof (cases "rows = []")
    case True
    then show ?thesis using 1(2) by (auto intro: exI [of _ "[]"])
  next
    case False
    obtain qs1 rest where r: "addInsert S b rows qs = (qs1, rest)" by fastforce
    note step = addInsert_run [OF r]
    have rec: "addR S b rest qs1 = Some qs'" using 1(2) False r by simp
    from 1(1) [OF rec] obtain ins where ins: "statementsOf qs' = statementsOf qs1 @ map (InsertRows b) ins"
      "(\<Union> (set ` set ins)) = set rest" by blast
    obtain taken where t: "statementsOf qs1 = statementsOf qs @ [InsertRows b taken]" "set taken \<union> set rest = set rows"
      using step(1) by blast
    have "statementsOf qs' = statementsOf qs @ map (InsertRows b) (taken # ins)" using ins(1) t(1) by simp
    moreover have "(\<Union> (set ` set (taken # ins))) = set rows" using ins(2) t(2) by auto
    moreover have "qs' \<noteq> []" using \<open>statementsOf qs' = _ @ map _ (taken # ins)\<close> by auto
    ultimately show ?thesis using 1(1) [OF rec] step(3) by blast
  qed
qed

section \<open>The building ends\<close>

text \<open>Every row fits into a query of its own, with room left.\<close>

definition rowsFit :: "SenderConfig \<Rightarrow> bool \<Rightarrow> (string \<times> string) set \<Rightarrow> bool" where
  "rowsFit S b rows \<longleftrightarrow>
     (\<forall>(k, v) \<in> rows. length (insertHead S b) + length (rowText k v) < dbMultiWriteSingleQuerySize S)"

definition freshQuery :: "SingleQuery list \<Rightarrow> bool" where
  "freshQuery qs \<longleftrightarrow> qs = [] \<or> sqFull (last qs)"

lemma addInsert_progress:
  assumes "addInsert S b (row # rows) qs = (qs', rest)" "freshQuery qs" "rowsFit S b {row}"
  shows "length rest \<le> length rows"
proof -
  have "queryText S (last (openQuery qs)) = []"
    using assms(2) by (simp add: openQuery_def freshQuery_def newQuery_def queryText_def)
  then obtain taken full where
    "fillRows (dbMultiWriteSingleQuerySize S) (length (insertHead S b)) True (row # rows) = (taken, rest, full)"
    using assms(1) by (auto simp: addInsert_def Let_def simp del: fillRows.simps split: prod.splits)
  then show ?thesis using assms(3) fillRows_progress by (auto simp: rowsFit_def)
qed

lemma addRows_ends: "rowsFit S b (set rows) \<Longrightarrow> \<exists>qs'. addRows S b rows qs = Some qs'"
proof (induction "2 * length rows + (if freshQuery qs then 0 else 1)" arbitrary: rows qs rule: less_induct)
  case less
  show ?case
  proof (cases rows)
    case Nil
    then show ?thesis by (subst addRows.simps) simp
  next
    case (Cons row rows')
    obtain qs1 rest where r: "addInsert S b rows qs = (qs1, rest)" by fastforce
    note step = addInsert_run [OF r]
    have "set rest \<subseteq> set rows" using step(1) by auto
    then have fit: "rowsFit S b (set rest)" using less(2) by (auto simp: rowsFit_def)
    have "length rest < length rows" if "freshQuery qs"
      using addInsert_progress [of S b row rows' qs qs1 rest] r that less(2) Cons by (simp add: rowsFit_def)
    moreover have "freshQuery qs1 \<longleftrightarrow> rest \<noteq> []" using step(2,5) by (simp add: freshQuery_def)
    ultimately have "2 * length rest + (if freshQuery qs1 then 0 else 1) < 2 * length rows + (if freshQuery qs then 0 else 1)"
      using step(4) Cons by (cases rest) auto
    from less(1) [OF this fit] show ?thesis using r Cons by (subst addRows.simps) simp
  qed
qed

text \<open>A row that does not fit is never passed: the loop goes on for ever.\<close>

lemma addInsert_stuck:
  assumes "addInsert S b (row # rows) qs = (qs', rest)"
    "length (insertHead S b) + length (rowText (fst row) (snd row)) \<ge> dbMultiWriteSingleQuerySize S"
  shows "rest = row # rows"
  using assms by (cases row) (auto simp: addInsert_def Let_def split: prod.splits)

lemma addRows_stuck:
  assumes "addRows S b rows qs = Some qs'" "rows \<noteq> []"
  shows "\<not> length (insertHead S b) + length (rowText (fst (hd rows)) (snd (hd rows))) \<ge> dbMultiWriteSingleQuerySize S"
  using assms(2)
proof (rule addRows.raw_induct [where P = "\<lambda>S b rows qs qs'. rows \<noteq> [] \<longrightarrow>
    \<not> length (insertHead S b) + length (rowText (fst (hd rows)) (snd (hd rows))) \<ge> dbMultiWriteSingleQuerySize S",
    OF _ assms(1), THEN mp, rotated], goal_cases)
  case (1 addR S b rows qs qs')
  show ?case
  proof (intro impI notI)
    assume ne: "rows \<noteq> []"
      and big: "length (insertHead S b) + length (rowText (fst (hd rows)) (snd (hd rows))) \<ge> dbMultiWriteSingleQuerySize S"
    obtain qs1 rest where r: "addInsert S b rows qs = (qs1, rest)" by fastforce
    then have "rest = rows" using addInsert_stuck [of S b "hd rows" "tl rows" qs qs1 rest] ne big by simp
    moreover have "addR S b rest qs1 = Some qs'" using 1(2) ne r by simp
    ultimately show False using 1(1) [of S b rest qs1 qs'] ne big by blast
  qed
qed

section \<open>All the statements\<close>

definition bufferFits :: "SenderConfig \<Rightarrow> MultiWriteData \<Rightarrow> bool" where
  "bufferFits S data \<longleftrightarrow> rowsFit S False (set (mdNodes data)) \<and> rowsFit S True (set (mdProgram data))"

text \<open>The rows of a buffer that are sent, those not yet accepted from the intray left out.\<close>

definition sentRows :: "MultiWriteData \<Rightarrow> (bool \<times> string \<times> string) set" where
  "sentRows data = Pair False ` set (mdNodes data) \<union> Pair True ` set (mdProgram data)"

lemma insertedRows_map: "insertedRows (map (InsertRows b) ins) = Pair b ` (\<Union> (set ` set ins))"
  by (induction ins) auto

lemma updatedKeys_map [simp]: "updatedKeys (map (InsertRows b) ins) = {}"
  by (induction ins) auto

lemma addUpdate_run:
  "statementsOf (addUpdate root qs) = statementsOf qs @ (if root = [] then [] else [UpdateRow dbStateRootKey root])"
  "list_all (Not \<circ> sqSent) qs \<Longrightarrow> list_all (Not \<circ> sqSent) (addUpdate root qs)"
  "addUpdate root qs = [] \<longleftrightarrow> qs = [] \<and> root = []"
  using statementsOf_last [of "openQuery qs"] unsent_last [of "openQuery qs"] unsent_openQuery [of qs]
  by (auto simp: addUpdate_def Let_def)

lemma buildQueries_run:
  assumes "buildQueries S data = Some qs"
  shows "insertedRows (statementsOf qs) = sentRows data" "updatedKeys (statementsOf qs) \<subseteq> {dbStateRootKey}"
    "list_all (Not \<circ> sqSent) qs" "qs = [] \<Longrightarrow> mdNodes data = [] \<and> mdProgram data = [] \<and> mdStateRoot data = []"
proof -
  obtain qs1 qs2 where q: "addRows S False (mdNodes data) [] = Some qs1" "addRows S True (mdProgram data) qs1 = Some qs2"
    "qs = addUpdate (mdStateRoot data) qs2" using assms by (auto simp: buildQueries_def split: option.splits)
  obtain ins1 where i1: "statementsOf qs1 = map (InsertRows False) ins1" "(\<Union> (set ` set ins1)) = set (mdNodes data)"
    "list_all (Not \<circ> sqSent) qs1" "qs1 = [] \<Longrightarrow> mdNodes data = []" using addRows_run [OF q(1)] by auto
  obtain ins2 where i2: "statementsOf qs2 = statementsOf qs1 @ map (InsertRows True) ins2"
    "(\<Union> (set ` set ins2)) = set (mdProgram data)" "list_all (Not \<circ> sqSent) qs2" "qs2 = [] \<Longrightarrow> mdProgram data = []"
    using addRows_run [OF q(2)] i1(3) by auto
  show "insertedRows (statementsOf qs) = sentRows data"
    using q(3) i1(1,2) i2(1,2) by (simp add: addUpdate_run insertedRows_map sentRows_def)
  show "updatedKeys (statementsOf qs) \<subseteq> {dbStateRootKey}" using q(3) i1(1) i2(1) by (simp add: addUpdate_run)
  show "list_all (Not \<circ> sqSent) qs" using q(3) i2(3) by (simp add: addUpdate_run)
  assume "qs = []"
  then have "qs2 = []" "mdStateRoot data = []" using q(3) by (simp_all add: addUpdate_run)
  then have "set ins1 = {}" using i1(1) i2(1) by simp
  then show "mdNodes data = [] \<and> mdProgram data = [] \<and> mdStateRoot data = []"
    using \<open>qs2 = []\<close> \<open>mdStateRoot data = []\<close> i1(2) i2(4) by simp
qed

lemma buildQueries_ends:
  assumes "bufferFits S data"
  shows "\<exists>qs. buildQueries S data = Some qs"
proof -
  obtain qs1 where "addRows S False (mdNodes data) [] = Some qs1"
    using addRows_ends [of S False "mdNodes data"] assms by (auto simp: bufferFits_def)
  moreover obtain qs2 where "addRows S True (mdProgram data) qs1 = Some qs2"
    using addRows_ends [of S True "mdProgram data"] assms by (auto simp: bufferFits_def)
  ultimately show ?thesis by (simp add: buildQueries_def)
qed

section \<open>The server\<close>

text \<open>
  The documented effect of the statements on the two tables (False for nodes, True for programs): an
  insert leaves a row that is there as it is, an update changes an existing row.
\<close>

type_synonym sql_tables = "bool \<Rightarrow> string \<Rightarrow> string option"

fun applyStatement :: "sql_statement \<Rightarrow> sql_tables \<Rightarrow> sql_tables" where
  "applyStatement (InsertRows b rows) T = T(b := map_of rows ++ T b)"
| "applyStatement (UpdateRow k v) T =
     (if T False k = None then T else T(False := (T False)(k \<mapsto> v)))"

text \<open>A transaction happens or not; when the client gets an exception, it may still have been committed.\<close>

definition serverExecutes :: "('e, 'r) DatabaseConfig \<Rightarrow> ('r \<Rightarrow> sql_tables) \<Rightarrow> bool" where
  "serverExecutes C rv \<longleftrightarrow>
     (\<forall>sts r ok r'. sqlExec C sts r = (ok, r') \<longrightarrow>
        rv r' = fold applyStatement sts (rv r) \<or> \<not> ok \<and> rv r' = rv r)"

definition tableKeys :: "sql_tables \<Rightarrow> (bool \<times> string) set" where
  "tableKeys T = {(b, k). T b k \<noteq> None}"

text \<open>
  Keys are hashes: whatever is stored under a key has the content that belongs to it.  The row of the
  current root is the exception.
\<close>

definition goodRow :: "(bool \<Rightarrow> string \<Rightarrow> string) \<Rightarrow> bool \<times> string \<times> string \<Rightarrow> bool" where
  "goodRow content row \<longleftrightarrow> (case row of (b, k, v) \<Rightarrow> v = content b k \<and> (b \<or> k \<noteq> dbStateRootKey))"

definition tableOk :: "(bool \<Rightarrow> string \<Rightarrow> string) \<Rightarrow> sql_tables \<Rightarrow> bool" where
  "tableOk content T \<longleftrightarrow> (\<forall>b k v. T b k = Some v \<longrightarrow> b \<or> k \<noteq> dbStateRootKey \<longrightarrow> v = content b k)"

definition rowKeys :: "(bool \<times> string \<times> string) set \<Rightarrow> (bool \<times> string) set" where
  "rowKeys rows = (\<lambda>row. (fst row, fst (snd row))) ` rows"

lemma rowKeys_simps [simp]:
  "rowKeys {} = {}" "rowKeys (rows \<union> rows') = rowKeys rows \<union> rowKeys rows'"
  "rowKeys (insert row rows) = insert (fst row, fst (snd row)) (rowKeys rows)"
  by (auto simp: rowKeys_def)

lemma rowKeys_mono: "rows \<subseteq> rows' \<Longrightarrow> rowKeys rows \<subseteq> rowKeys rows'"
  unfolding rowKeys_def by (rule image_mono)

lemma rowKeys_Pair: "rowKeys (Pair b ` rows) = Pair b ` fst ` rows"
  by (simp add: rowKeys_def image_image)

lemma applyStatement_run:
  assumes "tableOk content T" "\<forall>row \<in> statementRows st. goodRow content row" "updatedKeys [st] \<subseteq> {dbStateRootKey}"
  shows "tableOk content (applyStatement st T)"
    "tableKeys (applyStatement st T) = tableKeys T \<union> rowKeys (statementRows st)"
proof -
  have content: "v = content b k" if "T b k = Some v" "b \<or> k \<noteq> dbStateRootKey" for b k v
    using assms(1) that unfolding tableOk_def by blast
  show "tableOk content (applyStatement st T)"
  proof (cases st)
    case (InsertRows b rows)
    have row: "v = content b k" if "map_of rows k = Some v" for k v
      using assms(2) map_of_SomeD [OF that] InsertRows by (auto simp: goodRow_def)
    show ?thesis unfolding InsertRows tableOk_def using row content
      by (cases b) (auto simp: map_add_def split: option.splits if_splits)
  next
    case (UpdateRow k v)
    then show ?thesis using assms(3) content by (auto simp: tableOk_def)
  qed
  show "tableKeys (applyStatement st T) = tableKeys T \<union> rowKeys (statementRows st)"
  proof (cases st)
    case (InsertRows b rows)
    have "(b', k) \<in> tableKeys (applyStatement st T) \<longleftrightarrow> (b', k) \<in> tableKeys T \<or> b' = b \<and> k \<in> fst ` set rows" for b' k
      using map_of_eq_None_iff [of rows k] unfolding InsertRows
      by (cases "map_of rows k"; cases "T b k") (auto simp: tableKeys_def map_add_def split: if_splits)
    then show ?thesis unfolding InsertRows statementRows.simps rowKeys_Pair by auto
  next
    case (UpdateRow k v)
    then show ?thesis by (auto simp: tableKeys_def rowKeys_def split: if_splits)
  qed
qed

lemma applyStatements_run:
  assumes "tableOk content T" "\<forall>row \<in> insertedRows sts. goodRow content row" "updatedKeys sts \<subseteq> {dbStateRootKey}"
  shows "tableOk content (fold applyStatement sts T) \<and>
     tableKeys (fold applyStatement sts T) = tableKeys T \<union> rowKeys (insertedRows sts)"
  using assms
proof (induction sts arbitrary: T)
  case (Cons st sts)
  have "updatedKeys [st] \<subseteq> {dbStateRootKey}" "updatedKeys sts \<subseteq> {dbStateRootKey}"
    using Cons.prems(3) by (auto simp: updatedKeys_def)
  with applyStatement_run [OF Cons.prems(1), of st] Cons.IH [of "applyStatement st T"] Cons.prems(2)
  show ?case by auto
qed simp

text \<open>Sending: what is marked as sent is in the tables, and after success everything is.\<close>

definition sentQueries :: "(bool \<times> string) set \<Rightarrow> SingleQuery list \<Rightarrow> bool" where
  "sentQueries K qs \<longleftrightarrow> (\<forall>q \<in> set qs. sqSent q \<longrightarrow> rowKeys (insertedRows (sqStatements q)) \<subseteq> K)"

definition goodQueries :: "(bool \<Rightarrow> string \<Rightarrow> string) \<Rightarrow> SingleQuery list \<Rightarrow> bool" where
  "goodQueries content qs \<longleftrightarrow>
     (\<forall>row \<in> insertedRows (statementsOf qs). goodRow content row) \<and> updatedKeys (statementsOf qs) \<subseteq> {dbStateRootKey}"

lemma sentQueries_mono: "K \<subseteq> K' \<Longrightarrow> sentQueries K qs \<Longrightarrow> sentQueries K' qs"
  unfolding sentQueries_def by blast

lemma sendQueries_run:
  assumes "sendQueries C qs r = (ok, qs', r')" "serverExecutes C rv" "tableOk content (rv r)" "goodQueries content qs"
    "sentQueries (tableKeys (rv r)) qs"
  shows "tableOk content (rv r') \<and> tableKeys (rv r) \<subseteq> tableKeys (rv r') \<and> statementsOf qs' = statementsOf qs \<and>
     length qs' = length qs \<and> sentQueries (tableKeys (rv r')) qs' \<and>
     (ok \<longrightarrow> rowKeys (insertedRows (statementsOf qs)) \<subseteq> tableKeys (rv r')) \<and> (\<not> ok \<longrightarrow> qs' \<noteq> [])"
  using assms
proof (induction C qs r arbitrary: ok qs' r' rule: sendQueries.induct)
  case (1 C r)
  then show ?case by (simp add: sentQueries_def)
next
  case (2 C q qs r)
  have good: "goodQueries content qs" "\<forall>row \<in> insertedRows (sqStatements q). goodRow content row"
    "updatedKeys (sqStatements q) \<subseteq> {dbStateRootKey}" using 2(6) by (auto simp: goodQueries_def)
  show ?case
  proof (cases "sqSent q")
    case True
    obtain qs1 where s: "sendQueries C qs r = (ok, qs1, r')" "qs' = q # qs1"
      using 2(3) True by (auto split: prod.splits)
    have "sentQueries (tableKeys (rv r)) qs" using 2(7) by (simp add: sentQueries_def)
    from 2(1) [OF True s(1) 2(4,5) good(1) this]
    show ?thesis using s(2) True 2(7) by (auto simp: sentQueries_def)
  next
    case False
    obtain ok1 r1 where e: "sqlExec C (sqStatements q) r = (ok1, r1)" by fastforce
    then have r1: "rv r1 = fold applyStatement (sqStatements q) (rv r) \<or> \<not> ok1 \<and> rv r1 = rv r"
      using 2(4) by (simp add: serverExecutes_def)
    note run = applyStatements_run [OF 2(5) good(2,3)]
    have ok1: "tableOk content (rv r1)" "tableKeys (rv r) \<subseteq> tableKeys (rv r1)" using r1 run 2(5) by auto
    show ?thesis
    proof (cases ok1)
      case False
      then show ?thesis
        using 2(3) e ok1 sentQueries_mono [OF ok1(2) 2(7)] \<open>\<not> sqSent q\<close> by (auto split: bool.splits)
    next
      case True
      obtain qs1 where s: "sendQueries C qs r1 = (ok, qs1, r')" "qs' = q\<lparr>sqSent := True\<rparr> # qs1"
        using 2(3) True \<open>\<not> sqSent q\<close> e by (auto split: prod.splits)
      have "sentQueries (tableKeys (rv r1)) qs" using sentQueries_mono [OF ok1(2) 2(7)] by (simp add: sentQueries_def)
      from 2(2) [OF \<open>\<not> sqSent q\<close> e [symmetric] eqTrueI [OF True] s(1) 2(4) ok1(1) good(1) this]
      show ?thesis using s(2) run r1 True ok1(2) by (auto simp: sentQueries_def)
    qed
  qed
qed

end
