(* ===== verification/Sender_Inv.thy ===== *)
theory Sender_Inv
  imports Sender_Build State_Inv
begin

text \<open>
  The invariant of the sender thread and of the operations of the database class that run between its
  rounds: no key that was written is lost, and a flush that counts as stored is in the tables.
\<close>

section \<open>The buffers\<close>

definition bufferRows :: "MultiWriteData \<Rightarrow> (bool \<times> string \<times> string) set" where
  "bufferRows d = sentRows d \<union> Pair False ` set (mdNodesIntray d) \<union> Pair True ` set (mdProgramIntray d)"

lemma set_insertNew: "set m \<subseteq> set (insertNew m n)" "set (insertNew m n) \<subseteq> set m \<union> set n"
  "fst ` set (insertNew m n) = fst ` set m \<union> fst ` set n"
  by (auto simp: insertNew_def)

lemma acceptIntray_maps:
  "set (mdNodes (acceptIntray d)) \<subseteq> set (mdNodes d) \<union> set (mdNodesIntray d)"
  "set (mdProgram (acceptIntray d)) \<subseteq> set (mdProgram d) \<union> set (mdProgramIntray d)"
  "fst ` set (mdNodes (acceptIntray d)) = fst ` set (mdNodes d) \<union> fst ` set (mdNodesIntray d)"
  "fst ` set (mdProgram (acceptIntray d)) = fst ` set (mdProgram d) \<union> fst ` set (mdProgramIntray d)"
  using set_insertNew [of "mdNodes d" "mdNodesIntray d"] set_insertNew [of "mdProgram d" "mdProgramIntray d"]
  unfolding acceptIntray_def Let_def by (auto simp del: set_append)

lemma acceptIntray_rows:
  "bufferRows (acceptIntray d) \<subseteq> bufferRows d" "rowKeys (bufferRows (acceptIntray d)) = rowKeys (bufferRows d)"
  "sentRows (acceptIntray d) = bufferRows (acceptIntray d)"
proof -
  show sent: "sentRows (acceptIntray d) = bufferRows (acceptIntray d)"
    by (simp add: bufferRows_def acceptIntray_fields)
  show "bufferRows (acceptIntray d) \<subseteq> bufferRows d"
    using acceptIntray_maps(1,2) [of d] unfolding sent [symmetric] by (auto simp: bufferRows_def sentRows_def)
  show "rowKeys (bufferRows (acceptIntray d)) = rowKeys (bufferRows d)"
    unfolding sent [symmetric] by (auto simp: bufferRows_def sentRows_def rowKeys_Pair acceptIntray_maps)
qed

lemma bufferRows_empty: "mdIsEmpty d \<Longrightarrow> bufferRows d = {}"
  by (simp add: mdIsEmpty_def bufferRows_def sentRows_def)

section \<open>The invariant\<close>

definition wfIndex :: "MultiWrite \<Rightarrow> bool" where
  "wfIndex m \<longleftrightarrow> length (mwData m) = 3 \<and> storingDataIndex m < 3 \<and>
     pendingToFlushDataIndex m = nextIndex (storingDataIndex m) \<and>
     storedFlushId m \<le> lastFlushId m \<and> storingFlushId m \<le> lastFlushId m"

definition pendingOk :: "(bool \<Rightarrow> string \<Rightarrow> string) \<Rightarrow> MultiWriteData \<Rightarrow> bool" where
  "pendingOk content p \<longleftrightarrow> (\<forall>row \<in> bufferRows p. goodRow content row) \<and> mdQueries p = [] \<and> \<not> mdStored p"

text \<open>
  Between two rounds a buffer without queries is in the tables; a failed round leaves its queries.  When
  the sender has taken a buffer over, there is data in it.
\<close>

definition storingOk ::
  "(bool \<Rightarrow> string \<Rightarrow> string) \<Rightarrow> (bool \<times> string) set \<Rightarrow> bool \<Rightarrow> MultiWriteData \<Rightarrow> bool" where
  "storingOk content K sending s \<longleftrightarrow>
     (\<forall>row \<in> bufferRows s. goodRow content row) \<and> sentRows s = bufferRows s \<and>
     (mdQueries s \<noteq> [] \<or> sending \<longrightarrow> \<not> mdStored s \<and> \<not> mdIsEmpty s) \<and>
     (mdQueries s \<noteq> [] \<longrightarrow> goodQueries content (mdQueries s) \<and> sentQueries K (mdQueries s) \<and>
        rowKeys (sentRows s) \<subseteq> rowKeys (insertedRows (statementsOf (mdQueries s)))) \<and>
     (mdQueries s = [] \<and> \<not> sending \<longrightarrow> rowKeys (sentRows s) \<subseteq> K)"

definition knownKeys :: "sql_tables \<Rightarrow> MultiWrite \<Rightarrow> (bool \<times> string) set" where
  "knownKeys T m = tableKeys T \<union> rowKeys (sentRows (storingData m)) \<union> rowKeys (bufferRows (pendingData m))"

text \<open>\<open>F n\<close> is what was known when the flush with the number n was asked for.\<close>

definition historyOk :: "sql_tables \<Rightarrow> MultiWrite \<Rightarrow> (nat \<Rightarrow> (bool \<times> string) set) \<Rightarrow> bool" where
  "historyOk T m F \<longleftrightarrow>
     (\<forall>n. F n \<subseteq> knownKeys T m) \<and>
     (\<forall>n \<le> storingFlushId m. F n \<subseteq> tableKeys T \<union> rowKeys (sentRows (storingData m))) \<and>
     (\<forall>n \<le> storedFlushId m. F n \<subseteq> tableKeys T)"

definition senderInv ::
  "(bool \<Rightarrow> string \<Rightarrow> string) \<Rightarrow> sql_tables \<Rightarrow> MultiWrite \<Rightarrow> bool \<Rightarrow> (nat \<Rightarrow> (bool \<times> string) set) \<Rightarrow> bool" where
  "senderInv content T m sending F \<longleftrightarrow> wfIndex m \<and> tableOk content T \<and> pendingOk content (pendingData m) \<and>
     storingOk content (tableKeys T) sending (storingData m) \<and> historyOk T m F"

lemma nextIndex_facts: "i < 3 \<Longrightarrow> nextIndex i < 3" "i < 3 \<Longrightarrow> nextIndex i \<noteq> i" "i < 3 \<Longrightarrow> nextIndex (nextIndex i) \<noteq> i"
  unfolding nextIndex_def by presburger+

lemma storingOk_mono: "K \<subseteq> K' \<Longrightarrow> storingOk content K sending s \<Longrightarrow> storingOk content K' sending s"
  using sentQueries_mono unfolding storingOk_def by blast

section \<open>The operations on the pending buffer\<close>

lemma updatePending_data:
  assumes "wfIndex m"
  shows "pendingData (updatePending f m) = f (pendingData m)" "storingData (updatePending f m) = storingData m"
    "wfIndex (updatePending f m)"
  using assms nextIndex_facts [of "storingDataIndex m"]
  by (auto simp: updatePending_def pendingData_def storingData_def wfIndex_def)

lemma inv_updatePending:
  assumes "senderInv content T m sending F" "pendingOk content (f (pendingData m))"
    "rowKeys (bufferRows (pendingData m)) \<subseteq> rowKeys (bufferRows (f (pendingData m)))"
  shows "senderInv content T (updatePending f m) sending F" "knownKeys T m \<subseteq> knownKeys T (updatePending f m)"
proof -
  have wf: "wfIndex m" using assms(1) by (simp add: senderInv_def)
  note data = updatePending_data [OF wf, of f]
  show known: "knownKeys T m \<subseteq> knownKeys T (updatePending f m)" using assms(3) data by (auto simp: knownKeys_def)
  have "storingFlushId (updatePending f m) = storingFlushId m" "storedFlushId (updatePending f m) = storedFlushId m"
    by (simp_all add: updatePending_def)
  then have "historyOk T (updatePending f m) F"
    using assms(1) known data unfolding senderInv_def historyOk_def by (metis order_trans)
  then show "senderInv content T (updatePending f m) sending F" using assms(1,2) data by (simp add: senderInv_def)
qed

lemma bufferRows_write:
  "bufferRows (d\<lparr>mdNodesIntray := AList.update k v (mdNodesIntray d)\<rparr>) \<subseteq> insert (False, k, v) (bufferRows d)"
  "bufferRows (d\<lparr>mdProgramIntray := AList.update k v (mdProgramIntray d)\<rparr>) \<subseteq> insert (True, k, v) (bufferRows d)"
  "rowKeys (bufferRows (d\<lparr>mdNodesIntray := AList.update k v (mdNodesIntray d)\<rparr>)) = insert (False, k) (rowKeys (bufferRows d))"
  "rowKeys (bufferRows (d\<lparr>mdProgramIntray := AList.update k v (mdProgramIntray d)\<rparr>)) = insert (True, k) (rowKeys (bufferRows d))"
proof -
  have set: "set (AList.update k v al) \<subseteq> insert (k, v) (set al)" for al :: "(string \<times> string) list"
    by (induction al) auto
  have dom: "fst ` set (AList.update k v al) = insert k (fst ` set al)" for al :: "(string \<times> string) list"
    using dom_update [of k v al] by simp
  show "bufferRows (d\<lparr>mdNodesIntray := AList.update k v (mdNodesIntray d)\<rparr>) \<subseteq> insert (False, k, v) (bufferRows d)"
    "bufferRows (d\<lparr>mdProgramIntray := AList.update k v (mdProgramIntray d)\<rparr>) \<subseteq> insert (True, k, v) (bufferRows d)"
    using set [of "mdNodesIntray d"] set [of "mdProgramIntray d"] by (auto simp: bufferRows_def sentRows_def)
  show "rowKeys (bufferRows (d\<lparr>mdNodesIntray := AList.update k v (mdNodesIntray d)\<rparr>)) = insert (False, k) (rowKeys (bufferRows d))"
    "rowKeys (bufferRows (d\<lparr>mdProgramIntray := AList.update k v (mdProgramIntray d)\<rparr>)) = insert (True, k) (rowKeys (bufferRows d))"
    using dom by (auto simp: bufferRows_def sentRows_def rowKeys_Pair)
qed

definition writePending :: "bool \<Rightarrow> string \<Rightarrow> string \<Rightarrow> MultiWriteData \<Rightarrow> MultiWriteData" where
  "writePending b k v p =
     (if b then p\<lparr>mdProgramIntray := AList.update k v (mdProgramIntray p)\<rparr>
      else p\<lparr>mdNodesIntray := AList.update k v (mdNodesIntray p)\<rparr>)"

lemma inv_write:
  assumes "senderInv content T m sending F" "goodRow content (b, k, v)"
  shows "senderInv content T (updatePending (writePending b k v) m) sending F"
    "knownKeys T m \<subseteq> knownKeys T (updatePending (writePending b k v) m)"
    "(b, k) \<in> knownKeys T (updatePending (writePending b k v) m)"
proof -
  let ?p = "pendingData m"
  have p: "pendingOk content ?p" "wfIndex m" using assms(1) by (simp_all add: senderInv_def)
  have rows: "bufferRows (writePending b k v ?p) \<subseteq> insert (b, k, v) (bufferRows ?p)"
    "rowKeys (bufferRows (writePending b k v ?p)) = insert (b, k) (rowKeys (bufferRows ?p))"
    unfolding writePending_def using bufferRows_write [where k = k and v = v and d = ?p] by (cases b; simp)+
  then have "pendingOk content (writePending b k v ?p)"
    using p(1) assms(2) unfolding pendingOk_def by (auto simp: writePending_def)
  then show "senderInv content T (updatePending (writePending b k v) m) sending F"
    "knownKeys T m \<subseteq> knownKeys T (updatePending (writePending b k v) m)"
    using inv_updatePending [OF assms(1), of "writePending b k v"] rows(2) by auto
  show "(b, k) \<in> knownKeys T (updatePending (writePending b k v) m)"
    using rows(2) updatePending_data [OF p(2)] by (simp add: knownKeys_def)
qed

lemma inv_root:
  assumes "senderInv content T m sending F"
  shows "senderInv content T (updatePending (\<lambda>p. p\<lparr>mdStateRoot := v\<rparr>) m) sending F"
    "knownKeys T m \<subseteq> knownKeys T (updatePending (\<lambda>p. p\<lparr>mdStateRoot := v\<rparr>) m)"
proof -
  have rows: "bufferRows ((pendingData m)\<lparr>mdStateRoot := v\<rparr>) = bufferRows (pendingData m)"
    by (simp add: bufferRows_def sentRows_def)
  then have "pendingOk content ((pendingData m)\<lparr>mdStateRoot := v\<rparr>)"
    using assms by (simp add: senderInv_def pendingOk_def)
  then show "senderInv content T (updatePending (\<lambda>p. p\<lparr>mdStateRoot := v\<rparr>) m) sending F"
    "knownKeys T m \<subseteq> knownKeys T (updatePending (\<lambda>p. p\<lparr>mdStateRoot := v\<rparr>) m)"
    using inv_updatePending [OF assms, of "\<lambda>p. p\<lparr>mdStateRoot := v\<rparr>"] rows by simp_all
qed

lemma pendingOk_accept: "pendingOk content p \<Longrightarrow> pendingOk content (acceptIntray p)"
  using acceptIntray_rows(1) [of p] acceptIntray_fields [of p] unfolding pendingOk_def by auto

lemma inv_accept:
  assumes "senderInv content T m sending F"
  shows "senderInv content T (updatePending acceptIntray m) sending F"
    "knownKeys T (updatePending acceptIntray m) = knownKeys T m"
  using inv_updatePending [OF assms, of acceptIntray] pendingOk_accept [of content "pendingData m"]
    acceptIntray_rows(2) [of "pendingData m"] updatePending_data [of m acceptIntray] assms
  by (simp_all add: senderInv_def knownKeys_def)

lemma inv_flush:
  assumes "senderInv content T m sending F"
  shows "senderInv content T (m\<lparr>lastFlushId := lastFlushId m + 1\<rparr>) sending (F(lastFlushId m + 1 := knownKeys T m))"
proof -
  let ?m = "m\<lparr>lastFlushId := lastFlushId m + 1\<rparr>"
  have data: "pendingData ?m = pendingData m" "storingData ?m = storingData m"
    by (simp_all add: pendingData_def storingData_def)
  then have known: "knownKeys T ?m = knownKeys T m" by (simp add: knownKeys_def)
  have "n \<le> storingFlushId m \<Longrightarrow> n \<noteq> lastFlushId m + 1" "n \<le> storedFlushId m \<Longrightarrow> n \<noteq> lastFlushId m + 1" for n
    using assms by (auto simp: senderInv_def wfIndex_def)
  then have "historyOk T ?m (F(lastFlushId m + 1 := knownKeys T m))"
    using assms data known by (simp add: senderInv_def historyOk_def)
  then show ?thesis using assms data by (simp add: senderInv_def wfIndex_def)
qed

section \<open>The sender takes the pending buffer over\<close>

lemma switchData_run:
  assumes "wfIndex m"
  shows "storingData (switchData m) = acceptIntray (pendingData m)" "pendingData (switchData m) = mdReset"
    "wfIndex (switchData m)" "storedFlushId (switchData m) = storedFlushId m"
    "storingFlushId (switchData m) = lastFlushId m" "lastFlushId (switchData m) = lastFlushId m"
proof -
  note i = nextIndex_facts [of "storingDataIndex m"] nextIndex_facts [of "nextIndex (storingDataIndex m)"]
  show "storingData (switchData m) = acceptIntray (pendingData m)" "pendingData (switchData m) = mdReset"
    "wfIndex (switchData m)" "storedFlushId (switchData m) = storedFlushId m"
    "storingFlushId (switchData m) = lastFlushId m" "lastFlushId (switchData m) = lastFlushId m"
    using assms i by (simp_all add: switchData_def Let_def updatePending_def storingData_def pendingData_def wfIndex_def)
qed

lemma inv_take:
  assumes "senderInv content T m False F" "senderTake m = (send, m')"
  shows "senderInv content T m' send F" "knownKeys T m' = knownKeys T m"
    "\<not> send \<Longrightarrow> storedFlushId m' = lastFlushId m' \<and> mdQueries (storingData m') = [] \<and> mdIsEmpty (pendingData m')"
    "send \<Longrightarrow> mdQueries (storingData m) = [] \<Longrightarrow> storingFlushId m' = lastFlushId m' \<and> mdIsEmpty (pendingData m')"
    "send \<Longrightarrow> mdQueries (storingData m) \<noteq> [] \<Longrightarrow> m' = m" "lastFlushId m' = lastFlushId m"
proof -
  have wf: "wfIndex m" and p: "pendingOk content (pendingData m)" and T: "tableOk content T"
    and s: "storingOk content (tableKeys T) False (storingData m)" and h: "historyOk T m F"
    using assms(1) by (simp_all add: senderInv_def)
  consider (retry) "mdQueries (storingData m) \<noteq> []" | (idle) "mdQueries (storingData m) = []" "mdIsEmpty (pendingData m)"
    | (switch) "mdQueries (storingData m) = []" "\<not> mdIsEmpty (pendingData m)" by blast
  then have "senderInv content T m' send F \<and> knownKeys T m' = knownKeys T m \<and> lastFlushId m' = lastFlushId m \<and>
    (\<not> send \<longrightarrow> storedFlushId m' = lastFlushId m' \<and> mdQueries (storingData m') = [] \<and> mdIsEmpty (pendingData m')) \<and>
    (send \<longrightarrow> mdQueries (storingData m) = [] \<longrightarrow> storingFlushId m' = lastFlushId m' \<and> mdIsEmpty (pendingData m')) \<and>
    (send \<longrightarrow> mdQueries (storingData m) \<noteq> [] \<longrightarrow> m' = m)"
  proof cases
    case retry
    then have "send" "m' = m" using assms(2) by (simp_all add: senderTake_def)
    then show ?thesis using assms(1) retry by (auto simp: senderInv_def storingOk_def)
  next
    case idle
    then have m': "\<not> send" "m' = m\<lparr>storedFlushId := lastFlushId m\<rparr>" using assms(2) by (simp_all add: senderTake_def)
    then have data: "pendingData m' = pendingData m" "storingData m' = storingData m"
      by (simp_all add: pendingData_def storingData_def)
    have "rowKeys (sentRows (storingData m)) \<subseteq> tableKeys T" using s idle unfolding storingOk_def by blast
    then have "knownKeys T m = tableKeys T" using idle bufferRows_empty by (auto simp: knownKeys_def)
    then have "historyOk T m' F" using h m' data by (auto simp: historyOk_def knownKeys_def)
    then show ?thesis using m' data assms(1) idle by (auto simp: senderInv_def knownKeys_def wfIndex_def)
  next
    case switch
    note sw = switchData_run [OF wf]
    have ne: "\<not> mdIsEmpty (acceptIntray (pendingData m))" using switch by (simp add: acceptIntray_fields)
    then have m': "send" "m' = switchData m" using assms(2) switch sw(1) by (simp_all add: senderTake_def Let_def)
    note p' = pendingOk_accept [OF p] and rows = acceptIntray_rows [of "pendingData m"]
    have old: "rowKeys (sentRows (storingData m)) \<subseteq> tableKeys T" using s switch unfolding storingOk_def by blast
    have reset: "pendingOk content mdReset" "bufferRows mdReset = {}" "mdIsEmpty mdReset"
      by (simp_all add: pendingOk_def mdReset_def bufferRows_def sentRows_def mdIsEmpty_def)
    have known: "knownKeys T m' = knownKeys T m" using m'(2) sw old rows reset by (auto simp: knownKeys_def)
    have "storingOk content (tableKeys T) True (acceptIntray (pendingData m))"
      using p' ne rows(3) by (simp add: storingOk_def pendingOk_def)
    moreover have "historyOk T m' F"
      using h known m'(2) sw reset(2) unfolding historyOk_def by (simp add: knownKeys_def)
    ultimately show ?thesis using m' sw reset T known switch by (simp add: senderInv_def)
  qed
  then show "senderInv content T m' send F" "knownKeys T m' = knownKeys T m" "lastFlushId m' = lastFlushId m"
    "\<not> send \<Longrightarrow> storedFlushId m' = lastFlushId m' \<and> mdQueries (storingData m') = [] \<and> mdIsEmpty (pendingData m')"
    "send \<Longrightarrow> mdQueries (storingData m) = [] \<Longrightarrow> storingFlushId m' = lastFlushId m' \<and> mdIsEmpty (pendingData m')"
    "send \<Longrightarrow> mdQueries (storingData m) \<noteq> [] \<Longrightarrow> m' = m" by blast+
qed

section \<open>The sender sends\<close>

lemma updateStoring_data:
  assumes "wfIndex m"
  shows "storingData (updateStoring f m) = f (storingData m)" "pendingData (updateStoring f m) = pendingData m"
    "wfIndex (updateStoring f m)"
  using assms nextIndex_facts [of "storingDataIndex m"]
  by (auto simp: updateStoring_def pendingData_def storingData_def wfIndex_def)

lemma inv_stored:
  assumes "senderInv content T m sending F" "tableOk content T'" "tableKeys T \<subseteq> tableKeys T'"
    "rowKeys (sentRows (storingData m)) \<subseteq> tableKeys T'"
    "m' = markStored (updateStoring (\<lambda>x. x\<lparr>mdQueries := [], mdStored := True\<rparr>) m)"
  shows "senderInv content T' m' False F" "knownKeys T m \<subseteq> knownKeys T' m'" "mdQueries (storingData m') = []"
    "pendingData m' = pendingData m" "storedFlushId m' = storingFlushId m" "lastFlushId m' = lastFlushId m"
    "storingFlushId m' = storingFlushId m"
proof -
  have wf: "wfIndex m" using assms(1) by (simp add: senderInv_def)
  let ?s = "(storingData m)\<lparr>mdQueries := [], mdStored := True\<rparr>"
  note data = updateStoring_data [OF wf, of "\<lambda>x. x\<lparr>mdQueries := [], mdStored := True\<rparr>"]
  have d: "storingData m' = ?s" "pendingData m' = pendingData m" "wfIndex m'"
    using data assms(5) by (simp_all add: markStored_def storingData_def pendingData_def wfIndex_def)
  show f: "storedFlushId m' = storingFlushId m" "lastFlushId m' = lastFlushId m" "storingFlushId m' = storingFlushId m"
    "pendingData m' = pendingData m" "mdQueries (storingData m') = []"
    using assms(5) d by (simp_all add: markStored_def updateStoring_def)
  have rows: "sentRows ?s = sentRows (storingData m)" "bufferRows ?s = bufferRows (storingData m)"
    by (simp_all add: sentRows_def bufferRows_def)
  show known: "knownKeys T m \<subseteq> knownKeys T' m'" using assms(3) d rows by (auto simp: knownKeys_def)
  have h: "historyOk T m F" using assms(1) by (simp add: senderInv_def)
  then have "F n \<subseteq> knownKeys T' m'" for n using known unfolding historyOk_def by blast
  moreover have "n \<le> storingFlushId m \<Longrightarrow> F n \<subseteq> tableKeys T'" for n
    using h assms(3,4) unfolding historyOk_def by blast
  ultimately have "historyOk T' m' F" using f by (auto simp: historyOk_def)
  then show "senderInv content T' m' False F"
    using assms(1,2,4) d rows by (simp add: senderInv_def storingOk_def)
qed

lemma inv_failed:
  assumes "senderInv content T m True F" "tableOk content T'" "tableKeys T \<subseteq> tableKeys T'"
    "goodQueries content qs" "sentQueries (tableKeys T') qs" "qs \<noteq> []"
    "rowKeys (sentRows (storingData m)) \<subseteq> rowKeys (insertedRows (statementsOf qs))"
    "m' = updateStoring (\<lambda>x. x\<lparr>mdQueries := qs\<rparr>) m"
  shows "senderInv content T' m' False F" "knownKeys T m \<subseteq> knownKeys T' m'"
proof -
  have wf: "wfIndex m" using assms(1) by (simp add: senderInv_def)
  let ?s = "(storingData m)\<lparr>mdQueries := qs\<rparr>"
  have d: "storingData m' = ?s" "pendingData m' = pendingData m" "wfIndex m'"
    using updateStoring_data [OF wf, of "\<lambda>x. x\<lparr>mdQueries := qs\<rparr>"] assms(8) by simp_all
  have f: "storedFlushId m' = storedFlushId m" "storingFlushId m' = storingFlushId m"
    using assms(8) by (simp_all add: updateStoring_def)
  have rows: "sentRows ?s = sentRows (storingData m)" "bufferRows ?s = bufferRows (storingData m)" "mdIsEmpty ?s = mdIsEmpty (storingData m)"
    by (simp_all add: sentRows_def bufferRows_def mdIsEmpty_def)
  show known: "knownKeys T m \<subseteq> knownKeys T' m'" using assms(3) d rows by (auto simp: knownKeys_def)
  have h: "historyOk T m F" using assms(1) by (simp add: senderInv_def)
  have "historyOk T' m' F"
    using h known assms(3) d rows f unfolding historyOk_def by (metis (no_types, lifting) Un_mono order_refl order_trans)
  then show "senderInv content T' m' False F"
    using assms(1,2,4-7) d rows by (simp add: senderInv_def storingOk_def)
qed

text \<open>The queries that are sent, built now or left by a failed round, insert everything in the buffer.\<close>

lemma queries_ready:
  assumes "storingOk content K True s"
    "(if mdQueries s = [] then buildQueries S s else Some (mdQueries s)) = Some qs"
  shows "goodQueries content qs" "sentQueries K qs" "qs \<noteq> []"
    "rowKeys (sentRows s) \<subseteq> rowKeys (insertedRows (statementsOf qs))"
proof -
  have ne: "\<not> mdIsEmpty s" "sentRows s = bufferRows s" "\<forall>row \<in> bufferRows s. goodRow content row"
    using assms(1) unfolding storingOk_def by blast+
  have "goodQueries content qs \<and> sentQueries K qs \<and> qs \<noteq> [] \<and>
      rowKeys (sentRows s) \<subseteq> rowKeys (insertedRows (statementsOf qs))"
  proof (cases "mdQueries s = []")
    case True
    then have b: "buildQueries S s = Some qs" using assms(2) by simp
    note run = buildQueries_run [OF b]
    have "qs \<noteq> []"
    proof
      assume "qs = []"
      then have e: "mdNodes s = [] \<and> mdProgram s = [] \<and> mdStateRoot s = []" using run(4) by blast
      then have "bufferRows s = {}" using ne(2) by (simp add: sentRows_def)
      then show False using e ne(1) by (simp add: bufferRows_def mdIsEmpty_def)
    qed
    then show ?thesis using run(1-3) ne by (auto simp: goodQueries_def sentQueries_def list_all_iff)
  next
    case False
    then have "mdQueries s = qs" using assms(2) by simp
    then show ?thesis using assms(1) False unfolding storingOk_def by blast
  qed
  then show "goodQueries content qs" "sentQueries K qs" "qs \<noteq> []"
    "rowKeys (sentRows s) \<subseteq> rowKeys (insertedRows (statementsOf qs))" by blast+
qed

definition sendDone :: "('e, 'r) Database \<Rightarrow> unit outcome \<Rightarrow> ('e, 'r) Database \<Rightarrow> bool" where
  "sendDone d r d' \<longleftrightarrow> r = Ret () \<and> mdQueries (storingData (multiWrite d')) = [] \<and> pendingData (multiWrite d') = pendingData (multiWrite d) \<and>
       storedFlushId (multiWrite d') = storingFlushId (multiWrite d) \<and>
       storingFlushId (multiWrite d') = storingFlushId (multiWrite d) \<and>
       lastFlushId (multiWrite d') = lastFlushId (multiWrite d) \<or> r = Fail ZKR_DB_ERROR"

lemma sendData_run:
  assumes "senderInv content (rv (dbRemote d)) (multiWrite d) True F" "serverExecutes C rv" "\<not> dbReadOnly C"
    "sendData C S d = Some (r, d')"
  shows "senderInv content (rv (dbRemote d')) (multiWrite d') False F"
    "knownKeys (rv (dbRemote d)) (multiWrite d) \<subseteq> knownKeys (rv (dbRemote d')) (multiWrite d')" "sendDone d r d'"
proof -
  let ?m = "multiWrite d" and ?s = "storingData (multiWrite d)" and ?T = "rv (dbRemote d)"
  have T: "tableOk content ?T" and s: "storingOk content (tableKeys ?T) True ?s"
    using assms(1) by (simp_all add: senderInv_def)
  have ne: "\<not> mdIsEmpty ?s" "\<not> mdStored ?s" using s unfolding storingOk_def by blast+
  obtain qs where qs: "(if mdQueries ?s = [] then buildQueries S ?s else Some (mdQueries ?s)) = Some qs"
    using assms(3,4) ne by (auto simp: sendData_def Let_def split: option.splits)
  note q = queries_ready [OF s qs]
  obtain ok qs' r' where send: "sendQueries C qs (dbRemote d) = (ok, qs', r')" by (cases "sendQueries C qs (dbRemote d)")
  note run = sendQueries_run [OF send assms(2) T q(1,2)]
  obtain q1 qs1 where cons: "qs = q1 # qs1" using q(3) by (cases qs) auto
  have "senderInv content (rv (dbRemote d')) (multiWrite d') False F \<and>
    knownKeys (rv (dbRemote d)) (multiWrite d) \<subseteq> knownKeys (rv (dbRemote d')) (multiWrite d') \<and> sendDone d r d'"
  proof (cases ok)
    case True
    let ?m' = "markStored (updateStoring (\<lambda>x. x\<lparr>mdQueries := [], mdStored := True\<rparr>) ?m)"
    have d': "r = Ret ()" "d' = d\<lparr>dbRemote := r', multiWrite := ?m'\<rparr>"
      using assms(3,4) ne qs send cons True by (simp_all add: sendData_def Let_def)
    have "rowKeys (sentRows ?s) \<subseteq> tableKeys (rv r')" "tableOk content (rv r')" "tableKeys ?T \<subseteq> tableKeys (rv r')"
      using q(4) run True by blast+
    then show ?thesis using d' inv_stored [OF assms(1) _ _ _ refl] by (simp add: sendDone_def)
  next
    case False
    let ?m' = "updateStoring (\<lambda>x. x\<lparr>mdQueries := qs'\<rparr>) ?m"
    have d': "r = Fail ZKR_DB_ERROR" "d' = d\<lparr>dbRemote := r', multiWrite := ?m'\<rparr>"
      using assms(3,4) ne qs send cons False by (simp_all add: sendData_def Let_def)
    have "goodQueries content qs'" "rowKeys (sentRows ?s) \<subseteq> rowKeys (insertedRows (statementsOf qs'))"
      using q(1,4) run by (simp_all add: goodQueries_def)
    then show ?thesis
      using d' False run inv_failed [OF assms(1), of "rv r'" qs', OF _ _ _ _ _ _ refl] by (simp add: sendDone_def)
  qed
  then show "senderInv content (rv (dbRemote d')) (multiWrite d') False F"
    "knownKeys (rv (dbRemote d)) (multiWrite d) \<subseteq> knownKeys (rv (dbRemote d')) (multiWrite d')" "sendDone d r d'" by blast+
qed

lemma finishRound:
  "senderInv content T (advanceSynchronizing m) sending F = senderInv content T m sending F"
  "knownKeys T (advanceSynchronizing m) = knownKeys T m"
  "storingFlushId m = storedFlushId m \<Longrightarrow> markStored m = m"
  by (simp_all add: advanceSynchronizing_def senderInv_def wfIndex_def historyOk_def knownKeys_def pendingData_def
      storingData_def markStored_def)

lemma inv_send:
  assumes "senderInv content (rv (dbRemote d)) (multiWrite d) True F" "serverExecutes C rv" "\<not> dbReadOnly C"
    "senderSend C S d = Some d'"
  shows "senderInv content (rv (dbRemote d')) (multiWrite d') False F"
    "knownKeys (rv (dbRemote d)) (multiWrite d) \<subseteq> knownKeys (rv (dbRemote d')) (multiWrite d')"
proof -
  obtain r d1 where s: "sendData C S d = Some (r, d1)" using assms(4) by (auto simp: senderSend_def split: option.splits)
  note run = sendData_run [OF assms(1-3) s]
  have "d' = d1\<lparr>multiWrite := advanceSynchronizing (multiWrite d1)\<rparr> \<or> d' = d1"
    using assms(4) s run(3) finishRound(3) [of "multiWrite d1"] by (auto simp: senderSend_def sendDone_def)
  then show "senderInv content (rv (dbRemote d')) (multiWrite d') False F"
    "knownKeys (rv (dbRemote d)) (multiWrite d) \<subseteq> knownKeys (rv (dbRemote d')) (multiWrite d')"
    using run(1,2) finishRound(1,2) by auto
qed

end
