(* ===== verification/Sender_Props.thy ===== *)
theory Sender_Props
  imports Sender_Inv State_Nodes Database_Props
begin

text \<open>
  The operations of the database class between the rounds of its sender thread, as steps of a machine, and
  what holds of every run: durability, progress and what can be found meanwhile.
\<close>

section \<open>The operations keep the invariant\<close>

definition serverReads :: "('e, 'r) DatabaseConfig \<Rightarrow> ('r \<Rightarrow> sql_tables) \<Rightarrow> bool" where
  "serverReads C rv \<longleftrightarrow>
     (\<forall>b k r rows r'. sqlSelect C b k r = (rows, r') \<longrightarrow> rv r' = rv r) \<and>
     (\<forall>k q r rows r'. sqlGetTree C k q r = (rows, r') \<longrightarrow> rv r' = rv r)"

text \<open>The invariant, with a set of keys that must not be lost and a flush that is not to be forgotten.\<close>

definition safeDb ::
  "('r \<Rightarrow> sql_tables) \<Rightarrow> (bool \<Rightarrow> string \<Rightarrow> string) \<Rightarrow> bool \<Rightarrow> (nat \<Rightarrow> (bool \<times> string) set) \<Rightarrow> (bool \<times> string) set
     \<Rightarrow> ('e, 'r) Database \<Rightarrow> bool"
where
  "safeDb rv content sending F K d \<longleftrightarrow> senderInv content (rv (dbRemote d)) (multiWrite d) sending F \<and>
     K \<subseteq> knownKeys (rv (dbRemote d)) (multiWrite d)"

lemma keeps_safe_quiet:
  assumes "\<And>d. multiWrite (snd (m d)) = multiWrite d" "\<And>d. rv (dbRemote (snd (m d))) = rv (dbRemote d)"
  shows "keeps (safeDb rv content sending F K) m"
  using assms by (simp add: keeps_def safeDb_def)

lemma quiet_caches:
  "multiWrite (snd (dbCacheFind C k vk d)) = multiWrite d" "dbRemote (snd (dbCacheFind C k vk d)) = dbRemote d"
  "multiWrite (snd (dbAssociativeAdd C vk v u d)) = multiWrite d" "dbRemote (snd (dbAssociativeAdd C vk v u d)) = dbRemote d"
  "multiWrite (snd (dbListAdd C k v u d)) = multiWrite d" "dbRemote (snd (dbListAdd C k v u d)) = dbRemote d"
  "multiWrite (snd (programAdd C k w d)) = multiWrite d" "dbRemote (snd (programAdd C k w d)) = dbRemote d"
  by (auto simp: dbCacheFind_def dbAssociativeAdd_def dbListAdd_def programAdd_def modifyP_def Let_def
      split: prod.splits outcome.splits)

lemma keeps_safe_caches:
  "keeps (safeDb rv content sending F K) (dbCacheFind C k vk)"
  "keeps (safeDb rv content sending F K) (dbAssociativeAdd C vk v u)"
  "keeps (safeDb rv content sending F K) (dbListAdd C k v u)"
  "keeps (safeDb rv content sending F K) (programAdd C k w)"
  "keeps (safeDb rv content sending F K) (dbCacheAdd C k vk v u)"
  "keeps (safeDb rv content sending F K) initialisedP"
proof -
  show l: "keeps (safeDb rv content sending F K) (dbListAdd C k v u)"
    and a: "keeps (safeDb rv content sending F K) (dbAssociativeAdd C vk v u)"
    and "keeps (safeDb rv content sending F K) (dbCacheFind C k vk)"
    and "keeps (safeDb rv content sending F K) (programAdd C k w)"
    by (rule keeps_safe_quiet; simp add: quiet_caches)+
  show "keeps (safeDb rv content sending F K) (dbCacheAdd C k vk v u)"
    using l a by (auto simp: dbCacheAdd_def keeps_def)
  show "keeps (safeDb rv content sending F K) initialisedP" by (rule keeps_safe_quiet) (simp_all add: initialisedP_def)
qed

lemma quiet_readRemote:
  assumes "serverReads C rv"
  shows "multiWrite (snd (readRemote C b k d)) = multiWrite d" "rv (dbRemote (snd (readRemote C b k d))) = rv (dbRemote d)"
proof -
  obtain rows r where "sqlSelect C b k (dbRemote d) = (rows, r)" by fastforce
  moreover from this have "rv r = rv (dbRemote d)" using assms unfolding serverReads_def by blast
  ultimately show "multiWrite (snd (readRemote C b k d)) = multiWrite d"
    "rv (dbRemote (snd (readRemote C b k d))) = rv (dbRemote d)"
    by (auto simp: readRemote_def Let_def split: option.splits)
qed

lemma keeps_foldP: "(\<And>i x. keeps P (f i x)) \<Longrightarrow> keeps P (foldP f xs x)"
  by (induction xs arbitrary: x) (auto intro: keeps_rules)

lemma keeps_retryP: "keeps P m \<Longrightarrow> keeps P (retryP n m)"
proof (induction n)
  case (Suc n)
  then show ?case by (auto simp: keeps_def split: prod.splits outcome.splits)
qed simp

lemma keeps_readTreeRow: "keeps (safeDb rv content sending F K) (readTreeRow C row)"
proof -
  have "keeps (safeDb rv content sending F K) (\<lambda>d. if cacheEnabled (dbMTCache d) \<or> acEnabled (dbMTACache d)
        then (if useAssociativeCache C
              then bindP (liftP (string2fea4 (cfFr C) hash)) (\<lambda>vhash. dbAssociativeAdd C vhash v False)
              else dbListAdd C hash v False) d else (Ret (), d))" for hash v
  proof (rule keepsI)
    fix d :: "('a, 'b) Database"
    assume "safeDb rv content sending F K d"
    moreover have "keeps (safeDb rv content sending F K) (if useAssociativeCache C
              then bindP (liftP (string2fea4 (cfFr C) hash)) (\<lambda>vhash. dbAssociativeAdd C vhash v False)
              else dbListAdd C hash v False)" by (intro keeps_rules keeps_safe_caches)
    ultimately show "safeDb rv content sending F K (snd (if cacheEnabled (dbMTCache d) \<or> acEnabled (dbMTACache d)
        then (if useAssociativeCache C
              then bindP (liftP (string2fea4 (cfFr C) hash)) (\<lambda>vhash. dbAssociativeAdd C vhash v False)
              else dbListAdd C hash v False) d else (Ret (), d)))" by (simp add: keeps_def)
  qed
  then show ?thesis unfolding readTreeRow_def by (auto intro!: keeps_rules split: option.split)
qed

lemma keeps_readTreeRemote:
  assumes "serverReads C rv"
  shows "keeps (safeDb rv content sending F K) (readTreeRemote C key keys level)"
proof (rule keepsI)
  fix d :: "('a, 'b) Database"
  assume s: "safeDb rv content sending F K d"
  obtain rows r where g: "sqlGetTree C key (treeKey keys level) (dbRemote d) = (rows, r)" by fastforce
  moreover from this have "rv r = rv (dbRemote d)" using assms unfolding serverReads_def by blast
  then have "safeDb rv content sending F K (d\<lparr>dbRemote := r\<rparr>)" using s by (simp add: safeDb_def)
  moreover have "keeps (safeDb rv content sending F K) (foldP (\<lambda>row _. readTreeRow C row) rs ())" for rs
    by (intro keeps_foldP keeps_readTreeRow)
  ultimately show "safeDb rv content sending F K (snd (readTreeRemote C key keys level d))"
    by (auto simp: readTreeRemote_def keeps_def split: option.split)
qed

lemma keeps_dbRead:
  assumes "serverReads C rv"
  shows "keeps (safeDb rv content sending F K) (dbRead C key vkey value0 update tree)"
proof -
  note kr = keeps_safe_quiet [where m = "readRemote C b k" for b k, OF quiet_readRemote [OF assms]]
  have remote: "keeps (safeDb rv content sending F K) (dbReadRemote C k vkey v0 update)" for k v0
    unfolding dbReadRemote_def
    by (rule keepsI) (auto intro!: keepsD keeps_rules keeps_retryP kr keeps_safe_caches)
  have tree: "keeps (safeDb rv content sending F K) (dbReadTree C k vkey tree)" for k
  proof (rule keepsI)
    fix d :: "('a, 'b) Database"
    assume s: "safeDb rv content sending F K d"
    have t: "keeps (safeDb rv content sending F K) (retryP (retries C) (readTreeRemote C k keys level))" for keys level
      by (intro keeps_retryP keeps_readTreeRemote assms)
    show "safeDb rv content sending F K (snd (dbReadTree C k vkey tree d))"
      using s t keeps_safe_caches(1) [of rv content sending F K C k vkey]
      by (auto simp: dbReadTree_def keeps_def split: option.split prod.split outcome.split) (metis snd_conv)+
  qed
  have found: "keeps (safeDb rv content sending F K) (case r of Some v \<Rightarrow> retP v | None \<Rightarrow>
      (\<lambda>d. case if dbMultiWrite C then findNode (cfFr C) (multiWrite d) k else None of
         Some v \<Rightarrow> bindP (dbCacheAdd C k vkey v False) (\<lambda>_. retP v) d
       | None \<Rightarrow> bindP (dbReadTree C k vkey tree) (\<lambda>r.
                   case r of Some v \<Rightarrow> retP v | None \<Rightarrow> dbReadRemote C k vkey (if dbMultiWrite C then [] else value0) update) d))" for k r
  proof (cases r)
    case None
    have "keeps (safeDb rv content sending F K) (bindP (dbReadTree C k vkey tree) (\<lambda>r.
                   case r of Some v \<Rightarrow> retP v | None \<Rightarrow> dbReadRemote C k vkey (if dbMultiWrite C then [] else value0) update))"
      by (intro keeps_rules tree) (auto intro: keeps_rules remote split: option.split)
    moreover have "keeps (safeDb rv content sending F K) (bindP (dbCacheAdd C k vkey v False) (\<lambda>_. retP v))" for v
      by (intro keeps_rules keeps_safe_caches)
    ultimately show ?thesis using None by (auto simp: keeps_def split: option.split)
  qed (simp add: keeps_rules)
  show ?thesis unfolding dbRead_def by (intro keeps_rules keeps_safe_caches found)
qed

lemma keeps_state_if: "keeps P m \<Longrightarrow> keeps P n \<Longrightarrow> keeps P (\<lambda>d. if b d then m d else n d)"
  by (simp add: keeps_def)

lemma keeps_return: "keeps P (\<lambda>d. (Ret x, d))"
  by (simp add: keeps_def)

lemma keeps_state: "(\<And>d. keeps P (m d)) \<Longrightarrow> keeps P (\<lambda>d. m d d)"
  by (simp add: keeps_def)

lemma keeps_bind_lift:
  "(\<And>x. m = Ret x \<Longrightarrow> keeps P (f x)) \<Longrightarrow> keeps P (bindP (liftP m) f)"
  by (cases m) (auto simp: keeps_def bindP_def liftP_def)

lemma keeps_bind_key:
  "keeps P (f (normalised k)) \<Longrightarrow> keeps P (bindP (normalKey k) f)"
  by (cases "length (Remove0xIfPresent k) \<le> 64") (auto simp: keeps_def bindP_def normalKey_run)

lemma keeps_writeRemote:
  assumes "goodRow content (b, k, v)" "dbMultiWrite C"
  shows "keeps (safeDb rv content sending F K) (writeRemote C b k v)"
proof (rule keepsI)
  fix d :: "('a, 'b) Database"
  assume s: "safeDb rv content sending F K d"
  have "writeRemote C b k v d = (Ret (), d\<lparr>multiWrite := updatePending (writePending b k v) (multiWrite d)\<rparr>)"
    using assms(2) by (simp add: writeRemote_def writePending_def [abs_def])
  then show "safeDb rv content sending F K (snd (writeRemote C b k v d))"
    using s inv_write [OF _ assms(1), of "rv (dbRemote d)" "multiWrite d" sending F] by (auto simp: safeDb_def)
qed

lemma keeps_dbWrite:
  assumes "\<And>s. valueString (cfFr C) v = Ret s \<Longrightarrow> goodRow content (False, normalised key, s)" "dbMultiWrite C"
  shows "keeps (safeDb rv content sending F K) (dbWrite C key vkey v persistent)"
proof -
  have last: "keeps (safeDb rv content sending F K) (\<lambda>d. if cacheEnabled (dbMTCache d) \<or> acEnabled (dbMTACache d)
     then (if useAssociativeCache C
           then bindP (case vkey of None \<Rightarrow> liftP (string2fea4 (cfFr C) k) | Some k \<Rightarrow> retP k)
                  (\<lambda>vkeyf. dbAssociativeAdd C vkeyf v False)
           else dbListAdd C k v False) d
     else (Ret (), d))" for k
  proof -
    have "keeps (safeDb rv content sending F K) (if useAssociativeCache C
           then bindP (case vkey of None \<Rightarrow> liftP (string2fea4 (cfFr C) k) | Some k \<Rightarrow> retP k)
                  (\<lambda>vkeyf. dbAssociativeAdd C vkeyf v False)
           else dbListAdd C k v False)"
      by (cases vkey) (auto intro: keeps_rules keeps_safe_caches)
    then show ?thesis by (intro keeps_state_if keeps_return)
  qed
  have "keeps (safeDb rv content sending F K) (bindP (liftP (valueString (cfFr C) v)) (writeRemote C False (normalised key)))"
    by (intro keeps_bind_lift keeps_writeRemote assms)
  then have stored: "keeps (safeDb rv content sending F K) (if u \<and> persistent
      then bindP (liftP (valueString (cfFr C) v)) (writeRemote C False (normalised key)) else retP ())" for u
    by (auto intro: keeps_rules)
  have "keeps (safeDb rv content sending F K) (bindP (guardP g ZKR_DB_ERROR) (\<lambda>_.
     bindP (normalKey key) (\<lambda>key.
     bindP (if u \<and> persistent
            then bindP (liftP (valueString (cfFr C) v)) (writeRemote C False key) else retP ()) (\<lambda>_ d.
     if cacheEnabled (dbMTCache d) \<or> acEnabled (dbMTACache d)
     then (if useAssociativeCache C
           then bindP (case vkey of None \<Rightarrow> liftP (string2fea4 (cfFr C) key) | Some k \<Rightarrow> retP k)
                  (\<lambda>vkeyf. dbAssociativeAdd C vkeyf v False)
           else dbListAdd C key v False) d
     else (Ret (), d)))))" for g u
    by (rule keeps_bindP, rule keeps_same, rule keeps_bind_key, rule keeps_bindP, rule stored, rule last)
  then show ?thesis unfolding dbWrite_def by (intro keeps_bindP keeps_safe_caches) (simp add: keeps_def)
qed

lemma keeps_dbSetProgram:
  assumes "\<And>s. ba2string v = Ret s \<Longrightarrow> goodRow content (True, normalised key, s)" "dbMultiWrite C"
  shows "keeps (safeDb rv content sending F K) (dbSetProgram C key v persistent)"
proof -
  have "keeps (safeDb rv content sending F K) (bindP (liftP (ba2string v)) (writeRemote C True (normalised key)))"
    by (intro keeps_bind_lift keeps_writeRemote assms)
  then have stored: "keeps (safeDb rv content sending F K) (if u \<and> persistent
      then bindP (liftP (ba2string v)) (writeRemote C True (normalised key)) else retP ())" for u
    by (auto intro: keeps_rules)
  have "keeps (safeDb rv content sending F K) (bindP (normalKey key) (\<lambda>key.
     bindP (if u \<and> persistent
            then bindP (liftP (ba2string v)) (writeRemote C True key) else retP ()) (\<lambda>_. programAdd C key v)))" for u
    by (rule keeps_bind_key, rule keeps_bindP, rule stored, rule keeps_safe_caches)
  then show ?thesis unfolding dbSetProgram_def by (intro keeps_bindP keeps_safe_caches) (simp add: keeps_def)
qed

lemma keeps_dbGetProgram:
  assumes "serverReads C rv"
  shows "keeps (safeDb rv content sending F K) (dbGetProgram C key)"
proof -
  note kr = keeps_safe_quiet [where m = "readRemote C b k" for b k, OF quiet_readRemote [OF assms]]
  have "keeps (safeDb rv content sending F K) (\<lambda>d0. case (if cacheEnabled (dbProgramCache d0) then cacheFind k (dbProgramCache d0)
             else (None, dbProgramCache d0)) of
         (Some v, c) \<Rightarrow> (Ret v, d0\<lparr>dbProgramCache := c\<rparr>)
       | (None, c) \<Rightarrow>
           (let d = d0\<lparr>dbProgramCache := c\<rparr>
            in bindP (liftP (if dbMultiWrite C then findProgram (multiWrite d) k else Ret None)) (\<lambda>r.
               case r of
                 Some v \<Rightarrow> retP v
               | None \<Rightarrow> if useRemoteDB d
                          then bindP (readRemote C True k) (\<lambda>sData.
                               bindP (liftP (string2ba sData)) (\<lambda>v.
                               bindP (programAdd C k v) (\<lambda>_. retP v)))
                          else failP ZKR_DB_KEY_NOT_FOUND) d))" for k
  proof (rule keepsI)
    fix d0 :: "('a, 'b) Database"
    assume s: "safeDb rv content sending F K d0"
    obtain r c where rc: "(if cacheEnabled (dbProgramCache d0) then cacheFind k (dbProgramCache d0)
             else (None, dbProgramCache d0)) = (r, c)" by fastforce
    have s': "safeDb rv content sending F K (d0\<lparr>dbProgramCache := c\<rparr>)" using s by (simp add: safeDb_def)
    have "keeps (safeDb rv content sending F K) (bindP (liftP p) (\<lambda>r. case r of
                 Some v \<Rightarrow> retP v
               | None \<Rightarrow> if u
                          then bindP (readRemote C True k) (\<lambda>sData.
                               bindP (liftP (string2ba sData)) (\<lambda>v.
                               bindP (programAdd C k v) (\<lambda>_. retP v)))
                          else failP ZKR_DB_KEY_NOT_FOUND))" for p u
      by (intro keeps_rules; clarsimp split: option.split) (auto intro!: keeps_rules kr keeps_safe_caches)
    from keepsD [OF this s'] s' show "safeDb rv content sending F K (snd (case (if cacheEnabled (dbProgramCache d0) then cacheFind k (dbProgramCache d0)
             else (None, dbProgramCache d0)) of
         (Some v, c) \<Rightarrow> (Ret v, d0\<lparr>dbProgramCache := c\<rparr>)
       | (None, c) \<Rightarrow>
           (let d = d0\<lparr>dbProgramCache := c\<rparr>
            in bindP (liftP (if dbMultiWrite C then findProgram (multiWrite d) k else Ret None)) (\<lambda>r.
               case r of
                 Some v \<Rightarrow> retP v
               | None \<Rightarrow> if useRemoteDB d
                          then bindP (readRemote C True k) (\<lambda>sData.
                               bindP (liftP (string2ba sData)) (\<lambda>v.
                               bindP (programAdd C k v) (\<lambda>_. retP v)))
                          else failP ZKR_DB_KEY_NOT_FOUND) d)))"
      unfolding rc by (simp add: Let_def split: option.split)
  qed
  then show ?thesis unfolding dbGetProgram_def by (intro keeps_rules keeps_safe_caches)
qed

lemma keeps_dbUpdateStateRoot:
  assumes "dbMultiWrite C"
  shows "keeps (safeDb rv content sending F K) (dbUpdateStateRoot C root)"
proof -
  have root: "keeps (safeDb rv content sending F K)
      (modifyP (\<lambda>d. d\<lparr>multiWrite := updatePending (\<lambda>p. p\<lparr>mdStateRoot := v\<rparr>) (multiWrite d)\<rparr>))" for v
  proof (rule keeps_modifyP, goal_cases)
    case (1 d)
    then show ?case
      using inv_root [of content "rv (dbRemote d)" "multiWrite d" sending F v] by (auto simp: safeDb_def)
  qed
  have last: "keeps (safeDb rv content sending F K) (\<lambda>d. if cacheEnabled (dbMTCache d) \<or> acEnabled (dbMTACache d)
         then (if useAssociativeCache C then dbAssociativeAdd C (dbStateRootvKey C) v True
               else dbListAdd C dbStateRootKey v True) d else (Ret (), d))" for v
    by (intro keeps_state_if keeps_return) (simp add: keeps_safe_caches)
  have "keeps (safeDb rv content sending F K) (bindP (liftP (valueString (cfFr C) v)) (\<lambda>valueStr.
         bindP (if u
                then if dbMultiWrite C
                     then modifyP (\<lambda>d. d\<lparr>multiWrite := updatePending (\<lambda>p. p\<lparr>mdStateRoot := valueStr\<rparr>) (multiWrite d)\<rparr>)
                     else (\<lambda>d. case sqlExec C [UpdateRow dbStateRootKey valueStr] (dbRemote d) of
                             (ok, r) \<Rightarrow> (if ok then Ret () else Fail ZKR_DB_ERROR, d\<lparr>dbRemote := r\<rparr>))
                else retP ()) (\<lambda>_ d.
         if cacheEnabled (dbMTCache d) \<or> acEnabled (dbMTACache d)
         then (if useAssociativeCache C then dbAssociativeAdd C (dbStateRootvKey C) v True
               else dbListAdd C dbStateRootKey v True) d else (Ret (), d))))" for u v
    by (intro keeps_bindP keeps_same last) (simp add: assms keeps_rules root)
  then show ?thesis unfolding dbUpdateStateRoot_def Let_def by (intro keeps_bindP keeps_safe_caches) (simp add: keeps_def)
qed

section \<open>Runs\<close>

datatype 'e db_call =
    CallRead string "'e list" "'e list" bool "(bool list \<times> nat) option"
  | CallWrite string "'e list option" "'e list" bool
  | CallUpdateRoot "'e list"
  | CallSetProgram string "u8 list" bool
  | CallGetProgram string
  | CallFlush
  | CallSemiFlush

fun dbCall :: "('e, 'r) DatabaseConfig \<Rightarrow> 'e db_call \<Rightarrow> ('e, 'r) Database \<Rightarrow> ('e, 'r) Database" where
  "dbCall C (CallRead k vk v0 u t) d = snd (dbRead C k vk v0 u t d)"
| "dbCall C (CallWrite k vk v p) d = snd (dbWrite C k vk v p d)"
| "dbCall C (CallUpdateRoot root) d = snd (dbUpdateStateRoot C root d)"
| "dbCall C (CallSetProgram k v p) d = snd (dbSetProgram C k v p d)"
| "dbCall C (CallGetProgram k) d = snd (dbGetProgram C k d)"
| "dbCall C CallFlush d = snd (dbFlush C d)"
| "dbCall C CallSemiFlush d = dbSemiFlush C d"

text \<open>Keys are hashes of what is written under them.\<close>

fun goodCall :: "('e, 'r) DatabaseConfig \<Rightarrow> (bool \<Rightarrow> string \<Rightarrow> string) \<Rightarrow> 'e db_call \<Rightarrow> bool" where
  "goodCall C content (CallWrite k vk v p) =
     (\<forall>s. valueString (cfFr C) v = Ret s \<longrightarrow> goodRow content (False, normalised k, s))"
| "goodCall C content (CallSetProgram k v p) =
     (\<forall>s. ba2string v = Ret s \<longrightarrow> goodRow content (True, normalised k, s))"
| "goodCall C content c = True"

text \<open>
  A step is a call of the database class, or one of the two halves of a round of the sender thread; the
  flag says that the sender is between its halves.
\<close>

inductive db_step ::
  "('e, 'r) DatabaseConfig \<Rightarrow> SenderConfig \<Rightarrow> (bool \<Rightarrow> string \<Rightarrow> string)
     \<Rightarrow> ('e, 'r) Database \<times> bool \<Rightarrow> ('e, 'r) Database \<times> bool \<Rightarrow> bool"
  for C S content
where
  call: "goodCall C content c \<Longrightarrow> db_step C S content (d, s) (dbCall C c d, s)"
| taking: "senderTake (multiWrite d) = (s, m) \<Longrightarrow> db_step C S content (d, False) (d\<lparr>multiWrite := m\<rparr>, s)"
| sending: "senderSend C S d = Some d' \<Longrightarrow> db_step C S content (d, True) (d', False)"

inductive_cases db_stepE: "db_step C S content (d, s) (d', s')"

definition db_steps ::
  "('e, 'r) DatabaseConfig \<Rightarrow> SenderConfig \<Rightarrow> (bool \<Rightarrow> string \<Rightarrow> string)
     \<Rightarrow> ('e, 'r) Database \<times> bool \<Rightarrow> ('e, 'r) Database \<times> bool \<Rightarrow> bool" where
  "db_steps C S content = (db_step C S content)\<^sup>*\<^sup>*"

lemma inv_flush_same:
  assumes "senderInv content T m s F"
  shows "senderInv content T (m\<lparr>lastFlushId := lastFlushId m + 1\<rparr>) s F"
proof -
  let ?m = "m\<lparr>lastFlushId := lastFlushId m + 1\<rparr>"
  have "pendingData ?m = pendingData m" "storingData ?m = storingData m"
    by (simp_all add: pendingData_def storingData_def)
  then show ?thesis using assms by (simp add: senderInv_def wfIndex_def historyOk_def knownKeys_def)
qed

lemma dbFlush_multi:
  assumes "dbMultiWrite C" "\<not> dbReadOnly C" "m = updatePending acceptIntray (multiWrite d)"
  shows "dbFlush C d = (Ret (Some (lastFlushId m + 1, storedFlushId m)), d\<lparr>multiWrite := m\<lparr>lastFlushId := lastFlushId m + 1\<rparr>\<rparr>)"
  using assms by (simp add: dbFlush_def Let_def)

lemma safe_call:
  assumes "safeDb rv content s F K d" "goodCall C content c" "serverReads C rv" "dbMultiWrite C" "\<not> dbReadOnly C"
  shows "safeDb rv content s F K (dbCall C c d)"
proof (cases c)
  case CallFlush
  let ?m = "updatePending acceptIntray (multiWrite d)"
  have acc: "senderInv content (rv (dbRemote d)) ?m s F" "knownKeys (rv (dbRemote d)) ?m = knownKeys (rv (dbRemote d)) (multiWrite d)"
    using inv_accept [of content "rv (dbRemote d)" "multiWrite d" s F] assms(1) by (auto simp: safeDb_def)
  moreover have "knownKeys T (m\<lparr>lastFlushId := x\<rparr>) = knownKeys T m" for T m x
    by (simp add: knownKeys_def storingData_def pendingData_def)
  ultimately show ?thesis
    using CallFlush assms(1) inv_flush_same [OF acc(1)] dbFlush_multi [OF assms(4,5) refl, of d] by (simp add: safeDb_def)
next
  case CallSemiFlush
  then show ?thesis
    using inv_accept [of content "rv (dbRemote d)" "multiWrite d" s F] assms(1,4) by (auto simp: safeDb_def dbSemiFlush_def)
qed (use assms in \<open>auto intro!: keepsD [OF keeps_dbRead] keepsD [OF keeps_dbWrite] keepsD [OF keeps_dbUpdateStateRoot]
       keepsD [OF keeps_dbSetProgram] keepsD [OF keeps_dbGetProgram]\<close>)

lemma safe_step:
  assumes "db_step C S content (d, s) (d', s')" "safeDb rv content s F K d"
    "serverReads C rv" "serverExecutes C rv" "dbMultiWrite C" "\<not> dbReadOnly C"
  shows "safeDb rv content s' F K d'"
  using assms(1)
proof (rule db_stepE, goal_cases)
  case (1 c)
  then show ?thesis using safe_call [OF assms(2) _ assms(3,5,6)] by simp
next
  case (2 m)
  then show ?thesis using assms(2) inv_take(1,2) [of content "rv (dbRemote d)" "multiWrite d" F s' m] by (simp add: safeDb_def)
next
  case 3
  then show ?thesis using assms(2) inv_send [OF _ assms(4,6), of content d F S d'] by (auto simp: safeDb_def)
qed

lemma safe_steps:
  assumes "db_steps C S content (d, s) (d', s')" "safeDb rv content s F K d"
    "serverReads C rv" "serverExecutes C rv" "dbMultiWrite C" "\<not> dbReadOnly C"
  shows "safeDb rv content s' F K d'"
proof -
  have "safeDb rv content (snd y) F K (fst y)" if "(db_step C S content)\<^sup>*\<^sup>* x y" "safeDb rv content (snd x) F K (fst x)" for x y
    using that
  proof (induction rule: rtranclp_induct)
    case (step y z)
    then show ?case using safe_step [of C S content "fst y" "snd y" "fst z" "snd z"] assms(3-6) by simp
  qed simp
  from this [OF assms(1) [unfolded db_steps_def]] assms(2) show ?thesis by simp
qed

lemma safe_init:
  assumes "multiWrite d = newMultiWrite" "tableOk content (rv (dbRemote d))"
  shows "safeDb rv content False (\<lambda>_. {}) {} d"
proof -
  have "pendingData newMultiWrite = mdReset" "storingData newMultiWrite = mdReset" "wfIndex newMultiWrite"
    by (simp_all add: pendingData_def storingData_def newMultiWrite_def wfIndex_def nextIndex_def)
  moreover have "pendingOk content mdReset" "storingOk content K False mdReset" for K
    by (simp_all add: pendingOk_def storingOk_def mdReset_def bufferRows_def sentRows_def)
  ultimately show ?thesis using assms by (simp add: safeDb_def senderInv_def historyOk_def)
qed

section \<open>A flush that is stored\<close>

lemma dbWrite_written:
  assumes "dbWrite C key vkey v True d = (Ret (), d')" "useRemoteDB d" "dbMultiWrite C"
  shows "\<exists>str. valueString (cfFr C) v = Ret str \<and> dbRemote d' = dbRemote d \<and>
     multiWrite d' = updatePending (writePending False (normalised key) str) (multiWrite d)"
proof -
  have quiet: "multiWrite t = multiWrite u \<and> dbRemote t = dbRemote u"
    if "(if cacheEnabled (dbMTCache u) \<or> acEnabled (dbMTACache u)
         then (if useAssociativeCache C
               then bindP (case vkey of None \<Rightarrow> liftP (string2fea4 (cfFr C) k) | Some k \<Rightarrow> retP k)
                      (\<lambda>vkeyf. dbAssociativeAdd C vkeyf v False)
               else dbListAdd C k v False) u
         else (Ret (), u)) = (Ret (), t)" for u t k
  proof -
    have "multiWrite t = multiWrite u \<and> dbRemote t = dbRemote u" if "dbAssociativeAdd C x v False u = (Ret (), t)" for x
      using quiet_caches(3,4) [of C x v False u] that by simp
    moreover have "multiWrite t = multiWrite u \<and> dbRemote t = dbRemote u" if "dbListAdd C k v False u = (Ret (), t)"
      using quiet_caches(5,6) [of C k v False u] that by simp
    moreover have "x = u" if "(case vkey of None \<Rightarrow> liftP (string2fea4 (cfFr C) k) | Some k \<Rightarrow> retP k) u = (Ret y, x)" for x y
      using that by (cases vkey) (simp_all add: liftP_def retP_def)
    ultimately show ?thesis using that by (auto simp: bindP_eq_Ret split: if_splits)
  qed
  have wr: "writeRemote C False k s d = (Ret (), d\<lparr>multiWrite := updatePending (writePending False k s) (multiWrite d)\<rparr>)" for k s d
    using assms(3) by (simp add: writeRemote_def writePending_def [abs_def])
  let ?last = "\<lambda>k u. if cacheEnabled (dbMTCache u) \<or> acEnabled (dbMTACache u)
         then (if useAssociativeCache C
               then bindP (case vkey of None \<Rightarrow> liftP (string2fea4 (cfFr C) k) | Some k \<Rightarrow> retP k)
                      (\<lambda>vkeyf. dbAssociativeAdd C vkeyf v False)
               else dbListAdd C k v False) u
         else (Ret (), u)"
  have "bindP (bindP (liftP (valueString (cfFr C) v)) (writeRemote C False (normalised key))) (\<lambda>_. ?last (normalised key)) d
      = (Ret (), d')"
  proof -
    obtain x u ua where r: "initialisedP d = (Ret (), u)" "normalKey key u = (Ret x, ua)"
      "bindP (if useRemoteDB d \<and> True then bindP (liftP (valueString (cfFr C) v)) (writeRemote C False x) else retP ())
         (\<lambda>_. ?last x) ua = (Ret (), d')"
      using assms(1) unfolding dbWrite_def bindP_eq_Ret [where m = initialisedP] bindP_eq_Ret [where m = "guardP b e" for b e]
        bindP_eq_Ret [where m = "normalKey key"] guardP_eq_Ret by (auto simp: initialisedP_def split: if_splits)
    then have e: "u = d" "x = normalised key" "ua = d"
      by (auto simp: initialisedP_def normalKey_run split: if_splits)
    show ?thesis using r(3) assms(2) unfolding e by (simp only: if_True simp_thms)
  qed
  then obtain str where u: "valueString (cfFr C) v = Ret str"
    "?last (normalised key) (d\<lparr>multiWrite := updatePending (writePending False (normalised key) str) (multiWrite d)\<rparr>) = (Ret (), d')"
    unfolding bindP_eq_Ret liftP_eq_Ret wr by blast
  show ?thesis using u(1) quiet [OF u(2)] by simp
qed

lemma stored_flush:
  assumes "safeDb rv content s (\<lambda>_. {}) K d" "serverReads C rv" "serverExecutes C rv" "dbMultiWrite C" "\<not> dbReadOnly C"
    "dbFlush C d = (Ret (Some (n, sent)), d')" "db_steps C S content (d', s) (d'', s')"
    "n \<le> storedFlushId (multiWrite d'')"
  shows "knownKeys (rv (dbRemote d)) (multiWrite d) \<subseteq> tableKeys (rv (dbRemote d''))"
    "tableOk content (rv (dbRemote d''))"
proof -
  let ?m = "updatePending acceptIntray (multiWrite d)" and ?K = "knownKeys (rv (dbRemote d)) (multiWrite d)"
  have acc: "senderInv content (rv (dbRemote d)) ?m s (\<lambda>_. {})" "knownKeys (rv (dbRemote d)) ?m = ?K"
    using inv_accept [of content "rv (dbRemote d)" "multiWrite d" s "\<lambda>_. {}"] assms(1) by (auto simp: safeDb_def)
  have n: "n = lastFlushId ?m + 1" "d' = d\<lparr>multiWrite := ?m\<lparr>lastFlushId := lastFlushId ?m + 1\<rparr>\<rparr>"
    using assms(6) unfolding dbFlush_multi [OF assms(4,5) refl, of d] by blast+
  have "safeDb rv content s ((\<lambda>_. {})(n := ?K)) {} d'" using inv_flush [OF acc(1)] acc(2) n by (simp add: safeDb_def)
  from safe_steps [OF assms(7) this assms(2-5)] have inv: "tableOk content (rv (dbRemote d''))"
    "historyOk (rv (dbRemote d'')) (multiWrite d'') ((\<lambda>_. {})(n := ?K))" by (simp_all add: safeDb_def senderInv_def)
  then have "((\<lambda>_. {})(n := ?K)) n \<subseteq> tableKeys (rv (dbRemote d''))"
    using assms(8) unfolding historyOk_def by blast
  then show "?K \<subseteq> tableKeys (rv (dbRemote d''))" "tableOk content (rv (dbRemote d''))" using inv(1) by simp_all
qed

section \<open>Rounds that succeed\<close>

lemma sendQueries_accepted:
  "(\<And>sts r. fst (sqlExec C sts r)) \<Longrightarrow> fst (sendQueries C qs r)"
proof (induction C qs r rule: sendQueries.induct)
  case (2 C q qs r)
  obtain ok r1 where e: "sqlExec C (sqStatements q) r = (ok, r1)" by fastforce
  then have "ok" using 2(3) [of "sqStatements q" r] by simp
  then show ?case
    using 2 e by (cases "sqSent q") (auto split: prod.split)
qed simp

lemma sendData_accepted:
  assumes "\<And>sts r. fst (sqlExec C sts r)" "\<not> dbReadOnly C" "\<not> mdIsEmpty (storingData (multiWrite d))"
    "\<not> mdStored (storingData (multiWrite d))"
    "mdQueries (storingData (multiWrite d)) = [] \<Longrightarrow> bufferFits S (storingData (multiWrite d))"
  shows "\<exists>d'. sendData C S d = Some (Ret (), d')"
proof -
  obtain qs where qs: "(if mdQueries (storingData (multiWrite d)) = [] then buildQueries S (storingData (multiWrite d))
      else Some (mdQueries (storingData (multiWrite d)))) = Some qs"
    using assms(5) buildQueries_ends [of S "storingData (multiWrite d)"]
    by (cases "mdQueries (storingData (multiWrite d)) = []") auto
  obtain qs' r' where "sendQueries C qs (dbRemote d) = (True, qs', r')"
    using sendQueries_accepted [OF assms(1), of qs "dbRemote d"] by (metis fst_conv surj_pair)
  then show ?thesis using assms(2-4) qs by (cases qs) (auto simp: sendData_def Let_def)
qed

lemma round_accepted:
  assumes "senderInv content (rv (dbRemote d)) (multiWrite d) False F" "serverExecutes C rv" "\<not> dbReadOnly C"
    "\<And>sts r. fst (sqlExec C sts r)"
    "mdQueries (storingData (multiWrite d)) = [] \<Longrightarrow> bufferFits S (acceptIntray (pendingData (multiWrite d)))"
  shows "\<exists>d'. senderRound C S d = Some d' \<and> senderInv content (rv (dbRemote d')) (multiWrite d') False F \<and>
     knownKeys (rv (dbRemote d)) (multiWrite d) \<subseteq> knownKeys (rv (dbRemote d')) (multiWrite d') \<and>
     db_steps C S content (d, False) (d', False) \<and>
     lastFlushId (multiWrite d') = lastFlushId (multiWrite d) \<and> mdQueries (storingData (multiWrite d')) = [] \<and>
     (if mdQueries (storingData (multiWrite d)) = []
      then storedFlushId (multiWrite d') = lastFlushId (multiWrite d) \<and> mdIsEmpty (pendingData (multiWrite d'))
      else pendingData (multiWrite d') = pendingData (multiWrite d))"
proof -
  obtain send m where t: "senderTake (multiWrite d) = (send, m)" by fastforce
  note take = inv_take [OF assms(1) t]
  have taking: "db_step C S content (d, False) (d\<lparr>multiWrite := m\<rparr>, send)" by (rule db_step.taking [OF t])
  show ?thesis
  proof (cases send)
    case False
    then have e: "mdQueries (storingData (multiWrite d)) = []" using t by (auto simp: senderTake_def split: if_splits)
    then show ?thesis
      using take(1-3,6) False t taking by (auto simp: senderRound_def db_steps_def)
  next
    case True
    let ?d = "d\<lparr>multiWrite := m\<rparr>"
    have wf: "wfIndex (multiWrite d)" using assms(1) by (simp add: senderInv_def)
    have inv: "senderInv content (rv (dbRemote ?d)) (multiWrite ?d) True F" using take(1) True by simp
    then have ready: "\<not> mdIsEmpty (storingData m)" "\<not> mdStored (storingData m)" by (auto simp: senderInv_def storingOk_def)
    have "bufferFits S (storingData m)" if e: "mdQueries (storingData m) = []"
    proof -
      have e': "mdQueries (storingData (multiWrite d)) = []" using e take(5) True by auto
      then have "m = switchData (multiWrite d)" using t True by (auto simp: senderTake_def Let_def split: if_splits)
      then show ?thesis using assms(5) [OF e'] switchData_run(1) [OF wf] by simp
    qed
    then obtain d1 where s: "sendData C S ?d = Some (Ret (), d1)"
      using sendData_accepted [OF assms(4,3), of ?d S] ready by auto
    note run = sendData_run [OF inv assms(2,3) s]
    let ?d' = "d1\<lparr>multiWrite := advanceSynchronizing (multiWrite d1)\<rparr>"
    have f: "storedFlushId (multiWrite d1) = storingFlushId m" "storingFlushId (multiWrite d1) = storingFlushId m"
      "lastFlushId (multiWrite d1) = lastFlushId m" "pendingData (multiWrite d1) = pendingData m"
      "mdQueries (storingData (multiWrite d1)) = []"
      using run(3) by (auto simp: sendDone_def)
    have adv: "storedFlushId (advanceSynchronizing x) = storedFlushId x" "lastFlushId (advanceSynchronizing x) = lastFlushId x"
      "pendingData (advanceSynchronizing x) = pendingData x" "storingData (advanceSynchronizing x) = storingData x" for x
      by (simp_all add: advanceSynchronizing_def pendingData_def storingData_def)
    have send: "senderSend C S ?d = Some ?d'" using s f finishRound(3) [of "multiWrite d1"] by (simp add: senderSend_def)
    then have "db_step C S content (?d, True) (?d', False)" by (rule db_step.sending)
    then have "db_steps C S content (d, False) (?d', False)"
      using taking True by (simp add: db_steps_def converse_rtranclp_into_rtranclp)
    moreover have "senderRound C S d = Some ?d'" using t True send by (simp add: senderRound_def)
    ultimately show ?thesis
      using run(1,2) take(2,4,5,6) True f adv finishRound(1,2) by (intro exI [of _ ?d']) (auto simp del: One_nat_def)
  qed
qed

lemma two_rounds:
  assumes "senderInv content (rv (dbRemote d)) (multiWrite d) False F" "serverExecutes C rv" "\<not> dbReadOnly C"
    "\<And>sts r. fst (sqlExec C sts r)" "bufferFits S (acceptIntray (pendingData (multiWrite d)))"
  shows "\<exists>d1 d2. senderRound C S d = Some d1 \<and> senderRound C S d1 = Some d2 \<and>
     db_steps C S content (d, False) (d2, False) \<and>
     storedFlushId (multiWrite d2) = lastFlushId (multiWrite d) \<and> lastFlushId (multiWrite d2) = lastFlushId (multiWrite d) \<and>
     knownKeys (rv (dbRemote d)) (multiWrite d) \<subseteq> tableKeys (rv (dbRemote d2)) \<and> mdIsEmpty (pendingData (multiWrite d2))"
proof -
  obtain d1 where d1: "senderRound C S d = Some d1" "senderInv content (rv (dbRemote d1)) (multiWrite d1) False F"
    "knownKeys (rv (dbRemote d)) (multiWrite d) \<subseteq> knownKeys (rv (dbRemote d1)) (multiWrite d1)"
    "db_steps C S content (d, False) (d1, False)" "lastFlushId (multiWrite d1) = lastFlushId (multiWrite d)"
    "mdQueries (storingData (multiWrite d1)) = []"
    "mdIsEmpty (pendingData (multiWrite d1)) \<or> pendingData (multiWrite d1) = pendingData (multiWrite d)"
    using round_accepted [OF assms(1-4), where S = S] assms(5) by (auto split: if_splits)
  have "bufferFits S (acceptIntray p)" if "mdIsEmpty p" for p
    using that by (simp add: bufferFits_def acceptIntray_def mdIsEmpty_def rowsFit_def)
  then have fits: "bufferFits S (acceptIntray (pendingData (multiWrite d1)))" using d1(7) assms(5) by auto
  obtain d2 where d2: "senderRound C S d1 = Some d2" "senderInv content (rv (dbRemote d2)) (multiWrite d2) False F"
    "knownKeys (rv (dbRemote d1)) (multiWrite d1) \<subseteq> knownKeys (rv (dbRemote d2)) (multiWrite d2)"
    "db_steps C S content (d1, False) (d2, False)" "lastFlushId (multiWrite d2) = lastFlushId (multiWrite d1)"
    "mdQueries (storingData (multiWrite d2)) = []" "storedFlushId (multiWrite d2) = lastFlushId (multiWrite d1)"
    "mdIsEmpty (pendingData (multiWrite d2))"
    using round_accepted [OF d1(2) assms(2-4), where S = S] fits d1(6) by auto
  have "knownKeys (rv (dbRemote d2)) (multiWrite d2) = tableKeys (rv (dbRemote d2))"
    using d2(2,6,8) bufferRows_empty by (auto simp: knownKeys_def senderInv_def storingOk_def)
  then have "knownKeys (rv (dbRemote d)) (multiWrite d) \<subseteq> tableKeys (rv (dbRemote d2))" using d1(3) d2(3) by simp
  moreover have "db_steps C S content (d, False) (d2, False)"
    using d1(4) d2(4) unfolding db_steps_def by (rule rtranclp_trans)
  ultimately show ?thesis using d1(1,5) d2(1,5,7,8) by metis
qed

section \<open>A server in memory\<close>

definition memConfig :: "(u64, sql_tables) DatabaseConfig" where
  "memConfig = \<lparr>cfFr = gl_word, dbMultiWrite = True, dbGetTree = False, dbReadOnly = False,
     useAssociativeCache = False, dbReadRetryDelay = 0, dbReadRetryCounter = 0, nodeRecordSize = (\<lambda>_ _. 1),
     programRecordSize = (\<lambda>_ _. 1), sqlSelect = (\<lambda>_ _ T. (Some [], T)), sqlGetTree = (\<lambda>_ _ T. (Some [], T)),
     sqlExec = (\<lambda>sts T. (True, fold applyStatement sts T)), dbStateRootvKey = []\<rparr>"

definition memSender :: SenderConfig where
  "memSender = \<lparr>dbNodesTableName = ''n'', dbProgramTableName = ''p'', dbMultiWriteSingleQuerySize = 1000\<rparr>"

definition memDatabase :: "MultiWrite \<Rightarrow> (u64, sql_tables) Database" where
  "memDatabase m = \<lparr>bInitialized = True, useRemoteDB = True, dbMTCache = newCache 0,
     dbMTACache = \<lparr>acLog2IndexesSize = 0, acLog2CacheSize = 0, acIndexes = [], acKeys = [], acValues = [],
                   acCurrentCacheIndex = 0, acAttempts = 0, acHits = 0\<rparr>,
     dbProgramCache = newCache 0, multiWrite = m, dbRemote = (\<lambda>_ _. None)\<rparr>"

abbreviation (input) memWritten :: "(u64, sql_tables) Database" where
  "memWritten \<equiv> memDatabase (updatePending (writePending False (normalised ''ab'') (wordDigits 5)) newMultiWrite)"

lemma mem_server:
  "serverReads memConfig (\<lambda>T. T)" "serverExecutes memConfig (\<lambda>T. T)" "dbMultiWrite memConfig" "\<not> dbReadOnly memConfig"
  "fst (sqlExec memConfig sts r)"
  by (simp_all add: serverReads_def serverExecutes_def memConfig_def)

lemma mem_start: "tableOk content (dbRemote (memDatabase m))" "multiWrite (memDatabase m) = m" "useRemoteDB (memDatabase m)"
  by (simp_all add: tableOk_def memDatabase_def)

lemma normalised_ab: "normalised ''ab'' = replicate 62 CHR ''0'' @ ''ab''"
  by (simp add: normalised_def Remove0xIfPresent_def stringToLower_def charToLower_def numeral_eq_Suc Let_def)

lemma normalised_ab_root: "normalised ''ab'' \<noteq> dbStateRootKey"
proof
  assume "normalised ''ab'' = dbStateRootKey"
  from arg_cong [OF this, of hd] show False by (simp add: normalised_ab dbStateRootKey_def hd_append)
qed

lemma mem_string: "valueString (cfFr memConfig) [5] = Ret (wordDigits 5)"
  using goldilocks.valueString_eq [OF glw.goldilocks_axioms, of "[5]"]
  by (simp add: memConfig_def gl_word_def gl_canon_def ScalarGoldilocksPrime_def)

lemma mem_fields:
  "dbMultiWrite memConfig" "useRemoteDB (memDatabase m)" "bInitialized (memDatabase m)"
  "\<not> cacheEnabled (dbMTCache (memDatabase m))" "\<not> acEnabled (dbMTACache (memDatabase m))"
  "(memDatabase m)\<lparr>multiWrite := m'\<rparr> = memDatabase m'"
  by (simp_all add: memConfig_def memDatabase_def cacheEnabled_def acEnabled_def newCache_def)

lemma mem_write: "dbWrite memConfig ''ab'' vkey [5] True (memDatabase newMultiWrite) = (Ret (), memWritten)"
  by (simp add: dbWrite_def bindP_def initialisedP_def guardP_def retP_def liftP_def writeRemote_def
      writePending_def [abs_def] normalKey_run Remove0xIfPresent_def mem_string mem_fields mem_start del: valueString.simps)

lemma mem_good: "goodRow (\<lambda>_ _. wordDigits 5) (False, normalised ''ab'', wordDigits 5)"
  using normalised_ab_root by (simp add: goodRow_def)

lemma mem_good_call: "goodCall memConfig (\<lambda>_ _. wordDigits 5) (CallWrite ''ab'' vkey [5] True)"
  using mem_good by (simp add: mem_string del: valueString.simps)

lemma mem_fits:
  "bufferFits memSender (acceptIntray (pendingData (multiWrite memWritten)))"
  by (simp add: memDatabase_def updatePending_def newMultiWrite_def pendingData_def writePending_def mdReset_def
      acceptIntray_def insertNew_def bufferFits_def rowsFit_def memSender_def insertHead_def tableName_def rowText_def
      byteaOpen_def normalised_ab)

section \<open>Properties\<close>

text \<open>C8: What a flush has counted as stored is in the server's table.  A node is written, any operations and
  rounds of the sender follow, then a flush returns the number n, again followed by anything; once the
  stored flush identifier has reached n, the row of the node is in the table with the string of the node,
  whatever failed in between.  The keys written under are hashes: the same key, the same content.\<close>
theorem flushed_node_is_stored:
  assumes "serverReads C rv" "serverExecutes C rv" "dbMultiWrite C" "\<not> dbReadOnly C"
    "multiWrite d0 = newMultiWrite" "tableOk content (rv (dbRemote d0))" "db_steps C S content (d0, False) (d, s)"
    "useRemoteDB d" "goodCall C content (CallWrite key vkey v True)" "dbWrite C key vkey v True d = (Ret (), d1)"
    "db_steps C S content (d1, s) (d2, s2)" "dbFlush C d2 = (Ret (Some (n, sent)), d3)"
    "db_steps C S content (d3, s2) (d4, s4)" "n \<le> storedFlushId (multiWrite d4)"
  shows "\<exists>str. valueString (cfFr C) v = Ret str \<and> rv (dbRemote d4) False (normalised key) = Some str"
proof -
  note laws = assms(1-4)
  have "safeDb rv content s (\<lambda>_. {}) {} d" by (rule safe_steps [OF assms(7) safe_init laws]) fact+
  then have "safeDb rv content s (\<lambda>_. {}) {} (dbCall C (CallWrite key vkey v True) d)"
    by (rule safe_call) fact+
  then have d1: "senderInv content (rv (dbRemote d1)) (multiWrite d1) s (\<lambda>_. {})"
    using assms(10) by (simp add: safeDb_def)
  obtain str where str: "valueString (cfFr C) v = Ret str" "dbRemote d1 = dbRemote d"
    "multiWrite d1 = updatePending (writePending False (normalised key) str) (multiWrite d)"
    using dbWrite_written [OF assms(10,8,3)] by blast
  have good: "goodRow content (False, normalised key, str)" using assms(9) str(1) by simp
  have "senderInv content (rv (dbRemote d)) (multiWrite d) s (\<lambda>_. {})"
    using safe_steps [OF assms(7) safe_init laws, OF assms(5,6)] by (simp add: safeDb_def)
  from inv_write(3) [OF this good] have "{(False, normalised key)} \<subseteq> knownKeys (rv (dbRemote d1)) (multiWrite d1)"
    using str by simp
  then have "safeDb rv content s (\<lambda>_. {}) {(False, normalised key)} d1" using d1 by (simp add: safeDb_def)
  note d2 = safe_steps [OF assms(11) this laws]
  note stored = stored_flush [OF d2 laws assms(12-14)]
  have "(False, normalised key) \<in> tableKeys (rv (dbRemote d4))" using d2 stored(1) by (auto simp: safeDb_def)
  then obtain x where x: "rv (dbRemote d4) False (normalised key) = Some x" by (auto simp: tableKeys_def)
  then have "x = content False (normalised key)"
    using stored(2) good unfolding tableOk_def goodRow_def by blast
  then show ?thesis using x good str(1) by (simp add: goodRow_def)
qed

theorem flushed_node_is_stored_witness:
  "\<exists>d. db_steps memConfig memSender (\<lambda>_ _. wordDigits 5) (snd (dbFlush memConfig memWritten), False) (d, False) \<and>
     1 \<le> storedFlushId (multiWrite d) \<and> dbRemote d False (normalised ''ab'') = Some (wordDigits 5)"
proof -
  let ?c = "\<lambda>_ _. wordDigits 5" and ?d = "snd (dbFlush memConfig memWritten)"
  have refl: "db_steps memConfig memSender ?c x x" for x by (simp add: db_steps_def)
  have f: "dbFlush memConfig memWritten = (Ret (Some (1, 0)), ?d)" "lastFlushId (multiWrite ?d) = 1"
    "acceptIntray (pendingData (multiWrite ?d)) = acceptIntray (pendingData (multiWrite memWritten))"
    by (simp_all add: dbFlush_def memConfig_def memDatabase_def updatePending_def newMultiWrite_def Let_def pendingData_def
        writePending_def mdReset_def acceptIntray_def insertNew_def)
  have "safeDb (\<lambda>T. T) ?c False (\<lambda>_. {}) {} (memDatabase newMultiWrite)"
    by (rule safe_init) (simp_all add: mem_start)
  from safe_call [OF this mem_good_call mem_server(1,3,4)] have "safeDb (\<lambda>T. T) ?c False (\<lambda>_. {}) {} memWritten"
    by (simp add: mem_write)
  from safe_call [OF this, of memConfig CallFlush] mem_server have "safeDb (\<lambda>T. T) ?c False (\<lambda>_. {}) {} ?d" by simp
  then have inv: "senderInv ?c (dbRemote ?d) (multiWrite ?d) False (\<lambda>_. {})" by (simp add: safeDb_def)
  obtain d2 where d2: "db_steps memConfig memSender ?c (?d, False) (d2, False)" "storedFlushId (multiWrite d2) = 1"
    using two_rounds [where rv = "\<lambda>T. T", OF inv mem_server(2,4,5)] mem_fits f by metis
  then show ?thesis
    using flushed_node_is_stored [OF mem_server(1-4) mem_start(2,1) refl mem_start(3) mem_good_call mem_write refl f(1) d2(1)]
      mem_string by auto
qed

text \<open>C9: The sender makes progress: from every state that operations and rounds can reach, when the server
  accepts what it gets and every row fits into a query, two more rounds return, and then every flush asked
  for before is stored, everything that was in the buffers is in the tables, and nothing is pending.\<close>
theorem sender_makes_progress:
  assumes "serverReads C rv" "serverExecutes C rv" "dbMultiWrite C" "\<not> dbReadOnly C"
    "multiWrite d0 = newMultiWrite" "tableOk content (rv (dbRemote d0))" "db_steps C S content (d0, False) (d, False)"
    "\<And>sts r. fst (sqlExec C sts r)" "bufferFits S (acceptIntray (pendingData (multiWrite d)))"
  shows "\<exists>d1 d2. senderRound C S d = Some d1 \<and> senderRound C S d1 = Some d2 \<and>
     storedFlushId (multiWrite d2) = lastFlushId (multiWrite d) \<and> lastFlushId (multiWrite d2) = lastFlushId (multiWrite d) \<and>
     knownKeys (rv (dbRemote d)) (multiWrite d) \<subseteq> tableKeys (rv (dbRemote d2)) \<and> mdIsEmpty (pendingData (multiWrite d2))"
proof -
  have "safeDb rv content False (\<lambda>_. {}) {} d" by (rule safe_steps [OF assms(7) safe_init assms(1-4)]) fact+
  then have "senderInv content (rv (dbRemote d)) (multiWrite d) False (\<lambda>_. {})" by (simp add: safeDb_def)
  from two_rounds [OF this assms(2,4,8,9)] show ?thesis by metis
qed

theorem sender_makes_progress_witness:
  "\<exists>d1 d2. senderRound memConfig memSender memWritten = Some d1 \<and> senderRound memConfig memSender d1 = Some d2 \<and>
     mdIsEmpty (pendingData (multiWrite d2))"
proof -
  have "db_step memConfig memSender (\<lambda>_ _. wordDigits 5) (memDatabase newMultiWrite, False)
      (dbCall memConfig (CallWrite ''ab'' None [5] True) (memDatabase newMultiWrite), False)"
    by (rule db_step.call) (rule mem_good_call)
  then have "db_steps memConfig memSender (\<lambda>_ _. wordDigits 5) (memDatabase newMultiWrite, False) (memWritten, False)"
    by (simp add: db_steps_def mem_write r_into_rtranclp)
  from sender_makes_progress [OF mem_server(1-4) mem_start(2,1) this mem_server(5) mem_fits] show ?thesis by blast
qed

text \<open>C26: Building the statements ends when every row fits, with room left, into a query of its own; when the
  first node of the buffer does not, sendData never returns: it leaves the loop of a full query before it
  moves to the next node.\<close>
theorem sendData_returns:
  assumes "\<not> dbReadOnly C" "\<not> mdStored (storingData (multiWrite d))" "mdNodes (storingData (multiWrite d)) = (k, v) # rows"
    "mdQueries (storingData (multiWrite d)) = []"
  shows "(bufferFits S (storingData (multiWrite d)) \<longrightarrow> (\<exists>r. sendData C S d = Some r)) \<and>
     (dbMultiWriteSingleQuerySize S \<le> length (insertHead S False) + length (rowText k v) \<longrightarrow> sendData C S d = None)"
proof -
  let ?s = "storingData (multiWrite d)"
  have run: "sendData C S d = (case buildQueries S ?s of None \<Rightarrow> None | Some qs \<Rightarrow> sendData C S d)"
    using assms by (simp add: sendData_def Let_def mdIsEmpty_def split: option.split)
  have "\<exists>r. sendData C S d = Some r" if "buildQueries S ?s = Some qs" for qs
    using that assms by (cases qs; cases "sendQueries C qs (dbRemote d)"; cases "fst (sendQueries C qs (dbRemote d))")
      (auto simp: sendData_def Let_def mdIsEmpty_def split: bool.split)
  moreover have "buildQueries S ?s = None" if "dbMultiWriteSingleQuerySize S \<le> length (insertHead S False) + length (rowText k v)"
    using addRows_stuck [of S False "mdNodes ?s" "[]"] that assms(3) by (auto simp: buildQueries_def split: option.split)
  ultimately show ?thesis using run buildQueries_ends [of S ?s] by auto
qed

theorem sendData_returns_witness:
  "sendData memConfig (memSender\<lparr>dbMultiWriteSingleQuerySize := 10\<rparr>)
     (memDatabase (newMultiWrite\<lparr>mwData := replicate 3 (mdReset\<lparr>mdNodes := [(''ab'', ''05'')]\<rparr>)\<rparr>)) = None"
proof -
  let ?m = "newMultiWrite\<lparr>mwData := replicate 3 (mdReset\<lparr>mdNodes := [(''ab'', ''05'')]\<rparr>)\<rparr>"
  have "storingData (multiWrite (memDatabase ?m)) = mdReset\<lparr>mdNodes := [(''ab'', ''05'')]\<rparr>"
    by (simp add: memDatabase_def storingData_def newMultiWrite_def)
  then show ?thesis
    using sendData_returns [of memConfig "memDatabase ?m" "''ab''" "''05''" "[]"] mem_server(4)
    by (simp add: mdReset_def insertHead_def)
qed

text \<open>C27: In the state right after the sender thread took over a buffer to store it (senderTake), findNode finds
  every node of that buffer as it did before if a flush has been asked for since the last one was stored; if
  none has, findNode finds no node there, neither one of the buffer being stored nor any other.\<close>
theorem taking_over_and_findNode:
  assumes "wfIndex m" "wellSized (pendingData m)" "mdQueries (storingData m) = []" "senderTake m = (True, m')"
  shows "(storedFlushId m \<noteq> lastFlushId m \<longrightarrow>
       (\<forall>k s. (k, s) \<in> set (mdNodes (pendingData m)) \<union> set (mdNodesIntray (pendingData m)) \<longrightarrow>
            findNode fr m' k = findNode fr m k)) \<and>
     (storedFlushId m = lastFlushId m \<longrightarrow> (\<forall>k. findNode fr m' k = None))"
proof -
  have m': "m' = switchData m" using assms(3,4) by (auto simp: senderTake_def Let_def split: if_splits)
  note sw = switchData_run [OF assms(1)]
  have none: "nodeIn fr (mdNodes mdReset) k = None" "nodeIn fr (mdNodesIntray mdReset) k = None" for k
    by (simp_all add: nodeIn_def mdReset_def)
  have find: "findNode fr m' k =
      (if storedFlushId m \<noteq> lastFlushId m then nodeIn fr (mdNodes (acceptIntray (pendingData m))) k else None)" for k
    unfolding findNode_def m' sw none by auto
  have "nodeIn fr (mdNodes (pendingData m)) k \<noteq> None \<or> nodeIn fr (mdNodesIntray (pendingData m)) k \<noteq> None"
    if "(k, s) \<in> set (mdNodes (pendingData m)) \<union> set (mdNodesIntray (pendingData m))" for k s
  proof -
    have "map_of (mdNodes (pendingData m)) k \<noteq> None \<or> map_of (mdNodesIntray (pendingData m)) k \<noteq> None"
      using that by (force simp: map_of_eq_None_iff)
    then show ?thesis using wellSized_lookup [OF assms(2)] by (auto simp: nodeIn_def split: option.split)
  qed
  then have "findNode fr m k = nodeIn fr (mdNodes (acceptIntray (pendingData m))) k"
    if "(k, s) \<in> set (mdNodes (pendingData m)) \<union> set (mdNodesIntray (pendingData m))" for k s
    using that unfolding findNode_def nodeIn_accept [OF assms(2)] by (force split: option.split)
  then show ?thesis using find by simp
qed

theorem taking_over_and_findNode_witness:
  "\<exists>m'. senderTake (updatePending (writePending False ''ab'' (wordDigits 5)) newMultiWrite) = (True, m') \<and>
     findNode gl_word (updatePending (writePending False ''ab'' (wordDigits 5)) newMultiWrite) ''ab'' \<noteq> None \<and>
     findNode gl_word m' ''ab'' = None"
proof -
  let ?m = "updatePending (writePending False ''ab'' (wordDigits 5)) newMultiWrite"
  have p: "pendingData ?m = mdReset\<lparr>mdNodesIntray := [(''ab'', wordDigits 5)]\<rparr>" "storingData ?m = mdReset"
    "storedFlushId ?m = lastFlushId ?m"
    by (simp_all add: pendingData_def storingData_def updatePending_def newMultiWrite_def writePending_def mdReset_def)
  have "senderTake ?m = (True, switchData ?m)"
    by (simp add: senderTake_def switchData_def updatePending_def newMultiWrite_def writePending_def mdReset_def
        pendingData_def storingData_def mdIsEmpty_def acceptIntray_def insertNew_def nextIndex_def)
  moreover have "wfIndex ?m" by (simp add: wfIndex_def updatePending_def newMultiWrite_def nextIndex_def)
  moreover have "wellSized (pendingData ?m)" "mdQueries (storingData ?m) = []" unfolding p by (simp_all add: wellSized_def mdReset_def)
  moreover have "findNode gl_word ?m ''ab'' \<noteq> None"
    unfolding findNode_def p by (simp add: nodeIn_def mdReset_def split: option.split)
  ultimately show ?thesis using taking_over_and_findNode [of ?m "switchData ?m" gl_word] p(3) by blast
qed

end
