(* ===== verification/Binary_Machine.thy ===== *)
theory Binary_Machine
  imports Scalar_Bytes
begin

text \<open>
  The executor of the Binary state machine (src/src/sm/binary/binary_executor.cpp): for every binary
  operation of the main state machine it fills sixteen rows of the committed polynomials, two bytes of
  the operands per row, from the least significant on.  A polynomial is an array of N elements, modelled
  as a function of the row; the class BinaryCommitPols is generated
  (src/src/main_sm/fork_9/pols_generated/commit_pols.hpp) and has the fields below.
\<close>

section \<open>Data\<close>

type_synonym 'e pol = "nat \<Rightarrow> 'e"

record BinaryAction =
  baA :: nat
  baB :: nat
  baC :: nat
  baOpcode :: u64
  baType :: u64

record BinaryActionBytes =
  bbA :: "u8 list"
  bbB :: "u8 list"
  bbC :: "u8 list"
  bbOpcode :: u64
  bbType :: u64

record 'e BinaryPols =
  bpOpcode :: "'e pol"
  bpA :: "nat \<Rightarrow> 'e pol"
  bpB :: "nat \<Rightarrow> 'e pol"
  bpC :: "nat \<Rightarrow> 'e pol"
  bpFreeInA :: "nat \<Rightarrow> 'e pol"
  bpFreeInB :: "nat \<Rightarrow> 'e pol"
  bpFreeInC :: "nat \<Rightarrow> 'e pol"
  bpCIn :: "'e pol"
  bpCMiddle :: "'e pol"
  bpCOut :: "'e pol"
  bpLCout :: "'e pol"
  bpLOpcode :: "'e pol"
  bpPreviousAreLt4 :: "'e pol"
  bpUsePreviousAreLt4 :: "'e pol"
  bpReset4 :: "'e pol"
  bpUseCarry :: "'e pol"
  bpResultBinOp :: "'e pol"
  bpResultValidRange :: "'e pol"

abbreviation (input) REGISTERS_NUM :: nat where "REGISTERS_NUM \<equiv> 8"
abbreviation (input) STEPS_PER_REGISTER :: nat where "STEPS_PER_REGISTER \<equiv> 2"
abbreviation (input) STEPS :: nat where "STEPS \<equiv> 16"
abbreviation (input) LATCH_SIZE :: nat where "LATCH_SIZE \<equiv> 16"

section \<open>The constant polynomials\<close>

definition buildFactors :: "nat \<Rightarrow> u64 list list" where
  "buildFactors N = map (\<lambda>j. map (\<lambda>index.
      if j = (index div STEPS_PER_REGISTER) mod REGISTERS_NUM then if index mod 2 = 0 then 1 else push_bit 16 1 else 0)
      [0..<N]) [0..<REGISTERS_NUM]"

definition buildReset :: "nat \<Rightarrow> bool list" where
  "buildReset N = map (\<lambda>i. i mod STEPS = 0) [0..<N]"

section \<open>One byte\<close>

text \<open>
  What the \<open>switch\<close> over the operation leaves for one byte: the carry out, the free input of c (overwritten
  in the first and last byte of comparisons), and the two selectors of the result.  The comparison of
  elements with == is the one of the field library.
\<close>

record 'e ByteStep =
  bsCOut :: 'e
  bsFreeC :: 'e
  bsUseCarry :: bool
  bsUsePrevious :: bool

definition ltCarry :: "'e gl \<Rightarrow> u64 \<Rightarrow> u64 \<Rightarrow> 'e \<Rightarrow> 'e" where
  "ltCarry fr byteA byteB cIn =
     (if byteA < byteB then gl_one fr else if byteA = byteB then cIn else gl_zero fr)"

definition sltCarry :: "'e gl \<Rightarrow> u64 \<Rightarrow> u64 \<Rightarrow> 'e \<Rightarrow> 'e" where
  "sltCarry fr byteA byteB cIn =
     (let sig_a = drop_bit 7 byteA; sig_b = drop_bit 7 byteB
      in if sig_a > sig_b then gl_one fr else if sig_a < sig_b then gl_zero fr else ltCarry fr byteA byteB cIn)"

definition eqCarry :: "'e gl \<Rightarrow> u64 \<Rightarrow> u64 \<Rightarrow> 'e \<Rightarrow> 'e" where
  "eqCarry fr byteA byteB cIn = (if byteA = byteB \<and> gl_isZero fr cIn then gl_zero fr else gl_one fr)"

definition binaryByte ::
  "'e gl \<Rightarrow> u64 \<Rightarrow> u8 list \<Rightarrow> bool \<Rightarrow> bool \<Rightarrow> bool \<Rightarrow> u64 \<Rightarrow> u64 \<Rightarrow> u64 \<Rightarrow> 'e \<Rightarrow> 'e ByteStep"
where
  "binaryByte fr opcode cBytes isLast resetByte lastByte byteA byteB byteC cIn =
     (let own = fromU64 fr byteC;
          first = (if resetByte then fromU64 fr (ucast (cBytes ! (STEPS - 1))) else own);
          low = fromU64 fr (ucast (cBytes ! 0))
      in if opcode = 0 then
           \<lparr>bsCOut = fromU64 fr (drop_bit 8 (byteA + byteB + toU64 fr cIn)), bsFreeC = own,
            bsUseCarry = False, bsUsePrevious = False\<rparr>
         else if opcode = 1 then
           \<lparr>bsCOut = (if sint (byteA - toU64 fr cIn) \<ge> sint byteB then gl_zero fr else gl_one fr), bsFreeC = own,
            bsUseCarry = False, bsUsePrevious = False\<rparr>
         else if opcode = 2 \<or> opcode = 8 then
           (let cOut = ltCarry fr byteA byteB cIn
            in if lastByte then
                 if opcode = 2 \<or> gl_equal fr cOut (gl_zero fr)
                 then \<lparr>bsCOut = cOut, bsFreeC = low, bsUseCarry = True, bsUsePrevious = False\<rparr>
                 else \<lparr>bsCOut = cOut, bsFreeC = cOut, bsUseCarry = False, bsUsePrevious = True\<rparr>
               else \<lparr>bsCOut = cOut, bsFreeC = first, bsUseCarry = False, bsUsePrevious = False\<rparr>)
         else if opcode = 3 then
           (if lastByte then
              \<lparr>bsCOut = sltCarry fr byteA byteB cIn, bsFreeC = low, bsUseCarry = isLast, bsUsePrevious = False\<rparr>
            else \<lparr>bsCOut = ltCarry fr byteA byteB cIn, bsFreeC = first, bsUseCarry = isLast, bsUsePrevious = False\<rparr>)
         else if opcode = 4 then
           (let cOut = eqCarry fr byteA byteB cIn
            in if lastByte then
                 \<lparr>bsCOut = (if gl_isZero fr cOut then gl_one fr else gl_zero fr), bsFreeC = low, bsUseCarry = True,
                  bsUsePrevious = False\<rparr>
               else \<lparr>bsCOut = cOut, bsFreeC = first, bsUseCarry = False, bsUsePrevious = False\<rparr>)
         else if opcode = 5 then
           \<lparr>bsCOut = (if byteC = 0 \<and> gl_isZero fr cIn then gl_zero fr else gl_one fr), bsFreeC = own,
            bsUseCarry = False, bsUsePrevious = False\<rparr>
         else \<lparr>bsCOut = gl_zero fr, bsFreeC = own, bsUseCarry = False, bsUsePrevious = False\<rparr>)"

section \<open>One row\<close>

text \<open>The accumulation of two bytes into a register of 32 bits, on 64-bit integers.\<close>

definition registerSum :: "'e gl \<Rightarrow> 'e \<Rightarrow> bool \<Rightarrow> u64 \<Rightarrow> 'e \<Rightarrow> 'e \<Rightarrow> u64" where
  "registerSum fr register reset factor free0 free1 =
     toU64 fr register * (if reset then 0 else 1) + toU64 fr free0 * factor + 256 * toU64 fr free1 * factor"

definition set2 :: "nat \<Rightarrow> nat \<Rightarrow> 'e \<Rightarrow> (nat \<Rightarrow> 'e pol) \<Rightarrow> nat \<Rightarrow> 'e pol" where
  "set2 k index v f = f(k := (f k)(index := v))"

definition setRegisters :: "nat \<Rightarrow> (nat \<Rightarrow> 'e) \<Rightarrow> (nat \<Rightarrow> 'e pol) \<Rightarrow> nat \<Rightarrow> 'e pol" where
  "setRegisters index v f = (\<lambda>k. if k < REGISTERS_NUM then (f k)(index := v k) else f k)"

definition binaryRow ::
  "'e gl \<Rightarrow> nat \<Rightarrow> u64 list list \<Rightarrow> BinaryActionBytes \<Rightarrow> nat \<Rightarrow> nat \<Rightarrow> 'e \<times> 'e BinaryPols \<Rightarrow> 'e \<times> 'e BinaryPols"
where
  "binaryRow fr N FACTOR input i j state =
     (let (previousAreLt4, pols) = state;
          opcode = bbOpcode input; reset4 = (if opcode = 8 then 1 else 0 :: u64);
          isLast = (j = STEPS - 1); index = i * STEPS + j; reset = (j = 0);
          byte = (\<lambda>bytes k. ucast (bytes ! (j * 2 + k)) :: u64);
          step = (\<lambda>k cIn. binaryByte fr opcode (bbC input) isLast (reset \<and> k = 0) (isLast \<and> k = 1)
                            (byte (bbA input) k) (byte (bbB input) k) (byte (bbC input) k) cIn);
          s0 = step 0 (bpCIn pols index); s1 = step 1 (bsCOut s0); cOut = bsCOut s1;
          previousAreLt4 =
            (if j mod 16 = 3 then cOut
             else if j mod 16 = 7 \<or> j mod 16 = 11 then gl_mul fr previousAreLt4 cOut else previousAreLt4);
          useCarry = bsUseCarry s1; usePrevious = bsUsePrevious s1;
          next = (index + 1) mod N;
          freeA = (\<lambda>k. fromU64 fr (byte (bbA input) k)); freeB = (\<lambda>k. fromU64 fr (byte (bbB input) k));
          pols = pols\<lparr>
            bpOpcode := (bpOpcode pols)(index := fromU64 fr opcode),
            bpFreeInA := set2 1 index (freeA 1) (set2 0 index (freeA 0) (bpFreeInA pols)),
            bpFreeInB := set2 1 index (freeB 1) (set2 0 index (freeB 0) (bpFreeInB pols)),
            bpFreeInC := set2 1 index (bsFreeC s1) (set2 0 index (bsFreeC s0) (bpFreeInC pols)),
            bpCMiddle := (bpCMiddle pols)(index := bsCOut s0),
            bpCOut := (bpCOut pols)(index := cOut),
            bpUseCarry := (bpUseCarry pols)(index := if useCarry then gl_one fr else gl_zero fr),
            bpUsePreviousAreLt4 := (bpUsePreviousAreLt4 pols)(index := fromU64 fr (if usePrevious then 1 else 0)),
            bpReset4 := (bpReset4 pols)(index := fromU64 fr reset4),
            bpPreviousAreLt4 := (bpPreviousAreLt4 pols)(next := previousAreLt4)\<rparr>;
          pols = pols\<lparr>
            bpCIn := (bpCIn pols)(next := if next mod STEPS = 0 then gl_zero fr
                       else if reset4 = 1 \<and> index mod 4 = 3 then gl_zero fr else cOut),
            bpLCout := (bpLCout pols)(next := if usePrevious then previousAreLt4 else cOut),
            bpLOpcode := (bpLOpcode pols)(next := bpOpcode pols index)\<rparr>;
          sum = (\<lambda>f free k. registerSum fr (f k index) reset (FACTOR ! k ! index) (free 0 index) (free 1 index));
          c0 = (ucast (ucast (sum (bpC pols) (bpFreeInC pols) 0) :: u32) :: u64)
      in (previousAreLt4, pols\<lparr>
            bpA := setRegisters next (\<lambda>k. fromU64 fr (sum (bpA pols) (bpFreeInA pols) k)) (bpA pols),
            bpB := setRegisters next (\<lambda>k. fromU64 fr (sum (bpB pols) (bpFreeInB pols) k)) (bpB pols),
            bpC := setRegisters next (\<lambda>k.
              if k = 0 then
                if \<not> gl_isZero fr (bpUseCarry pols index) then bpCOut pols index
                else if gl_equal fr (bpUsePreviousAreLt4 pols index) (gl_one fr) then bpPreviousAreLt4 pols index
                else fromU64 fr c0
              else if isLast \<and> (useCarry \<or> usePrevious) then gl_zero fr
              else fromU64 fr (sum (bpC pols) (bpFreeInC pols) k)) (bpC pols)\<rparr>))"

section \<open>All rows\<close>

definition binaryAction ::
  "'e gl \<Rightarrow> nat \<Rightarrow> u64 list list \<Rightarrow> BinaryActionBytes \<Rightarrow> nat \<Rightarrow> 'e BinaryPols \<Rightarrow> 'e BinaryPols"
where
  "binaryAction fr N FACTOR input i pols =
     (let pols = snd (fold (binaryRow fr N FACTOR input i) [0..<STEPS] (gl_zero fr, pols));
          result = ((i + 1) * STEPS) mod N;
          pols = (if bbType input = 1 then pols\<lparr>bpResultBinOp := (bpResultBinOp pols)(result := gl_one fr)\<rparr> else pols)
      in if bbType input = 2 then pols\<lparr>bpResultValidRange := (bpResultValidRange pols)(result := gl_one fr)\<rparr> else pols)"

text \<open>The rows that no action uses.\<close>

definition binaryRest :: "'e gl \<Rightarrow> nat \<Rightarrow> u64 list list \<Rightarrow> nat \<Rightarrow> 'e BinaryPols \<Rightarrow> 'e BinaryPols" where
  "binaryRest fr N FACTOR index pols =
     (let next = (index + 1) mod N; reset = (index mod STEPS = 0);
          sum = (\<lambda>f free k. registerSum fr (f k index) reset (FACTOR ! k ! index) (free 0 index) (free 1 index));
          c0 = (ucast (ucast (sum (bpC pols) (bpFreeInC pols) 0) :: u32) :: u64)
      in pols\<lparr>
            bpA := setRegisters next (\<lambda>k. fromU64 fr (sum (bpA pols) (bpFreeInA pols) k)) (bpA pols),
            bpB := setRegisters next (\<lambda>k. fromU64 fr (sum (bpB pols) (bpFreeInB pols) k)) (bpB pols),
            bpC := setRegisters next (\<lambda>k.
              if k = 0 then fromU64 fr (toU64 fr (bpUseCarry pols index) * (toU64 fr (bpCOut pols index) - c0) + c0)
              else fromU64 fr (sum (bpC pols) (bpFreeInC pols) k)) (bpC pols)\<rparr>)"

definition actionBytes :: "BinaryAction \<Rightarrow> BinaryActionBytes outcome" where
  "actionBytes action =
     bindO (scalar2bytes (baA action)) (\<lambda>a. bindO (scalar2bytes (baB action)) (\<lambda>b.
     bindO (scalar2bytes (baC action)) (\<lambda>c.
     Ret \<lparr>bbA = a, bbB = b, bbC = c, bbOpcode = baOpcode action, bbType = baType action\<rparr>)))"

definition binaryExecute ::
  "'e gl \<Rightarrow> nat \<Rightarrow> BinaryAction list \<Rightarrow> 'e BinaryPols \<Rightarrow> 'e BinaryPols outcome"
where
  "binaryExecute fr N action pols =
     (if length action * LATCH_SIZE > N then Exit
      else bindO (mapO actionBytes action) (\<lambda>input.
        let FACTOR = buildFactors N;
            pols = fold (\<lambda>i. binaryAction fr N FACTOR (input ! i) i) [0..<length input] pols
        in Ret (fold (binaryRest fr N FACTOR) [length input * STEPS..<N] pols)))"

end
