(* ===== verification/Binary_Inv.thy ===== *)
theory Binary_Inv
  imports Binary_Machine
begin

text \<open>
  What the sixteen rows of a binary operation hold: the registers collect the operands two bytes at a time,
  and the carries of a comparison compare the bytes seen so far.
\<close>

section \<open>Bytes of a number\<close>

definition byteOf :: "nat \<Rightarrow> nat \<Rightarrow> nat" where
  "byteOf A n = A div 256 ^ n mod 256"

lemma byteOf_less: "byteOf A n < 256"
  by (simp add: byteOf_def)

lemma mod_256_Suc: "A mod 256 ^ Suc n = A mod 256 ^ n + 256 ^ n * byteOf A n"
proof -
  have "(256 :: nat) ^ Suc n = 256 ^ n * 256" by simp
  then show ?thesis unfolding byteOf_def by (simp only: mod_mult2_eq)
qed

lemma split_less:
  fixes x y a b m :: nat
  assumes "x < m" "y < m"
  shows "x + m * a < y + m * b \<longleftrightarrow> a < b \<or> a = b \<and> x < y"
    "x + m * a = y + m * b \<longleftrightarrow> a = b \<and> x = y"
proof -
  have low: "x + m * a < y + m * b" if "x < m" "a < b" for x y a b :: nat
  proof -
    have "x + m * a < m * Suc a" using that(1) by simp
    also have "\<dots> \<le> m * b" using that(2) by (intro mult_le_mono2) simp
    finally show ?thesis by simp
  qed
  show "x + m * a < y + m * b \<longleftrightarrow> a < b \<or> a = b \<and> x < y"
    "x + m * a = y + m * b \<longleftrightarrow> a = b \<and> x = y"
    using low [OF assms(1), of a b y] low [OF assms(2), of b a x] assms by (cases a b rule: linorder_cases; force)+
qed

lemma bytes_less:
  "A mod 256 ^ Suc n < B mod 256 ^ Suc n \<longleftrightarrow>
     byteOf A n < byteOf B n \<or> byteOf A n = byteOf B n \<and> A mod 256 ^ n < B mod 256 ^ n"
  "A mod 256 ^ Suc n = B mod 256 ^ Suc n \<longleftrightarrow> byteOf A n = byteOf B n \<and> A mod 256 ^ n = B mod 256 ^ n"
  unfolding mod_256_Suc by (rule split_less; simp)+

text \<open>The part of a number that a register of 32 bits holds after the first \<open>j\<close> pairs of bytes.\<close>

definition partial :: "nat \<Rightarrow> nat \<Rightarrow> nat \<Rightarrow> nat" where
  "partial A j k = A mod 256 ^ (2 * j) div 2 ^ (32 * k) mod 2 ^ 32"

definition pairOf :: "nat \<Rightarrow> nat \<Rightarrow> nat" where
  "pairOf A j = byteOf A (2 * j) + 256 * byteOf A (2 * j + 1)"

definition rowFactor :: "nat \<Rightarrow> nat \<Rightarrow> nat" where
  "rowFactor j k = (if k = j div 2 then if j mod 2 = 0 then 1 else 2 ^ 16 else 0)"

lemma pairOf_less: "pairOf A j < 2 ^ 16"
  using byteOf_less [of A "2 * j"] byteOf_less [of A "2 * j + 1"] by (simp add: pairOf_def)

lemma mod_pair: "A mod 256 ^ (2 * Suc j) = A mod 256 ^ (2 * j) + 256 ^ (2 * j) * pairOf A j"
proof -
  have "A mod 256 ^ (2 * Suc j) = A mod 256 ^ Suc (Suc (2 * j))" by simp
  then show ?thesis unfolding mod_256_Suc pairOf_def by (simp add: algebra_simps)
qed

lemma div_lemma: "0 < d \<Longrightarrow> (x + d * y) div d = x div d + (y :: nat)"
  by simp

lemma partial_Suc: "partial A (Suc j) k = partial A j k + rowFactor j k * pairOf A j"
proof -
  let ?x = "A mod 256 ^ (2 * j)" and ?h = "pairOf A j" and ?d = "2 ^ (32 * k) :: nat"
  have p: "(256 :: nat) ^ (2 * j) = 2 ^ (16 * j)" by (simp add: power_mult flip: power_mult_distrib)
  have x: "?x < 2 ^ (16 * j)" unfolding p [symmetric] by simp
  have e: "A mod 256 ^ (2 * Suc j) = ?x + 2 ^ (16 * j) * ?h" using mod_pair [of A j] by (simp add: p)
  consider "k < j div 2" | "k = j div 2" | "k > j div 2" by linarith
  then show ?thesis
  proof cases
    case 1
    then have "32 * k + 32 \<le> 16 * j" by linarith
    then obtain c where c: "16 * j = 32 * k + 32 + c" using le_Suc_ex by blast
    have "?x + 2 ^ (16 * j) * ?h = ?x + ?d * (2 ^ 32 * (2 ^ c * ?h))" by (simp add: c power_add)
    then have "(?x + 2 ^ (16 * j) * ?h) div ?d = ?x div ?d + 2 ^ 32 * (2 ^ c * ?h)" by (simp only: div_lemma zero_less_power zero_less_numeral)
    then show ?thesis using 1 e by (simp add: partial_def rowFactor_def)
  next
    case 2
    then have j: "16 * j = 32 * k + 16 * (j mod 2)" by presburger
    have "?x + 2 ^ (16 * j) * ?h = ?x + ?d * (2 ^ (16 * (j mod 2)) * ?h)" by (simp add: j power_add)
    then have s: "(?x + 2 ^ (16 * j) * ?h) div ?d = ?x div ?d + 2 ^ (16 * (j mod 2)) * ?h"
      by (simp only: div_lemma zero_less_power zero_less_numeral)
    have "(2 :: nat) ^ (16 * j) = 2 ^ (16 * (j mod 2)) * ?d" unfolding j power_add by (rule mult.commute)
    then have "?x < 2 ^ (16 * (j mod 2)) * ?d" using x by simp
    then have q: "?x div ?d < 2 ^ (16 * (j mod 2))" by (rule less_mult_imp_div_less)
    have h: "?h < 2 ^ 16" by (rule pairOf_less)
    have "?x div ?d + 2 ^ (16 * (j mod 2)) * ?h < 2 ^ 32"
    proof (cases "j mod 2 = 0")
      case False
      then have "j mod 2 = 1" by simp
      then show ?thesis using q h by simp
    qed (use q h in simp)
    moreover have "?x div ?d < 2 ^ 32" using calculation by simp
    ultimately show ?thesis using s e 2 by (simp add: partial_def rowFactor_def)
  next
    case 3
    then have "(2 :: nat) ^ (16 * j) * 2 ^ 16 \<le> ?d" unfolding power_add [symmetric] by (intro power_increasing) auto
    moreover have "?x + 2 ^ (16 * j) * ?h < 2 ^ (16 * j) * 2 ^ 16"
    proof -
      have "?x + 2 ^ (16 * j) * ?h < 2 ^ (16 * j) * Suc ?h" using x by simp
      also have "\<dots> \<le> 2 ^ (16 * j) * 2 ^ 16" using pairOf_less [of A j] by (intro mult_le_mono2) simp
      finally show ?thesis .
    qed
    ultimately show ?thesis using e 3 by (simp add: partial_def rowFactor_def)
  qed
qed

lemma partial_0 [simp]: "partial A 0 k = 0"
  by (simp add: partial_def)

lemma partial_less: "partial A j k < 2 ^ 32"
  by (simp add: partial_def)

lemma partial_16: "A < 2 ^ 256 \<Longrightarrow> partial A 16 k = A div 2 ^ (32 * k) mod 2 ^ 32"
  by (simp add: partial_def)


section \<open>The carries on numbers\<close>

definition signed256 :: "nat \<Rightarrow> int" where
  "signed256 A = (if A < 2 ^ 255 then int A else int A - 2 ^ 256)"

text \<open>The carry out of byte \<open>n - 1\<close>: what the operation says about the bytes below \<open>n\<close>.\<close>

definition lowLess :: "nat \<Rightarrow> nat \<Rightarrow> nat \<Rightarrow> nat \<Rightarrow> bool" where
  "lowLess A B m n \<longleftrightarrow> A div 256 ^ m mod 256 ^ n < B div 256 ^ m mod 256 ^ n"

definition carryOut :: "u64 \<Rightarrow> nat \<Rightarrow> nat \<Rightarrow> nat \<Rightarrow> nat \<Rightarrow> nat" where
  "carryOut opcode A B C n =
     (if opcode = 0 then (A mod 256 ^ n + B mod 256 ^ n) div 256 ^ n
      else if opcode = 1 \<or> opcode = 2 \<or> opcode = 3 then of_bool (lowLess A B 0 n)
      else if opcode = 4 then of_bool (A mod 256 ^ n \<noteq> B mod 256 ^ n)
      else if opcode = 5 then of_bool (C mod 256 ^ n \<noteq> 0)
      else if opcode = 8 then of_bool (lowLess A B (8 * ((n - 1) div 8)) (n - 8 * ((n - 1) div 8)))
      else 0)"

definition carryIn :: "u64 \<Rightarrow> nat \<Rightarrow> nat \<Rightarrow> nat \<Rightarrow> nat \<Rightarrow> nat" where
  "carryIn opcode A B C n = (if opcode = 8 \<and> n mod 8 = 0 then 0 else carryOut opcode A B C n)"

definition carryStep :: "u64 \<Rightarrow> nat \<Rightarrow> nat \<Rightarrow> nat \<Rightarrow> nat \<Rightarrow> nat" where
  "carryStep opcode a b c cin =
     (if opcode = 0 then (a + b + cin) div 256
      else if opcode = 1 \<or> opcode = 2 \<or> opcode = 3 \<or> opcode = 8 then of_bool (a < b \<or> a = b \<and> cin \<noteq> 0)
      else if opcode = 4 then of_bool (a \<noteq> b \<or> cin \<noteq> 0)
      else if opcode = 5 then of_bool (c \<noteq> 0 \<or> cin \<noteq> 0)
      else 0)"

lemma byteOf_div: "byteOf (A div 256 ^ m) n = byteOf A (m + n)"
  by (simp add: byteOf_def power_add div_mult2_eq)

lemma lowLess_Suc: "lowLess A B m (Suc n) \<longleftrightarrow>
    byteOf A (m + n) < byteOf B (m + n) \<or> byteOf A (m + n) = byteOf B (m + n) \<and> lowLess A B m n"
  unfolding lowLess_def bytes_less(1) byteOf_div ..

lemma lowLess_0 [simp]: "\<not> lowLess A B m 0"
  by (simp add: lowLess_def)

lemma carryIn_0 [simp]: "carryIn opcode A B C 0 = 0"
  by (simp add: carryIn_def carryOut_def lowLess_def)

lemma carryOut_le: "carryOut opcode A B C n \<le> 1"
proof -
  have "A mod 256 ^ n + B mod 256 ^ n < 2 * 256 ^ n"
    unfolding mult_2 by (intro add_strict_mono mod_less_divisor) simp_all
  then have "(A mod 256 ^ n + B mod 256 ^ n) div 256 ^ n < 2" by (simp add: less_mult_imp_div_less)
  then show ?thesis by (simp add: carryOut_def)
qed

lemma carryIn_le: "carryIn opcode A B C n \<le> 1"
  using carryOut_le [of opcode A B C n] by (simp add: carryIn_def)

lemma add_carry:
  fixes a b x y m :: nat
  assumes "0 < m"
  shows "(x + m * a + (y + m * b)) div (m * 256) = (a + b + (x + y) div m) div 256"
proof -
  have e: "x + m * a + (y + m * b) = (x + y) + m * (a + b)" by (simp add: algebra_simps)
  have "(x + m * a + (y + m * b)) div m = a + b + (x + y) div m"
    unfolding e using div_lemma [OF assms, of "x + y" "a + b"] by simp
  then show ?thesis by (simp add: div_mult2_eq)
qed

lemma pred_div:
  assumes "n mod 8 \<noteq> (0 :: nat)"
  shows "(n - 1) div 8 = n div 8"
proof -
  have "n - 1 = (n mod 8 - 1) + 8 * (n div 8)" using assms mult_div_mod_eq [of 8 n] by linarith
  moreover have "(n mod 8 - 1) div 8 = 0" by simp
  ultimately show ?thesis by simp
qed

lemma carryOut_step:
  "carryStep opcode (byteOf A n) (byteOf B n) (byteOf C n) (carryIn opcode A B C n) = carryOut opcode A B C (Suc n)"
proof -
  have add: "(byteOf A n + byteOf B n + (A mod 256 ^ n + B mod 256 ^ n) div 256 ^ n) div 256 =
      (A mod 256 ^ Suc n + B mod 256 ^ Suc n) div 256 ^ Suc n"
    unfolding mod_256_Suc unfolding power_Suc2 by (rule add_carry [symmetric]) simp
  have eq: "A mod 256 ^ Suc n = B mod 256 ^ Suc n \<longleftrightarrow> byteOf A n = byteOf B n \<and> A mod 256 ^ n = B mod 256 ^ n"
    by (rule bytes_less)
  have zero: "C mod 256 ^ Suc n = 0 \<longleftrightarrow> byteOf C n = 0 \<and> C mod 256 ^ n = 0"
    by (simp only: mod_256_Suc) auto
  have less: "lowLess A B 0 (Suc n) \<longleftrightarrow> byteOf A n < byteOf B n \<or> byteOf A n = byteOf B n \<and> lowLess A B 0 n"
    using lowLess_Suc [of A B 0 n] by simp
  let ?L = "8 * (n div 8)"
  have lane: "lowLess A B ?L (Suc n - ?L) \<longleftrightarrow>
      byteOf A n < byteOf B n \<or> byteOf A n = byteOf B n \<and> lowLess A B ?L (n - ?L)"
    using lowLess_Suc [of A B ?L "n - ?L"] by (simp add: Suc_diff_le)
  have lane': "8 * ((n - 1) div 8) = ?L" if "n mod 8 \<noteq> 0" using pred_div [OF that] by simp
  have start: "\<not> lowLess A B ?L (n - ?L)" if "n mod 8 = 0" 
  proof -
    have "n - ?L = 0" using that by (simp add: minus_mult_div_eq_mod)
    then show ?thesis by simp
  qed
  consider "opcode = 0" | "opcode = 1 \<or> opcode = 2 \<or> opcode = 3" | "opcode = 4" | "opcode = 5" | "opcode = 8"
    | "opcode \<notin> {0, 1, 2, 3, 4, 5, 8}" by blast
  then show ?thesis
  proof cases
    case 1
    have defs: "carryStep 0 a b c d = (a + b + d) div 256" "carryIn 0 A B C m = carryOut 0 A B C m"
      "carryOut 0 A B C m = (A mod 256 ^ m + B mod 256 ^ m) div 256 ^ m" for a b c d m
      by (simp_all add: carryStep_def carryIn_def carryOut_def)
    show ?thesis unfolding 1 defs by (rule add)
  next
    case 2
    then have "opcode \<noteq> 0" "opcode \<noteq> 8" by auto
    with 2 show ?thesis by (simp add: carryStep_def carryIn_def carryOut_def less)
  next
    case 3
    then show ?thesis using eq by (simp add: carryStep_def carryIn_def carryOut_def del: power_Suc)
  next
    case 4
    then show ?thesis using zero by (simp add: carryStep_def carryIn_def carryOut_def del: power_Suc)
  next
    case 5
    then show ?thesis using lane start lane' by (auto simp: carryStep_def carryIn_def carryOut_def)
  qed (simp add: carryStep_def carryIn_def carryOut_def)
qed

section \<open>One byte and one register\<close>

context goldilocks begin

lemma fromU64_small: "n < 2 ^ 32 \<Longrightarrow> toU64 fr (fromU64 fr (word_of_nat n)) = word_of_nat n"
  by (rule toU64_fromU64_32) (simp add: unat_of_nat take_bit_eq_mod)

lemma unat_small: "n < 2 ^ 32 \<Longrightarrow> unat (toU64 fr (fromU64 fr (word_of_nat n))) = n"
  by (simp add: fromU64_small unat_of_nat take_bit_eq_mod)

lemma unat_zero: "unat (toU64 fr (gl_zero fr)) = 0" and unat_one: "unat (toU64 fr (gl_one fr)) = 1"
  by (simp_all add: toU64_zero toU64_one)

lemma registerSum_value:
  assumes "x < 2 ^ 16" "y < 2 ^ 16" "(if reset then 0 else unat (toU64 fr register)) + factor * (x + 256 * y) < 2 ^ 32"
  shows "registerSum fr register reset (word_of_nat factor) (fromU64 fr (word_of_nat x)) (fromU64 fr (word_of_nat y)) =
    word_of_nat ((if reset then 0 else unat (toU64 fr register)) + factor * (x + 256 * y))"
  using assms by (simp add: registerSum_def fromU64_small algebra_simps)

lemma fromU64_mult_le: "unat (toU64 fr (fromU64 fr n)) \<le> unat n"
  by (simp add: unat_toU64_fromU64)

end

context goldilocks begin

lemma unat_word: "n < 2 ^ 32 \<Longrightarrow> unat (word_of_nat n :: u64) = n"
  by (simp add: unat_of_nat take_bit_eq_mod)

lemma drop_word: "n < 2 ^ 32 \<Longrightarrow> drop_bit k (word_of_nat n :: u64) = word_of_nat (n div 2 ^ k)"
proof -
  assume n: "n < 2 ^ 32"
  moreover have "n div 2 ^ k < 2 ^ 32" using n div_le_dividend [of n "2 ^ k"] by linarith
  ultimately show ?thesis unfolding word_unat_eq_iff unat_drop_bit_eq by (simp only: unat_word drop_bit_eq_div)
qed

lemma byte_words:
  assumes "a < 256" "b < 256"
  shows "word_of_nat a < (word_of_nat b :: u64) \<longleftrightarrow> a < b" "word_of_nat a = (word_of_nat b :: u64) \<longleftrightarrow> a = b"
    "(word_of_nat a = (0 :: u64)) = (a = 0)"
  using assms by (simp_all add: word_less_nat_alt word_unat_eq_iff unat_of_nat take_bit_eq_mod)

lemma carry_cases:
  assumes "unat (toU64 fr cIn) \<le> 1"
  obtains "toU64 fr cIn = 0" | "toU64 fr cIn = 1"
proof -
  have "unat (toU64 fr cIn) = 0 \<or> unat (toU64 fr cIn) = 1" using assms by linarith
  then show ?thesis using that by (auto simp: word_unat_eq_iff)
qed

lemma unat_ltCarry:
  assumes "a < 256" "b < 256" "unat (toU64 fr cIn) \<le> 1"
  shows "unat (toU64 fr (ltCarry fr (word_of_nat a) (word_of_nat b) cIn)) =
    of_bool (a < b \<or> a = b \<and> unat (toU64 fr cIn) \<noteq> 0)"
  using assms(3) by (cases rule: carry_cases) (auto simp: ltCarry_def byte_words assms(1,2) toU64_zero toU64_one)

lemma unat_eqCarry:
  assumes "a < 256" "b < 256"
  shows "unat (toU64 fr (eqCarry fr (word_of_nat a) (word_of_nat b) cIn)) =
    of_bool (a \<noteq> b \<or> unat (toU64 fr cIn) \<noteq> 0)"
  using byte_words(2) [OF assms] by (simp add: eqCarry_def toU64_zero toU64_one isZero_iff unat_eq_0)

lemma unat_sltCarry:
  assumes "a < 256" "b < 256" "unat (toU64 fr cIn) \<le> 1"
  shows "unat (toU64 fr (sltCarry fr (word_of_nat a) (word_of_nat b) cIn)) =
    (if a div 128 = b div 128 then of_bool (a < b \<or> a = b \<and> unat (toU64 fr cIn) \<noteq> 0)
     else of_bool (b div 128 < a div 128))"
proof -
  have sign: "drop_bit 7 (word_of_nat n :: u64) = word_of_nat (n div 128)" if "n < 256" for n
    using drop_word [of n 7] that by simp
  have less: "n div 128 < 256" if "n < 256" for n :: nat using that by simp
  show ?thesis
    using assms by (auto simp: sltCarry_def Let_def sign byte_words less unat_ltCarry toU64_zero toU64_one)
qed

lemma unat_addCarry:
  assumes "a < 256" "b < 256" "unat (toU64 fr cIn) \<le> 1"
  shows "unat (toU64 fr (fromU64 fr (drop_bit 8 (word_of_nat a + word_of_nat b + toU64 fr cIn)))) =
    (a + b + unat (toU64 fr cIn)) div 256"
proof -
  have c: "toU64 fr cIn = word_of_nat (unat (toU64 fr cIn))" by simp
  have "word_of_nat a + word_of_nat b + toU64 fr cIn = (word_of_nat (a + b + unat (toU64 fr cIn)) :: u64)"
    by (subst c) simp
  moreover have small: "a + b + unat (toU64 fr cIn) < 1024" using assms by linarith
  moreover have "drop_bit 8 (word_of_nat n :: u64) = word_of_nat (n div 256)" if "n < 1024" for n
    using drop_word [of n 8] that by simp
  moreover have "n div 256 < 2 ^ 32" if "n < 1024" for n :: nat using that by simp
  ultimately show ?thesis by (simp only: unat_small)
qed

lemma sub_borrow:
  assumes "a < 256" "b < 256" "unat (toU64 fr cIn) \<le> 1"
  shows "sint (word_of_nat b :: u64) \<le> sint (word_of_nat a - toU64 fr cIn) \<longleftrightarrow>
    \<not> (a < b \<or> a = b \<and> unat (toU64 fr cIn) \<noteq> 0)"
proof -
  have s: "sint (word_of_int i :: u64) = i" if "- 1 \<le> i" "i < 256" for i
    using that by (simp add: sint_sbintrunc' signed_take_bit_int_eq_self)
  have "sint (word_of_nat b :: u64) = int b" using s [of "int b"] assms(2) by simp
  moreover have "sint (word_of_nat a - toU64 fr cIn) = int a - int (unat (toU64 fr cIn))"
    using assms(3) s [of "int a"] s [of "int a - 1"] assms(1) by (cases rule: carry_cases) auto
  ultimately show ?thesis using assms(3) by linarith
qed

lemma byte_carry:
  assumes "a < 256" "b < 256" "c < 256" "unat (toU64 fr cIn) \<le> 1"
  shows "unat (toU64 fr (bsCOut (binaryByte fr opcode cBytes isLast resetByte lastByte (word_of_nat a) (word_of_nat b)
      (word_of_nat c) cIn))) =
    (if lastByte \<and> opcode = 3 then
       if a div 128 = b div 128 then carryStep opcode a b c (unat (toU64 fr cIn)) else of_bool (b div 128 < a div 128)
     else if lastByte \<and> opcode = 4 then 1 - carryStep opcode a b c (unat (toU64 fr cIn))
     else carryStep opcode a b c (unat (toU64 fr cIn)))"
proof -
  consider "opcode = 0" | "opcode = 1" | "opcode = 2" | "opcode = 3" | "opcode = 4" | "opcode = 5" | "opcode = 8"
    | "opcode \<notin> {0, 1, 2, 3, 4, 5, 8}" by blast
  then show ?thesis
  proof cases
    case 2
    then show ?thesis using assms
      by (simp add: binaryByte_def Let_def carryStep_def sub_borrow toU64_zero toU64_one)
  next
    case 5
    then show ?thesis using assms
      by (simp add: binaryByte_def Let_def carryStep_def isZero_iff toU64_zero toU64_one unat_eqCarry
          flip: unat_eq_0)
  next
    case 6
    then show ?thesis using assms
      by (simp add: binaryByte_def Let_def carryStep_def isZero_iff toU64_zero toU64_one byte_words unat_eq_0)
  qed (use assms in \<open>auto simp: binaryByte_def Let_def carryStep_def unat_addCarry unat_ltCarry unat_sltCarry unat_zero\<close>)
qed

end

end
