(* ===== verification/Binary_Rows.thy ===== *)
theory Binary_Rows
  imports Binary_Inv
begin

text \<open>
  The sixteen rows of one action: what each row leaves in the next one, and the result in the row
  after the last.
\<close>

section \<open>The fields of a row\<close>

abbreviation (input) rowByte :: "u8 list \<Rightarrow> nat \<Rightarrow> nat \<Rightarrow> u64" where
  "rowByte bytes j k \<equiv> ucast (bytes ! (j * 2 + k))"

definition rowStep :: "'e gl \<Rightarrow> BinaryActionBytes \<Rightarrow> nat \<Rightarrow> nat \<Rightarrow> 'e \<Rightarrow> 'e ByteStep" where
  "rowStep fr input j k cIn =
     binaryByte fr (bbOpcode input) (bbC input) (j = 15) (j = 0 \<and> k = 0) (j = 15 \<and> k = 1)
       (rowByte (bbA input) j k) (rowByte (bbB input) j k) (rowByte (bbC input) j k) cIn"

definition rowCarry :: "'e gl \<Rightarrow> BinaryActionBytes \<Rightarrow> nat \<Rightarrow> 'e \<Rightarrow> 'e ByteStep" where
  "rowCarry fr input j cIn = rowStep fr input j 1 (bsCOut (rowStep fr input j 0 cIn))"

definition rowPrevious :: "'e gl \<Rightarrow> nat \<Rightarrow> 'e \<Rightarrow> 'e \<Rightarrow> 'e" where
  "rowPrevious fr j cOut p =
     (if j mod 16 = 3 then cOut else if j mod 16 = 7 \<or> j mod 16 = 11 then gl_mul fr p cOut else p)"

text \<open>What the register 0 of c becomes.\<close>

definition rowC0 :: "'e gl \<Rightarrow> 'e ByteStep \<Rightarrow> 'e \<Rightarrow> u64 \<Rightarrow> 'e" where
  "rowC0 fr s previous c0 =
     (if bsUseCarry s then bsCOut s else if bsUsePrevious s then previous
      else fromU64 fr (ucast (ucast c0 :: u32)))"

context goldilocks begin

lemma flag_values: "gl_isZero fr (if b then gl_one fr else gl_zero fr) \<longleftrightarrow> \<not> b"
    "gl_equal fr (fromU64 fr (if b then 1 else 0)) (gl_one fr) \<longleftrightarrow> b"
proof -
  have "toU64 fr (fromU64 fr 1) = 1" "toU64 fr (fromU64 fr 0) = 0" by (rule toU64_fromU64_32; simp)+
  then show "gl_isZero fr (if b then gl_one fr else gl_zero fr) \<longleftrightarrow> \<not> b"
    "gl_equal fr (fromU64 fr (if b then 1 else 0)) (gl_one fr) \<longleftrightarrow> b"
    by (simp_all add: isZero_iff equal_iff toU64_one toU64_zero)
qed

lemma binaryRow_fields:
  assumes "binaryRow fr N FACTOR input i j (p, pols) = (p', pols')" "(i * 16 + j + 1) mod N \<noteq> i * 16 + j"
  defines "idx \<equiv> i * 16 + j" and "nxt \<equiv> (i * 16 + j + 1) mod N"
  defines "s0 \<equiv> rowStep fr input j 0 (bpCIn pols (i * 16 + j))" and "s1 \<equiv> rowCarry fr input j (bpCIn pols (i * 16 + j))"
  shows "p' = rowPrevious fr j (bsCOut s1) p"
    "bpA pols' = setRegisters nxt (\<lambda>k. fromU64 fr (registerSum fr (bpA pols k idx) (j = 0) (FACTOR ! k ! idx)
        (fromU64 fr (rowByte (bbA input) j 0)) (fromU64 fr (rowByte (bbA input) j 1)))) (bpA pols)"
    "bpB pols' = setRegisters nxt (\<lambda>k. fromU64 fr (registerSum fr (bpB pols k idx) (j = 0) (FACTOR ! k ! idx)
        (fromU64 fr (rowByte (bbB input) j 0)) (fromU64 fr (rowByte (bbB input) j 1)))) (bpB pols)"
    "bpC pols' = setRegisters nxt (\<lambda>k.
        let sum = registerSum fr (bpC pols k idx) (j = 0) (FACTOR ! k ! idx) (bsFreeC s0) (bsFreeC s1)
        in if k = 0 then rowC0 fr s1 (bpPreviousAreLt4 pols idx) sum
           else if j = 15 \<and> (bsUseCarry s1 \<or> bsUsePrevious s1) then gl_zero fr else fromU64 fr sum) (bpC pols)"
    "bpCIn pols' = (bpCIn pols)(nxt := if nxt mod 16 = 0 \<or> bbOpcode input = 8 \<and> idx mod 4 = 3 then gl_zero fr
        else bsCOut s1)"
    "bpLCout pols' = (bpLCout pols)(nxt := if bsUsePrevious s1 then p' else bsCOut s1)"
    "bpPreviousAreLt4 pols' = (bpPreviousAreLt4 pols)(nxt := p')"
    "bpLOpcode pols' = (bpLOpcode pols)(nxt := fromU64 fr (bbOpcode input))"
proof -
  have neq: "nxt \<noteq> idx" using assms(2) by (simp add: idx_def nxt_def)
  have flag: "(if x = 8 then 1 else 0 :: u64) = 1 \<longleftrightarrow> x = 8" for x :: u64 by simp
  have orelse: "(if P then x else if Q then x else y) = (if P \<or> Q then x else y)" for P Q and x y :: 'a by simp
  have out: "pols' = snd (binaryRow fr N FACTOR input i j (p, pols))" "p' = fst (binaryRow fr N FACTOR input i j (p, pols))"
    using assms(1) by simp_all
  show p': "p' = rowPrevious fr j (bsCOut s1) p"
    unfolding out(2) by (simp add: binaryRow_def Let_def rowStep_def rowCarry_def s1_def idx_def rowPrevious_def cong: if_cong split del: if_split)
  show "bpLOpcode pols' = (bpLOpcode pols)(nxt := fromU64 fr (bbOpcode input))"
    unfolding out(1) by (simp add: binaryRow_def Let_def nxt_def idx_def cong: if_cong split del: if_split)
  show "bpPreviousAreLt4 pols' = (bpPreviousAreLt4 pols)(nxt := p')"
    unfolding out(1) p' by (simp add: binaryRow_def Let_def nxt_def idx_def s1_def rowStep_def rowCarry_def rowPrevious_def cong: if_cong split del: if_split)
  show "bpLCout pols' = (bpLCout pols)(nxt := if bsUsePrevious s1 then p' else bsCOut s1)"
    unfolding out(1) p' by (simp add: binaryRow_def Let_def nxt_def idx_def s1_def rowStep_def rowCarry_def rowPrevious_def cong: if_cong split del: if_split)
  show "bpCIn pols' = (bpCIn pols)(nxt := if nxt mod 16 = 0 \<or> bbOpcode input = 8 \<and> idx mod 4 = 3 then gl_zero fr
        else bsCOut s1)"
    unfolding out(1) by (simp add: binaryRow_def Let_def nxt_def idx_def s1_def rowStep_def rowCarry_def flag orelse cong: if_cong split del: if_split)
  show "bpA pols' = setRegisters nxt (\<lambda>k. fromU64 fr (registerSum fr (bpA pols k idx) (j = 0) (FACTOR ! k ! idx)
        (fromU64 fr (rowByte (bbA input) j 0)) (fromU64 fr (rowByte (bbA input) j 1)))) (bpA pols)"
    unfolding out(1) by (simp add: binaryRow_def Let_def nxt_def idx_def set2_def cong: if_cong split del: if_split)
  show "bpB pols' = setRegisters nxt (\<lambda>k. fromU64 fr (registerSum fr (bpB pols k idx) (j = 0) (FACTOR ! k ! idx)
        (fromU64 fr (rowByte (bbB input) j 0)) (fromU64 fr (rowByte (bbB input) j 1)))) (bpB pols)"
    unfolding out(1) by (simp add: binaryRow_def Let_def nxt_def idx_def set2_def cong: if_cong split del: if_split)
  show "bpC pols' = setRegisters nxt (\<lambda>k.
        let sum = registerSum fr (bpC pols k idx) (j = 0) (FACTOR ! k ! idx) (bsFreeC s0) (bsFreeC s1)
        in if k = 0 then rowC0 fr s1 (bpPreviousAreLt4 pols idx) sum
           else if j = 15 \<and> (bsUseCarry s1 \<or> bsUsePrevious s1) then gl_zero fr else fromU64 fr sum) (bpC pols)"
    unfolding out(1) using neq
    by (simp add: binaryRow_def Let_def nxt_def idx_def s0_def s1_def rowStep_def rowCarry_def set2_def
        rowC0_def setRegisters_def fun_eq_iff flag_values cong: if_cong split del: if_split)
qed

end

section \<open>The carries of a row\<close>

text \<open>The bytes of an action, and what its last carry says of the operands.\<close>

definition inputOf :: "BinaryAction \<Rightarrow> BinaryActionBytes \<Rightarrow> bool" where
  "inputOf act input \<longleftrightarrow> bbOpcode input = baOpcode act \<and> bbType input = baType act \<and>
     baA act < 2 ^ 256 \<and> baB act < 2 ^ 256 \<and> baC act < 2 ^ 256 \<and>
     (\<forall>n<32. ucast (bbA input ! n) = (word_of_nat (byteOf (baA act) n) :: u64) \<and>
        ucast (bbB input ! n) = (word_of_nat (byteOf (baB act) n) :: u64) \<and>
        ucast (bbC input ! n) = (word_of_nat (byteOf (baC act) n) :: u64))"

abbreviation (input) actOut :: "BinaryAction \<Rightarrow> nat \<Rightarrow> nat" where
  "actOut act \<equiv> carryOut (baOpcode act) (baA act) (baB act) (baC act)"

abbreviation (input) actIn :: "BinaryAction \<Rightarrow> nat \<Rightarrow> nat" where
  "actIn act \<equiv> carryIn (baOpcode act) (baA act) (baB act) (baC act)"

definition laneLess :: "nat \<Rightarrow> nat \<Rightarrow> nat \<Rightarrow> bool" where
  "laneLess A B l \<longleftrightarrow> A div 2 ^ (64 * l) mod 2 ^ 64 < B div 2 ^ (64 * l) mod 2 ^ 64"

lemma laneLess_lowLess: "laneLess A B l \<longleftrightarrow> lowLess A B (8 * l) 8"
proof -
  have "(256 :: nat) ^ (8 * l) = 2 ^ (8 * (8 * l))" unfolding power_mult by simp
  then show ?thesis by (simp add: laneLess_def lowLess_def)
qed

definition lastCarry :: "BinaryAction \<Rightarrow> nat" where
  "lastCarry act = (if baOpcode act = 3 then of_bool (signed256 (baA act) < signed256 (baB act))
     else if baOpcode act = 4 then of_bool (baA act = baB act) else actOut act 32)"

lemma sign_byte: "A < 2 ^ 256 \<Longrightarrow> byteOf A 31 div 128 = of_bool (2 ^ 255 \<le> A)"
proof -
  assume A: "A < 2 ^ 256"
  have "A div 256 ^ 31 < 256" using A by (simp add: less_mult_imp_div_less)
  then have "byteOf A 31 div 128 = A div (256 ^ 31 * 128)" unfolding byteOf_def by (simp only: div_mult2_eq mod_less)
  also have "\<dots> = A div 2 ^ 255" by simp
  also have "\<dots> = of_bool (2 ^ 255 \<le> A)"
  proof (cases "2 ^ 255 \<le> A")
    case True
    have "A div 2 ^ 255 < 2" using A by (intro less_mult_imp_div_less) simp
    moreover have "1 \<le> A div 2 ^ 255" using True by (simp add: Suc_leI div_greater_zero_iff)
    ultimately show ?thesis using True by simp
  qed simp
  finally show ?thesis .
qed

lemma signed_less:
  assumes "A < 2 ^ 256" "B < 2 ^ 256"
  shows "(if byteOf A 31 div 128 = byteOf B 31 div 128 then of_bool (A < B) else of_bool (byteOf B 31 div 128 < byteOf A 31 div 128))
    = (of_bool (signed256 A < signed256 B) :: nat)"
  unfolding sign_byte [OF assms(1)] sign_byte [OF assms(2)]
  using assms by (cases "2 ^ 255 \<le> A"; cases "2 ^ 255 \<le> B") (auto simp: signed256_def)

context goldilocks begin

lemma even_8: "Suc (2 * j) mod 8 \<noteq> 0"
  by presburger

lemma row_byte:
  assumes "inputOf act input" "j < 16" "k < 2" "unat (toU64 fr cIn) = actIn act (2 * j + k)"
  shows "unat (toU64 fr (bsCOut (rowStep fr input j k cIn))) = (if 2 * j + k = 31 then lastCarry act else actOut act (Suc (2 * j + k)))"
proof -
  let ?n = "2 * j + k" and ?A = "baA act" and ?B = "baB act" and ?C = "baC act"
  have n: "?n < 32" "j * 2 + k = ?n" using assms(2,3) by auto
  have bytes: "rowByte (bbA input) j k = word_of_nat (byteOf ?A ?n)" "rowByte (bbB input) j k = word_of_nat (byteOf ?B ?n)"
    "rowByte (bbC input) j k = word_of_nat (byteOf ?C ?n)" "bbOpcode input = baOpcode act"
    "?A < 2 ^ 256" "?B < 2 ^ 256"
    using assms(1) n(1) unfolding n(2) by (auto simp: inputOf_def)
  have le: "unat (toU64 fr cIn) \<le> 1" unfolding assms(4) by (rule carryIn_le)
  have all: "j = 15 \<and> k = 1 \<longleftrightarrow> ?n = 31" using assms(2,3) by linarith
  have full: "(256 :: nat) ^ 32 = 2 ^ 256" by simp
  note carry = byte_carry [OF byteOf_less byteOf_less byteOf_less le, unfolded assms(4)]
  have "unat (toU64 fr (bsCOut (rowStep fr input j k cIn))) =
    (if ?n = 31 \<and> baOpcode act = 3 then
       if byteOf ?A ?n div 128 = byteOf ?B ?n div 128 then actOut act (Suc ?n) else of_bool (byteOf ?B ?n div 128 < byteOf ?A ?n div 128)
     else if ?n = 31 \<and> baOpcode act = 4 then 1 - actOut act (Suc ?n) else actOut act (Suc ?n))"
    unfolding rowStep_def bytes carry all carryOut_step ..
  also have "\<dots> = (if ?n = 31 then lastCarry act else actOut act (Suc ?n))"
  proof (cases "?n = 31")
    case True
    then have n': "?n = 31" by simp_all
    have three: "(if byteOf ?A 31 div 128 = byteOf ?B 31 div 128 then actOut act 32
        else of_bool (byteOf ?B 31 div 128 < byteOf ?A 31 div 128)) = of_bool (signed256 ?A < signed256 ?B)"
      if "baOpcode act = 3"
    proof -
      have "actOut act 32 = of_bool (?A < ?B)" using that bytes(5,6) by (simp add: carryOut_def lowLess_def full)
      then show ?thesis using signed_less [OF bytes(5,6)] by (simp only:)
    qed
    have four: "1 - actOut act 32 = of_bool (?A = ?B)" if "baOpcode act = 4"
      using that bytes(5,6) by (simp add: carryOut_def full)
    have suc: "Suc 31 = 32" by simp
    consider "baOpcode act = 3" | "baOpcode act \<noteq> 3" "baOpcode act = 4" | "baOpcode act \<noteq> 3" "baOpcode act \<noteq> 4"
      by blast
    then show ?thesis
    proof cases
      case 1
      show ?thesis unfolding n' suc lastCarry_def using three [OF 1] 1 by (simp only: simp_thms if_True)
    next
      case 2
      show ?thesis unfolding n' suc lastCarry_def using four [OF 2(2)] 2 by (simp only: simp_thms if_True if_False)
    next
      case 3
      then show ?thesis unfolding n' suc lastCarry_def by (simp only: simp_thms if_True if_False)
    qed
  next
    case False
    then show ?thesis by (simp only: simp_thms if_False)
  qed
  finally show ?thesis .
qed

lemma row_carry:
  assumes "inputOf act input" "j < 16" "unat (toU64 fr cIn) = actIn act (2 * j)"
  shows "unat (toU64 fr (bsCOut (rowCarry fr input j cIn))) = (if j = 15 then lastCarry act else actOut act (2 * Suc j))"
proof -
  have "unat (toU64 fr (bsCOut (rowStep fr input j 0 cIn))) = actOut act (Suc (2 * j))"
    using row_byte [OF assms(1,2), of 0 cIn] assms(2,3) by simp
  also have "\<dots> = actIn act (2 * j + 1)" unfolding carryIn_def using even_8 [of j] by simp
  finally show ?thesis using row_byte [OF assms(1,2), of 1 "bsCOut (rowStep fr input j 0 cIn)"] assms(2)
    by (simp add: rowCarry_def)
qed

end

end
