(* ===== verification/Binary_Steps.thy ===== *)
theory Binary_Steps
  imports Binary_Rows
begin

text \<open>
  The invariant of the sixteen rows of an action, and what the action leaves in the row of its result.
\<close>

section \<open>The invariant between rows\<close>

abbreviation (input) compares :: "u64 \<Rightarrow> bool" where
  "compares opcode \<equiv> opcode \<in> {2, 3, 4, 8}"

definition regsHold :: "'e gl \<Rightarrow> (nat \<Rightarrow> 'e pol) \<Rightarrow> nat \<Rightarrow> nat \<Rightarrow> nat \<Rightarrow> bool" where
  "regsHold fr f idx A j \<longleftrightarrow> (\<forall>k<8. unat (toU64 fr (f k idx)) = partial A j k)"

definition lanesLess :: "BinaryAction \<Rightarrow> nat \<Rightarrow> nat" where
  "lanesLess act n = of_bool (\<forall>l<n. laneLess (baA act) (baB act) l)"

definition rowInv :: "'e gl \<Rightarrow> BinaryAction \<Rightarrow> nat \<Rightarrow> nat \<Rightarrow> 'e \<times> 'e BinaryPols \<Rightarrow> bool" where
  "rowInv fr act j idx state \<longleftrightarrow>
     unat (toU64 fr (bpCIn (snd state) idx)) = actIn act (2 * j) \<and>
     (0 < j \<longrightarrow> toU64 fr (bpPreviousAreLt4 (snd state) idx) = toU64 fr (fst state) \<and>
        regsHold fr (bpA (snd state)) idx (baA act) j \<and> regsHold fr (bpB (snd state)) idx (baB act) j \<and>
        (\<not> compares (baOpcode act) \<longrightarrow> regsHold fr (bpC (snd state)) idx (baC act) j)) \<and>
     (baOpcode act = 8 \<longrightarrow> 4 \<le> j \<longrightarrow> unat (toU64 fr (fst state)) = lanesLess act (min 3 (j div 4)))"

definition factorsOk :: "nat \<Rightarrow> u64 list list \<Rightarrow> bool" where
  "factorsOk N FACTOR \<longleftrightarrow> (\<forall>k<8. \<forall>i j. j < 16 \<longrightarrow> i * 16 + j < N \<longrightarrow> FACTOR ! k ! (i * 16 + j) = word_of_nat (rowFactor j k))"

lemma buildFactors_ok: "factorsOk N (buildFactors N)"
proof -
  have "(i * 16 + j) div 2 mod 8 = j div 2" "even (i * 16 + j) = even j" if "j < 16" for i j :: nat
  proof -
    have "(i * 16 + j) div 2 = (j + 2 * (8 * i)) div 2" by (simp add: algebra_simps)
    also have "\<dots> = j div 2 + 8 * i" by simp
    finally show "(i * 16 + j) div 2 mod 8 = j div 2" using that by simp
  qed simp
  then show ?thesis by (auto simp: factorsOk_def buildFactors_def rowFactor_def even_iff_mod_2_eq_zero)
qed

lemma trunc_32: "n < 2 ^ 32 \<Longrightarrow> ucast (ucast (word_of_nat n :: u64) :: u32) = (word_of_nat n :: u64)"
  by (simp add: word_unat_eq_iff unsigned_ucast_eq unsigned_take_bit_eq unat_of_nat take_bit_nat_eq_self)

lemma partial_step:
  "(if j = 0 then 0 else partial A j k) + rowFactor j k * pairOf A j = partial A (Suc j) k"
  by (simp add: partial_Suc)

context goldilocks begin

lemma register_step:
  assumes "factorsOk N FACTOR" "i * 16 + j < N" "j < 16" "k < 8" "0 < j \<longrightarrow> regsHold fr f (i * 16 + j) A j"
  shows "registerSum fr (f k (i * 16 + j)) (j = 0) (FACTOR ! k ! (i * 16 + j))
      (fromU64 fr (word_of_nat (byteOf A (2 * j)))) (fromU64 fr (word_of_nat (byteOf A (2 * j + 1)))) = word_of_nat (partial A (Suc j) k)"
proof -
  have F: "FACTOR ! k ! (i * 16 + j) = word_of_nat (rowFactor j k)" using assms by (auto simp: factorsOk_def)
  have r: "(if j = 0 then 0 else unat (toU64 fr (f k (i * 16 + j)))) = (if j = 0 then 0 else partial A j k)"
    using assms(4,5) by (auto simp: regsHold_def)
  have "byteOf A (2 * j) < 2 ^ 16" "byteOf A (2 * j + 1) < 2 ^ 16"
    using byteOf_less [of A "2 * j"] byteOf_less [of A "2 * j + 1"] by simp_all
  moreover note sum = partial_step [of j A k, folded r, unfolded pairOf_def]
  moreover have "partial A (Suc j) k < 2 ^ 32" by (rule partial_less)
  ultimately show ?thesis unfolding F by (simp only: registerSum_value)
qed

lemma regsHold_set:
  assumes "f' = setRegisters nxt (\<lambda>k. fromU64 fr (v k)) f" "\<And>k. k < 8 \<Longrightarrow> v k = word_of_nat (partial A j k)"
  shows "regsHold fr f' nxt A j"
  using assms partial_less [of A j] by (simp add: regsHold_def setRegisters_def unat_small)

lemma inputBytes:
  assumes "inputOf act input" "j < 16"
  shows "rowByte (bbA input) j 0 = word_of_nat (byteOf (baA act) (2 * j))"
    "rowByte (bbA input) j 1 = word_of_nat (byteOf (baA act) (2 * j + 1))"
    "rowByte (bbB input) j 0 = word_of_nat (byteOf (baB act) (2 * j))"
    "rowByte (bbB input) j 1 = word_of_nat (byteOf (baB act) (2 * j + 1))"
    "rowByte (bbC input) j 0 = word_of_nat (byteOf (baC act) (2 * j))"
    "rowByte (bbC input) j 1 = word_of_nat (byteOf (baC act) (2 * j + 1))"
proof -
  have "2 * j < 32" "2 * j + 1 < 32" "j * 2 = 2 * j" using assms(2) by simp_all
  then show "rowByte (bbA input) j 0 = word_of_nat (byteOf (baA act) (2 * j))"
    "rowByte (bbA input) j 1 = word_of_nat (byteOf (baA act) (2 * j + 1))"
    "rowByte (bbB input) j 0 = word_of_nat (byteOf (baB act) (2 * j))"
    "rowByte (bbB input) j 1 = word_of_nat (byteOf (baB act) (2 * j + 1))"
    "rowByte (bbC input) j 0 = word_of_nat (byteOf (baC act) (2 * j))"
    "rowByte (bbC input) j 1 = word_of_nat (byteOf (baC act) (2 * j + 1))"
    using assms(1) unfolding inputOf_def by (simp_all only: add_0_right)
qed

lemma free_own:
  assumes "inputOf act input" "j < 16" "\<not> compares (baOpcode act)"
  shows "bsFreeC (rowStep fr input j 0 cIn) = fromU64 fr (word_of_nat (byteOf (baC act) (2 * j)))"
    "bsFreeC (rowCarry fr input j cIn) = fromU64 fr (word_of_nat (byteOf (baC act) (2 * j + 1)))"
    "\<not> bsUseCarry (rowCarry fr input j cIn)" "\<not> bsUsePrevious (rowCarry fr input j cIn)"
proof -
  have op: "bbOpcode input \<noteq> 2" "bbOpcode input \<noteq> 3" "bbOpcode input \<noteq> 4" "bbOpcode input \<noteq> 8"
    using assms(1,3) by (auto simp: inputOf_def)
  show "bsFreeC (rowStep fr input j 0 cIn) = fromU64 fr (word_of_nat (byteOf (baC act) (2 * j)))"
    "bsFreeC (rowCarry fr input j cIn) = fromU64 fr (word_of_nat (byteOf (baC act) (2 * j + 1)))"
    using op inputBytes [OF assms(1,2)] by (simp_all add: rowStep_def rowCarry_def binaryByte_def Let_def)
  show "\<not> bsUseCarry (rowCarry fr input j cIn)" "\<not> bsUsePrevious (rowCarry fr input j cIn)"
    using op by (simp_all add: rowStep_def rowCarry_def binaryByte_def Let_def)
qed

lemma choose_result:
  assumes "inputOf act input" "compares (baOpcode act)"
  shows "bsUsePrevious (rowCarry fr input j cIn) \<longleftrightarrow>
      j = 15 \<and> baOpcode act = 8 \<and> \<not> gl_equal fr (bsCOut (rowCarry fr input j cIn)) (gl_zero fr)"
    "bsUseCarry (rowCarry fr input j cIn) \<longleftrightarrow> j = 15 \<and> \<not> bsUsePrevious (rowCarry fr input j cIn)"
  using assms by (auto simp: rowStep_def rowCarry_def binaryByte_def Let_def inputOf_def)

end

section \<open>A row keeps the invariant\<close>

lemma lanesLess_Suc: "lanesLess act (Suc n) = lanesLess act n * of_bool (laneLess (baA act) (baB act) n)"
  by (auto simp: lanesLess_def less_Suc_eq)

lemma lanesLess_1: "lanesLess act 1 = of_bool (laneLess (baA act) (baB act) 0)"
  by (simp add: lanesLess_def)

lemma lane_out:
  assumes "baOpcode act = 8" "j mod 4 = 3"
  shows "actOut act (2 * Suc j) = of_bool (laneLess (baA act) (baB act) (j div 4))"
proof -
  define q where "q = j div 4"
  have j: "j = 4 * q + 3" using mult_div_mod_eq [of 4 j] unfolding assms(2) q_def by simp
  have "2 * Suc j - 1 = 7 + 8 * q" unfolding j by simp
  then have "(2 * Suc j - 1) div 8 = q" "2 * Suc j - 8 * q = 8" "j div 4 = q" by (simp_all add: j)
  then show ?thesis using assms(1) by (simp add: carryOut_def laneLess_lowLess)
qed

context goldilocks begin

lemma bit_mult:
  assumes "unat (toU64 fr x) = of_bool P" "unat (toU64 fr y) = of_bool Q"
  shows "unat (toU64 fr (gl_mul fr x y)) = of_bool P * of_bool Q"
  using assms prime_bounds(2) by (simp add: unat_toU64_mul)

lemma previous_step:
  assumes "baOpcode act = 8" "j < 15" "unat (toU64 fr cOut) = actOut act (2 * Suc j)"
    "4 \<le> j \<longrightarrow> unat (toU64 fr p) = lanesLess act (min 3 (j div 4))" "4 \<le> Suc j"
  shows "unat (toU64 fr (rowPrevious fr j cOut p)) = lanesLess act (min 3 (Suc j div 4))"
proof -
  have "j = 3 \<or> j = 7 \<or> j = 11 \<or> j mod 4 \<noteq> 3" using assms(2) by presburger
  then consider "j = 3" | "j = 7" | "j = 11" | "j mod 4 \<noteq> 3" by blast
  then show ?thesis
  proof cases
    case 1
    then show ?thesis using lane_out [OF assms(1), of j] assms(3) lanesLess_1 [of act] by (simp add: rowPrevious_def)
  next
    case 2
    then have "unat (toU64 fr cOut) = of_bool (laneLess (baA act) (baB act) 1)" "unat (toU64 fr p) = of_bool (laneLess (baA act) (baB act) 0)"
      using lane_out [OF assms(1), of j] assms(3,4) lanesLess_1 [of act] by simp_all
    from bit_mult [OF this(2,1)] 2 show ?thesis
      using lanesLess_Suc [of act 1] lanesLess_1 [of act] by (simp add: rowPrevious_def numeral_2_eq_2)
  next
    case 3
    then have "unat (toU64 fr cOut) = of_bool (laneLess (baA act) (baB act) 2)" "unat (toU64 fr p) = of_bool (\<forall>l<2. laneLess (baA act) (baB act) l)"
      using lane_out [OF assms(1), of j] assms(3,4) by (simp_all add: lanesLess_def)
    from bit_mult [OF this(2,1)] 3 show ?thesis
      using lanesLess_Suc [of act 2] by (simp add: rowPrevious_def lanesLess_def numeral_3_eq_3)
  next
    case 4
    then have "j \<noteq> 3" "j \<noteq> 7" "j \<noteq> 11" "Suc j mod 4 \<noteq> 0" by (auto simp: mod_Suc)
    then have "4 \<le> j" "Suc j div 4 = j div 4" "j mod 16 \<noteq> 3" "j mod 16 \<noteq> 7" "j mod 16 \<noteq> 11"
      using assms(2,5) by (auto simp: div_Suc)
    then show ?thesis using assms(4) by (simp add: rowPrevious_def)
  qed
qed

lemma row_regs:
  assumes "binaryRow fr N FACTOR input i j (p, pols) = (p', pols')" "inputOf act input" "factorsOk N FACTOR"
    "i * 16 + j < N" "1 < N" "j < 16" "rowInv fr act j (i * 16 + j) (p, pols)"
  shows "regsHold fr (bpA pols') ((i * 16 + j + 1) mod N) (baA act) (Suc j)"
    "regsHold fr (bpB pols') ((i * 16 + j + 1) mod N) (baB act) (Suc j)"
    "\<not> compares (baOpcode act) \<Longrightarrow> regsHold fr (bpC pols') ((i * 16 + j + 1) mod N) (baC act) (Suc j)"
proof -
  have neq: "(i * 16 + j + 1) mod N \<noteq> i * 16 + j" using assms(4,5) by (cases "i * 16 + j + 1 = N") auto
  note fields = binaryRow_fields [OF assms(1) neq, unfolded inputBytes [OF assms(2,6)]]
  have inv: "0 < j \<longrightarrow> regsHold fr (bpA pols) (i * 16 + j) (baA act) j" "0 < j \<longrightarrow> regsHold fr (bpB pols) (i * 16 + j) (baB act) j"
    "0 < j \<longrightarrow> \<not> compares (baOpcode act) \<longrightarrow> regsHold fr (bpC pols) (i * 16 + j) (baC act) j"
    using assms(7) by (auto simp: rowInv_def)
  show "regsHold fr (bpA pols') ((i * 16 + j + 1) mod N) (baA act) (Suc j)"
    by (rule regsHold_set [OF fields(2)]) (rule register_step [OF assms(3,4,6) _ inv(1)])
  show "regsHold fr (bpB pols') ((i * 16 + j + 1) mod N) (baB act) (Suc j)"
    by (rule regsHold_set [OF fields(3)]) (rule register_step [OF assms(3,4,6) _ inv(2)])
  show "regsHold fr (bpC pols') ((i * 16 + j + 1) mod N) (baC act) (Suc j)" if "\<not> compares (baOpcode act)"
  proof -
    let ?v = "\<lambda>k. word_of_nat (partial (baC act) (Suc j) k) :: u64"
    have sum: "registerSum fr (bpC pols k (i * 16 + j)) (j = 0) (FACTOR ! k ! (i * 16 + j))
        (bsFreeC (rowStep fr input j 0 (bpCIn pols (i * 16 + j)))) (bsFreeC (rowCarry fr input j (bpCIn pols (i * 16 + j)))) = ?v k" if "k < 8" for k
      unfolding free_own [OF assms(2,6) \<open>\<not> compares (baOpcode act)\<close>]
      using register_step [OF assms(3,4,6) that, of "bpC pols" "baC act"] inv(3) \<open>\<not> compares (baOpcode act)\<close> by blast
    have small: "ucast (ucast (?v 0) :: u32) = ?v 0"
      by (rule trunc_32 [OF partial_less])
    show ?thesis
      unfolding regsHold_def fields(4) setRegisters_def Let_def rowC0_def
      using free_own(3,4) [OF assms(2,6) that, of "bpCIn pols (i * 16 + j)"] partial_less [of "baC act" "Suc j"]
      by (simp add: sum small unat_small)
  qed
qed

lemma row_inv:
  assumes "binaryRow fr N FACTOR input i j (p, pols) = (p', pols')" "inputOf act input" "factorsOk N FACTOR"
    "i * 16 + j + 1 < N" "j < 15" "rowInv fr act j (i * 16 + j) (p, pols)"
  shows "rowInv fr act (Suc j) (i * 16 + Suc j) (p', pols')"
proof -
  have j: "j < 16" "i * 16 + j < N" "1 < N" using assms(4,5) by simp_all
  have nxt: "(i * 16 + j + 1) mod N = i * 16 + Suc j" using assms(4) by simp
  have neq: "(i * 16 + j + 1) mod N \<noteq> i * 16 + j" unfolding nxt by simp
  note fields = binaryRow_fields [OF assms(1) neq, unfolded nxt]
  note regs = row_regs [OF assms(1-3) j(2,3,1) assms(6), unfolded nxt]
  let ?s1 = "rowCarry fr input j (bpCIn pols (i * 16 + j))"
  have cIn: "unat (toU64 fr (bpCIn pols (i * 16 + j))) = actIn act (2 * j)" using assms(6) by (simp add: rowInv_def)
  have out: "unat (toU64 fr (bsCOut ?s1)) = actOut act (2 * Suc j)"
    using row_carry [OF assms(2) j(1) cIn] assms(5) by simp
  have "(i * 16 + Suc j) mod 16 \<noteq> 0" using assms(5) by (simp del: add_Suc_right)
  moreover have "(i * 16 + j) mod 4 = 3 \<longleftrightarrow> 2 * Suc j mod 8 = 0"
  proof -
    have "(j + 4 * (4 * i)) mod 4 = j mod 4" by (rule mod_mult_self2)
    then have "(i * 16 + j) mod 4 = j mod 4" by (simp add: algebra_simps)
    moreover have "2 * Suc j mod 8 = 2 * (Suc j mod 4)" using mult_mod_right [of 2 "Suc j" 4] by simp
    ultimately show ?thesis by (auto simp: mod_Suc)
  qed
  moreover have "bbOpcode input = baOpcode act" using assms(2) by (simp add: inputOf_def)
  ultimately have "unat (toU64 fr (bpCIn pols' (i * 16 + Suc j))) = actIn act (2 * Suc j)"
    unfolding fields(5) carryIn_def using out by (simp add: toU64_zero)
  moreover have "unat (toU64 fr p') = lanesLess act (min 3 (Suc j div 4))" if "baOpcode act = 8" "4 \<le> Suc j"
    unfolding fields(1) using assms(6) that by (intro previous_step [OF that(1) assms(5) out]) (auto simp: rowInv_def)
  ultimately show ?thesis using regs fields(7) unfolding rowInv_def by simp
qed

end

section \<open>The result\<close>

text \<open>What each operation computes from its operands: the comparisons fill c, the others take it from the action.\<close>

definition binaryResult :: "BinaryAction \<Rightarrow> nat" where
  "binaryResult act =
     (if baOpcode act = 2 then of_bool (baA act < baB act)
      else if baOpcode act = 3 then of_bool (signed256 (baA act) < signed256 (baB act))
      else if baOpcode act = 4 then of_bool (baA act = baB act)
      else if baOpcode act = 8 then of_bool (\<forall>l<4. laneLess (baA act) (baB act) l)
      else baC act)"

definition binaryCarry :: "BinaryAction \<Rightarrow> nat" where
  "binaryCarry act =
     (if baOpcode act = 0 then (baA act + baB act) div 2 ^ 256
      else if baOpcode act = 1 then of_bool (baA act < baB act)
      else if baOpcode act = 5 then of_bool (baC act \<noteq> 0)
      else if compares (baOpcode act) then binaryResult act else 0)"

text \<open>The row of a result: the registers hold the operands and the result in chunks of 32 bits.\<close>

definition regs256 :: "'e gl \<Rightarrow> (nat \<Rightarrow> 'e pol) \<Rightarrow> nat \<Rightarrow> nat \<Rightarrow> bool" where
  "regs256 fr f row A \<longleftrightarrow> (\<forall>k<8. unat (toU64 fr (f k row)) = A div 2 ^ (32 * k) mod 2 ^ 32)"

definition resultAt :: "'e gl \<Rightarrow> BinaryAction \<Rightarrow> nat \<Rightarrow> 'e BinaryPols \<Rightarrow> bool" where
  "resultAt fr act row pols \<longleftrightarrow> regs256 fr (bpA pols) row (baA act) \<and> regs256 fr (bpB pols) row (baB act) \<and>
     regs256 fr (bpC pols) row (binaryResult act) \<and>
     unat (toU64 fr (bpLCout pols row)) = binaryCarry act \<and> bpLOpcode pols row = fromU64 fr (baOpcode act)"

lemma bool_digits: "(of_bool P :: nat) div 2 ^ (32 * k) mod 2 ^ 32 = (if k = 0 then of_bool P else 0)"
proof (cases "k = 0")
  case False
  then have "(1 :: nat) < 2 ^ (32 * k)" by (intro one_less_power) simp_all
  then show ?thesis using False by simp
qed simp

lemma lastCarry_carry:
  assumes "inputOf act input" "baOpcode act \<noteq> 8"
  shows "lastCarry act = binaryCarry act"
proof -
  have A: "baA act < 2 ^ 256" "baB act < 2 ^ 256" "baC act < 2 ^ 256" using assms(1) by (auto simp: inputOf_def)
  have full: "(256 :: nat) ^ 32 = 2 ^ 256" by simp
  have red: "baA act mod 256 ^ 32 = baA act" "baB act mod 256 ^ 32 = baB act" "baC act mod 256 ^ 32 = baC act"
    unfolding full using A by simp_all
  have low: "lowLess (baA act) (baB act) 0 32 \<longleftrightarrow> baA act < baB act" using red by (simp add: lowLess_def)
  show ?thesis
    unfolding lastCarry_def binaryCarry_def binaryResult_def carryOut_def low unfolding red unfolding full
    using assms(2) by simp
qed

lemma lastCarry_lanes: "baOpcode act = 8 \<Longrightarrow> lastCarry act = of_bool (laneLess (baA act) (baB act) 3)"
  by (simp add: lastCarry_def carryOut_def laneLess_lowLess)

lemma lanesLess_4: "lanesLess act 4 = lanesLess act 3 * of_bool (laneLess (baA act) (baB act) 3)"
  using lanesLess_Suc [of act 3] by (simp add: numeral_eq_Suc)

context goldilocks begin

lemma row_result:
  assumes "binaryRow fr N FACTOR input i 15 (p, pols) = (p', pols')" "inputOf act input" "factorsOk N FACTOR"
    "i * 16 + 15 < N" "rowInv fr act 15 (i * 16 + 15) (p, pols)"
  shows "resultAt fr act ((i * 16 + 16) mod N) pols'" "unat (toU64 fr (bpCIn pols' ((i * 16 + 16) mod N))) = 0"
proof -
  let ?idx = "i * 16 + 15" and ?nxt = "(i * 16 + 16) mod N" and ?opc = "baOpcode act"
  have N: "1 < N" "15 < (16 :: nat)" using assms(4) by simp_all
  have nxt: "(i * 16 + 15 + 1) mod N = ?nxt" by (simp add: add.commute)
  have "?nxt = 0 \<or> ?nxt = i * 16 + 16" using assms(4) by (cases "i * 16 + 16 = N") auto
  then have neq: "?nxt \<noteq> ?idx" and start: "?nxt mod 16 = 0" by auto
  note fields = binaryRow_fields [OF assms(1), unfolded nxt, OF neq]
  note regs = row_regs [OF assms(1-4) N assms(5), unfolded nxt]
  let ?s1 = "rowCarry fr input 15 (bpCIn pols ?idx)"
  have A: "baA act < 2 ^ 256" "baB act < 2 ^ 256" "baC act < 2 ^ 256" and opc: "bbOpcode input = ?opc"
    using assms(2) by (auto simp: inputOf_def)
  have chunks: "regs256 fr f row n" if "regsHold fr f row n (Suc 15)" "n < 2 ^ 256" for f row n
    using that partial_16 by (simp add: regsHold_def regs256_def)
  have cIn: "unat (toU64 fr (bpCIn pols ?idx)) = actIn act (2 * 15)" using assms(5) by (simp add: rowInv_def)
  have out: "unat (toU64 fr (bsCOut ?s1)) = lastCarry act" using row_carry [OF assms(2) N(2) cIn] by simp
  have prev: "toU64 fr (bpPreviousAreLt4 pols ?idx) = toU64 fr p" using assms(5) by (simp add: rowInv_def)
  have p': "p' = p" unfolding fields(1) by (simp add: rowPrevious_def)
  have lanes: "unat (toU64 fr p) = lanesLess act 3" if "?opc = 8" using assms(5) that by (simp add: rowInv_def)
  have zero: "gl_equal fr (bsCOut ?s1) (gl_zero fr) \<longleftrightarrow> lastCarry act = 0"
    unfolding out [symmetric] by (simp add: equal_iff toU64_zero unat_eq_0)
  show "unat (toU64 fr (bpCIn pols' ?nxt)) = 0" unfolding fields(5) using start by (simp add: toU64_zero)
  have "regs256 fr (bpC pols') ?nxt (binaryResult act) \<and> unat (toU64 fr (bpLCout pols' ?nxt)) = binaryCarry act"
  proof (cases "compares ?opc")
    case False
    then have r: "binaryResult act = baC act" and not8: "?opc \<noteq> 8" by (auto simp: binaryResult_def)
    have "bpLCout pols' ?nxt = bsCOut ?s1" unfolding fields(6) using free_own(4) [OF assms(2) N(2) False] by simp
    then show ?thesis
      using chunks [OF regs(3) [OF False] A(3)] out lastCarry_carry [OF assms(2) not8] unfolding r by simp
  next
    case True
    note choice = choose_result [OF assms(2) True, of 15 "bpCIn pols ?idx", unfolded zero]
    define v where "v = (if bsUsePrevious ?s1 then p else bsCOut ?s1)"
    have v: "unat (toU64 fr v) = binaryResult act"
    proof (cases "?opc = 8")
      case True
      then show ?thesis using lanes out choice(1) lanesLess_4 [of act]
        by (simp add: v_def binaryResult_def lastCarry_lanes lanesLess_def)
    next
      case False
      then have "binaryCarry act = binaryResult act" using \<open>compares ?opc\<close> by (auto simp: binaryCarry_def)
      then show ?thesis using False choice(1) out lastCarry_carry [OF assms(2) False] by (simp add: v_def)
    qed
    have bool: "binaryResult act = of_bool (binaryResult act \<noteq> 0)" using True by (auto simp: binaryResult_def)
    have "unat (toU64 fr (bpC pols' k ?nxt)) = (if k = 0 then binaryResult act else 0)" if "k < 8" for k
      unfolding fields(4) setRegisters_def Let_def rowC0_def using that choice v prev
      by (auto simp: v_def toU64_zero split: if_splits)
    then have "regs256 fr (bpC pols') ?nxt (binaryResult act)"
      unfolding regs256_def using bool_digits [of "binaryResult act \<noteq> 0"] bool by simp
    moreover have "unat (toU64 fr (bpLCout pols' ?nxt)) = binaryCarry act"
      unfolding fields(6) p' using v True by (auto simp: v_def binaryCarry_def)
    ultimately show ?thesis ..
  qed
  then show "resultAt fr act ?nxt pols'"
    using chunks [OF regs(1) A(1)] chunks [OF regs(2) A(2)] fields(8) opc by (simp add: resultAt_def)
qed

end

end
