(* ===== verification/Binary_Props.thy ===== *)
theory Binary_Props
  imports Binary_Steps
begin

text \<open>
  The result of every action stands in its row when the executor ends: no later action and none of the
  rows after the last action changes it.
\<close>

section \<open>The rows an operation leaves alone\<close>

definition keepsRow :: "nat \<Rightarrow> 'e BinaryPols \<Rightarrow> 'e BinaryPols \<Rightarrow> bool" where
  "keepsRow r pols pols' \<longleftrightarrow> (\<forall>k. bpA pols' k r = bpA pols k r \<and> bpB pols' k r = bpB pols k r \<and> bpC pols' k r = bpC pols k r) \<and>
     bpLCout pols' r = bpLCout pols r \<and> bpLOpcode pols' r = bpLOpcode pols r \<and> bpCIn pols' r = bpCIn pols r"

lemma keepsRow_trans: "keepsRow r a b \<Longrightarrow> keepsRow r b c \<Longrightarrow> keepsRow r a c"
  by (simp add: keepsRow_def)

lemma keepsRow_refl [simp]: "keepsRow r a a"
  by (simp add: keepsRow_def)

lemma keepsRow_fold:
  assumes "\<And>x s. x \<in> set xs \<Longrightarrow> keepsRow r (g s) (g (f x s))"
  shows "keepsRow r (g s) (g (fold f xs s))"
  using assms
proof (induction xs arbitrary: s)
  case (Cons x xs)
  then show ?case using keepsRow_trans [of r "g s" "g (f x s)" "g (fold f xs (f x s))"] by simp
qed simp

lemma resultAt_keepsRow: "resultAt fr act r pols \<Longrightarrow> keepsRow r pols pols' \<Longrightarrow> resultAt fr act r pols'"
  by (simp add: resultAt_def keepsRow_def regs256_def)

lemma binaryRest_keepsRow: "r \<noteq> (index + 1) mod N \<Longrightarrow> keepsRow r pols (binaryRest fr N FACTOR index pols)"
  by (simp add: keepsRow_def binaryRest_def Let_def setRegisters_def)

lemma action_keepsRow:
  "keepsRow r pols (binaryAction fr N FACTOR input i pols) \<longleftrightarrow>
     keepsRow r pols (snd (fold (binaryRow fr N FACTOR input i) [0..<16] (gl_zero fr, pols)))"
  "resultAt fr act r (binaryAction fr N FACTOR input i pols) \<longleftrightarrow>
     resultAt fr act r (snd (fold (binaryRow fr N FACTOR input i) [0..<16] (gl_zero fr, pols)))"
  "bpCIn (binaryAction fr N FACTOR input i pols) = bpCIn (snd (fold (binaryRow fr N FACTOR input i) [0..<16] (gl_zero fr, pols)))"
  by (simp_all add: binaryAction_def Let_def keepsRow_def resultAt_def)

definition inputsOf :: "BinaryAction list \<Rightarrow> BinaryActionBytes list \<Rightarrow> bool" where
  "inputsOf action input \<longleftrightarrow> length input = length action \<and> (\<forall>i<length action. inputOf (action ! i) (input ! i))"

context goldilocks begin

lemma row_keepsRow:
  assumes "r \<noteq> (i * 16 + j + 1) mod N" "i * 16 + j < N" "1 < N"
  shows "keepsRow r (snd s) (snd (binaryRow fr N FACTOR input i j s))"
proof -
  obtain p pols p' pols' where s: "s = (p, pols)" "binaryRow fr N FACTOR input i j (p, pols) = (p', pols')"
    by (metis surj_pair)
  have neq: "(i * 16 + j + 1) mod N \<noteq> i * 16 + j" using assms(2,3) by (cases "i * 16 + j + 1 = N") auto
  show ?thesis using assms(1) unfolding s snd_conv keepsRow_def binaryRow_fields [OF s(2) neq] setRegisters_def
    by simp
qed

lemma rows_inv:
  assumes "inputOf act input" "factorsOk N FACTOR" "i * 16 + 16 \<le> N" "unat (toU64 fr (bpCIn pols (i * 16))) = 0" "j \<le> 15"
  shows "rowInv fr act j (i * 16 + j) (fold (binaryRow fr N FACTOR input i) [0..<j] (gl_zero fr, pols))"
  using assms(5)
proof (induction j)
  case 0
  then show ?case using assms(4) by (simp add: rowInv_def)
next
  case (Suc j)
  let ?s = "fold (binaryRow fr N FACTOR input i) [0..<j] (gl_zero fr, pols)"
  have "rowInv fr act j (i * 16 + j) (fst ?s, snd ?s)" using Suc by simp
  moreover have "i * 16 + j + 1 < N" "j < 15" using Suc.prems assms(3) by linarith+
  ultimately have "rowInv fr act (Suc j) (i * 16 + Suc j) (binaryRow fr N FACTOR input i j (fst ?s, snd ?s))"
    using row_inv [of N FACTOR input i j "fst ?s" "snd ?s", OF surjective_pairing assms(1,2)] by simp
  then show ?case by simp
qed

lemma action_result:
  assumes "inputOf act input" "factorsOk N FACTOR" "i * 16 + 16 \<le> N" "unat (toU64 fr (bpCIn pols (i * 16))) = 0"
  shows "resultAt fr act ((i * 16 + 16) mod N) (binaryAction fr N FACTOR input i pols)"
    "unat (toU64 fr (bpCIn (binaryAction fr N FACTOR input i pols) ((i * 16 + 16) mod N))) = 0"
proof -
  let ?s = "fold (binaryRow fr N FACTOR input i) [0..<15] (gl_zero fr, pols)"
  have "[0..<16] = [0..<15] @ [15 :: nat]" by (simp add: upt_rec)
  then have f: "fold (binaryRow fr N FACTOR input i) [0..<16] (gl_zero fr, pols) = binaryRow fr N FACTOR input i 15 (fst ?s, snd ?s)"
    by simp
  have "rowInv fr act 15 (i * 16 + 15) (fst ?s, snd ?s)" using rows_inv [OF assms, of 15] by simp
  moreover have "i * 16 + 15 < N" using assms(3) by linarith
  ultimately show "resultAt fr act ((i * 16 + 16) mod N) (binaryAction fr N FACTOR input i pols)"
    "unat (toU64 fr (bpCIn (binaryAction fr N FACTOR input i pols) ((i * 16 + 16) mod N))) = 0"
    unfolding action_keepsRow f using row_result [OF surjective_pairing assms(1,2)] by blast+
qed

lemma later_action_keepsRow:
  assumes "m < i" "i * 16 + 16 \<le> N"
  shows "keepsRow (m * 16 + 16) pols (binaryAction fr N FACTOR input i pols)"
  unfolding action_keepsRow
proof (rule keepsRow_fold [where g = snd and s = "(gl_zero fr, pols)", unfolded snd_conv])
  fix j s assume "j \<in> set [0..<16 :: nat]"
  then have "m * 16 + 16 \<noteq> (i * 16 + j + 1) mod N" "i * 16 + j < N" "1 < N"
    using assms by (cases "i * 16 + j + 1 = N"; simp)+
  then show "keepsRow (m * 16 + 16) (snd s) (snd (binaryRow fr N FACTOR input i j s))" by (rule row_keepsRow)
qed

lemma actions_result:
  assumes "inputsOf action input" "factorsOk N FACTOR" "n * 16 \<le> N" "n \<le> length action" "unat (toU64 fr (bpCIn pols 0)) = 0"
  defines "out \<equiv> \<lambda>n. fold (\<lambda>i. binaryAction fr N FACTOR (input ! i) i) [0..<n] pols"
  shows "(\<forall>m<n. resultAt fr (action ! m) ((m * 16 + 16) mod N) (out n)) \<and> unat (toU64 fr (bpCIn (out n) (n * 16 mod N))) = 0"
  using assms(3,4)
proof (induction n)
  case 0
  then show ?case using assms(5) by (simp add: out_def)
next
  case (Suc n)
  have le: "n * 16 + 16 \<le> N" "n < length action" using Suc.prems by simp_all
  then have IH: "\<And>m. m < n \<Longrightarrow> resultAt fr (action ! m) ((m * 16 + 16) mod N) (out n)" "unat (toU64 fr (bpCIn (out n) (n * 16))) = 0"
    using Suc.IH by simp_all
  have step: "out (Suc n) = binaryAction fr N FACTOR (input ! n) n (out n)" by (simp add: out_def)
  have inp: "inputOf (action ! n) (input ! n)" using assms(1) le(2) by (simp add: inputsOf_def)
  note new = action_result [OF inp assms(2) le(1) IH(2), folded step]
  have "resultAt fr (action ! m) ((m * 16 + 16) mod N) (out (Suc n))" if "m < Suc n" for m
  proof (cases "m = n")
    case False
    then have m: "m < n" "(m * 16 + 16) mod N = m * 16 + 16" using that le(1) by simp_all
    show ?thesis using resultAt_keepsRow [OF IH(1) [OF m(1), unfolded m(2)] later_action_keepsRow [OF m(1) le(1)]]
      unfolding m(2) step .
  qed (use new in simp)
  moreover have "Suc n * 16 = n * 16 + 16" by simp
  ultimately show ?case using new(2) by metis
qed

end

section \<open>The whole execution\<close>

lemma actionBytes_inputOf: "actionBytes act = Ret input \<Longrightarrow> inputOf act input"
proof -
  assume "actionBytes act = Ret input"
  then have small: "drop_bit 256 (baA act) = 0" "drop_bit 256 (baB act) = 0" "drop_bit 256 (baC act) = 0"
    and input: "input = \<lparr>bbA = map (\<lambda>i. of_nat (drop_bit (8 * i) (baA act) AND mask 8)) [0..<32],
      bbB = map (\<lambda>i. of_nat (drop_bit (8 * i) (baB act) AND mask 8)) [0..<32],
      bbC = map (\<lambda>i. of_nat (drop_bit (8 * i) (baC act) AND mask 8)) [0..<32], bbOpcode = baOpcode act, bbType = baType act\<rparr>"
    by (auto simp: actionBytes_def scalar2bytes_def bindO_eq_Ret split: if_splits)
  have "ucast (of_nat (drop_bit (8 * n) A AND mask 8) :: u8) = (word_of_nat (byteOf A n) :: u64)" for A n
  proof -
    have "drop_bit (8 * n) A AND mask 8 = byteOf A n"
      by (simp only: take_bit_eq_mask [symmetric] take_bit_eq_mod drop_bit_eq_div byteOf_def power_mult) simp
    then show ?thesis using byteOf_less [of A n]
      by (simp add: word_unat_eq_iff unsigned_ucast_eq unsigned_take_bit_eq unat_of_nat take_bit_nat_eq_self)
  qed
  moreover have "A < 2 ^ 256" if "drop_bit 256 A = 0" for A :: nat
    using that by (simp add: drop_bit_eq_div div_eq_0_iff)
  ultimately show ?thesis using small by (simp add: inputOf_def input)
qed

lemma binaryExecute_Ret:
  assumes "binaryExecute fr N action pols = Ret pols'"
  obtains input where "length action * 16 \<le> N" "inputsOf action input"
    "pols' = fold (binaryRest fr N (buildFactors N)) [length action * 16..<N]
      (fold (\<lambda>i. binaryAction fr N (buildFactors N) (input ! i) i) [0..<length action] pols)"
proof -
  obtain input where i: "length action * 16 \<le> N" "map actionBytes action = map Ret input"
    "pols' = fold (binaryRest fr N (buildFactors N)) [length input * 16..<N]
      (fold (\<lambda>i. binaryAction fr N (buildFactors N) (input ! i) i) [0..<length input] pols)"
    using assms by (auto simp: binaryExecute_def bindO_eq_Ret mapO_eq_Ret Let_def split: if_splits)
  from i(2) have len: "length input = length action" by (metis length_map)
  have "actionBytes (action ! k) = Ret (input ! k)" if "k < length action" for k
    using i(2) that len by (metis nth_map)
  then have "inputsOf action input" using len by (simp add: inputsOf_def actionBytes_inputOf)
  then show ?thesis using that i(1,3) len by simp
qed

context goldilocks begin

lemma execute_result:
  assumes "binaryExecute fr N action pols = Ret pols'" "toU64 fr (bpCIn pols 0) = 0" "m < length action"
  shows "resultAt fr (action ! m) (((m + 1) * 16) mod N) pols'"
proof -
  let ?n = "length action" and ?F = "buildFactors N" and ?r = "(m * 16 + 16) mod N"
  obtain input where e: "?n * 16 \<le> N" "inputsOf action input"
    "pols' = fold (binaryRest fr N ?F) [?n * 16..<N] (fold (\<lambda>i. binaryAction fr N ?F (input ! i) i) [0..<?n] pols)"
    using binaryExecute_Ret [OF assms(1)] by blast
  let ?s = "fold (\<lambda>i. binaryAction fr N ?F (input ! i) i) [0..<?n] pols"
  have "unat (toU64 fr (bpCIn pols 0)) = 0" using assms(2) by simp
  from actions_result [OF e(2) buildFactors_ok e(1) le_refl this]
  have "resultAt fr (action ! m) ?r ?s" using assms(3) by blast
  moreover have "keepsRow ?r ?s (fold (binaryRest fr N ?F) [?n * 16..<N] ?s)"
  proof (rule keepsRow_fold [where g = "\<lambda>s. s"])
    fix x and s :: "'e BinaryPols"
    assume "x \<in> set [?n * 16..<N]"
    then have x: "?n * 16 \<le> x" "x < N" by simp_all
    have "?r = m * 16 + 16" using x assms(3) by simp
    then have "?r \<noteq> (x + 1) mod N" using x assms(3) by (cases "x + 1 = N") simp_all
    then show "keepsRow ?r s (binaryRest fr N ?F x s)" by (rule binaryRest_keepsRow)
  qed
  ultimately have "resultAt fr (action ! m) ?r pols'" unfolding e(3) by (rule resultAt_keepsRow)
  moreover have "(m + 1) * 16 = m * 16 + 16" by simp
  ultimately show ?thesis by (simp only:)
qed

end

lemma binaryExecute_returns:
  assumes "length action * 16 \<le> N" "\<forall>act\<in>set action. baA act < 2 ^ 256 \<and> baB act < 2 ^ 256 \<and> baC act < 2 ^ 256"
  shows "\<exists>pols'. binaryExecute fr N action pols = Ret pols'"
proof -
  have zero: "drop_bit 256 A = 0" if "A < 2 ^ 256" for A :: nat using that by (simp add: drop_bit_eq_div)
  have "\<exists>input. actionBytes act = Ret input" if "act \<in> set action" for act
    using that assms(2) zero by (simp add: actionBytes_def scalar2bytes_def)
  then obtain g where "\<And>act. act \<in> set action \<Longrightarrow> actionBytes act = Ret (g act)" by metis
  then have "mapO actionBytes action = Ret (map g action)" by (rule mapO_Ret)
  then show ?thesis using assms(1) by (simp add: binaryExecute_def Let_def)
qed

text \<open>C22: When the executor of the Binary state machine succeeds, the row after the sixteen rows of every action
  (row 0 when these are the last of the polynomials) holds the two operands of the action, in eight registers of
  32 bits each, and its result: the comparison of the operands as unsigned numbers (LT, opcode 2), as signed
  256-bit numbers (SLT, 3), for equality (EQ, 4) or in all four lanes of 64 bits (LT4, 8), and the c of the
  action for the other operations; the last carry is the carry of the addition, the borrow of the subtraction,
  the comparison, or for AND whether c is not zero.  The rows of later actions and the unused rows, which the
  executor fills afterwards, leave it unchanged.\<close>
theorem binaryExecute_result:
  assumes "goldilocks fr" "binaryExecute fr N action pols = Ret pols'" "toU64 fr (bpCIn pols 0) = 0" "m < length action"
  shows "resultAt fr (action ! m) (((m + 1) * 16) mod N) pols'"
  by (rule goldilocks.execute_result [OF assms])

text \<open>Polynomials with zeros everywhere, over the words as field elements.\<close>

definition zeroPols :: "u64 BinaryPols" where
  "zeroPols = \<lparr>bpOpcode = \<lambda>_. 0, bpA = \<lambda>_ _. 0, bpB = \<lambda>_ _. 0, bpC = \<lambda>_ _. 0, bpFreeInA = \<lambda>_ _. 0,
     bpFreeInB = \<lambda>_ _. 0, bpFreeInC = \<lambda>_ _. 0, bpCIn = \<lambda>_. 0, bpCMiddle = \<lambda>_. 0, bpCOut = \<lambda>_. 0, bpLCout = \<lambda>_. 0,
     bpLOpcode = \<lambda>_. 0, bpPreviousAreLt4 = \<lambda>_. 0, bpUsePreviousAreLt4 = \<lambda>_. 0, bpReset4 = \<lambda>_. 0,
     bpUseCarry = \<lambda>_. 0, bpResultBinOp = \<lambda>_. 0, bpResultValidRange = \<lambda>_. 0\<rparr>"


lemma zeroPols_cIn: "toU64 gl_word (bpCIn zeroPols 0) = 0"
  by (simp add: zeroPols_def gl_word_def gl_canon_def)

text \<open>In 32 rows: the largest 256-bit word is less than 1 as a signed number, and 2 and 3 are not equal.\<close>
lemma binaryExecute_result_witness:
  "let slt = \<lparr>baA = 2 ^ 256 - 1, baB = 1, baC = 1, baOpcode = 3, baType = 1\<rparr>;
       eq = \<lparr>baA = 2, baB = 3, baC = 0, baOpcode = 4, baType = 1\<rparr>
   in \<exists>pols'. binaryExecute gl_word 32 [slt, eq] zeroPols = Ret pols' \<and>
        resultAt gl_word slt 16 pols' \<and> binaryResult slt = 1 \<and> resultAt gl_word eq 0 pols' \<and> binaryResult eq = 0"
proof -
  let ?slt = "\<lparr>baA = 2 ^ 256 - 1, baB = 1, baC = 1, baOpcode = 3, baType = 1\<rparr>"
  let ?eq = "\<lparr>baA = 2, baB = 3, baC = 0, baOpcode = 4, baType = 1\<rparr>"
  obtain pols' where e: "binaryExecute gl_word 32 [?slt, ?eq] zeroPols = Ret pols'"
    using binaryExecute_returns [of "[?slt, ?eq]" 32 gl_word zeroPols] by auto
  note result = binaryExecute_result [OF glw.goldilocks_axioms e zeroPols_cIn]
  have "binaryResult ?slt = 1" "binaryResult ?eq = 0" by (simp_all add: binaryResult_def signed256_def)
  then show ?thesis using e result [of 0] result [of 1] by auto
qed

end
