(* ===== verification/Rlp.thy ===== *)
theory Rlp
  imports Scalar_Bytes
begin

text \<open>
  Recursive length prefix encoding (src/src/utils/rlp.cpp).  A byte array is a string of bytes; a position
  \<open>p\<close> and a length are 64-bit integers whose sums wrap around, as in the source.  A function that returns
  a bool and writes results through references gives an option: None for false.  The functions that may
  not return have a second option around their result, None when they do not.
\<close>

type_synonym bytes = "u8 list"

section \<open>Decoding\<close>

abbreviation (input) size64 :: "bytes \<Rightarrow> u64" where
  "size64 input \<equiv> word_of_nat (length input)"

text \<open>\<open>input[p]\<close> on a constant string: at the size it is the terminating zero, and the code never reads beyond.\<close>

definition charAt :: "bytes \<Rightarrow> u64 \<Rightarrow> u8" where
  "charAt input p = (if unat p < length input then input ! unat p else 0)"

definition substr :: "bytes \<Rightarrow> u64 \<Rightarrow> u64 \<Rightarrow> bytes" where
  "substr input p n = take (unat n) (drop (unat p) input)"

primrec readLength :: "bytes \<Rightarrow> nat \<Rightarrow> u64 \<Rightarrow> u64 \<Rightarrow> u64 \<times> u64" where
  "readLength input 0 p len = (p, len)"
| "readLength input (Suc i) p len = readLength input i (p + 1) (push_bit 8 len + ucast (charAt input p))"

definition longLength :: "bytes \<Rightarrow> u64 \<Rightarrow> u64 \<Rightarrow> bool \<Rightarrow> (u64 \<times> u64 \<times> bool) option" where
  "longLength input p lengthOfLength list =
     (let p = p + 1
      in if lengthOfLength > 8 then None
         else if p + lengthOfLength > size64 input then None
         else let (p, len) = readLength input (unat lengthOfLength) p 0 in Some (p, len, list))"

definition shortLength :: "bytes \<Rightarrow> u64 \<Rightarrow> u64 \<Rightarrow> bool \<Rightarrow> (u64 \<times> u64 \<times> bool) option" where
  "shortLength input p len list =
     (let p = p + 1 in if p + len > size64 input then None else Some (p, len, list))"

definition decodeLength :: "bytes \<Rightarrow> u64 \<Rightarrow> (u64 \<times> u64 \<times> bool) option" where
  "decodeLength input p =
     (if p > size64 input then None
      else let prefix = charAt input p
        in if prefix \<le> 0x7f then Some (p, 1, False)
           else if prefix \<le> 0xb7 then shortLength input p (ucast prefix - 0x80) False
           else if prefix \<le> 0xbf then longLength input p (ucast prefix - 0xb7) False
           else if prefix \<le> 0xf7 then shortLength input p (ucast prefix - 0xc0) True
           else longLength input p (ucast prefix - 0xf7) True)"

definition decodeBa :: "bytes \<Rightarrow> u64 \<Rightarrow> (u64 \<times> bytes \<times> bool) option" where
  "decodeBa input p =
     (if p > size64 input then None
      else case decodeLength input p of
        None \<Rightarrow> None
      | Some (p, len, list) \<Rightarrow> Some (p + len, substr input p len, list))"

partial_function (option) decodeItems :: "bytes \<Rightarrow> u64 \<Rightarrow> bytes list \<Rightarrow> (bool \<times> bytes list) option" where
  "decodeItems input p output =
     (if p < size64 input then
        (case decodeBa input p of
           None \<Rightarrow> Some (False, output)
         | Some (p', ba, list) \<Rightarrow> if list then Some (False, output) else decodeItems input p' (output @ [ba]))
      else Some (p = size64 input, output))"

definition decodeList :: "bytes \<Rightarrow> bytes list \<Rightarrow> (bool \<times> bytes list) option" where
  "decodeList input output =
     (case decodeLength input 0 of
        None \<Rightarrow> Some (False, output)
      | Some (p, len, list) \<Rightarrow>
          if \<not> list then Some (False, output)
          else if p + len \<noteq> size64 input then Some (False, output)
          else decodeItems input p output)"

section \<open>Encoding\<close>

definition lengthByte :: "nat \<Rightarrow> u64 \<Rightarrow> u8" where
  "lengthByte i len = ucast (drop_bit (8 * i) len)"

definition encodeLength :: "u64 \<Rightarrow> bool \<Rightarrow> bytes \<Rightarrow> bytes option" where
  "encodeLength len list output =
     (let offset = (if list then 0xc0 else 0x80)
      in if len < 56 then Some (output @ [offset + ucast len])
         else if len < 256 then Some (output @ [offset + 55 + 1] @ [lengthByte 0 len])
         else if len < 256 * 256 then Some (output @ [offset + 55 + 2] @ [lengthByte 1 len, lengthByte 0 len])
         else if len < 256 * 256 * 256 then
           Some (output @ [offset + 55 + 3] @ [lengthByte 2 len, lengthByte 1 len, lengthByte 0 len])
         else None)"

definition encodeBa :: "bytes \<Rightarrow> bytes option" where
  "encodeBa input =
     (if length input = 1 \<and> input ! 0 < 0x80 then Some input
      else case encodeLength (size64 input) False [] of None \<Rightarrow> None | Some output \<Rightarrow> Some (output @ input))"

fun encodeItems :: "bytes list \<Rightarrow> bytes \<Rightarrow> bytes option" where
  "encodeItems [] list = Some list"
| "encodeItems (x # xs) list = (case encodeBa x of None \<Rightarrow> None | Some ba \<Rightarrow> encodeItems xs (list @ ba))"

definition encodeList :: "bytes list \<Rightarrow> bytes \<Rightarrow> bytes option" where
  "encodeList input output =
     (case encodeItems input [] of
        None \<Rightarrow> None
      | Some list \<Rightarrow>
          (case encodeLength (size64 list) True output of None \<Rightarrow> None | Some output \<Rightarrow> Some (output @ list)))"

end
