(* ===== verification/Data_Stream.thy ===== *)
theory Data_Stream
  imports Rlp
begin

text \<open>
  The data stream of a batch (src/src/prover/data_stream.cpp): \<open>dataStream2batch\<close> parses the entries the
  sequencer sends into a \<open>DataStreamBatch\<close>, and \<open>dataStreamBatch2batchL2Data\<close> writes the batch as the ROM
  reads it, every transaction transcoded from the Ethereum encoding.  Positions are natural numbers: they
  never pass the size of the stream, a 64-bit integer, by more than a 32-bit length.  The parser is a program
  on the batch it fills; every error is \<open>ZKR_DATA_STREAM_INVALID_DATA\<close>.  One check of the length of an entry
  only writes a log line (its return is commented out) and is left out.
\<close>

abbreviation (input) ZKR_DATA_STREAM_INVALID_DATA :: zkresult where "ZKR_DATA_STREAM_INVALID_DATA \<equiv> 98"

section \<open>Data\<close>

record DataStreamTx =
  gasPricePercentage :: u8
  isValid :: bool
  txStateRoot :: string
  encodedTx :: bytes

record DataStreamBlock =
  blockNumber :: u64
  timestamp :: u64
  deltaTimestamp :: u32
  l1InfoTreeIndex :: u32
  l1BlockHash :: string
  globalExitRoot :: string
  coinbase :: string
  blForkId :: u64
  l2BlockHash :: string
  blStateRoot :: string
  blChainId :: u32
  txs :: "DataStreamTx list"

record DataStreamBatch =
  batchNumber :: u64
  blocks :: "DataStreamBlock list"
  forkId :: u16
  chainId :: u32

definition resetBatch :: DataStreamBatch where
  "resetBatch = \<lparr>batchNumber = 0, blocks = [], forkId = 0, chainId = 0\<rparr>"

section \<open>Integers, most significant byte first\<close>

definition byteAt :: "bytes \<Rightarrow> nat \<Rightarrow> u8 outcome" where
  "byteAt data p = (if p < length data then Ret (data ! p) else if p = length data then Ret 0 else Undef)"

definition ParseU8 :: "bytes \<Rightarrow> nat \<Rightarrow> (u8 \<times> nat) outcome" where
  "ParseU8 data p = bindO (byteAt data p) (\<lambda>result. Ret (result, p + 1))"

text \<open>\<open>result <<= 8; result += d\<close> for the bytes read, in an integer of 32 bits in all three functions.\<close>

definition accumulate :: "u8 list \<Rightarrow> u32" where
  "accumulate = foldl (\<lambda>result d. push_bit 8 result + ucast d) 0"

definition ParseBigEndianU16 :: "bytes \<Rightarrow> nat \<Rightarrow> (u16 \<times> nat) outcome" where
  "ParseBigEndianU16 data p =
     bindO (mapO (\<lambda>i. byteAt data (p + i)) [0, 1]) (\<lambda>d. Ret (ucast (accumulate d), p + 2))"

definition ParseBigEndianU32 :: "bytes \<Rightarrow> nat \<Rightarrow> (u32 \<times> nat) outcome" where
  "ParseBigEndianU32 data p =
     bindO (mapO (\<lambda>i. byteAt data (p + i)) [0, 1, 2, 3]) (\<lambda>d. Ret (accumulate d, p + 4))"

definition ParseBigEndianU64 :: "bytes \<Rightarrow> nat \<Rightarrow> (u64 \<times> nat) outcome" where
  "ParseBigEndianU64 data p =
     bindO (mapO (\<lambda>i. byteAt data (p + i)) [0, 1, 2, 3, 4, 5, 6, 7]) (\<lambda>d. Ret (ucast (accumulate d), p + 8))"

definition EncodeBigEndianU32 :: "u32 \<Rightarrow> bytes" where
  "EncodeBigEndianU32 v = map (\<lambda>i. ucast (drop_bit (8 * i) v)) [3, 2, 1, 0]"

text \<open>\<open>ba2string\<close> of n bytes at a position.\<close>

definition hexAt :: "bytes \<Rightarrow> nat \<Rightarrow> nat \<Rightarrow> (string \<times> nat) outcome" where
  "hexAt data p n =
     (if p + n \<le> length data then bindO (ba2string (take n (drop p data))) (\<lambda>s. Ret (s, p + n)) else Undef)"

section \<open>Start of an L2 block\<close>

text \<open>The first block gives the batch its numbers, the others have to agree with it.\<close>

definition addBlock :: "u64 \<Rightarrow> DataStreamBlock \<Rightarrow> (DataStreamBatch, unit) prog" where
  "addBlock number block batch =
     (if blocks batch = [] then
        (Ret (), batch\<lparr>blocks := [block], batchNumber := number, forkId := ucast (blForkId block),
                       chainId := blChainId block\<rparr>)
      else if batchNumber batch \<noteq> number then (Fail ZKR_DATA_STREAM_INVALID_DATA, batch)
      else if blForkId block \<noteq> ucast (forkId batch) then (Fail ZKR_DATA_STREAM_INVALID_DATA, batch)
      else if blChainId block \<noteq> chainId batch then (Fail ZKR_DATA_STREAM_INVALID_DATA, batch)
      else if blockNumber block \<noteq> blockNumber (last (blocks batch)) + 1 then
        (Fail ZKR_DATA_STREAM_INVALID_DATA, batch)
      else (Ret (), batch\<lparr>blocks := blocks batch @ [block]\<rparr>))"

definition parseBlock :: "bytes \<Rightarrow> nat \<Rightarrow> (DataStreamBatch, DataStreamBlock \<times> nat) prog" where
  "parseBlock data p =
     bindP (liftP (ParseBigEndianU64 data p)) (\<lambda>(number, p).
     bindP (guardP (number \<noteq> 0) ZKR_DATA_STREAM_INVALID_DATA) (\<lambda>_.
     bindP (liftP (ParseBigEndianU64 data p)) (\<lambda>(time, p).
     bindP (liftP (ParseBigEndianU32 data p)) (\<lambda>(delta, p).
     bindP (liftP (ParseBigEndianU32 data p)) (\<lambda>(index, p).
     bindP (liftP (hexAt data p 32)) (\<lambda>(hash, p).
     bindP (liftP (hexAt data p 32)) (\<lambda>(ger, p).
     bindP (liftP (hexAt data p 20)) (\<lambda>(coin, p).
     bindP (liftP (ParseBigEndianU16 data p)) (\<lambda>(fork, p).
     bindP (guardP (ucast fork \<noteq> (0 :: u64)) ZKR_DATA_STREAM_INVALID_DATA) (\<lambda>_.
     bindP (liftP (ParseBigEndianU32 data p)) (\<lambda>(chain, p).
     retP (\<lparr>blockNumber = number, timestamp = time, deltaTimestamp = delta, l1InfoTreeIndex = index,
            l1BlockHash = hash, globalExitRoot = ger, coinbase = coin, blForkId = ucast fork, l2BlockHash = [],
            blStateRoot = [], blChainId = chain, txs = []\<rparr>, p))))))))))))"

definition startBlock :: "bytes \<Rightarrow> nat \<Rightarrow> nat \<Rightarrow> (DataStreamBatch, nat) prog" where
  "startBlock data p dataLength =
     bindP (guardP (dataLength = 122) ZKR_DATA_STREAM_INVALID_DATA) (\<lambda>_.
     bindP (liftP (ParseBigEndianU64 data p)) (\<lambda>(number, p).
     bindP (guardP (number \<noteq> 0) ZKR_DATA_STREAM_INVALID_DATA) (\<lambda>_.
     bindP (parseBlock data p) (\<lambda>(block, p).
     bindP (addBlock number block) (\<lambda>_.
     retP p)))))"

section \<open>Transactions and end of a block\<close>

text \<open>The checks that the batch has a current block and that it is still open.\<close>

definition checkOpen :: "(DataStreamBatch, unit) prog" where
  "checkOpen batch =
     (if blocks batch = [] then (Fail ZKR_DATA_STREAM_INVALID_DATA, batch)
      else if batchNumber batch = 0 then (Fail ZKR_DATA_STREAM_INVALID_DATA, batch)
      else if forkId batch = 0 then (Fail ZKR_DATA_STREAM_INVALID_DATA, batch)
      else if l2BlockHash (last (blocks batch)) \<noteq> [] then (Fail ZKR_DATA_STREAM_INVALID_DATA, batch)
      else if blStateRoot (last (blocks batch)) \<noteq> [] then (Fail ZKR_DATA_STREAM_INVALID_DATA, batch)
      else (Ret (), batch))"

definition updateLatest :: "(DataStreamBlock \<Rightarrow> DataStreamBlock) \<Rightarrow> (DataStreamBatch, unit) prog" where
  "updateLatest f batch =
     (Ret (), batch\<lparr>blocks := butlast (blocks batch) @ [f (last (blocks batch))]\<rparr>)"

definition l2Tx :: "bytes \<Rightarrow> nat \<Rightarrow> nat \<Rightarrow> (DataStreamBatch, nat) prog" where
  "l2Tx data p dataLength =
     bindP (guardP (dataLength \<ge> 38) ZKR_DATA_STREAM_INVALID_DATA) (\<lambda>_.
     bindP checkOpen (\<lambda>_.
     bindP (liftP (ParseU8 data p)) (\<lambda>(percentage, p).
     bindP (liftP (ParseU8 data p)) (\<lambda>(valid, p).
     bindP (liftP (hexAt data p 32)) (\<lambda>(root, p).
     bindP (liftP (ParseBigEndianU32 data p)) (\<lambda>(encodedTxLength, p).
     bindP (guardP (\<not> p + unat encodedTxLength - 1 \<ge> length data) ZKR_DATA_STREAM_INVALID_DATA) (\<lambda>_.
     bindP (updateLatest (\<lambda>b. b\<lparr>txs := txs b @ [\<lparr>gasPricePercentage = percentage, isValid = valid \<noteq> 0,
              txStateRoot = root, encodedTx = take (unat encodedTxLength) (drop p data)\<rparr>]\<rparr>)) (\<lambda>_.
     retP (p + unat encodedTxLength)))))))))"

definition endBlock :: "bytes \<Rightarrow> nat \<Rightarrow> nat \<Rightarrow> (DataStreamBatch, nat) prog" where
  "endBlock data p dataLength =
     bindP (guardP (dataLength = 72) ZKR_DATA_STREAM_INVALID_DATA) (\<lambda>_.
     bindP (liftP (ParseBigEndianU64 data p)) (\<lambda>(number, p).
     bindP checkOpen (\<lambda>_.
     bindP (\<lambda>batch. guardP (blockNumber (last (blocks batch)) = number) ZKR_DATA_STREAM_INVALID_DATA batch) (\<lambda>_.
     bindP (liftP (hexAt data p 32)) (\<lambda>(hash, p).
     bindP (updateLatest (\<lambda>b. b\<lparr>l2BlockHash := hash\<rparr>)) (\<lambda>_.
     bindP (liftP (hexAt data p 32)) (\<lambda>(root, p).
     bindP (updateLatest (\<lambda>b. b\<lparr>blStateRoot := root\<rparr>)) (\<lambda>_.
     retP p))))))))"

section \<open>One entry\<close>

definition entryBody :: "bytes \<Rightarrow> u8 \<Rightarrow> u32 \<Rightarrow> nat \<Rightarrow> nat \<Rightarrow> (DataStreamBatch, nat) prog" where
  "entryBody data packetType entryType p dataLength =
     (if packetType = 0 then retP (p + dataLength)
      else if packetType \<noteq> 2 then failP ZKR_DATA_STREAM_INVALID_DATA
      else if entryType = 0xb0 then retP (p + dataLength)
      else if entryType = 1 then startBlock data p dataLength
      else if entryType = 2 then l2Tx data p dataLength
      else if entryType = 3 then endBlock data p dataLength
      else failP ZKR_DATA_STREAM_INVALID_DATA)"

definition streamEntry :: "bytes \<Rightarrow> nat \<Rightarrow> (DataStreamBatch, nat) prog" where
  "streamEntry data p =
     bindP (liftP (ParseU8 data p)) (\<lambda>(packetType, p).
     bindP (guardP (\<not> p + 4 > length data) ZKR_DATA_STREAM_INVALID_DATA) (\<lambda>_.
     bindP (liftP (ParseBigEndianU32 data p)) (\<lambda>(len, p).
     bindP (guardP (\<not> len < 17) ZKR_DATA_STREAM_INVALID_DATA) (\<lambda>_.
     bindP (guardP (\<not> p + 4 > length data) ZKR_DATA_STREAM_INVALID_DATA) (\<lambda>_.
     bindP (liftP (ParseBigEndianU32 data p)) (\<lambda>(entryType, p).
     bindP (guardP (\<not> p + 8 > length data) ZKR_DATA_STREAM_INVALID_DATA) (\<lambda>_.
     bindP (guardP (\<not> p + 8 + unat (len - 17) > length data) ZKR_DATA_STREAM_INVALID_DATA) (\<lambda>_.
     entryBody data packetType entryType (p + 8) (unat (len - 17))))))))))"

section \<open>All entries\<close>

text \<open>Every entry ends after the position where it starts, so the loop ends.\<close>

lemma Parse_position [run_simps]:
  "ParseU8 data p = Ret (b, q) \<longleftrightarrow> byteAt data p = Ret b \<and> q = p + 1"
  "ParseBigEndianU16 data p = Ret (h, q) \<longleftrightarrow> (\<exists>d. mapO (\<lambda>i. byteAt data (p + i)) [0, 1] = Ret d \<and> h = ucast (accumulate d)) \<and> q = p + 2"
  "ParseBigEndianU32 data p = Ret (w, q) \<longleftrightarrow>
     (\<exists>d. mapO (\<lambda>i. byteAt data (p + i)) [0, 1, 2, 3] = Ret d \<and> w = accumulate d) \<and> q = p + 4"
  "ParseBigEndianU64 data p = Ret (n, q) \<longleftrightarrow>
     (\<exists>d. mapO (\<lambda>i. byteAt data (p + i)) [0, 1, 2, 3, 4, 5, 6, 7] = Ret d \<and> n = ucast (accumulate d)) \<and> q = p + 8"
  "hexAt data p k = Ret (s, q) \<longleftrightarrow> p + k \<le> length data \<and> ba2string (take k (drop p data)) = Ret s \<and> q = p + k"
  unfolding ParseU8_def ParseBigEndianU16_def ParseBigEndianU32_def ParseBigEndianU64_def hexAt_def
  by (auto simp: bindO_eq_Ret simp del: mapO.simps)

lemma parseBlock_advances: "parseBlock data p s = (Ret (b, q), t) \<Longrightarrow> p \<le> q"
  unfolding parseBlock_def by (auto simp: bindP_eq_Ret liftP_eq_Ret guardP_eq_Ret retP_eq_Ret Parse_position simp del: mapO.simps)

lemma entryBody_advances: "entryBody data ty et p n s = (Ret q, t) \<Longrightarrow> p \<le> q"
proof -
  note rules = bindP_eq_Ret liftP_eq_Ret guardP_eq_Ret retP_eq_Ret failP_eq_Ret Parse_position
  assume "entryBody data ty et p n s = (Ret q, t)"
  then consider "q = p + n" | "startBlock data p n s = (Ret q, t)" | "l2Tx data p n s = (Ret q, t)" | "endBlock data p n s = (Ret q, t)"
    by (auto simp: entryBody_def rules split: if_splits)
  then show ?thesis
  proof cases
    case 2
    then show ?thesis unfolding startBlock_def
      by (auto simp: rules simp del: mapO.simps dest!: parseBlock_advances)
  next
    case 3
    then show ?thesis unfolding l2Tx_def by (auto simp: rules simp del: mapO.simps)
  next
    case 4
    then show ?thesis unfolding endBlock_def by (auto simp: rules simp del: mapO.simps)
  qed simp
qed

lemma streamEntry_advances: "streamEntry data p s = (Ret q, t) \<Longrightarrow> p < q"
  unfolding streamEntry_def
  by (auto simp: bindP_eq_Ret liftP_eq_Ret guardP_eq_Ret Parse_position simp del: mapO.simps dest!: entryBody_advances)

function streamLoop :: "bytes \<Rightarrow> nat \<Rightarrow> (DataStreamBatch, nat) prog" where
  "streamLoop data p batch =
     (if p < length data then
        (case streamEntry data p batch of
           (Ret p', batch') \<Rightarrow> streamLoop data p' batch'
         | (Fail e, batch') \<Rightarrow> (Fail e, batch')
         | (Exit, batch') \<Rightarrow> (Exit, batch')
         | (Undef, batch') \<Rightarrow> (Undef, batch'))
      else (Ret p, batch))"
  by pat_completeness auto
termination
  by (relation "measure (\<lambda>(data, p, _). length data - p)") (auto dest!: streamEntry_advances [OF sym] intro: diff_less_mono2)

declare streamLoop.simps [simp del]

definition checkClosed :: "(DataStreamBatch, unit) prog" where
  "checkClosed batch =
     (if blocks batch = [] then (Ret (), batch)
      else if batchNumber batch = 0 then (Fail ZKR_DATA_STREAM_INVALID_DATA, batch)
      else if forkId batch = 0 then (Fail ZKR_DATA_STREAM_INVALID_DATA, batch)
      else if l2BlockHash (last (blocks batch)) = [] then (Fail ZKR_DATA_STREAM_INVALID_DATA, batch)
      else if blStateRoot (last (blocks batch)) = [] then (Fail ZKR_DATA_STREAM_INVALID_DATA, batch)
      else (Ret (), batch))"

definition dataStream2batch :: "bytes \<Rightarrow> (DataStreamBatch, unit) prog" where
  "dataStream2batch data batch = bindP (streamLoop data 0) (\<lambda>_. checkClosed) resetBatch"

section \<open>Transactions of the ROM\<close>

text \<open>
  \<open>transcodeTx\<close> appends to its result.  Its value is None when \<open>decodeList\<close> does not return, otherwise the
  outcome and the string it leaves.
\<close>

definition chainIdBytes :: "u32 \<Rightarrow> bytes" where
  "chainIdBytes v = dropWhile (\<lambda>b. b = 0) (map (\<lambda>i. ucast (drop_bit (8 * i) v)) [3, 2, 1, 0])"

definition transcodeFields :: "bytes list \<Rightarrow> u32 \<Rightarrow> (bytes, unit) prog" where
  "transcodeFields fs batchChainId transcodedTx =
     (let vScalar = ba2scalar (fs ! 6) in
      if vScalar > mask 64 then (Fail ZKR_DATA_STREAM_INVALID_DATA, transcodedTx)
      else let txv = word_of_nat vScalar :: u64; chain = (txv - 35) div 2 in
      if chain \<noteq> ucast batchChainId then (Fail ZKR_DATA_STREAM_INVALID_DATA, transcodedTx)
      else let v = txv - chain * 2 - 35 + 27; r = ba2scalar (fs ! 7) in
      if r > mask 256 then (Fail ZKR_DATA_STREAM_INVALID_DATA, transcodedTx)
      else let s = ba2scalar (fs ! 8) in
      if s > mask 256 then (Fail ZKR_DATA_STREAM_INVALID_DATA, transcodedTx)
      else case encodeList (fs[6 := chainIdBytes batchChainId, 7 := [], 8 := []]) transcodedTx of
        None \<Rightarrow> (Fail ZKR_DATA_STREAM_INVALID_DATA, transcodedTx)
      | Some transcodedTx \<Rightarrow>
          bindP (liftP (scalar2ba32 r)) (\<lambda>rBa tx. bindP (liftP (scalar2ba32 s)) (\<lambda>sBa tx.
            (Ret (), tx @ sBa @ [ucast v])) (tx @ rBa)) transcodedTx)"

definition transcodeTx :: "bytes \<Rightarrow> u32 \<Rightarrow> bytes \<Rightarrow> (unit outcome \<times> bytes) option" where
  "transcodeTx tx batchChainId transcodedTx =
     (case decodeList tx [] of
        None \<Rightarrow> None
      | Some (ok, fs) \<Rightarrow> Some
          (if \<not> ok then (Fail ZKR_DATA_STREAM_INVALID_DATA, transcodedTx)
           else if length fs \<noteq> 9 then (Fail ZKR_DATA_STREAM_INVALID_DATA, transcodedTx)
           else transcodeFields fs batchChainId transcodedTx))"

fun transcodeTxs :: "DataStreamTx list \<Rightarrow> u32 \<Rightarrow> bytes \<Rightarrow> (unit outcome \<times> bytes) option" where
  "transcodeTxs [] chain batchL2Data = Some (Ret (), batchL2Data)"
| "transcodeTxs (tx # ts) chain batchL2Data =
     (case transcodeTx (encodedTx tx) chain [] of
        None \<Rightarrow> None
      | Some (Ret _, transcodedTx) \<Rightarrow> transcodeTxs ts chain (batchL2Data @ transcodedTx @ [gasPricePercentage tx])
      | Some (zkr, _) \<Rightarrow> Some (zkr, batchL2Data))"

fun blocksL2Data :: "DataStreamBlock list \<Rightarrow> u32 \<Rightarrow> bytes \<Rightarrow> (unit outcome \<times> bytes) option" where
  "blocksL2Data [] chain batchL2Data = Some (Ret (), batchL2Data)"
| "blocksL2Data (block # bs) chain batchL2Data =
     (case transcodeTxs (txs block) chain
        (batchL2Data @ [0x0b] @ EncodeBigEndianU32 (deltaTimestamp block) @ EncodeBigEndianU32 (l1InfoTreeIndex block)) of
        Some (Ret _, batchL2Data) \<Rightarrow> blocksL2Data bs chain batchL2Data
      | result \<Rightarrow> result)"

definition dataStreamBatch2batchL2Data :: "DataStreamBatch \<Rightarrow> (unit outcome \<times> bytes) option" where
  "dataStreamBatch2batchL2Data batch = blocksL2Data (blocks batch) (chainId batch) []"

end
