(* ===== verification/Rlp_Lists.thy ===== *)
theory Rlp_Lists
  imports Rlp
begin

text \<open>
  Recursive length prefixes: what the decoder reads at a position, that it reads back what the encoder
  writes, when the loop over the items of a list ends, and an input on which it does not.
\<close>

section \<open>What decodeLength reads\<close>

lemma u64_nat:
  assumes "a < 2 ^ 64" "b < 2 ^ 64"
  shows "(word_of_nat a < (word_of_nat b :: u64)) = (a < b)" "(word_of_nat a \<le> (word_of_nat b :: u64)) = (a \<le> b)"
    "(word_of_nat a = (word_of_nat b :: u64)) = (a = b)"
  using assms by (simp_all add: word_less_nat_alt word_le_nat_alt word_unat_eq_iff unat_of_nat take_bit_nat_eq_self)

lemma unat_u64: "a < 2 ^ 64 \<Longrightarrow> unat (word_of_nat a :: u64) = a"
  by (simp add: unat_of_nat take_bit_nat_eq_self)

lemma u8_nat:
  assumes "k < 256"
  shows "unat (word_of_nat k :: u8) = k" "ucast (word_of_nat k :: u8) = (word_of_nat k :: u64)"
  using assms by (simp_all add: unat_of_nat take_bit_nat_eq_self word_unat_eq_iff unsigned_ucast_eq unsigned_take_bit_eq)

definition lengthOf :: "bytes \<Rightarrow> u64" where
  "lengthOf = foldl (\<lambda>len b. push_bit 8 len + ucast b) 0"

lemma readLength_eq:
  "a + n \<le> length input \<Longrightarrow> length input < 2 ^ 63 \<Longrightarrow>
   readLength input n (word_of_nat a) len =
     (word_of_nat (a + n), foldl (\<lambda>len b. push_bit 8 len + ucast b) len (take n (drop a input)))"
proof (induction n arbitrary: a len)
  case (Suc n)
  then have "charAt input (word_of_nat a) = input ! a" by (simp add: charAt_def unat_u64)
  moreover have "take (Suc n) (drop a input) = input ! a # take n (drop (Suc a) input)"
    using Suc.prems by (simp add: take_Suc_conv_app_nth Cons_nth_drop_Suc [symmetric])
  moreover have "word_of_nat a + 1 = (word_of_nat (Suc a) :: u64)" by simp
  ultimately show ?case using Suc.IH [of "Suc a"] Suc.prems by (simp add: add_ac)
qed simp

text \<open>The prefix at a position, as a number.\<close>

definition prefixAt :: "bytes \<Rightarrow> nat \<Rightarrow> nat" where
  "prefixAt input a = (if a < length input then unat (input ! a) else 0)"

lemma prefixAt_less: "prefixAt input a < 256"
proof -
  have "unat (input ! a) < 2 ^ LENGTH(8)" by (rule unsigned_less)
  then show ?thesis by (simp add: prefixAt_def)
qed

lemma shortLength_nat:
  assumes "a \<le> length input" "length input < 2 ^ 63" "n < 256"
  shows "shortLength input (word_of_nat a) (word_of_nat n) list =
    (if a + 1 + n > length input then None else Some (word_of_nat (a + 1), word_of_nat n, list))"
proof -
  have "word_of_nat a + 1 = (word_of_nat (a + 1) :: u64)" by simp
  moreover have "word_of_nat (a + 1) + word_of_nat n = (word_of_nat (a + 1 + n) :: u64)" by simp
  moreover have "a + 1 + n < 2 ^ 64" "length input < 2 ^ 64" using assms by simp_all
  ultimately show ?thesis by (simp only: shortLength_def Let_def u64_nat)
qed

lemma longLength_nat:
  assumes "a \<le> length input" "length input < 2 ^ 63" "n \<le> 8"
  shows "longLength input (word_of_nat a) (word_of_nat n) list =
    (if a + 1 + n > length input then None
     else Some (word_of_nat (a + 1 + n), lengthOf (take n (drop (a + 1) input)), list))"
proof -
  have "word_of_nat a + 1 = (word_of_nat (a + 1) :: u64)" by simp
  moreover have "word_of_nat (a + 1) + word_of_nat n = (word_of_nat (a + 1 + n) :: u64)" by simp
  moreover have "a + 1 + n < 2 ^ 64" "length input < 2 ^ 64" using assms by simp_all
  moreover have "\<not> word_of_nat n > (8 :: u64)" "unat (word_of_nat n :: u64) = n"
    using assms(3) u64_nat(1) [of 8 n] by (simp_all add: unat_u64)
  ultimately show ?thesis using readLength_eq [of "a + 1" n input 0] assms(2)
    by (simp only: longLength_def Let_def u64_nat lengthOf_def) simp
qed

lemma decodeLength_nat:
  assumes "a \<le> length input" "length input < 2 ^ 63"
  shows "decodeLength input (word_of_nat a) =
    (let k = prefixAt input a
     in if k \<le> 0x7f then Some (word_of_nat a, 1, False)
        else if k \<le> 0xb7 then if a + 1 + (k - 0x80) > length input then None
          else Some (word_of_nat (a + 1), word_of_nat (k - 0x80), False)
        else if k \<le> 0xbf then if a + 1 + (k - 0xb7) > length input then None
          else Some (word_of_nat (a + 1 + (k - 0xb7)), lengthOf (take (k - 0xb7) (drop (a + 1) input)), False)
        else if k \<le> 0xf7 then if a + 1 + (k - 0xc0) > length input then None
          else Some (word_of_nat (a + 1), word_of_nat (k - 0xc0), True)
        else if a + 1 + (k - 0xf7) > length input then None
          else Some (word_of_nat (a + 1 + (k - 0xf7)), lengthOf (take (k - 0xf7) (drop (a + 1) input)), True))"
proof -
  define k where "k = prefixAt input a"
  have k: "k < 256" unfolding k_def by (rule prefixAt_less)
  have c: "charAt input (word_of_nat a) = word_of_nat k"
    using assms by (simp add: charAt_def k_def prefixAt_def unat_u64)
  have le: "(word_of_nat k \<le> (0x7f :: u8)) = (k \<le> 0x7f)" "(word_of_nat k \<le> (0xb7 :: u8)) = (k \<le> 0xb7)"
    "(word_of_nat k \<le> (0xbf :: u8)) = (k \<le> 0xbf)" "(word_of_nat k \<le> (0xf7 :: u8)) = (k \<le> 0xf7)"
    using u8_nat(1) [OF k] by (simp_all add: word_le_nat_alt)
  have sub: "ucast (word_of_nat k :: u8) - numeral v = (word_of_nat (k - numeral v) :: u64)" if "numeral v \<le> k" for v
    unfolding u8_nat(2) [OF k] using that by (simp add: of_nat_diff)
  have range: "(word_of_nat a > size64 input) = False"
    using assms u64_nat(1) [of "length input" a] by simp
  note short = shortLength_nat [OF assms] and long = longLength_nat [OF assms]
  note unfolds = decodeLength_def c le k_def [symmetric] Let_def range if_False if_True
  consider "k \<le> 0x7f" | "0x7f < k" "k \<le> 0xb7" | "0xb7 < k" "k \<le> 0xbf" | "0xbf < k" "k \<le> 0xf7" | "0xf7 < k"
    by linarith
  then show ?thesis
  proof cases
    case 1
    then show ?thesis unfolding unfolds by simp
  next
    case 2
    then have n: "(k \<le> 0x7f) = False" "(k \<le> 0xb7) = True" "0x80 \<le> k" by simp_all
    show ?thesis unfolding unfolds n if_False if_True sub [OF n(3)] by (rule short) (use k in simp)
  next
    case 3
    then have n: "(k \<le> 0x7f) = False" "(k \<le> 0xb7) = False" "(k \<le> 0xbf) = True" "0xb7 \<le> k" by simp_all
    show ?thesis unfolding unfolds n if_False if_True sub [OF n(4)] by (rule long) (use 3 in simp)
  next
    case 4
    then have n: "(k \<le> 0x7f) = False" "(k \<le> 0xb7) = False" "(k \<le> 0xbf) = False" "(k \<le> 0xf7) = True" "0xc0 \<le> k"
      by simp_all
    show ?thesis unfolding unfolds n if_False if_True sub [OF n(5)] by (rule short) (use k in simp)
  next
    case 5
    then have n: "(k \<le> 0x7f) = False" "(k \<le> 0xb7) = False" "(k \<le> 0xbf) = False" "(k \<le> 0xf7) = False" "0xf7 \<le> k"
      by simp_all
    show ?thesis unfolding unfolds n if_False if_True sub [OF n(5)] by (rule long) (use k in simp)
  qed
qed

section \<open>Reading back what was written\<close>

lemma ucast_u8: "ucast (word_of_nat n :: u64) = (word_of_nat n :: u8)"
  by (simp add: word_unat_eq_iff unsigned_ucast_eq unsigned_take_bit_eq unat_of_nat
      del: take_bit_of_nat) (simp add: take_bit_eq_mod mod_mod_cancel)

lemma lengthByte_nat: "n < 2 ^ 24 \<Longrightarrow> lengthByte i (word_of_nat n) = word_of_nat (n div 256 ^ i)"
proof -
  assume n: "n < 2 ^ 24"
  have "unat (word_of_nat n :: u64) = n" using n by (simp add: unat_u64)
  then have "unat (drop_bit (8 * i) (word_of_nat n :: u64)) = n div 2 ^ (8 * i)"
    unfolding unat_drop_bit_eq by (simp add: drop_bit_eq_div)
  moreover have "n div 2 ^ (8 * i) < 2 ^ 64" using n le_less_trans [OF div_le_dividend, of n "2 ^ 64"] by simp
  ultimately have "drop_bit (8 * i) (word_of_nat n :: u64) = word_of_nat (n div 2 ^ (8 * i))"
    by (simp only: word_unat_eq_iff unat_u64)
  moreover have "(256 :: nat) ^ i = 2 ^ (8 * i)" by (simp add: power_mult)
  ultimately show ?thesis by (simp only: lengthByte_def ucast_u8)
qed

text \<open>The header that \<open>encodeLength\<close> writes.\<close>

definition header :: "bool \<Rightarrow> nat \<Rightarrow> bytes" where
  "header list n =
     (let offset = (if list then 0xc0 else 0x80)
      in if n < 56 then [word_of_nat (offset + n)]
         else if n < 256 then [word_of_nat (offset + 56), word_of_nat n]
         else if n < 256 * 256 then [word_of_nat (offset + 57), word_of_nat (n div 256), word_of_nat n]
         else [word_of_nat (offset + 58), word_of_nat (n div 256 ^ 2), word_of_nat (n div 256), word_of_nat n])"

lemma encodeLength_eq:
  assumes "n < 2 ^ 64"
  shows "encodeLength (word_of_nat n) list output = (if n < 2 ^ 24 then Some (output @ header list n) else None)"
proof -
  have less: "(word_of_nat n < (56 :: u64)) = (n < 56)" "(word_of_nat n < (256 :: u64)) = (n < 256)"
    "(word_of_nat n < (256 * 256 :: u64)) = (n < 256 * 256)" "(word_of_nat n < (256 * 256 * 256 :: u64)) = (n < 2 ^ 24)"
    using assms by (simp_all add: word_less_nat_alt unat_u64)
  show ?thesis unfolding encodeLength_def header_def Let_def less ucast_u8
    by (auto simp: lengthByte_nat)
qed

lemma length_header: "0 < length (header list n)" "length (header list n) \<le> 4"
  by (simp_all add: header_def Let_def)

lemma lengthOf_1: "a < 256 \<Longrightarrow> lengthOf [word_of_nat a] = word_of_nat a"
  by (simp add: lengthOf_def u8_nat)

lemma lengthOf_snoc: "lengthOf (bs @ [b]) = push_bit 8 (lengthOf bs) + ucast b"
  by (simp add: lengthOf_def)

lemma lengthOf_bytes:
  "lengthOf [word_of_nat n] = word_of_nat (n mod 256)"
  "lengthOf [word_of_nat (n div 256), word_of_nat n] = word_of_nat (n mod 256 ^ 2)"
  "lengthOf [word_of_nat (n div 256 ^ 2), word_of_nat (n div 256), word_of_nat n] = word_of_nat (n mod 256 ^ 3)"
proof -
  have b: "ucast (word_of_nat m :: u8) = (word_of_nat (m mod 256) :: u64)" for m
  proof -
    have "(word_of_nat m :: u8) = word_of_nat (m mod 256)" by (simp add: word_unat_eq_iff unat_of_nat take_bit_eq_mod)
    then show ?thesis using u8_nat(2) [of "m mod 256"] by simp
  qed
  show 1: "lengthOf [word_of_nat n] = word_of_nat (n mod 256)" for n using b by (simp add: lengthOf_def)
  have step: "lengthOf (bs @ [word_of_nat n]) = word_of_nat (n mod (256 * m))" if "lengthOf bs = word_of_nat (n div 256 mod m)" for bs n m
    unfolding lengthOf_snoc that b by (simp add: push_bit_eq_mult mod_mult2_eq)
  show 2: "lengthOf [word_of_nat (n div 256), word_of_nat n] = word_of_nat (n mod 256 ^ 2)" for n
    using step [of "[word_of_nat (n div 256)]" n 256] 1 by (simp add: power2_eq_square)
  have "n div 256 ^ 2 = n div 256 div 256" by (simp add: div_mult2_eq power2_eq_square)
  then show "lengthOf [word_of_nat (n div 256 ^ 2), word_of_nat (n div 256), word_of_nat n] = word_of_nat (n mod 256 ^ 3)"
    using step [of "[word_of_nat (n div 256 div 256), word_of_nat (n div 256)]" n "256 ^ 2"] 2 [of "n div 256"]
    by (simp add: power3_eq_cube power2_eq_square)
qed

lemma prefixAt_append: "prefixAt (pre @ word_of_nat k # suf) (length pre) = k" if "k < 256"
  using that by (simp add: prefixAt_def u8_nat)

lemma decodeLength_header:
  assumes "n < 2 ^ 24" "n \<le> length suf" "length (pre @ header list n @ suf) < 2 ^ 63"
  shows "decodeLength (pre @ header list n @ suf) (word_of_nat (length pre)) =
    Some (word_of_nat (length pre + length (header list n)), word_of_nat n, list)"
proof -
  define off :: nat where "off = (if list then 0xc0 else 0x80)"
  have off: "off \<le> 0xc0" by (simp add: off_def)
  have le: "length pre \<le> length (pre @ header list n @ suf)" by simp
  note decode = decodeLength_nat [OF le assms(3)]
  consider "n < 56" | "56 \<le> n" "n < 256" | "256 \<le> n" "n < 256 * 256" | "256 * 256 \<le> n" by linarith
  then show ?thesis
  proof cases
    case 1
    then have h: "header list n = word_of_nat (off + n) # []" by (simp add: header_def off_def)
    have p: "prefixAt (pre @ (word_of_nat (off + n) # []) @ suf) (length pre) = off + n"
      using prefixAt_append [of "off + n" pre] off 1 by auto
    show ?thesis unfolding decode Let_def unfolding h p using 1 assms(1,2)
      by (cases list) (simp_all add: off_def del: of_nat_add)
  next
    case 2
    then have h: "header list n = word_of_nat (off + 56) # [word_of_nat n]" by (simp add: header_def off_def)
    have p: "prefixAt (pre @ (word_of_nat (off + 56) # [word_of_nat n]) @ suf) (length pre) = off + 56"
      using prefixAt_append [of "off + 56" pre] off 2 by auto
    show ?thesis unfolding decode Let_def unfolding h p using lengthOf_bytes(1) [of n] 2 assms(1,2)
      by (cases list) (simp_all add: off_def del: of_nat_add)
  next
    case 3
    then have h: "header list n = word_of_nat (off + 57) # [word_of_nat (n div 256), word_of_nat n]" by (simp add: header_def off_def)
    have p: "prefixAt (pre @ (word_of_nat (off + 57) # [word_of_nat (n div 256), word_of_nat n]) @ suf) (length pre) = off + 57"
      using prefixAt_append [of "off + 57" pre] off 3 by auto
    show ?thesis unfolding decode Let_def unfolding h p using lengthOf_bytes(2) [of n] 3 assms(1,2)
      by (cases list) (simp_all add: off_def del: of_nat_add)
  next
    case 4
    then have h: "header list n = word_of_nat (off + 58) # [word_of_nat (n div 256 ^ 2), word_of_nat (n div 256), word_of_nat n]" by (simp add: header_def off_def)
    have p: "prefixAt (pre @ (word_of_nat (off + 58) # [word_of_nat (n div 256 ^ 2), word_of_nat (n div 256), word_of_nat n]) @ suf) (length pre) = off + 58"
      using prefixAt_append [of "off + 58" pre] off 4 by auto
    show ?thesis unfolding decode Let_def unfolding h p using lengthOf_bytes(3) [of n] 4 assms(1,2)
      by (cases list) (simp_all add: off_def)
  qed
qed

text \<open>The bytes of one array.\<close>

definition baBytes :: "bytes \<Rightarrow> bytes" where
  "baBytes x = (if length x = 1 \<and> x ! 0 < 0x80 then x else header False (length x) @ x)"

lemma encodeBa_eq:
  assumes "length x < 2 ^ 64"
  shows "encodeBa x = (if length x < 2 ^ 24 then Some (baBytes x) else None)"
  using assms by (simp add: encodeBa_def baBytes_def encodeLength_eq)

lemma encodeItems_eq:
  assumes "\<forall>x\<in>set xs. length x < 2 ^ 64"
  shows "encodeItems xs list = (if \<forall>x\<in>set xs. length x < 2 ^ 24 then Some (list @ concat (map baBytes xs)) else None)"
  using assms by (induction xs arbitrary: list) (auto simp: encodeBa_eq)

lemma decodeBa_baBytes:
  assumes "length x < 2 ^ 24" "length (pre @ baBytes x @ suf) < 2 ^ 63"
  shows "decodeBa (pre @ baBytes x @ suf) (word_of_nat (length pre)) =
    Some (word_of_nat (length pre + length (baBytes x)), x, False)"
proof (cases "length x = 1 \<and> x ! 0 < 0x80")
  case True
  then obtain b where x: "x = [b]" "b < 0x80" by (cases x) auto
  have k: "prefixAt (pre @ [b] @ suf) (length pre) = unat b" by (simp add: prefixAt_def)
  have le: "length pre \<le> length (pre @ [b] @ suf)" "length (pre @ [b] @ suf) < 2 ^ 63" using assms(2) True x by (simp_all add: baBytes_def)
  have range: "(word_of_nat (length pre) > size64 (pre @ [b] @ suf)) = False"
    using u64_nat(1) [of "length (pre @ [b] @ suf)" "length pre"] le by simp
  have "unat b \<le> 0x7f" using x(2) by (simp add: word_less_nat_alt)
  then have "decodeLength (pre @ [b] @ suf) (word_of_nat (length pre)) = Some (word_of_nat (length pre), 1, False)"
    using decodeLength_nat [OF le] k by simp
  moreover have "baBytes x = [b]" using True x by (simp add: baBytes_def)
  ultimately show ?thesis unfolding decodeBa_def using range le
    by (simp add: substr_def unat_u64 x)
next
  case False
  then have e: "baBytes x = header False (length x) @ x" unfolding baBytes_def by (simp only: if_False)
  let ?in = "pre @ header False (length x) @ x @ suf"
  have len: "length ?in < 2 ^ 63" using assms(2) e by simp
  have "decodeLength ?in (word_of_nat (length pre)) =
      Some (word_of_nat (length pre + length (header False (length x))), word_of_nat (length x), False)"
    by (rule decodeLength_header) (use assms(1) len in simp_all)
  moreover have "(word_of_nat (length pre) > size64 ?in) = False"
    using u64_nat(1) [of "length ?in" "length pre"] len by simp
  moreover have "substr ?in (word_of_nat (length pre + length (header False (length x)))) (word_of_nat (length x)) = x"
  proof -
    have "unat (word_of_nat (length pre + length (header False (length x))) :: u64) = length pre + length (header False (length x))"
      "unat (word_of_nat (length x) :: u64) = length x"
      using len by (simp_all add: unat_u64 del: of_nat_add)
    then show ?thesis by (simp add: substr_def del: of_nat_add)
  qed
  moreover have "word_of_nat (length pre + length (header False (length x))) + word_of_nat (length x) =
      (word_of_nat (length pre + length (baBytes x)) :: u64)" by (simp add: e)
  ultimately show ?thesis unfolding decodeBa_def e append_assoc by (simp del: of_nat_add)
qed

section \<open>Lists\<close>

lemma baBytes_length: "0 < length (baBytes x)" "length (baBytes x) \<le> length x + 4"
  using length_header [of False "length x"] by (auto simp: baBytes_def)

lemma decodeItems_baBytes:
  assumes "\<forall>x\<in>set xs. length x < 2 ^ 24" "length (pre @ concat (map baBytes xs)) < 2 ^ 63"
  shows "decodeItems (pre @ concat (map baBytes xs)) (word_of_nat (length pre)) out = Some (True, out @ xs)"
  using assms
proof (induction xs arbitrary: pre out)
  case Nil
  then show ?case by (simp add: decodeItems.simps)
next
  case (Cons x xs)
  let ?in = "pre @ baBytes x @ concat (map baBytes xs)"
  have "(word_of_nat (length pre) < size64 ?in) = True"
    using u64_nat(1) [of "length pre" "length ?in"] Cons.prems(2) baBytes_length(1) [of x] by simp
  moreover have "decodeBa ?in (word_of_nat (length pre)) = Some (word_of_nat (length (pre @ baBytes x)), x, False)"
    using decodeBa_baBytes [of x pre "concat (map baBytes xs)"] Cons.prems by (simp del: of_nat_add)
  moreover have "decodeItems ?in (word_of_nat (length (pre @ baBytes x))) (out @ [x]) = Some (True, (out @ [x]) @ xs)"
    using Cons.IH [of "pre @ baBytes x" "out @ [x]"] Cons.prems by (simp del: of_nat_add)
  ultimately show ?case by (subst decodeItems.simps) (simp del: of_nat_add length_append)
qed

text \<open>What \<open>encodeList\<close> can encode: every array and the list fit in a length of three bytes.\<close>

definition rlpFits :: "bytes list \<Rightarrow> bool" where
  "rlpFits xs \<longleftrightarrow> (\<forall>x\<in>set xs. length x < 2 ^ 24) \<and> length (concat (map baBytes xs)) < 2 ^ 24"

definition listBytes :: "bytes list \<Rightarrow> bytes" where
  "listBytes xs = (let list = concat (map baBytes xs) in header True (length list) @ list)"

lemma items_length:
  assumes "\<forall>x\<in>set xs. length x < 2 ^ 24"
  shows "length (concat (map baBytes xs)) \<le> length xs * 2 ^ 25"
  using assms
proof (induction xs)
  case (Cons x xs)
  then show ?case using baBytes_length(2) [of x] by simp
qed simp

lemma encodeList_eq:
  assumes "length xs < 2 ^ 32" "\<forall>x\<in>set xs. length x < 2 ^ 63"
  shows "encodeList xs out = (if rlpFits xs then Some (out @ listBytes xs) else None)"
proof (cases "\<forall>x\<in>set xs. length x < 2 ^ 24")
  case True
  have "length (concat (map baBytes xs)) < 2 ^ 64" using items_length [OF True] assms(1) by simp
  moreover have "\<forall>x\<in>set xs. length x < 2 ^ 64" using assms(2) by fastforce
  ultimately show ?thesis using True
    by (simp add: encodeList_def encodeItems_eq encodeLength_eq rlpFits_def listBytes_def Let_def)
next
  case False
  have "\<forall>x\<in>set xs. length x < 2 ^ 64" using assms(2) by fastforce
  then have "encodeItems xs [] = None" using encodeItems_eq [of xs "[]"] False by presburger
  moreover have "\<not> rlpFits xs" using False by (auto simp: rlpFits_def)
  ultimately show ?thesis by (simp add: encodeList_def)
qed

lemma decodeList_listBytes:
  assumes "rlpFits xs"
  shows "decodeList (listBytes xs) out = Some (True, out @ xs)"
proof -
  let ?list = "concat (map baBytes xs)"
  let ?h = "header True (length ?list)"
  have fits: "\<forall>x\<in>set xs. length x < 2 ^ 24" "length ?list < 2 ^ 24" using assms by (auto simp: rlpFits_def)
  have len: "length (?h @ ?list) < 2 ^ 63" using length_header(2) [of True "length ?list"] fits(2) by simp
  have "decodeLength (?h @ ?list) 0 = Some (word_of_nat (length ?h), word_of_nat (length ?list), True)"
    using decodeLength_header [of "length ?list" ?list "[]" True] fits(2) len by simp
  moreover have "word_of_nat (length ?h) + word_of_nat (length ?list) = size64 (?h @ ?list)" by simp
  moreover have "decodeItems (?h @ ?list) (word_of_nat (length ?h)) out = Some (True, out @ xs)"
    by (rule decodeItems_baBytes [OF fits(1) len])
  ultimately show ?thesis by (simp add: decodeList_def listBytes_def Let_def)
qed

section \<open>When decoding returns\<close>

lemma lengthOf_less: "length bs \<le> 7 \<Longrightarrow> unat (lengthOf bs) < 256 ^ length bs"
proof (induction bs rule: rev_induct)
  case Nil
  then show ?case by (simp add: lengthOf_def)
next
  case (snoc b bs)
  have l: "unat (lengthOf bs) < 256 ^ length bs" using snoc by simp
  have b: "unat b < 2 ^ LENGTH(8)" by (rule unsigned_less)
  have "(256 :: nat) ^ length bs \<le> 256 ^ 6" using snoc.prems by (intro power_increasing) simp_all
  then have small: "unat (lengthOf bs) * 256 + unat b < 2 ^ 64" using l b by simp
  have "push_bit 8 (lengthOf bs) + ucast b = (word_of_nat (unat (lengthOf bs) * 256 + unat b) :: u64)"
    by (simp add: push_bit_eq_mult)
  then have "unat (lengthOf (bs @ [b])) = unat (lengthOf bs) * 256 + unat b"
    unfolding lengthOf_snoc using small by (simp only: unat_u64)
  also have "\<dots> < 256 ^ length (bs @ [b])" using l b by simp
  finally show ?case .
qed

lemma decodeLength_bound:
  assumes "a \<le> length input" "length input < 2 ^ 63" "prefixAt input a \<notin> {0xbf, 0xff}"
    "decodeLength input (word_of_nat a) = Some (p, len, list)"
  obtains b n where "p = word_of_nat b" "len = word_of_nat n" "a < b + n \<or> a = length input" "a \<le> b" "b \<le> length input" "n < 2 ^ 56"
proof -
  let ?k = "prefixAt input a"
  have long: "\<exists>n. lengthOf (take m xs) = word_of_nat n \<and> n < 2 ^ 56" if "m \<le> 7" for m xs
  proof -
    have "unat (lengthOf (take m xs)) < 256 ^ length (take m xs)" using that by (intro lengthOf_less) simp
    also have "\<dots> \<le> 256 ^ 7" using that by (intro power_increasing) simp_all
    finally have "unat (lengthOf (take m xs)) < 2 ^ 56" by simp
    moreover have "lengthOf (take m xs) = word_of_nat (unat (lengthOf (take m xs)))" by simp
    ultimately show ?thesis by blast
  qed
  note decode = assms(4) [unfolded decodeLength_nat [OF assms(1,2)] Let_def]
  consider "?k \<le> 0x7f" | "0x7f < ?k" "?k \<le> 0xb7" | "0xb7 < ?k" "?k < 0xbf" | "0xbf < ?k" "?k \<le> 0xf7" | "0xf7 < ?k" "?k < 0xff"
    using prefixAt_less [of input a] assms(3) by fastforce
  then show ?thesis
  proof cases
    case 1
    then show ?thesis using decode assms(1) by (intro that [of a 1]) auto
  next
    case 2
    then show ?thesis using decode assms(1) by (intro that [of "a + 1" "?k - 0x80"]) (auto split: if_splits)
  next
    case 3
    then have "?k - 0xb7 \<le> 7" by simp
    from long [OF this] obtain n where "lengthOf (take (?k - 0xb7) (drop (a + 1) input)) = word_of_nat n" "n < 2 ^ 56"
      by blast
    then show ?thesis using decode assms(1) 3 by (intro that [of "a + 1 + (?k - 0xb7)" n]) (auto split: if_splits)
  next
    case 4
    then show ?thesis using decode assms(1) by (intro that [of "a + 1" "?k - 0xc0"]) (auto split: if_splits)
  next
    case 5
    then have "?k - 0xf7 \<le> 7" by simp
    from long [OF this] obtain n where "lengthOf (take (?k - 0xf7) (drop (a + 1) input)) = word_of_nat n" "n < 2 ^ 56"
      by blast
    then show ?thesis using decode assms(1) 5 by (intro that [of "a + 1 + (?k - 0xf7)" n]) (auto split: if_splits)
  qed
qed

lemma decodeBa_advances:
  assumes "a < length input" "length input < 2 ^ 63" "input ! a \<notin> {0xbf, 0xff}" "decodeBa input (word_of_nat a) = Some (p, ba, list)"
  obtains b where "p = word_of_nat b" "a < b" "b < 2 ^ 64"
proof -
  have "prefixAt input a \<notin> {0xbf, 0xff}"
    using assms(1,3) by (auto simp: prefixAt_def word_unat_eq_iff)
  moreover have "a \<le> length input" using assms(1) by simp
  moreover obtain q len where "decodeLength input (word_of_nat a) = Some (q, len, list)" "p = q + len"
    using assms(4) by (auto simp: decodeBa_def split: if_splits option.splits)
  ultimately obtain b n where "p = word_of_nat b + word_of_nat n" "a < b + n" "b \<le> length input" "n < 2 ^ 56"
    using decodeLength_bound [of a input q len list] assms(1,2) by (metis nat_neq_iff)
  then show ?thesis using that [of "b + n"] assms(2) by simp
qed

lemma decodeItems_returns:
  assumes "length input < 2 ^ 63" "\<forall>b\<in>set input. b \<notin> {0xbf, 0xff}" "a < 2 ^ 64"
  shows "\<exists>r. decodeItems input (word_of_nat a) out = Some r"
  using assms(3)
proof (induction "length input - a" arbitrary: a out rule: less_induct)
  case less
  show ?case
  proof (cases "a < length input \<and> (\<exists>p ba. decodeBa input (word_of_nat a) = Some (p, ba, False))")
    case False
    then show ?thesis using u64_nat(1) [of a "length input"] assms(1) less.prems
      by (subst decodeItems.simps) (auto split: option.splits)
  next
    case True
    then obtain p ba where d: "a < length input" "decodeBa input (word_of_nat a) = Some (p, ba, False)" by blast
    then have "input ! a \<notin> {0xbf, 0xff}" using assms(2) by simp
    from decodeBa_advances [OF d(1) assms(1) this d(2)] obtain b where b: "p = word_of_nat b" "a < b" "b < 2 ^ 64" by blast
    then have "length input - b < length input - a" using d(1) by simp
    from less.hyps [OF this b(3), of "out @ [ba]"] show ?thesis
      using d u64_nat(1) [of a "length input"] assms(1) less.prems b(1)
      by (subst decodeItems.simps) (auto split: option.splits)
  qed
qed

lemma decodeList_returns_lemma:
  assumes "length input < 2 ^ 63" "\<forall>b\<in>set input. b \<notin> {0xbf, 0xff}"
  shows "\<exists>r. decodeList input out = Some r"
proof (cases "decodeLength input 0")
  case (Some x)
  obtain p len list where x: "x = (p, len, list)" by (cases x)
  have "prefixAt input 0 \<notin> {0xbf, 0xff}"
    using assms(2) by (auto simp: prefixAt_def word_unat_eq_iff)
  moreover have "decodeLength input (word_of_nat 0) = Some (p, len, list)" using Some x by simp
  ultimately obtain b where "p = word_of_nat b" "b \<le> length input"
    using decodeLength_bound [of 0 input p len list] assms(1) by blast
  then have "\<exists>r. decodeItems input p out = Some r" using decodeItems_returns [OF assms, of b] assms(1) by simp
  then show ?thesis using Some x by (auto simp: decodeList_def)
qed (auto simp: decodeList_def)

text \<open>
  A list whose only item has a length of eight bytes, 2^64 - 9: the position after it wraps around to the
  position of the item, and the loop of \<open>decodeList\<close> never ends.
\<close>

definition endless :: bytes where
  "endless = [0xc9, 0xbf, 0xff, 0xff, 0xff, 0xff, 0xff, 0xff, 0xff, 0xf7]"

lemma endless_item: "decodeBa endless 1 = Some (1, [], False)"
  by code_simp

lemma decodeItems_endless: "decodeItems endless 1 out = None"
proof (rule ccontr)
  assume "decodeItems endless 1 out \<noteq> None"
  then obtain r where r: "decodeItems endless 1 out = Some r" by auto
  have "\<not> (endless = endless \<and> (1 :: u64) = 1)"
  proof (rule decodeItems.raw_induct [where P = "\<lambda>input p out r. \<not> (input = endless \<and> p = 1)", OF _ r], goal_cases)
    case (1 decode input p out r)
    show ?case
    proof
      assume e: "input = endless \<and> p = 1"
      have "(1 :: u64) < size64 endless" by (simp add: endless_def)
      then have "decode endless 1 (out @ [[]]) = Some r" using 1(2) e endless_item by simp
      then show False using 1(1) by blast
    qed
  qed
  then show False by simp
qed

lemma decodeList_endless: "decodeList endless [] = None"
proof -
  have "decodeLength endless 0 = Some (1, 9, True)" by code_simp
  moreover have "1 + 9 = size64 endless" by code_simp
  ultimately show ?thesis using decodeItems_endless [of "[]"] by (simp add: decodeList_def)
qed

end
