(* ===== verification/Stream_Format.thy ===== *)
theory Stream_Format
  imports Data_Stream Rlp_Lists
begin

text \<open>
  The format of the stream, as the comments of the parser describe it, and what the parser does on an entry
  of that format.
\<close>

section \<open>Parsing at a position\<close>

definition sits :: "bytes \<Rightarrow> nat \<Rightarrow> bytes \<Rightarrow> bool" where
  "sits data p xs \<longleftrightarrow> p \<le> length data \<and> drop p data = xs"

lemma sits_step: "sits data p (bs @ rest) \<Longrightarrow> sits data (p + length bs) rest"
proof -
  assume s: "sits data p (bs @ rest)"
  then have "drop (p + length bs) data = drop (length bs) (bs @ rest)"
    unfolding sits_def by (metis add.commute drop_drop)
  moreover have "length data - p = length bs + length rest" using s unfolding sits_def by (metis length_append length_drop)
  ultimately show ?thesis using s unfolding sits_def by auto
qed

lemma sits_length: "sits data p (bs @ rest) \<Longrightarrow> p + length bs \<le> length data"
  using sits_step [of data p bs rest] by (simp add: sits_def)

lemma sits_byte: "sits data p (bs @ rest) \<Longrightarrow> i < length bs \<Longrightarrow> byteAt data (p + i) = Ret (bs ! i)"
proof -
  assume s: "sits data p (bs @ rest)" and i: "i < length bs"
  have "p + i < length data" using sits_length [OF s] i by simp
  moreover have "data ! (p + i) = (bs @ rest) ! i" using s unfolding sits_def by (metis nth_drop)
  ultimately show ?thesis using i by (simp add: byteAt_def nth_append)
qed

lemma sits_take: "sits data p (bs @ rest) \<Longrightarrow> take (length bs) (drop p data) = bs"
  by (simp add: sits_def)

lemma mapO_sits: "sits data p (bs @ rest) \<Longrightarrow> mapO (\<lambda>i. byteAt data (p + i)) [0..<length bs] = Ret bs"
  using mapO_Ret [of "[0..<length bs]" "\<lambda>i. byteAt data (p + i)" "(!) bs"] by (simp add: sits_byte map_nth)

definition beBytes :: "nat \<Rightarrow> nat \<Rightarrow> bytes" where
  "beBytes k n = map (\<lambda>i. word_of_nat (n div 256 ^ i)) (rev [0..<k])"

lemma length_beBytes [simp]: "length (beBytes k n) = k"
  by (simp add: beBytes_def)

lemma beBytes_Suc: "beBytes (Suc k) n = beBytes k (n div 256) @ [word_of_nat n]"
proof -
  have "rev [0..<Suc k] = map Suc (rev [0..<k]) @ [0]" 
    unfolding upt_conv_Cons [of 0 "Suc k", OF zero_less_Suc] map_Suc_upt [symmetric] by (simp add: rev_map)
  then show ?thesis by (simp add: beBytes_def div_mult2_eq)
qed

lemma ucast_byte: "ucast (word_of_nat n :: u8) = (word_of_nat (n mod 256) :: u32)"
  by (simp add: word_unat_eq_iff unsigned_ucast_eq unsigned_take_bit_eq unat_of_nat take_bit_eq_mod)

lemma accumulate_beBytes: "accumulate (beBytes k n) = word_of_nat (n mod 256 ^ k)"
proof (induction k arbitrary: n)
  case 0
  then show ?case by (simp add: beBytes_def accumulate_def)
next
  case (Suc k)
  have "accumulate (beBytes (Suc k) n) = push_bit 8 (accumulate (beBytes k (n div 256))) + ucast (word_of_nat n :: u8)"
    by (simp add: beBytes_Suc accumulate_def)
  also have "\<dots> = word_of_nat (256 * (n div 256 mod 256 ^ k) + n mod 256)"
    unfolding Suc.IH ucast_byte by (simp add: push_bit_eq_mult)
  also have "256 * (n div 256 mod 256 ^ k) + n mod 256 = n mod 256 ^ Suc k"
    by (simp add: mod_mult2_eq)
  finally show ?case .
qed

lemma indices: "[0, 1] = [0..<2]" "[0, 1, 2, 3] = [0..<4]" "[0, 1, 2, 3, 4, 5, 6, 7] = [0..<8 :: nat]"
  by (simp_all add: upt_rec)

lemma parse_sits:
  "sits data p ([b] @ rest) \<Longrightarrow> ParseU8 data p = Ret (b, p + 1)"
  "sits data p (beBytes 2 h @ rest) \<Longrightarrow> ParseBigEndianU16 data p = Ret (word_of_nat (h mod 2 ^ 16), p + 2)"
  "sits data p (beBytes 4 w @ rest) \<Longrightarrow> ParseBigEndianU32 data p = Ret (word_of_nat (w mod 2 ^ 32), p + 4)"
  "sits data p (beBytes 8 n @ rest) \<Longrightarrow> ParseBigEndianU64 data p = Ret (word_of_nat (n mod 2 ^ 32), p + 8)"
  "sits data p (bs @ rest) \<Longrightarrow> ba2string bs = Ret s \<Longrightarrow> length bs = k \<Longrightarrow> hexAt data p k = Ret (s, p + k)"
proof -
  show "ParseU8 data p = Ret (b, p + 1)" if "sits data p ([b] @ rest)"
    using sits_byte [OF that, of 0] by (simp add: ParseU8_def)
  show "ParseBigEndianU16 data p = Ret (word_of_nat (h mod 2 ^ 16), p + 2)" if "sits data p (beBytes 2 h @ rest)"
    using mapO_sits [OF that] unfolding ParseBigEndianU16_def indices
    by (simp add: accumulate_beBytes word_unat_eq_iff unsigned_ucast_eq unsigned_take_bit_eq unat_of_nat take_bit_eq_mod)
  show "ParseBigEndianU32 data p = Ret (word_of_nat (w mod 2 ^ 32), p + 4)" if "sits data p (beBytes 4 w @ rest)"
    using mapO_sits [OF that] unfolding ParseBigEndianU32_def indices by (simp add: accumulate_beBytes)
  show "ParseBigEndianU64 data p = Ret (word_of_nat (n mod 2 ^ 32), p + 8)" if "sits data p (beBytes 8 n @ rest)"
    using mapO_sits [OF that] unfolding ParseBigEndianU64_def indices
    by (simp add: accumulate_beBytes word_unat_eq_iff unsigned_ucast_eq unsigned_take_bit_eq unat_of_nat take_bit_eq_mod
        mod_mod_cancel)
  show "hexAt data p k = Ret (s, p + k)" if "sits data p (bs @ rest)" "ba2string bs = Ret s" "length bs = k"
    using that sits_length [OF that(1)] sits_take [OF that(1)] by (auto simp: hexAt_def)
qed

section \<open>The entries\<close>

text \<open>
  An entry: packet type 2, length, type, number, data.  The data of the three kinds of entries, in which
  hashes, roots and addresses are the bytes their hexadecimal strings denote.
\<close>

definition entryBytes :: "nat \<Rightarrow> nat \<Rightarrow> bytes \<Rightarrow> bytes" where
  "entryBytes ty number dat = [2] @ beBytes 4 (length dat + 17) @ beBytes 4 ty @ beBytes 8 number @ dat"

definition isHex :: "nat \<Rightarrow> string \<Rightarrow> bool" where
  "isHex k s \<longleftrightarrow> (case string2ba s of Ret bs \<Rightarrow> length bs = k \<and> ba2string bs = Ret s | _ \<Rightarrow> False)"

definition unhex :: "string \<Rightarrow> bytes" where
  "unhex s = (case string2ba s of Ret bs \<Rightarrow> bs | _ \<Rightarrow> [])"

definition startData :: "u64 \<Rightarrow> DataStreamBlock \<Rightarrow> bytes" where
  "startData number b =
     beBytes 8 (unat number) @ beBytes 8 (unat (blockNumber b)) @ beBytes 8 (unat (timestamp b)) @
     beBytes 4 (unat (deltaTimestamp b)) @ beBytes 4 (unat (l1InfoTreeIndex b)) @ unhex (l1BlockHash b) @
     unhex (globalExitRoot b) @ unhex (coinbase b) @ beBytes 2 (unat (blForkId b)) @ beBytes 4 (unat (blChainId b))"

definition txData :: "DataStreamTx \<Rightarrow> bytes" where
  "txData t = [gasPricePercentage t] @ [if isValid t then 1 else 0] @ unhex (txStateRoot t) @
     beBytes 4 (length (encodedTx t)) @ encodedTx t"

definition endData :: "DataStreamBlock \<Rightarrow> bytes" where
  "endData b = beBytes 8 (unat (blockNumber b)) @ unhex (l2BlockHash b) @ unhex (blStateRoot b)"

text \<open>What the fields of the format can hold; the parser keeps 32 bits of the 64-bit numbers.\<close>

definition txOk :: "DataStreamTx \<Rightarrow> bool" where
  "txOk t \<longleftrightarrow> isHex 32 (txStateRoot t) \<and> length (encodedTx t) + 55 < 2 ^ 32"

definition blockOk :: "u16 \<Rightarrow> u32 \<Rightarrow> DataStreamBlock \<Rightarrow> bool" where
  "blockOk fork chain b \<longleftrightarrow> blockNumber b \<noteq> 0 \<and> unat (blockNumber b) < 2 ^ 32 \<and> unat (timestamp b) < 2 ^ 32 \<and>
     blForkId b = ucast fork \<and> blChainId b = chain \<and> isHex 32 (l1BlockHash b) \<and> isHex 32 (globalExitRoot b) \<and>
     isHex 20 (coinbase b) \<and> isHex 32 (l2BlockHash b) \<and> isHex 32 (blStateRoot b) \<and> list_all txOk (txs b)"

lemma isHex_unhex: "isHex k s \<Longrightarrow> length (unhex s) = k \<and> ba2string (unhex s) = Ret s"
  by (auto simp: isHex_def unhex_def split: outcome.splits)

lemma isHex_nonempty: "isHex k s \<Longrightarrow> 0 < k \<Longrightarrow> s \<noteq> []"
proof
  assume h: "isHex k s" "0 < k" "s = []"
  then have "ba2string (unhex []) = Ret []" "unhex [] \<noteq> []" using isHex_unhex [of k s] by auto
  then show False by (cases "unhex []") (auto simp: bindO_eq_Ret byte2string_def)
qed

lemma nat_of_word: "word_of_nat (unat w) = w" for w :: "'a :: len word"
  by simp

lemma run_ret: "bindP (liftP (Ret x)) f s = f x s" "bindP (guardP True e) g s = g () s"
  by (simp_all add: bindP_def liftP_def guardP_def retP_def)

lemma sits_next:
  "sits data p ([b] @ rest) \<Longrightarrow> sits data (p + 1) rest"
  "sits data p (beBytes k n @ rest) \<Longrightarrow> sits data (p + k) rest"
  "sits data p (unhex s @ rest) \<Longrightarrow> isHex k s \<Longrightarrow> sits data (p + k) rest"
  using sits_step [of data p "[b]" rest] sits_step [of data p "beBytes k n" rest] sits_step [of data p "unhex s" rest]
    isHex_unhex [of k s] by auto

lemma hexAt_sits: "sits data p (unhex s @ rest) \<Longrightarrow> isHex k s \<Longrightarrow> hexAt data p k = Ret (s, p + k)"
  using parse_sits(5) isHex_unhex by blast

lemma streamEntry_sits:
  assumes "sits data p (entryBytes ty number dat @ rest)" "length dat + 17 < 2 ^ 32" "ty < 2 ^ 32"
  shows "streamEntry data p s = entryBody data 2 (word_of_nat ty) (p + 17) (length dat) s" "sits data (p + 17) (dat @ rest)"
proof -
  have s0: "sits data p ([2] @ beBytes 4 (length dat + 17) @ beBytes 4 ty @ beBytes 8 number @ dat @ rest)"
    using assms(1) by (simp add: entryBytes_def)
  note s1 = sits_next(1) [OF s0]
  note s2 = sits_next(2) [OF s1, simplified]
  note s3 = sits_next(2) [OF s2, simplified]
  note s4 = sits_next(2) [OF s3, simplified]
  show "sits data (p + 17) (dat @ rest)" using s4 by (simp add: add.commute)
  have pos: "p + 1 + 4 = p + 5" "p + 5 + 4 = p + 9" by simp_all
  have room: "\<not> length data < p + 1 + 4" "\<not> length data < p + 5 + 4" "\<not> length data < p + 9 + 8"
    "\<not> length data < p + 9 + 8 + length dat"
    using sits_length [OF s4] by simp_all
  have u1: "ParseU8 data p = Ret (2, p + 1)" by (rule parse_sits(1) [OF s0])
  have u2: "ParseBigEndianU32 data (p + 1) = Ret (word_of_nat (length dat + 17), p + 5)"
    using parse_sits(3) [OF s1] assms(2) by simp
  have u3: "ParseBigEndianU32 data (p + 5) = Ret (word_of_nat ty, p + 9)"
    using parse_sits(3) [of data "p + 5" ty] s2 assms(3) by (simp add: add.commute)
  have len: "\<not> (word_of_nat (length dat + 17) :: u32) < 17" "unat (word_of_nat (length dat + 17) - 17 :: u32) = length dat"
  proof -
    have "unat (word_of_nat (length dat + 17) :: u32) = length dat + 17"
      using assms(2) by (simp add: unat_of_nat take_bit_nat_eq_self del: of_nat_add)
    then show "\<not> (word_of_nat (length dat + 17) :: u32) < 17" by (simp add: word_less_nat_alt del: of_nat_add)
    have "(word_of_nat (length dat + 17) - 17 :: u32) = word_of_nat (length dat)" by simp
    then show "unat (word_of_nat (length dat + 17) - 17 :: u32) = length dat"
      using assms(2) by (simp add: unat_of_nat take_bit_nat_eq_self)
  qed
  show "streamEntry data p s = entryBody data 2 (word_of_nat ty) (p + 17) (length dat) s"
    unfolding streamEntry_def u1 run_ret prod.case using room
    by (simp only: run_ret prod.case pos u2 u3 len simp_thms) (simp add: add.commute [of p])
qed

text \<open>The block as it is before its transactions and its end.\<close>

definition openBlock :: "DataStreamBlock \<Rightarrow> DataStreamBlock" where
  "openBlock b = b\<lparr>l2BlockHash := [], blStateRoot := [], txs := []\<rparr>"

lemma startBlock_sits:
  assumes "sits data p (startData number b @ rest)" "blockOk fork chain b" "fork \<noteq> 0" "number \<noteq> 0" "unat number < 2 ^ 32"
  shows "startBlock data p 122 s = bindP (addBlock number (openBlock b)) (\<lambda>_. retP (p + 122)) s" "sits data (p + 122) rest"
proof -
  have ok: "blockNumber b \<noteq> 0" "unat (blockNumber b) < 2 ^ 32" "unat (timestamp b) < 2 ^ 32" "blForkId b = ucast fork"
    "isHex 32 (l1BlockHash b)" "isHex 32 (globalExitRoot b)" "isHex 20 (coinbase b)"
    using assms(2) by (simp_all add: blockOk_def)
  have s0: "sits data p (beBytes 8 (unat number) @ beBytes 8 (unat (blockNumber b)) @ beBytes 8 (unat (timestamp b)) @
     beBytes 4 (unat (deltaTimestamp b)) @ beBytes 4 (unat (l1InfoTreeIndex b)) @ unhex (l1BlockHash b) @
     unhex (globalExitRoot b) @ unhex (coinbase b) @ beBytes 2 (unat (blForkId b)) @ beBytes 4 (unat (blChainId b)) @ rest)"
    using assms(1) by (simp add: startData_def)
  note s1 = sits_next(2) [OF s0]
  note s2 = sits_next(2) [OF s1]
  note s3 = sits_next(2) [OF s2]
  note s4 = sits_next(2) [OF s3]
  note s5 = sits_next(2) [OF s4]
  note s6 = sits_next(3) [OF s5 ok(5)]
  note s7 = sits_next(3) [OF s6 ok(6)]
  note s8 = sits_next(3) [OF s7 ok(7)]
  note s9 = sits_next(2) [OF s8]
  note s10 = sits_next(2) [OF s9]
  note parse = parse_sits(4) [OF s0] parse_sits(4) [OF s1] parse_sits(4) [OF s2] parse_sits(3) [OF s3] parse_sits(3) [OF s4]
    hexAt_sits [OF s5 ok(5)] hexAt_sits [OF s6 ok(6)] hexAt_sits [OF s7 ok(7)] parse_sits(2) [OF s8] parse_sits(3) [OF s9]
  show "sits data (p + 122) rest" using s10 by (simp add: add.commute [of p])
  have f: "unat fork < 2 ^ LENGTH(16)" by (rule unsigned_less)
  have mods: "unat number mod 2 ^ 32 = unat number" "unat (blockNumber b) mod 2 ^ 32 = unat (blockNumber b)"
    "unat (timestamp b) mod 2 ^ 32 = unat (timestamp b)" "unat (deltaTimestamp b) mod 2 ^ 32 = unat (deltaTimestamp b)"
    "unat (l1InfoTreeIndex b) mod 2 ^ 32 = unat (l1InfoTreeIndex b)" "unat (blChainId b) mod 2 ^ 32 = unat (blChainId b)"
    using assms(5) ok(2,3) unsigned_less [where w = "deltaTimestamp b" and 'a = nat]
      unsigned_less [where w = "l1InfoTreeIndex b" and 'a = nat] unsigned_less [where w = "blChainId b" and 'a = nat] by simp_all
  have fork: "word_of_nat (unat (blForkId b) mod 2 ^ 16) = fork"
    using f by (simp add: ok(4) unsigned_ucast_eq unsigned_take_bit_eq take_bit_nat_eq_self)
  have fork': "ucast fork \<noteq> (0 :: u64)"
    using assms(3) f by (simp add: word_unat_eq_iff unsigned_ucast_eq unsigned_take_bit_eq take_bit_nat_eq_self)
  have P: "parseBlock data (p + 8) s = (Ret (openBlock b, p + 122), s)" for s
    unfolding parseBlock_def
    by (simp only: parse [unfolded mods fork] run_ret prod.case ok(1) fork' simp_thms nat_of_word)
      (simp add: retP_def openBlock_def ok(4))
  show "startBlock data p 122 s = bindP (addBlock number (openBlock b)) (\<lambda>_. retP (p + 122)) s"
    unfolding startBlock_def using assms(4)
    by (simp only: run_ret prod.case parse [unfolded mods fork] nat_of_word simp_thms) (simp add: bindP_retP [OF P])
qed

section \<open>Filling the batch\<close>

text \<open>The batch when the blocks parsed so far are \<open>bs\<close>, for a stream of the batch \<open>B\<close>.\<close>

definition batchAt :: "DataStreamBatch \<Rightarrow> DataStreamBlock list \<Rightarrow> DataStreamBatch" where
  "batchAt B bs = (if bs = [] then resetBatch else B\<lparr>blocks := bs\<rparr>)"

definition numbersOk :: "DataStreamBatch \<Rightarrow> bool" where
  "numbersOk B \<longleftrightarrow> batchNumber B \<noteq> 0 \<and> unat (batchNumber B) < 2 ^ 32 \<and> forkId B \<noteq> 0"

lemma blocks_batchAt [simp]: "blocks (batchAt B bs) = bs"
  by (simp add: batchAt_def resetBatch_def)

lemma addBlock_batchAt:
  assumes "blockOk (forkId B) (chainId B) b" "bs \<noteq> [] \<longrightarrow> blockNumber b = blockNumber (last bs) + 1"
  shows "addBlock (batchNumber B) (openBlock b) (batchAt B bs) = (Ret (), batchAt B (bs @ [openBlock b]))"
proof -
  have b: "blForkId (openBlock b) = ucast (forkId B)" "blChainId (openBlock b) = chainId B" "blockNumber (openBlock b) = blockNumber b"
    using assms(1) by (simp_all add: blockOk_def openBlock_def)
  have narrow: "ucast (ucast f :: u64) = f" for f :: u16
  proof -
    have "unat f < 2 ^ LENGTH(16)" by (rule unsigned_less)
    then show ?thesis by (simp add: word_unat_eq_iff unsigned_ucast_eq unsigned_take_bit_eq take_bit_nat_eq_self)
  qed
  show ?thesis using b assms(2) by (cases "bs = []") (auto simp: addBlock_def batchAt_def resetBatch_def narrow)
qed

lemma checkOpen_batchAt:
  assumes "numbersOk B" "l2BlockHash c = []" "blStateRoot c = []"
  shows "checkOpen (batchAt B (bs @ [c])) = (Ret (), batchAt B (bs @ [c]))"
  using assms by (simp add: checkOpen_def batchAt_def numbersOk_def)

lemma updateLatest_batchAt: "updateLatest f (batchAt B (bs @ [c])) = (Ret (), batchAt B (bs @ [f c]))"
  by (simp add: updateLatest_def batchAt_def)

lemma length_txData: "txOk t \<Longrightarrow> length (txData t) = 38 + length (encodedTx t)"
  using isHex_unhex [of 32 "txStateRoot t"] by (simp add: txData_def txOk_def)

lemma length_startData: "blockOk f c b \<Longrightarrow> length (startData number b) = 122"
  using isHex_unhex [of 32 "l1BlockHash b"] isHex_unhex [of 32 "globalExitRoot b"] isHex_unhex [of 20 "coinbase b"]
  by (simp add: startData_def blockOk_def)

lemma length_endData: "blockOk f c b \<Longrightarrow> length (endData b) = 72"
  using isHex_unhex [of 32 "l2BlockHash b"] isHex_unhex [of 32 "blStateRoot b"] by (simp add: endData_def blockOk_def)

lemma l2Tx_sits:
  assumes "sits data p (txData t @ rest)" "txOk t" "numbersOk B" "l2BlockHash c = []" "blStateRoot c = []"
  shows "l2Tx data p (length (txData t)) (batchAt B (bs @ [c])) =
      (Ret (p + length (txData t)), batchAt B (bs @ [c\<lparr>txs := txs c @ [t]\<rparr>]))"
proof -
  have ok: "isHex 32 (txStateRoot t)" "length (encodedTx t) < 2 ^ 32" using assms(2) by (simp_all add: txOk_def)
  have s0: "sits data p ([gasPricePercentage t] @ [if isValid t then 1 else 0] @ unhex (txStateRoot t) @
     beBytes 4 (length (encodedTx t)) @ encodedTx t @ rest)"
    using assms(1) by (simp add: txData_def)
  note s1 = sits_next(1) [OF s0]
  note s2 = sits_next(1) [OF s1]
  note s3 = sits_next(3) [OF s2 ok(1)]
  note s4 = sits_next(2) [OF s3]
  note parse = parse_sits(1) [OF s0] parse_sits(1) [OF s1] hexAt_sits [OF s2 ok(1)] parse_sits(3) [OF s3]
  have mod: "length (encodedTx t) mod 2 ^ 32 = length (encodedTx t)" using ok(2) by simp
  have len: "unat (word_of_nat (length (encodedTx t)) :: u32) = length (encodedTx t)"
    using ok(2) by (simp add: unat_of_nat take_bit_nat_eq_self)
  have room: "\<not> length data \<le> p + 1 + 1 + 32 + 4 + length (encodedTx t) - 1" using sits_length [OF s4] by simp
  have taken: "take (length (encodedTx t)) (drop (p + 1 + 1 + 32 + 4) data) = encodedTx t" by (rule sits_take [OF s4])
  have valid: "((if isValid t then 1 else 0 :: u8) \<noteq> 0) = isValid t" by simp
  have enough: "38 \<le> length (txData t)" using length_txData [OF assms(2)] by simp
  have check: "bindP checkOpen f (batchAt B (bs @ [c])) = f () (batchAt B (bs @ [c]))" for f :: "unit \<Rightarrow> (DataStreamBatch, nat) prog"
    by (rule bindP_retP) (rule checkOpen_batchAt [OF assms(3-5)])
  have update: "bindP (updateLatest f) g (batchAt B (bs @ [c])) = g () (batchAt B (bs @ [f c]))" for f and g :: "unit \<Rightarrow> (DataStreamBatch, nat) prog"
    by (rule bindP_retP) (rule updateLatest_batchAt)
  have tx: "\<lparr>gasPricePercentage = gasPricePercentage t, isValid = isValid t, txStateRoot = txStateRoot t,
      encodedTx = encodedTx t\<rparr> = t" by (cases t) simp
  show ?thesis unfolding l2Tx_def using enough room
    by (simp only: run_ret check parse [unfolded mod] prod.case len taken valid update tx simp_thms)
      (simp add: retP_def length_txData [OF assms(2)])
qed

lemma endBlock_sits:
  assumes "sits data p (endData b @ rest)" "blockOk f ch b" "numbersOk B" "l2BlockHash c = []" "blStateRoot c = []"
    "blockNumber c = blockNumber b"
  shows "endBlock data p 72 (batchAt B (bs @ [c])) =
      (Ret (p + 72), batchAt B (bs @ [c\<lparr>l2BlockHash := l2BlockHash b, blStateRoot := blStateRoot b\<rparr>]))"
proof -
  have ok: "isHex 32 (l2BlockHash b)" "isHex 32 (blStateRoot b)" "unat (blockNumber b) < 2 ^ 32"
    using assms(2) by (simp_all add: blockOk_def)
  have s0: "sits data p (beBytes 8 (unat (blockNumber b)) @ unhex (l2BlockHash b) @ unhex (blStateRoot b) @ rest)"
    using assms(1) by (simp add: endData_def)
  note s1 = sits_next(2) [OF s0]
  note s2 = sits_next(3) [OF s1 ok(1)]
  note parse = parse_sits(4) [OF s0] hexAt_sits [OF s1 ok(1)] hexAt_sits [OF s2 ok(2)]
  have mod: "unat (blockNumber b) mod 2 ^ 32 = unat (blockNumber b)" using ok(3) by simp
  have check: "bindP checkOpen f (batchAt B (bs @ [c])) = f () (batchAt B (bs @ [c]))" for f :: "unit \<Rightarrow> (DataStreamBatch, nat) prog"
    by (rule bindP_retP) (rule checkOpen_batchAt [OF assms(3-5)])
  have update: "bindP (updateLatest f) g (batchAt B (bs @ [d])) = g () (batchAt B (bs @ [f d]))" for f d and g :: "unit \<Rightarrow> (DataStreamBatch, nat) prog"
    by (rule bindP_retP) (rule updateLatest_batchAt)
  have same: "bindP (\<lambda>batch. guardP (blockNumber (last (blocks batch)) = blockNumber b) e batch) g (batchAt B (bs @ [c])) =
      g () (batchAt B (bs @ [c]))" for e and g :: "unit \<Rightarrow> (DataStreamBatch, nat) prog"
    using assms(6) by (intro bindP_retP) (simp add: guardP_def retP_def)
  show ?thesis unfolding endBlock_def
    by (simp only: run_ret check parse [unfolded mod] prod.case nat_of_word same update simp_thms) (simp add: retP_def)
qed

section \<open>The stream of a batch\<close>

type_synonym entry = "nat \<times> bytes"

fun streamBytes :: "nat \<Rightarrow> entry list \<Rightarrow> bytes" where
  "streamBytes number [] = []"
| "streamBytes number ((ty, dat) # es) = entryBytes ty number dat @ streamBytes (number + 1) es"

definition blockEntries :: "u64 \<Rightarrow> DataStreamBlock \<Rightarrow> entry list" where
  "blockEntries number b = (1, startData number b) # map (\<lambda>t. (2, txData t)) (txs b) @ [(3, endData b)]"

definition batchStream :: "DataStreamBatch \<Rightarrow> bytes" where
  "batchStream B = streamBytes 0 (concat (map (blockEntries (batchNumber B)) (blocks B)))"

definition batchOk :: "DataStreamBatch \<Rightarrow> bool" where
  "batchOk B \<longleftrightarrow> (blocks B = [] \<longrightarrow> B = resetBatch) \<and> (blocks B \<noteq> [] \<longrightarrow> numbersOk B) \<and>
     list_all (blockOk (forkId B) (chainId B)) (blocks B) \<and>
     (\<forall>i. Suc i < length (blocks B) \<longrightarrow> blockNumber (blocks B ! Suc i) = blockNumber (blocks B ! i) + 1)"

lemma length_entryBytes: "length (entryBytes ty number dat) = 17 + length dat"
  by (simp add: entryBytes_def)

lemma streamLoop_entry:
  assumes "sits data p (streamBytes number ((ty, dat) # es))" "length dat + 17 < 2 ^ 32" "ty \<in> {1, 2, 3}"
    "\<And>rest. sits data (p + 17) (dat @ rest) \<Longrightarrow>
       entryBody data 2 (word_of_nat ty) (p + 17) (length dat) s = (Ret (p + 17 + length dat), t)"
  shows "streamLoop data p s = streamLoop data (p + 17 + length dat) t"
    "sits data (p + 17 + length dat) (streamBytes (number + 1) es)"
proof -
  have s: "sits data p (entryBytes ty number dat @ streamBytes (number + 1) es)" using assms(1) by simp
  have ty: "ty < 2 ^ 32" using assms(3) by auto
  note entry = streamEntry_sits [OF s assms(2) ty]
  have "streamEntry data p s = (Ret (p + 17 + length dat), t)" unfolding entry(1) by (rule assms(4) [OF entry(2)])
  moreover have "p < length data" using sits_length [OF s] by (simp add: length_entryBytes)
  ultimately show "streamLoop data p s = streamLoop data (p + 17 + length dat) t" by (subst streamLoop.simps) simp
  show "sits data (p + 17 + length dat) (streamBytes (number + 1) es)" by (rule sits_step [OF entry(2)])
qed

lemma entryBody_kind:
  "entryBody data 2 (word_of_nat 1) p n = startBlock data p n" "entryBody data 2 (word_of_nat 2) p n = l2Tx data p n"
  "entryBody data 2 (word_of_nat 3) p n = endBlock data p n"
  by (simp_all add: entryBody_def)

text \<open>The loop runs from one position and batch to another.\<close>

definition runsTo :: "bytes \<Rightarrow> entry list \<Rightarrow> DataStreamBatch \<Rightarrow> entry list \<Rightarrow> DataStreamBatch \<Rightarrow> bool" where
  "runsTo data es s es' t \<longleftrightarrow> (\<forall>p number. sits data p (streamBytes number es) \<longrightarrow>
     (\<exists>p' number'. sits data p' (streamBytes number' es') \<and> streamLoop data p s = streamLoop data p' t))"

lemma runsTo_trans: "runsTo data es s es' t \<Longrightarrow> runsTo data es' t es'' u \<Longrightarrow> runsTo data es s es'' u"
  unfolding runsTo_def by metis

lemma runsTo_entry:
  assumes "length dat + 17 < 2 ^ 32" "ty \<in> {1, 2, 3}"
    "\<And>p rest. sits data p (dat @ rest) \<Longrightarrow> entryBody data 2 (word_of_nat ty) p (length dat) s = (Ret (p + length dat), t)"
  shows "runsTo data ((ty, dat) # es) s es t"
  unfolding runsTo_def using streamLoop_entry [OF _ assms(1,2)] assms(3) by blast

lemma start_runs:
  assumes "numbersOk B" "blockOk (forkId B) (chainId B) b" "bs \<noteq> [] \<longrightarrow> blockNumber b = blockNumber (last bs) + 1"
  shows "runsTo data ((1, startData (batchNumber B) b) # es) (batchAt B bs) es (batchAt B (bs @ [openBlock b]))"
proof (rule runsTo_entry)
  note len = length_startData [OF assms(2)]
  show "length (startData (batchNumber B) b) + 17 < 2 ^ 32" by (simp add: len)
  have add: "bindP (addBlock (batchNumber B) (openBlock b)) g (batchAt B bs) = g () (batchAt B (bs @ [openBlock b]))"
    for g :: "unit \<Rightarrow> (DataStreamBatch, nat) prog"
    by (rule bindP_retP) (rule addBlock_batchAt [OF assms(2,3)])
  fix p rest assume s: "sits data p (startData (batchNumber B) b @ rest)"
  have n: "forkId B \<noteq> 0" "batchNumber B \<noteq> 0" "unat (batchNumber B) < 2 ^ 32" using assms(1) by (simp_all add: numbersOk_def)
  show "entryBody data 2 (word_of_nat 1) p (length (startData (batchNumber B) b)) (batchAt B bs) =
      (Ret (p + length (startData (batchNumber B) b)), batchAt B (bs @ [openBlock b]))"
    unfolding len entryBody_kind startBlock_sits(1) [OF s assms(2) n] add by (simp add: retP_def)
qed simp

lemma txs_run:
  assumes "numbersOk B" "list_all txOk ts" "l2BlockHash c = []" "blStateRoot c = []"
  shows "runsTo data (map (\<lambda>t. (2, txData t)) ts @ es) (batchAt B (bs @ [c])) es (batchAt B (bs @ [c\<lparr>txs := txs c @ ts\<rparr>]))"
  using assms(2-4)
proof (induction ts arbitrary: c)
  case Nil
  then show ?case by (auto simp: runsTo_def)
next
  case (Cons t ts)
  have t: "txOk t" using Cons.prems by simp
  have "runsTo data ((2, txData t) # map (\<lambda>t. (2, txData t)) ts @ es) (batchAt B (bs @ [c]))
      (map (\<lambda>t. (2, txData t)) ts @ es) (batchAt B (bs @ [c\<lparr>txs := txs c @ [t]\<rparr>]))"
  proof (rule runsTo_entry)
    show "length (txData t) + 17 < 2 ^ 32" using t length_txData [OF t] by (simp add: txOk_def)
    fix p rest assume "sits data p (txData t @ rest)"
    then show "entryBody data 2 (word_of_nat 2) p (length (txData t)) (batchAt B (bs @ [c])) =
        (Ret (p + length (txData t)), batchAt B (bs @ [c\<lparr>txs := txs c @ [t]\<rparr>]))"
      unfolding entryBody_kind using l2Tx_sits [OF _ t assms(1) Cons.prems(2,3)] by blast
  qed simp
  moreover have "runsTo data (map (\<lambda>t. (2, txData t)) ts @ es) (batchAt B (bs @ [c\<lparr>txs := txs c @ [t]\<rparr>])) es
      (batchAt B (bs @ [c\<lparr>txs := txs c @ t # ts\<rparr>]))"
    using Cons.IH [of "c\<lparr>txs := txs c @ [t]\<rparr>"] Cons.prems by simp
  ultimately show ?case using runsTo_trans by fastforce
qed

lemma end_runs:
  assumes "numbersOk B" "blockOk f ch b" "l2BlockHash c = []" "blStateRoot c = []" "blockNumber c = blockNumber b"
  shows "runsTo data ((3, endData b) # es) (batchAt B (bs @ [c])) es
    (batchAt B (bs @ [c\<lparr>l2BlockHash := l2BlockHash b, blStateRoot := blStateRoot b\<rparr>]))"
proof (rule runsTo_entry)
  note len = length_endData [OF assms(2)]
  show "length (endData b) + 17 < 2 ^ 32" by (simp add: len)
  fix p rest assume "sits data p (endData b @ rest)"
  then show "entryBody data 2 (word_of_nat 3) p (length (endData b)) (batchAt B (bs @ [c])) =
      (Ret (p + length (endData b)), batchAt B (bs @ [c\<lparr>l2BlockHash := l2BlockHash b, blStateRoot := blStateRoot b\<rparr>]))"
    unfolding entryBody_kind len using endBlock_sits [OF _ assms(2,1,3-5)] by blast
qed simp

lemma block_runs:
  assumes "numbersOk B" "blockOk (forkId B) (chainId B) b" "bs \<noteq> [] \<longrightarrow> blockNumber b = blockNumber (last bs) + 1"
  shows "runsTo data (blockEntries (batchNumber B) b @ es) (batchAt B bs) es (batchAt B (bs @ [b]))"
proof -
  let ?c = "(openBlock b)\<lparr>txs := txs b\<rparr>"
  have t: "list_all txOk (txs b)" using assms(2) by (simp add: blockOk_def)
  note start = start_runs [OF assms, of data "map (\<lambda>t. (2, txData t)) (txs b) @ (3, endData b) # es"]
  have txs: "runsTo data (map (\<lambda>t. (2, txData t)) (txs b) @ (3, endData b) # es) (batchAt B (bs @ [openBlock b]))
      ((3, endData b) # es) (batchAt B (bs @ [?c]))"
    using txs_run [OF assms(1) t, of "openBlock b" data "(3, endData b) # es" bs] by (simp add: openBlock_def)
  have "b = ?c\<lparr>l2BlockHash := l2BlockHash b, blStateRoot := blStateRoot b\<rparr>" by (simp add: openBlock_def)
  then have "runsTo data ((3, endData b) # es) (batchAt B (bs @ [?c])) es (batchAt B (bs @ [b]))"
    using end_runs [OF assms(1,2), of ?c data es bs] by (simp add: openBlock_def)
  with runsTo_trans [OF start txs] show ?thesis by (auto simp: blockEntries_def intro: runsTo_trans)
qed

lemma blocks_run:
  assumes "batchOk B" "k \<le> length (blocks B)"
  shows "runsTo data (concat (map (blockEntries (batchNumber B)) (blocks B))) resetBatch
    (concat (map (blockEntries (batchNumber B)) (drop k (blocks B)))) (batchAt B (take k (blocks B)))"
  using assms(2)
proof (induction k)
  case 0
  then show ?case by (auto simp: runsTo_def batchAt_def)
next
  case (Suc k)
  let ?b = "blocks B ! k"
  have k: "k < length (blocks B)" using Suc.prems by simp
  then have "numbersOk B" "blockOk (forkId B) (chainId B) ?b" using assms(1) by (auto simp: batchOk_def list_all_length)
  moreover have "take k (blocks B) \<noteq> [] \<longrightarrow> blockNumber ?b = blockNumber (last (take k (blocks B))) + 1"
    using assms(1) k by (cases k) (auto simp: batchOk_def last_conv_nth)
  ultimately have "runsTo data (blockEntries (batchNumber B) ?b @ concat (map (blockEntries (batchNumber B)) (drop (Suc k) (blocks B))))
      (batchAt B (take k (blocks B))) (concat (map (blockEntries (batchNumber B)) (drop (Suc k) (blocks B))))
      (batchAt B (take k (blocks B) @ [?b]))" by (rule block_runs)
  then have "runsTo data (concat (map (blockEntries (batchNumber B)) (drop k (blocks B)))) (batchAt B (take k (blocks B)))
      (concat (map (blockEntries (batchNumber B)) (drop (Suc k) (blocks B)))) (batchAt B (take (Suc k) (blocks B)))"
    using k by (simp add: Cons_nth_drop_Suc [symmetric] take_Suc_conv_app_nth)
  then show ?case using Suc.IH k runsTo_trans by (meson less_imp_le_nat)
qed

lemma batchStream_parses:
  assumes "batchOk B"
  shows "dataStream2batch (batchStream B) s = (Ret (), B)"
proof -
  let ?data = "batchStream B"
  have "sits ?data 0 (streamBytes 0 (concat (map (blockEntries (batchNumber B)) (blocks B))))"
    by (simp add: sits_def batchStream_def)
  moreover have "runsTo ?data (concat (map (blockEntries (batchNumber B)) (blocks B))) resetBatch [] (batchAt B (blocks B))"
    using blocks_run [OF assms, of "length (blocks B)" ?data] by simp
  ultimately obtain p where "sits ?data p []" "streamLoop ?data 0 resetBatch = streamLoop ?data p (batchAt B (blocks B))"
    unfolding runsTo_def by (metis streamBytes.simps(1))
  moreover have B: "batchAt B (blocks B) = B" using assms by (auto simp: batchAt_def batchOk_def)
  ultimately have "streamLoop ?data 0 resetBatch = (Ret p, B)"
    by (subst (asm) (2) streamLoop.simps) (simp add: sits_def)
  moreover have "checkClosed B = (Ret (), B)"
  proof (cases "blocks B = []")
    case False
    then have "blockOk (forkId B) (chainId B) (last (blocks B))" "numbersOk B" using assms by (auto simp: batchOk_def list_all_iff)
    moreover have "\<not> isHex 32 []" using isHex_nonempty [of 32 "[]"] by auto
    ultimately show ?thesis using False by (auto simp: checkClosed_def numbersOk_def blockOk_def)
  qed (simp add: checkClosed_def)
  ultimately show ?thesis by (simp add: dataStream2batch_def)
qed

end
