(* ===== verification/Stream_Tx.thy ===== *)
theory Stream_Tx
  imports Stream_Format
begin

text \<open>
  What transcoding makes of a signed transaction, and the data of a batch for the ROM.
\<close>

section \<open>The bytes of a scalar\<close>

lemma beBytes_0: "beBytes n 0 = replicate n 0"
  by (simp add: beBytes_def map_replicate_const)

lemma scalar2ba32_loop_eq:
  assumes "n \<le> length result" "take n result = replicate n 0" "s < 256 ^ n"
  shows "scalar2ba32_loop n result s = Ret (beBytes n s @ drop n result)"
  using assms
proof (induction n arbitrary: result s)
  case (Suc n)
  have n: "n < length result" using Suc.prems(1) by simp
  have update: "result[n := x] = take n result @ x # drop (Suc n) result" for x using n by (simp add: upd_conv_take_nth_drop)
  have zeros: "take n result = replicate n 0"
    using Suc.prems(2) n by (simp add: take_Suc_conv_app_nth replicate_append_same [symmetric])
  have s: "drop_bit 8 s = s div 256" "s div 256 < 256 ^ n"
    using Suc.prems(3) by (simp_all add: drop_bit_eq_div less_mult_imp_div_less mult.commute)
  show ?case
  proof (cases "s div 256 = 0")
    case True
    then show ?thesis by (simp add: s Let_def update zeros beBytes_Suc beBytes_0)
  next
    case False
    have "scalar2ba32_loop n (result[n := word_of_nat s]) (s div 256) =
        Ret (beBytes n (s div 256) @ drop n (result[n := word_of_nat s]))"
      using n zeros s(2) by (intro Suc.IH) (simp_all add: update)
    moreover have "drop n (result[n := word_of_nat s]) = word_of_nat s # drop (Suc n) result"
      using n by (simp add: update)
    ultimately show ?thesis using False by (simp add: s Let_def beBytes_Suc)
  qed
qed (simp add: beBytes_def)

lemma scalar2ba32_eq: "s < 2 ^ 256 \<Longrightarrow> scalar2ba32 s = Ret (beBytes 32 s)"
  using scalar2ba32_loop_eq [of 32 "replicate 32 0" s] by (simp add: scalar2ba32_def)

section \<open>A signed transaction\<close>

text \<open>
  The fields of a transaction are nonce, gas price, gas limit, to, value, data, v, r and s.  With
  v = 35 + 2 * chain id + parity, transcoding replaces v by the chain id and r and s by empty arrays, and
  appends r and s in 32 bytes and 27 + parity.
\<close>

definition romFields :: "u32 \<Rightarrow> bytes list \<Rightarrow> bytes list" where
  "romFields chain fs = fs[6 := chainIdBytes chain, 7 := [], 8 := []]"

definition txSigned :: "u32 \<Rightarrow> bytes list \<Rightarrow> bool" where
  "txSigned chain fs \<longleftrightarrow> length fs = 9 \<and> ba2scalar (fs ! 6) \<in> {35 + 2 * unat chain, 36 + 2 * unat chain} \<and>
     ba2scalar (fs ! 7) < 2 ^ 256 \<and> ba2scalar (fs ! 8) < 2 ^ 256 \<and> rlpFits (romFields chain fs)"

definition romTx :: "u32 \<Rightarrow> bytes list \<Rightarrow> bytes" where
  "romTx chain fs = listBytes (romFields chain fs) @ beBytes 32 (ba2scalar (fs ! 7)) @ beBytes 32 (ba2scalar (fs ! 8)) @
     [word_of_nat (27 + (ba2scalar (fs ! 6) - 35 - 2 * unat chain))]"

lemma chain_of_v:
  fixes chain :: u32
  assumes "v < 2 ^ 64"
  shows "(word_of_nat v - 35) div 2 = (ucast chain :: u64) \<longleftrightarrow> v \<in> {35 + 2 * unat chain, 36 + 2 * unat chain}"
proof -
  have c: "unat chain < 2 ^ 32" using unsigned_less [where w = chain and 'a = nat] by simp
  have u: "unat (ucast chain :: u64) = unat chain"
    using c by (simp add: unsigned_ucast_eq unsigned_take_bit_eq take_bit_nat_eq_self)
  have "unat ((word_of_nat v - 35) div 2 :: u64) = unat (word_of_nat v - 35 :: u64) div 2" by (simp add: unat_div)
  moreover have "unat (word_of_nat v - 35 :: u64) = (if v < 35 then 2 ^ 64 + v - 35 else v - 35)"
    using assms unat_sub_if_size [of "word_of_nat v :: u64" 35] by (simp add: word_size unat_u64)
  ultimately show ?thesis using c assms by (auto simp: word_unat_eq_iff u)
qed

lemma transcodeTx_listBytes:
  assumes "rlpFits fs"
  shows "transcodeTx (listBytes fs) chain out =
    Some (if txSigned chain fs then (Ret (), out @ romTx chain fs) else (Fail ZKR_DATA_STREAM_INVALID_DATA, out))"
proof -
  have d: "decodeList (listBytes fs) [] = Some (True, fs)" using decodeList_listBytes [OF assms, of "[]"] by simp
  show ?thesis
  proof (cases "length fs = 9")
    case False
    then show ?thesis by (simp add: transcodeTx_def d txSigned_def)
  next
    case True
    let ?v = "ba2scalar (fs ! 6)" and ?r = "ba2scalar (fs ! 7)" and ?s = "ba2scalar (fs ! 8)"
    have sizes: "\<forall>x\<in>set (romFields chain fs). length x < 2 ^ 63"
    proof
      fix x assume "x \<in> set (romFields chain fs)"
      then have "x \<in> set fs \<or> x = chainIdBytes chain \<or> x = []"
        using True by (auto simp: romFields_def in_set_conv_nth nth_list_update split: if_splits)
      moreover have "length (chainIdBytes chain) \<le> 4"
        using length_dropWhile_le [of "\<lambda>b. b = 0" "map (\<lambda>i. ucast (drop_bit (8 * i) chain) :: u8) [3, 2, 1, 0]"] by (simp add: chainIdBytes_def)
      moreover have "length y < 2 ^ 24" if "y \<in> set fs" for y using assms that by (simp add: rlpFits_def)
      ultimately show "length x < 2 ^ 63" by force
    qed
    have enc: "encodeList (fs[6 := chainIdBytes chain, 7 := [], 8 := []]) out =
        (if rlpFits (romFields chain fs) then Some (out @ listBytes (romFields chain fs)) else None)"
      using encodeList_eq [OF _ sizes, of out] True by (simp add: romFields_def)
    have big: "?v > mask 64 \<longleftrightarrow> \<not> ?v < 2 ^ 64" "?r > mask 256 \<longleftrightarrow> \<not> ?r < 2 ^ 256" "?s > mask 256 \<longleftrightarrow> \<not> ?s < 2 ^ 256"
      by (auto simp: mask_eq_exp_minus_1)
    define w :: u64 where "w = word_of_nat ?v"
    note run = transcodeTx_def d transcodeFields_def enc big w_def [symmetric] Let_def
    have chain: "(w - 35) div 2 = ucast chain \<longleftrightarrow> ?v \<in> {35 + 2 * unat chain, 36 + 2 * unat chain}" if "?v < 2 ^ 64"
      unfolding w_def by (rule chain_of_v [OF that])
    have small: "?v < 2 ^ 64" if "?v \<in> {35 + 2 * unat chain, 36 + 2 * unat chain}"
      using that unsigned_less [where w = chain and 'a = nat] by auto
    show ?thesis
    proof (cases "txSigned chain fs")
      case False
      then show ?thesis using True chain by (auto simp: run txSigned_def)
    next
      case T: True
      then have v: "?v \<in> {35 + 2 * unat chain, 36 + 2 * unat chain}" "?r < 2 ^ 256" "?s < 2 ^ 256" "rlpFits (romFields chain fs)"
        by (auto simp: txSigned_def)
      have c: "(w - 35) div 2 = ucast chain" using chain [OF small [OF v(1)]] v(1) by simp
      have last: "ucast (w - ucast chain * 2 - 8) = (27 + word_of_nat (?v - (35 + 2 * unat chain)) :: u8)"
      proof -
        define par where "par = ?v - (35 + 2 * unat chain)"
        have "(ucast chain :: u64) = word_of_nat (unat chain)" by simp
        moreover have "w = word_of_nat (35 + 2 * unat chain + par)" using v(1) by (auto simp: w_def par_def)
        ultimately have "w - ucast chain * 2 - 8 = word_of_nat (27 + par)" by simp
        then show ?thesis unfolding par_def [symmetric] by (simp only: ucast_u8) simp
      qed
      show ?thesis using True T small [OF v(1)] v
        by (simp add: run c last romTx_def bindP_def liftP_def scalar2ba32_eq)
    qed
  qed
qed

section \<open>The data of a batch\<close>

text \<open>The fields of every transaction of a batch are given by \<open>F\<close>.\<close>

definition blockData :: "(bytes \<Rightarrow> bytes list) \<Rightarrow> u32 \<Rightarrow> DataStreamBlock \<Rightarrow> bytes" where
  "blockData F chain b = [0x0b] @ beBytes 4 (unat (deltaTimestamp b)) @ beBytes 4 (unat (l1InfoTreeIndex b)) @
     concat (map (\<lambda>t. romTx chain (F (encodedTx t)) @ [gasPricePercentage t]) (txs b))"

definition txsSigned :: "(bytes \<Rightarrow> bytes list) \<Rightarrow> u32 \<Rightarrow> DataStreamBlock \<Rightarrow> bool" where
  "txsSigned F chain b \<longleftrightarrow> (\<forall>t\<in>set (txs b). encodedTx t = listBytes (F (encodedTx t)) \<and> rlpFits (F (encodedTx t)) \<and>
     txSigned chain (F (encodedTx t)))"

lemma EncodeBigEndianU32_eq: "EncodeBigEndianU32 v = beBytes 4 (unat v)"
proof -
  have "ucast (drop_bit (8 * i) v) = (word_of_nat (unat v div 256 ^ i) :: u8)" for i
  proof -
    have "unat (drop_bit (8 * i) v) = unat v div 256 ^ i"
      unfolding unat_drop_bit_eq by (simp add: drop_bit_eq_div power_mult)
    then have "drop_bit (8 * i) v = word_of_nat (unat v div 256 ^ i)" by (metis nat_of_word)
    moreover have "ucast (word_of_nat n :: u32) = (word_of_nat n :: u8)" for n
      by (simp add: word_unat_eq_iff unsigned_ucast_eq unsigned_take_bit_eq unat_of_nat del: take_bit_of_nat)
        (simp add: take_bit_eq_mod mod_mod_cancel)
    ultimately show ?thesis by (simp only:)
  qed
  then show ?thesis by (simp add: EncodeBigEndianU32_def beBytes_def upt_rec)
qed

lemma transcodeTxs_eq:
  assumes "\<forall>t\<in>set ts. encodedTx t = listBytes (F (encodedTx t)) \<and> rlpFits (F (encodedTx t)) \<and> txSigned chain (F (encodedTx t))"
  shows "transcodeTxs ts chain out =
    Some (Ret (), out @ concat (map (\<lambda>t. romTx chain (F (encodedTx t)) @ [gasPricePercentage t]) ts))"
  using assms
proof (induction ts arbitrary: out)
  case (Cons t ts)
  have e: "encodedTx t = listBytes (F (encodedTx t))" "rlpFits (F (encodedTx t))" "txSigned chain (F (encodedTx t))"
    using Cons.prems by auto
  have "transcodeTx (encodedTx t) chain [] = Some (Ret (), romTx chain (F (encodedTx t)))"
    using transcodeTx_listBytes [OF e(2), of chain "[]"] e(1,3) by simp
  then show ?case using Cons.IH Cons.prems by simp
qed simp

lemma blocksL2Data_eq:
  assumes "\<forall>b\<in>set bs. txsSigned F chain b"
  shows "blocksL2Data bs chain out = Some (Ret (), out @ concat (map (blockData F chain) bs))"
  using assms
proof (induction bs arbitrary: out)
  case (Cons b bs)
  have "\<forall>t\<in>set (txs b). encodedTx t = listBytes (F (encodedTx t)) \<and> rlpFits (F (encodedTx t)) \<and> txSigned chain (F (encodedTx t))"
    using Cons.prems by (simp add: txsSigned_def)
  from transcodeTxs_eq [OF this] show ?case using Cons
    by (simp add: blockData_def EncodeBigEndianU32_eq)
qed simp

end
