(* ===== verification/Stream_Safe.thy ===== *)
theory Stream_Safe
  imports Data_Stream
begin

text \<open>
  The parser on arbitrary input: it never reads beyond the stream, and a batch it accepts is consistent.
\<close>

section \<open>Outcomes\<close>

text \<open>A program that returns or fails with the error of the parser, and keeps a property of the batch.\<close>

definition parses :: "(DataStreamBatch \<Rightarrow> bool) \<Rightarrow> ('a \<Rightarrow> bool) \<Rightarrow> (DataStreamBatch, 'a) prog \<Rightarrow> DataStreamBatch \<Rightarrow> bool" where
  "parses I Q m s \<longleftrightarrow> (case m s of
     (Ret x, t) \<Rightarrow> I t \<and> Q x | (Fail e, t) \<Rightarrow> e = ZKR_DATA_STREAM_INVALID_DATA | _ \<Rightarrow> False)"

named_theorems parses_intros \<open>rules for programs that parse\<close>

lemma parses_bind:
  "parses I Q m s \<Longrightarrow> (\<And>x t. I t \<Longrightarrow> Q x \<Longrightarrow> m s = (Ret x, t) \<Longrightarrow> parses I R (f x) t) \<Longrightarrow> parses I R (bindP m f) s"
proof -
  assume m: "parses I Q m s" and f: "\<And>x t. I t \<Longrightarrow> Q x \<Longrightarrow> m s = (Ret x, t) \<Longrightarrow> parses I R (f x) t"
  obtain r t where r: "m s = (r, t)" by (cases "m s")
  show "parses I R (bindP m f) s"
  proof (cases r)
    case (Ret x)
    then have "parses I R (f x) t" using m f r by (simp add: parses_def)
    then show ?thesis using r Ret by (simp add: parses_def)
  qed (use m r in \<open>auto simp: parses_def bindP_def\<close>)
qed

section \<open>Reading within the stream\<close>

lemma byteAt_Ret: "p < length data \<Longrightarrow> byteAt data p = Ret (data ! p)"
  by (simp add: byteAt_def)

lemma parse_Ret:
  "p < length data \<Longrightarrow> \<exists>x. ParseU8 data p = Ret x \<and> snd x = p + 1"
  "p + 2 \<le> length data \<Longrightarrow> \<exists>x. ParseBigEndianU16 data p = Ret x \<and> snd x = p + 2"
  "p + 4 \<le> length data \<Longrightarrow> \<exists>x. ParseBigEndianU32 data p = Ret x \<and> snd x = p + 4"
  "p + 8 \<le> length data \<Longrightarrow> \<exists>x. ParseBigEndianU64 data p = Ret x \<and> snd x = p + 8"
  "p + n \<le> length data \<Longrightarrow> \<exists>x. hexAt data p n = Ret x \<and> snd x = p + n"
  by (simp_all add: ParseU8_def ParseBigEndianU16_def ParseBigEndianU32_def ParseBigEndianU64_def hexAt_def
      byteAt_Ret ba2string_eq)

text \<open>One step of a program: a parsed field, a check, the value returned.\<close>

lemma parses_field:
  assumes "\<exists>x. m = Ret x \<and> snd x = q" "\<And>x. parses I R (f (x, q)) s"
  shows "parses I R (bindP (liftP m) f) s"
proof -
  obtain x where "m = Ret (x, q)" using assms(1) by (metis prod.collapse)
  then show ?thesis using assms(2) [of x] by (simp add: bindP_def liftP_def parses_def)
qed

lemmas parses_fields [parses_intros] = parse_Ret [THEN parses_field]

lemma parses_check [parses_intros]:
  "(b \<Longrightarrow> parses I R (f ()) s) \<Longrightarrow> parses I R (bindP (guardP b ZKR_DATA_STREAM_INVALID_DATA) f) s"
  by (simp add: bindP_def guardP_def retP_def failP_def parses_def)

lemma parses_return [parses_intros]: "I s \<Longrightarrow> Q x \<Longrightarrow> parses I Q (retP x) s"
  by (simp add: parses_def retP_def)

lemma parses_fail [parses_intros]: "parses I Q (failP ZKR_DATA_STREAM_INVALID_DATA) s"
  by (simp add: parses_def failP_def)

section \<open>What an accepted batch satisfies\<close>

definition blockFits :: "DataStreamBatch \<Rightarrow> DataStreamBlock \<Rightarrow> bool" where
  "blockFits b bl \<longleftrightarrow> blockNumber bl \<noteq> 0 \<and> blForkId bl = ucast (forkId b) \<and> blChainId bl = chainId b"

definition numbered :: "DataStreamBlock list \<Rightarrow> bool" where
  "numbered bs \<longleftrightarrow> (\<forall>i. Suc i < length bs \<longrightarrow> blockNumber (bs ! Suc i) = blockNumber (bs ! i) + 1)"

definition batchInv :: "DataStreamBatch \<Rightarrow> bool" where
  "batchInv b \<longleftrightarrow> (blocks b \<noteq> [] \<longrightarrow> batchNumber b \<noteq> 0 \<and> forkId b \<noteq> 0) \<and>
     list_all (blockFits b) (blocks b) \<and> numbered (blocks b)"

lemma numbered_snoc:
  assumes "numbered bs" "bs \<noteq> [] \<longrightarrow> blockNumber b = blockNumber (last bs) + 1"
  shows "numbered (bs @ [b])"
  unfolding numbered_def
proof (intro allI impI)
  fix i assume "Suc i < length (bs @ [b])"
  then consider "Suc i < length bs" | "Suc i = length bs" by fastforce
  then show "blockNumber ((bs @ [b]) ! Suc i) = blockNumber ((bs @ [b]) ! i) + 1"
  proof cases
    case 1
    then show ?thesis using assms(1) by (simp add: numbered_def nth_append)
  next
    case 2
    then have "bs \<noteq> []" by auto
    moreover from last_conv_nth [OF this] 2 have "last bs = bs ! i" by (metis diff_Suc_1)
    ultimately have "bs \<noteq> []" "last bs = bs ! i" by simp_all
    then show ?thesis using assms(2) 2 by (simp add: nth_append)
  qed
qed

lemma numbered_update:
  assumes "numbered bs" "bs \<noteq> []" "blockNumber c = blockNumber (last bs)"
  shows "numbered (butlast bs @ [c])"
proof -
  obtain as a where bs: "bs = as @ [a]" using assms(2) by (cases bs rule: rev_cases) auto
  then have "numbered as"
    using assms(1) unfolding numbered_def by (auto simp: nth_append dest!: spec split: if_splits)
  moreover have "blockNumber a = blockNumber (last as) + 1" if "as \<noteq> []"
    using assms(1) that unfolding numbered_def bs
    by (auto simp: last_conv_nth nth_append dest!: spec [of _ "length as - 1"])
  ultimately show ?thesis using assms(3) bs numbered_snoc [of as c] by simp
qed

lemma parses_addBlock:
  assumes "batchInv s" "number \<noteq> 0" "blockNumber b \<noteq> 0" "blForkId b = ucast f" "f \<noteq> (0 :: u16)"
  shows "parses batchInv (\<lambda>_. True) (addBlock number b) s"
proof -
  have narrow: "ucast (ucast f :: u64) = f" 
  proof -
    have "unat f < 2 ^ LENGTH(16)" by (rule unsigned_less)
    then show ?thesis by (simp add: word_unat_eq_iff unsigned_ucast_eq unsigned_take_bit_eq take_bit_nat_eq_self)
  qed
  show ?thesis using assms numbered_snoc [of "blocks s" b]
    by (auto simp: parses_def addBlock_def batchInv_def blockFits_def narrow numbered_def list_all_iff)
qed

lemma parses_checkOpen: "batchInv s \<Longrightarrow> parses batchInv (\<lambda>_. True) checkOpen s"
  by (simp add: parses_def checkOpen_def)

lemma parses_updateLatest:
  assumes "batchInv s" "blocks s \<noteq> []" "\<And>b. blockNumber (f b) = blockNumber b" "\<And>b. blForkId (f b) = blForkId b"
    "\<And>b. blChainId (f b) = blChainId b"
  shows "parses batchInv (\<lambda>_. True) (updateLatest f) s"
proof -
  have "list_all (blockFits s) (butlast (blocks s) @ [f (last (blocks s))])"
    using assms by (auto simp: batchInv_def list_all_iff blockFits_def dest: in_set_butlastD)
  moreover have "numbered (butlast (blocks s) @ [f (last (blocks s))])"
    using assms by (intro numbered_update) (auto simp: batchInv_def)
  ultimately show ?thesis using assms(1,2) by (simp add: parses_def updateLatest_def batchInv_def blockFits_def [abs_def])
qed

section \<open>The parser\<close>

lemma parses_parseBlock:
  assumes "batchInv s" "p + 114 \<le> length data"
  shows "parses batchInv (\<lambda>(b, q). blockNumber b \<noteq> 0 \<and> (\<exists>f. f \<noteq> (0 :: u16) \<and> blForkId b = ucast f)) (parseBlock data p) s"
proof -
  have f: "f \<noteq> 0" if "ucast f \<noteq> (0 :: u64)" for f :: u16 using that by auto
  show ?thesis unfolding parseBlock_def using assms by (auto intro!: parses_intros) (use f in blast)
qed

lemma parses_startBlock:
  assumes "batchInv s" "p + n \<le> length data"
  shows "parses batchInv (\<lambda>_. True) (startBlock data p n) s"
  unfolding startBlock_def
proof (rule parses_check, rule parses_fields(4), goal_cases)
  case (2 x)
  then have room: "p + 8 + 114 \<le> length data" using assms(2) by simp
  show ?case unfolding prod.case
    by (rule parses_check, rule parses_bind [OF parses_parseBlock [OF assms(1) room]])
      (auto intro!: parses_bind [OF parses_addBlock] parses_intros)
qed (use assms in simp)

lemma parses_checkOpen': "batchInv s \<Longrightarrow> (blocks s \<noteq> [] \<Longrightarrow> parses batchInv R (f ()) s) \<Longrightarrow> parses batchInv R (bindP checkOpen f) s"
  by (simp add: parses_def checkOpen_def bindP_def)

lemma parses_l2Tx:
  assumes "batchInv s" "p + n \<le> length data"
  shows "parses batchInv (\<lambda>_. True) (l2Tx data p n) s"
  unfolding l2Tx_def using assms
  by (auto intro!: parses_checkOpen' parses_intros parses_bind [OF parses_updateLatest])

lemma parses_checkState:
  "(b s \<Longrightarrow> parses I R (f ()) s) \<Longrightarrow> parses I R (bindP (\<lambda>t. guardP (b t) ZKR_DATA_STREAM_INVALID_DATA t) f) s"
  by (simp add: bindP_def guardP_def retP_def failP_def parses_def)

lemma parses_updateOpen:
  assumes "batchInv s" "blocks s \<noteq> []" "\<And>b. blockNumber (f b) = blockNumber b" "\<And>b. blForkId (f b) = blForkId b"
    "\<And>b. blChainId (f b) = blChainId b" "\<And>t. batchInv t \<Longrightarrow> blocks t \<noteq> [] \<Longrightarrow> parses batchInv R (g ()) t"
  shows "parses batchInv R (bindP (updateLatest f) g) s"
proof (rule parses_bind [OF parses_updateLatest [OF assms(1-5)]])
  fix x t assume "batchInv t" "updateLatest f s = (Ret x, t)"
  then show "parses batchInv R (g x) t" using assms(6) [of t] by (auto simp: updateLatest_def)
qed

lemma parses_endBlock:
  assumes "batchInv s" "p + n \<le> length data"
  shows "parses batchInv (\<lambda>_. True) (endBlock data p n) s"
  unfolding endBlock_def using assms
  by (auto intro!: parses_checkOpen' parses_checkState parses_updateOpen parses_intros)

lemma parses_entry:
  assumes "batchInv s" "p < length data"
  shows "parses batchInv (\<lambda>_. True) (streamEntry data p) s"
proof -
  have body: "parses batchInv (\<lambda>_. True) (entryBody data ty et q n) s" if "q + n \<le> length data" for ty et q n
    using assms(1) that unfolding entryBody_def
    by (auto intro!: parses_intros parses_startBlock parses_l2Tx parses_endBlock)
  show ?thesis unfolding streamEntry_def using assms(2) by (auto intro!: parses_intros body)
qed

lemma parses_loop:
  assumes "batchInv s"
  shows "parses batchInv (\<lambda>_. True) (streamLoop data p) s"
  using assms
proof (induction data p s rule: streamLoop.induct)
  case (1 data p s)
  show ?case
  proof (cases "p < length data")
    case True
    have e: "parses batchInv (\<lambda>_. True) (streamEntry data p) s" by (rule parses_entry [OF 1(2) True])
    obtain r t where r: "streamEntry data p s = (r, t)" by (cases "streamEntry data p s")
    show ?thesis
    proof (cases r)
      case (Ret q)
      then have "parses batchInv (\<lambda>_. True) (streamLoop data q) t" using 1(1) [OF True] e r by (simp add: parses_def)
      then show ?thesis using r Ret True by (simp add: parses_def streamLoop.simps [of data p])
    qed (use e r True in \<open>auto simp: parses_def streamLoop.simps [of data p]\<close>)
  next
    case False
    then show ?thesis using 1(2) by (simp add: parses_def streamLoop.simps [of data p])
  qed
qed

definition batchSound :: "DataStreamBatch \<Rightarrow> bool" where
  "batchSound b \<longleftrightarrow> batchInv b \<and> (blocks b \<noteq> [] \<longrightarrow> l2BlockHash (last (blocks b)) \<noteq> [] \<and> blStateRoot (last (blocks b)) \<noteq> [])"

lemma parses_stream: "parses batchSound (\<lambda>_. True) (dataStream2batch data) s"
proof -
  have "batchInv resetBatch" by (simp add: batchInv_def resetBatch_def numbered_def)
  then have loop: "parses batchInv (\<lambda>_. True) (streamLoop data 0) resetBatch" by (rule parses_loop)
  have closed: "parses batchSound (\<lambda>_. True) checkClosed t" if "batchInv t" for t
    using that by (simp add: parses_def checkClosed_def batchSound_def)
  obtain r t where r: "streamLoop data 0 resetBatch = (r, t)" by (cases "streamLoop data 0 resetBatch")
  show ?thesis
  proof (cases r)
    case (Ret q)
    then show ?thesis using loop r closed by (simp add: parses_def dataStream2batch_def bindP_def)
  qed (use loop r in \<open>auto simp: parses_def dataStream2batch_def bindP_def\<close>)
qed

end
