(* ===== verification/Stream_Props.thy ===== *)
theory Stream_Props
  imports Stream_Tx Stream_Safe
begin

text \<open>
  The properties of the recursive length prefixes and of the data stream, each on a concrete input.
\<close>

section \<open>Recursive length prefixes\<close>

text \<open>C20: decodeList reads back what encodeList writes, whatever the lengths of the arrays (one byte below 0x80,
  up to 55 bytes, lengths of one to three bytes), after what its output already has; encodeList fails exactly when
  an array or the list has 2^24 bytes or more.\<close>
theorem rlp_roundtrip:
  assumes "length xs < 2 ^ 32" "\<forall>x\<in>set xs. length x < 2 ^ 63"
  shows "if rlpFits xs then \<exists>s. encodeList xs before = Some (before @ s) \<and> decodeList s out = Some (True, out @ xs)
    else encodeList xs before = None"
  using encodeList_eq [OF assms] decodeList_listBytes by simp

lemma rlp_roundtrip_witness:
  "let xs = [[], [0x7f], [0x80], [1, 2, 3]] in
     rlpFits xs \<and> (\<exists>s. encodeList xs [] = Some s \<and> decodeList s [] = Some (True, xs))"
proof -
  have fits: "rlpFits [[], [0x7f], [0x80], [1, 2, 3]]" by (simp add: rlpFits_def baBytes_def header_def)
  show ?thesis using rlp_roundtrip [of "[[], [0x7f], [0x80], [1, 2, 3]]" "[]" "[]"] fits by simp
qed

text \<open>C21: decodeList returns on every input in which no byte is the prefix of a length of eight bytes (0xbf and
  0xff): every item then ends after its start.  With such a prefix the position can wrap around and the loop not
  end, as on the input \<open>endless\<close>.\<close>
theorem decodeList_returns:
  assumes "length input < 2 ^ 63" "\<forall>b\<in>set input. b \<notin> {0xbf, 0xff}"
  shows "(\<exists>ok fs. decodeList input out = Some (ok, fs)) \<and> decodeList endless [] = None"
  using decodeList_returns_lemma [OF assms, of out] decodeList_endless by auto

lemma decodeList_returns_witness:
  "(\<exists>ok fs. decodeList [0xc3, 0xb8, 1, 5] [] = Some (ok, fs)) \<and> decodeList endless [] = None"
  by (rule decodeList_returns) simp_all

section \<open>The data stream\<close>

lemmas example_tx = rlpFits_def baBytes_def header_def txSigned_def romFields_def chainIdBytes_def ba2scalar_def

text \<open>C19: the stream of a batch, in the format the comments give (start, transactions and end of every block, all
  integers with the most significant byte first), parses into that batch, for every batch whose blocks agree on
  fork and chain and are numbered one after the other, and whose numbers are less than 2^32, the bits of a 64-bit
  integer that ParseBigEndianU64 keeps.\<close>
theorem dataStream2batch_reads:
  assumes "batchOk B"
  shows "dataStream2batch (batchStream B) s = (Ret (), B)"
  by (rule batchStream_parses [OF assms])

text \<open>C12: on any input the parser returns, either with success or with ZKR_DATA_STREAM_INVALID_DATA: it never
  reads beyond the stream.  When it succeeds, every block has the fork and the chain of the batch, a number other
  than zero and one more than the block before it, the last block is closed, and, if there is a block at all, the
  batch number and the fork are not zero (a stream without a block, such as an empty one, succeeds with both zero).\<close>
theorem dataStream2batch_sound:
  "case dataStream2batch data s of
     (Ret _, b) \<Rightarrow> batchSound b
   | (Fail e, b) \<Rightarrow> e = ZKR_DATA_STREAM_INVALID_DATA
   | _ \<Rightarrow> False"
  using parses_stream [of data s] unfolding parses_def by (simp only: simp_thms)

text \<open>C18: transcodeTx turns an RLP list of nine fields into the encoding of the ROM exactly when its v is 35 or 36
  plus twice the chain id of the batch, r and s have at most 256 bits and the new list fits: the list with the chain
  id for v and empty r and s, then r and s in 32 bytes each and 27 or 28.  Otherwise it fails and its output keeps
  what it had.\<close>
theorem transcodeTx_signed:
  assumes "rlpFits fs"
  shows "transcodeTx (listBytes fs) chain out =
    Some (if txSigned chain fs then (Ret (), out @ romTx chain fs) else (Fail ZKR_DATA_STREAM_INVALID_DATA, out))"
  by (rule transcodeTx_listBytes [OF assms])

lemma transcodeTx_signed_witness:
  "let fs = [[1], [2], [3], [4], [5], [], [38], [9], [0]] in
     transcodeTx (listBytes fs) 1 [] = Some (Ret (), romTx 1 fs) \<and>
     transcodeTx (listBytes fs) 2 [] = Some (Fail ZKR_DATA_STREAM_INVALID_DATA, [])"
proof -
  let ?fs = "[[1], [2], [3], [4], [5], [], [38], [9], [0]] :: bytes list"
  have "rlpFits ?fs" "txSigned 1 ?fs" "\<not> txSigned 2 ?fs"
    by (simp_all add: example_tx)
  then show ?thesis using transcodeTx_signed [of ?fs 1 "[]"] transcodeTx_signed [of ?fs 2 "[]"] by simp
qed

text \<open>C11: from a stream to the data of the ROM: the batch parsed from the stream of a batch of signed transactions
  gives, block after block, 0x0b, the difference of time stamps and the index of the L1 info tree in four bytes, and
  every transaction transcoded and followed by its gas price percentage.\<close>
theorem stream_to_l2Data:
  assumes "batchOk B" "\<forall>b\<in>set (blocks B). txsSigned F (chainId B) b"
  shows "case dataStream2batch (batchStream B) s of
      (Ret _, b) \<Rightarrow> dataStreamBatch2batchL2Data b = Some (Ret (), concat (map (blockData F (chainId B)) (blocks B)))
    | _ \<Rightarrow> False"
  using batchStream_parses [OF assms(1), of s] blocksL2Data_eq [OF assms(2), of "[]"]
  by (simp add: dataStreamBatch2batchL2Data_def)

text \<open>A batch of one block and one transaction.\<close>

definition exFields :: "bytes list" where
  "exFields = [[1], [2], [3], [4], [5], [], [38], [9], [0]]"

definition exBatch :: DataStreamBatch where
  "exBatch = \<lparr>batchNumber = 7, blocks = [
     \<lparr>blockNumber = 5, timestamp = 1000, deltaTimestamp = 12, l1InfoTreeIndex = 1, l1BlockHash = replicate 64 CHR ''7'',
      globalExitRoot = replicate 64 CHR ''7'', coinbase = replicate 40 CHR ''a'', blForkId = 9,
      l2BlockHash = replicate 64 CHR ''7'', blStateRoot = replicate 64 CHR ''7'', blChainId = 1,
      txs = [\<lparr>gasPricePercentage = 255, isValid = True, txStateRoot = replicate 64 CHR ''7'',
              encodedTx = listBytes exFields\<rparr>]\<rparr>], forkId = 9, chainId = 1\<rparr>"

lemma exBatch_ok: "batchOk exBatch"
proof -
  have hex: "isHex 32 (replicate 64 CHR ''7'')" "isHex 20 (replicate 40 CHR ''a'')"
    by code_simp+
  have "length (listBytes exFields) < 100"
    by (simp add: listBytes_def exFields_def baBytes_def header_def)
  then show ?thesis by (simp add: batchOk_def exBatch_def numbersOk_def blockOk_def txOk_def hex)
qed

lemma dataStream2batch_reads_witness:
  "dataStream2batch (batchStream exBatch) resetBatch = (Ret (), exBatch) \<and> length (blocks exBatch) = 1"
  using dataStream2batch_reads [OF exBatch_ok] by (simp add: exBatch_def)

lemma stream_to_l2Data_witness:
  "case dataStream2batch (batchStream exBatch) resetBatch of
      (Ret _, b) \<Rightarrow> dataStreamBatch2batchL2Data b = Some (Ret (), concat (map (blockData (\<lambda>_. exFields) 1) (blocks exBatch)))
    | _ \<Rightarrow> False"
proof -
  have "rlpFits exFields" "txSigned 1 exFields" by (simp_all add: example_tx exFields_def)
  then have "\<forall>b\<in>set (blocks exBatch). txsSigned (\<lambda>_. exFields) (chainId exBatch) b"
    by (simp add: exBatch_def txsSigned_def)
  moreover have "chainId exBatch = 1" by (simp add: exBatch_def)
  ultimately show ?thesis using stream_to_l2Data [OF exBatch_ok, of "\<lambda>_. exFields" resetBatch] by (simp only:)
qed

end
