(* ===== verification/Gate_State.thy ===== *)
theory Gate_State
  imports Scalar_Bytes
begin

text \<open>
  The gates a circuit is made of (src/src/sm/gate): pins, gates, the state of a circuit under
  construction with its operations (gate_state.cpp), and words of 32 and 64 bits whose bits are pins
  (gate_u32.cpp, gate_u64.cpp).  The circuits of SHA-256, Keccak-f and BLAKE2b are written with them
  (src/tools/sm).  The array of gates is a function of the reference; its size is \<open>maxRefs\<close>, and
  \<open>OP\<close> checks its references against it.  References and counters are natural numbers: they stay
  below \<open>maxRefs\<close>.  The operations that move input and output bits index the array without a check:
  out of range they are undefined (\<open>inArray\<close>).  A \<open>zkassert\<close>, which a release build leaves out, stops the process here.
\<close>

section \<open>Pins and gates\<close>

datatype PinId = pin_a | pin_b | pin_r

datatype PinSource = external | wired | gated

datatype GateOperation = gop_unknown | gop_xor | gop_andp | gop_or | gop_and | gop_ch | gop_maj | gop_add

record Pin =
  pinSource :: PinSource
  wiredRef :: nat
  wiredPinId :: PinId
  fanOut :: nat
  pinBit :: u8
  connectionsToInputA :: "nat list"
  connectionsToInputB :: "nat list"

definition pinReset :: "PinId \<Rightarrow> Pin" where
  "pinReset p = \<lparr>pinSource = (case p of pin_a \<Rightarrow> external | pin_b \<Rightarrow> external | pin_r \<Rightarrow> gated),
     wiredRef = 0, wiredPinId = pin_r, fanOut = 0, pinBit = 0,
     connectionsToInputA = [], connectionsToInputB = []\<rparr>"

record Gate =
  gateOp :: GateOperation
  gatePin :: "PinId \<Rightarrow> Pin"

definition gateReset :: Gate where
  "gateReset = \<lparr>gateOp = gop_xor, gatePin = (\<lambda>p. case p of
     pin_a \<Rightarrow> (pinReset pin_a)\<lparr>pinSource := external, pinBit := 0\<rparr>
   | pin_b \<Rightarrow> (pinReset pin_b)\<lparr>pinSource := external, pinBit := 0\<rparr>
   | pin_r \<Rightarrow> (pinReset pin_r)\<lparr>pinSource := gated, pinBit := 0 XOR 0\<rparr>)\<rparr>"

section \<open>The configuration and the state of a circuit\<close>

record GateConfig =
  zeroRef :: nat
  slotSize :: nat
  maxRefs :: nat
  firstNextRef :: nat
  sinRef0 :: nat
  sinRefNumber :: nat
  sinRefDistance :: nat
  soutRef0 :: nat
  soutRefNumber :: nat
  soutRefDistance :: nat
  polLength :: nat

definition relRef2AbsRef :: "GateConfig \<Rightarrow> nat \<Rightarrow> nat \<Rightarrow> nat" where
  "relRef2AbsRef c r slot = (if r = zeroRef c then zeroRef c else slot * slotSize c + r)"

text \<open>The references of the input and of the output bits.\<close>

definition sinRef :: "GateConfig \<Rightarrow> nat \<Rightarrow> nat" where
  "sinRef c i = sinRef0 c + i * sinRefDistance c"

definition soutRef :: "GateConfig \<Rightarrow> nat \<Rightarrow> nat" where
  "soutRef c i = soutRef0 c + i * soutRefDistance c"

text \<open>\<open>program\<close> is a vector of pointers to gates, given by their references.\<close>

record GateState =
  gateConfig :: GateConfig
  nextRef :: nat
  SinRefs :: "nat list"
  SoutRefs :: "nat list"
  program :: "nat list"
  gate :: "nat \<Rightarrow> Gate"
  xors :: nat
  ors :: nat
  andps :: nat
  ands :: nat

type_synonym GateBit = "nat \<times> PinId"

definition pinAt :: "GateState \<Rightarrow> GateBit \<Rightarrow> Pin" where
  "pinAt S b = gatePin (gate S (fst b)) (snd b)"

definition bitAt :: "GateState \<Rightarrow> GateBit \<Rightarrow> u8" where
  "bitAt S b = pinBit (pinAt S b)"

definition setPin :: "GateBit \<Rightarrow> (Pin \<Rightarrow> Pin) \<Rightarrow> GateState \<Rightarrow> GateState" where
  "setPin b f S = S\<lparr>gate := (gate S)(fst b := (gate S (fst b))
     \<lparr>gatePin := (gatePin (gate S (fst b)))(snd b := f (pinAt S b))\<rparr>)\<rparr>"

definition resetBitsAndCounters :: "GateState \<Rightarrow> GateState" where
  "resetBitsAndCounters S =
     (let c = gateConfig S; zero = gateReset
      in S\<lparr>gate := (\<lambda>_. gateReset)(zeroRef c := zero\<lparr>gateOp := gop_xor, gatePin := (gatePin zero)
             (pin_a := (gatePin zero pin_a)\<lparr>pinBit := 0\<rparr>,
              pin_b := (gatePin zero pin_b)\<lparr>pinBit := 1\<rparr>,
              pin_r := (gatePin zero pin_r)\<lparr>pinBit := 1\<rparr>)\<rparr>),
           SinRefs := map (sinRef c) [0..<sinRefNumber c],
           SoutRefs := map (soutRef c) [0..<soutRefNumber c],
           nextRef := firstNextRef c, xors := 0, ors := 0, andps := 0, ands := 0\<rparr>)"

definition newGateState :: "GateConfig \<Rightarrow> GateState" where
  "newGateState c = resetBitsAndCounters \<lparr>gateConfig = c, nextRef = 0, SinRefs = [], SoutRefs = [],
     program = [], gate = (\<lambda>_. gateReset), xors = 0, ors = 0, andps = 0, ands = 0\<rparr>"

section \<open>Free references\<close>

text \<open>
  The loop of \<open>getFreeRef\<close> goes on while the next reference is the zero gate, an input or an output;
  it ends because these are bounded.
\<close>

definition sinGate :: "GateConfig \<Rightarrow> nat \<Rightarrow> bool" where
  "sinGate c r \<longleftrightarrow> sinRef0 c \<le> r \<and> r \<le> sinRef0 c + (sinRefNumber c - 1) * sinRefDistance c \<and>
     (r - sinRef0 c) mod sinRefDistance c = 0"

definition soutGate :: "GateConfig \<Rightarrow> nat \<Rightarrow> bool" where
  "soutGate c r \<longleftrightarrow> soutRef0 c \<le> r \<and> r \<le> soutRef0 c + (soutRefNumber c - 1) * soutRefDistance c \<and>
     (r - soutRef0 c) mod soutRefDistance c = 0"

definition skipped :: "GateConfig \<Rightarrow> nat \<Rightarrow> bool" where
  "skipped c r \<longleftrightarrow> r = zeroRef c \<or> sinGate c r \<or> soutGate c r"

definition skippedBound :: "GateConfig \<Rightarrow> nat" where
  "skippedBound c = Suc (max (zeroRef c) (max (sinRef0 c + (sinRefNumber c - 1) * sinRefDistance c)
     (soutRef0 c + (soutRefNumber c - 1) * soutRefDistance c)))"

lemma skipped_bound: "skipped c r \<Longrightarrow> r < skippedBound c"
  by (auto simp: skipped_def skippedBound_def sinGate_def soutGate_def)

function skipRefs :: "GateConfig \<Rightarrow> nat \<Rightarrow> nat" where
  "skipRefs c r = (if skipped c r then skipRefs c (r + 1) else r)"
  by auto
termination
  by (relation "measure (\<lambda>(c, r). skippedBound c - r)") (auto dest!: skipped_bound)

declare skipRefs.simps [simp del]

definition getFreeRef :: "(GateState, nat) prog" where
  "getFreeRef =
     bindP getP (\<lambda>S.
     bindP (assertP (nextRef S < maxRefs (gateConfig S))) (\<lambda>_.
     bindP (modifyP (\<lambda>S. S\<lparr>nextRef := skipRefs (gateConfig S) (nextRef S + 1)\<rparr>)) (\<lambda>_.
     bindP getP (\<lambda>T.
     bindP (assertP (nextRef T < maxRefs (gateConfig T))) (\<lambda>_.
     retP (nextRef S))))))"

section \<open>Gate operations\<close>

text \<open>\<open>ANDP\<close> is the conjunction with the first operand negated.\<close>

fun opBits :: "GateOperation \<Rightarrow> u8 \<Rightarrow> u8 \<Rightarrow> u8" where
  "opBits gop_xor a b = a XOR b"
| "opBits gop_or a b = a OR b"
| "opBits gop_andp a b = (1 - a) AND b"
| "opBits gop_and a b = a AND b"
| "opBits op a b = 0"

fun countOp :: "GateOperation \<Rightarrow> GateState \<Rightarrow> GateState" where
  "countOp gop_xor S = S\<lparr>xors := xors S + 1\<rparr>"
| "countOp gop_or S = S\<lparr>ors := ors S + 1\<rparr>"
| "countOp gop_andp S = S\<lparr>andps := andps S + 1\<rparr>"
| "countOp gop_and S = S\<lparr>ands := ands S + 1\<rparr>"
| "countOp op S = S"

definition wirePin :: "PinId \<Rightarrow> GateBit \<Rightarrow> nat \<Rightarrow> GateState \<Rightarrow> GateState" where
  "wirePin p b refR S = setPin (refR, p) (\<lambda>x. x\<lparr>pinSource := wired, wiredRef := fst b,
     wiredPinId := snd b, pinBit := bitAt S b\<rparr>) S"

definition setOp :: "GateOperation \<Rightarrow> nat \<Rightarrow> GateState \<Rightarrow> GateState" where
  "setOp op refR S = S\<lparr>gate := (gate S)(refR := (gate S refR)\<lparr>gateOp := op\<rparr>)\<rparr>"

definition setResult :: "GateOperation \<Rightarrow> GateBit \<Rightarrow> GateBit \<Rightarrow> nat \<Rightarrow> GateState \<Rightarrow> GateState" where
  "setResult op a b refR S = setPin (refR, pin_r) (\<lambda>x. x\<lparr>pinSource := gated, wiredRef := refR,
     pinBit := opBits op (bitAt S a) (bitAt S b)\<rparr>) S"

definition connectA :: "GateBit \<Rightarrow> nat \<Rightarrow> GateState \<Rightarrow> GateState" where
  "connectA a refR S = (if fst a \<noteq> refR then setPin a (\<lambda>x. x\<lparr>fanOut := fanOut x + 1,
     connectionsToInputA := connectionsToInputA x @ [refR]\<rparr>) S else S)"

definition connectB :: "GateBit \<Rightarrow> nat \<Rightarrow> GateState \<Rightarrow> GateState" where
  "connectB b refR S = (if fst b \<noteq> refR then setPin b (\<lambda>x. x\<lparr>fanOut := fanOut x + 1,
     connectionsToInputB := connectionsToInputB x @ [refR]\<rparr>) S else S)"

definition pushProgram :: "nat \<Rightarrow> GateState \<Rightarrow> GateState" where
  "pushProgram refR S = S\<lparr>program := program S @ [refR]\<rparr>"

definition opEffect :: "GateOperation \<Rightarrow> GateBit \<Rightarrow> GateBit \<Rightarrow> nat \<Rightarrow> GateState \<Rightarrow> GateState" where
  "opEffect op a b refR S =
     pushProgram refR (connectB b refR (connectA a refR (countOp op (setResult op a b refR
       (wirePin pin_b b refR (wirePin pin_a a refR (setOp op refR S)))))))"

definition gateOperations :: "GateOperation list" where
  "gateOperations = [gop_xor, gop_or, gop_andp, gop_and]"

definition OP :: "GateOperation \<Rightarrow> GateBit \<Rightarrow> GateBit \<Rightarrow> nat \<Rightarrow> (GateState, unit) prog" where
  "OP op a b refR =
     bindP getP (\<lambda>S. let n = maxRefs (gateConfig S) in
     bindP (assertP (fst a < n \<and> fst b < n \<and> refR < n)) (\<lambda>_.
     bindP (assertP (bitAt S a \<le> 1 \<and> bitAt S b \<le> 1 \<and> bitAt S (refR, pin_r) \<le> 1)) (\<lambda>_.
     bindP (assertP (op \<in> set gateOperations)) (\<lambda>_.
     modifyP (opEffect op a b refR)))))"

text \<open>The sequence most circuits are made of: a free reference, and an operation whose result is there.\<close>

definition freeGate :: "GateOperation \<Rightarrow> GateBit \<Rightarrow> GateBit \<Rightarrow> (GateState, GateBit) prog" where
  "freeGate op a b = bindP getFreeRef (\<lambda>r. bindP (OP op a b r) (\<lambda>_. retP (r, pin_r)))"

section \<open>Moving input and output bits\<close>

definition inArray :: "GateConfig \<Rightarrow> nat list \<Rightarrow> bool" where
  "inArray c refs \<longleftrightarrow> (\<forall>r\<in>set refs. r < maxRefs c)"

definition setRin :: "u8 list \<Rightarrow> (GateState, unit) prog" where
  "setRin pRin =
     bindP getP (\<lambda>S. let c = gateConfig S in
     bindP (assertP (1088 \<le> sinRefNumber c)) (\<lambda>_.
     bindP (definedP (1088 \<le> length pRin \<and> inArray c (map (sinRef c) [0..<1088]))) (\<lambda>_.
     modifyP (\<lambda>S. foldl (\<lambda>S i. setPin (sinRef c i, pin_b) (\<lambda>x. x\<lparr>pinBit := pRin ! i, pinSource := external\<rparr>) S)
       S [0..<1088]))))"

definition mixRin :: "(GateState, unit) prog" where
  "mixRin =
     bindP getP (\<lambda>S. let c = gateConfig S in
     bindP (assertP (1088 \<le> sinRefNumber c)) (\<lambda>_.
     foldP (\<lambda>i _. OP gop_xor (sinRef c i, pin_a) (sinRef c i, pin_b) (sinRef c i)) [0..<1088] ()))"

definition getOutput :: "(GateState, u8 list) prog" where
  "getOutput =
     bindP getP (\<lambda>S. let c = gateConfig S in
     bindP (assertP (32 * 8 \<le> sinRefNumber c)) (\<lambda>_.
     bindP (definedP (inArray c (map (sinRef c) [0..<32 * 8]))) (\<lambda>_.
     retP (map (\<lambda>i. bits2byte (map (\<lambda>j. bitAt S (sinRef c (i * 8 + j), pin_a)) [0..<8])) [0..<32]))))"

definition copySoutRefsToSinRefs :: "(GateState, unit) prog" where
  "copySoutRefsToSinRefs =
     bindP getP (\<lambda>S.
     bindP (assertP (sinRefNumber (gateConfig S) = soutRefNumber (gateConfig S))) (\<lambda>_.
     modifyP (\<lambda>S. S\<lparr>SinRefs := SoutRefs S\<rparr>)))"

definition copySoutToSinAndResetRefs :: "(GateState, unit) prog" where
  "copySoutToSinAndResetRefs =
     bindP getP (\<lambda>S. let c = gateConfig S in
     bindP (assertP (sinRefNumber c = soutRefNumber c)) (\<lambda>_.
     bindP (definedP (inArray c (zeroRef c # take (sinRefNumber c) (SoutRefs S) @ map (sinRef c) [0..<sinRefNumber c]))) (\<lambda>_.
     let localSout = map (\<lambda>i. bitAt S (SoutRefs S ! i, pin_r)) [0..<sinRefNumber c] in
     bindP (modifyP resetBitsAndCounters) (\<lambda>_.
     modifyP (\<lambda>S. foldl (\<lambda>S i. setPin (sinRef c i, pin_a) (\<lambda>x. x\<lparr>pinBit := localSout ! i\<rparr>) S)
       S [0..<sinRefNumber c])))))"

section \<open>Words of gate bits\<close>

text \<open>
  A \<open>GateU32\<close> or \<open>GateU64\<close> is an array of 32 or 64 gate bits, the least significant first; the two
  classes are copies of each other, and the loops below take the width.  The result operand of an
  operation is overwritten bit by bit and returned here; no call in the circuits passes it as an input too.
\<close>

definition gateBitOf :: "GateConfig \<Rightarrow> u8 \<Rightarrow> GateBit outcome" where
  "gateBitOf c b = (if b = 0 then Ret (zeroRef c, pin_a) else if b = 1 then Ret (zeroRef c, pin_b) else Exit)"

definition GateU32_fromU32 :: "GateConfig \<Rightarrow> u32 \<Rightarrow> GateBit list outcome" where
  "GateU32_fromU32 c v = mapO (gateBitOf c) (u322bits v)"

definition GateU64_fromU64 :: "GateConfig \<Rightarrow> u64 \<Rightarrow> GateBit list outcome" where
  "GateU64_fromU64 c v = mapO (gateBitOf c) (u642bits v)"

definition GateU32_toU32 :: "GateBit list \<Rightarrow> (GateState, u32) prog" where
  "GateU32_toU32 bs = bindP getP (\<lambda>S. liftP (bits2u32 (map (bitAt S) bs)))"

definition GateU64_toU64 :: "GateBit list \<Rightarrow> (GateState, u64) prog" where
  "GateU64_toU64 bs = bindP getP (\<lambda>S. liftP (bits2u64 (map (bitAt S) bs)))"

definition gateRotateRight :: "nat \<Rightarrow> GateBit list \<Rightarrow> nat \<Rightarrow> GateBit list" where
  "gateRotateRight n bs pos = map (\<lambda>i. bs ! ((i + pos) mod n)) [0..<n]"

definition gateShiftRight :: "GateConfig \<Rightarrow> nat \<Rightarrow> GateBit list \<Rightarrow> nat \<Rightarrow> GateBit list" where
  "gateShiftRight c n bs pos =
     map (\<lambda>i. if i < n - pos then bs ! ((i + pos) mod n) else (zeroRef c, pin_a)) [0..<n]"

definition gateXor :: "nat \<Rightarrow> GateBit list \<Rightarrow> GateBit list \<Rightarrow> (GateState, GateBit list) prog" where
  "gateXor n a b = mapP (\<lambda>i. freeGate gop_xor (a ! i) (b ! i)) [0..<n]"

definition gateAnd :: "nat \<Rightarrow> GateBit list \<Rightarrow> GateBit list \<Rightarrow> (GateState, GateBit list) prog" where
  "gateAnd n a b = mapP (\<lambda>i. freeGate gop_and (a ! i) (b ! i)) [0..<n]"

definition gateNot :: "nat \<Rightarrow> GateBit list \<Rightarrow> (GateState, GateBit list) prog" where
  "gateNot n a = mapP (\<lambda>i. bindP getP (\<lambda>S. freeGate gop_xor (a ! i) (zeroRef (gateConfig S), pin_b))) [0..<n]"

definition gateXorBit :: "nat \<Rightarrow> GateBit list \<Rightarrow> GateBit \<Rightarrow> (GateState, GateBit list) prog" where
  "gateXorBit n a b = mapP (\<lambda>i. freeGate gop_xor (a ! i) b) [0..<n]"

text \<open>The ripple-carry adder: the bit of the result, then the carry, which the last bit does not need.\<close>

definition gateAddBit :: "GateBit \<Rightarrow> GateBit \<Rightarrow> GateBit \<Rightarrow> nat \<Rightarrow> (GateState, GateBit) prog" where
  "gateAddBit a b carry i =
     (if i = 0 then freeGate gop_xor a b
      else bindP (freeGate gop_xor a b) (\<lambda>aux. freeGate gop_xor aux carry))"

definition gateAddCarry :: "nat \<Rightarrow> GateBit \<Rightarrow> GateBit \<Rightarrow> GateBit \<Rightarrow> nat \<Rightarrow> (GateState, GateBit) prog" where
  "gateAddCarry n a b carry i =
     (if i = 0 then freeGate gop_and a b
      else if i < n - 1 then
        bindP (freeGate gop_and a b) (\<lambda>and1.
        bindP (freeGate gop_and carry b) (\<lambda>and2.
        bindP (freeGate gop_and a carry) (\<lambda>and3.
        bindP (freeGate gop_or and1 and2) (\<lambda>or1.
        freeGate gop_or or1 and3))))
      else retP carry)"

definition gateAdd :: "nat \<Rightarrow> GateBit list \<Rightarrow> GateBit list \<Rightarrow> (GateState, GateBit list) prog" where
  "gateAdd n a b =
     bindP getP (\<lambda>S.
     bindP (foldP (\<lambda>i (carry, r).
       bindP (gateAddBit (a ! i) (b ! i) carry i) (\<lambda>x.
       bindP (gateAddCarry n (a ! i) (b ! i) carry i) (\<lambda>carry. retP (carry, r @ [x]))))
       [0..<n] ((zeroRef (gateConfig S), pin_a), [])) (\<lambda>(_, r). retP r))"

definition GateU32_xor :: "GateBit list \<Rightarrow> GateBit list \<Rightarrow> (GateState, GateBit list) prog" where
  "GateU32_xor = gateXor 32"

definition GateU32_and :: "GateBit list \<Rightarrow> GateBit list \<Rightarrow> (GateState, GateBit list) prog" where
  "GateU32_and = gateAnd 32"

definition GateU32_not :: "GateBit list \<Rightarrow> (GateState, GateBit list) prog" where
  "GateU32_not = gateNot 32"

definition GateU32_add :: "GateBit list \<Rightarrow> GateBit list \<Rightarrow> (GateState, GateBit list) prog" where
  "GateU32_add = gateAdd 32"

definition GateU64_xor :: "GateBit list \<Rightarrow> GateBit list \<Rightarrow> (GateState, GateBit list) prog" where
  "GateU64_xor = gateXor 64"

definition GateU64_and :: "GateBit list \<Rightarrow> GateBit list \<Rightarrow> (GateState, GateBit list) prog" where
  "GateU64_and = gateAnd 64"

definition GateU64_not :: "GateBit list \<Rightarrow> (GateState, GateBit list) prog" where
  "GateU64_not = gateNot 64"

definition GateU64_add :: "GateBit list \<Rightarrow> GateBit list \<Rightarrow> (GateState, GateBit list) prog" where
  "GateU64_add = gateAdd 64"

definition GateU64_xorBit :: "GateBit list \<Rightarrow> GateBit \<Rightarrow> (GateState, GateBit list) prog" where
  "GateU64_xorBit = gateXorBit 64"

lemmas GateU32_defs = GateU32_xor_def GateU32_and_def GateU32_not_def GateU32_add_def

lemmas GateU64_defs = GateU64_xor_def GateU64_and_def GateU64_not_def GateU64_add_def GateU64_xorBit_def

end
