(* ===== verification/Gate_Circuit.thy ===== *)
theory Gate_Circuit
  imports Gate_State
begin

text \<open>
  Reasoning about circuits under construction.  A program on the gate state is specified by what it
  returns and the state it leaves (\<open>runs\<close>, a weakest precondition).  The operations a program appends
  to \<open>program\<close> are read back as instructions; replaying them on any values of the inputs gives
  the value of every pin, and the bits the state keeps are the replay on the initial bits.  A fresh
  reference is one no pin in use belongs to, so building a gate keeps the value of all of them.
\<close>

section \<open>Running a program\<close>

definition runs :: "('s, 'a) prog \<Rightarrow> 's \<Rightarrow> ('a \<Rightarrow> 's \<Rightarrow> bool) \<Rightarrow> bool" where
  "runs m S Q \<longleftrightarrow> (\<exists>x T. m S = (Ret x, T) \<and> Q x T)"

named_theorems runs_rules \<open>rules that take one step of a program\<close>

lemma runs_bindP [runs_rules]: "runs m S (\<lambda>x T. runs (f x) T Q) \<Longrightarrow> runs (bindP m f) S Q"
  by (auto simp: runs_def)

lemma runs_retP [runs_rules]: "Q x S \<Longrightarrow> runs (retP x) S Q"
  by (auto simp: runs_def retP_def)

lemma runs_getP [runs_rules]: "Q S S \<Longrightarrow> runs getP S Q"
  by (auto simp: runs_def getP_def)

lemma runs_modifyP [runs_rules]: "Q () (f S) \<Longrightarrow> runs (modifyP f) S Q"
  by (auto simp: runs_def modifyP_def)

lemma runs_assertP [runs_rules]: "b \<Longrightarrow> Q () S \<Longrightarrow> runs (assertP b) S Q"
  by (auto simp: runs_def assertP_def retP_def)

lemma runs_definedP [runs_rules]: "b \<Longrightarrow> Q () S \<Longrightarrow> runs (definedP b) S Q"
  by (auto simp: runs_def definedP_def retP_def)

lemma runs_liftP [runs_rules]: "m = Ret x \<Longrightarrow> Q x S \<Longrightarrow> runs (liftP m) S Q"
  by (auto simp: runs_def liftP_def)

lemma runs_conseq: "runs m S P \<Longrightarrow> (\<And>x T. P x T \<Longrightarrow> Q x T) \<Longrightarrow> runs m S Q"
  by (auto simp: runs_def)

lemma runs_both: "runs m S P \<Longrightarrow> runs m S Q \<Longrightarrow> runs m S (\<lambda>x T. P x T \<and> Q x T)"
  by (auto simp: runs_def)

lemma runs_foldP:
  assumes "I 0 x S"
    and "\<And>j y T. j < length is \<Longrightarrow> I j y T \<Longrightarrow> runs (f (is ! j) y) T (I (Suc j))"
  shows "runs (foldP f is x) S (I (length is))"
  using assms
proof (induction "is" arbitrary: I x S)
  case (Cons i "is")
  have "runs (f i x) S (I (Suc 0))" using Cons.prems(1) Cons.prems(2) [of 0] by simp
  then obtain y T where y: "f i x S = (Ret y, T)" "I (Suc 0) y T" by (auto simp: runs_def)
  have "runs (foldP f is y) T (\<lambda>z. I (Suc (length is)) z)"
    by (rule Cons.IH [of "\<lambda>j. I (Suc j)"]) (use y(2) Cons.prems(2) in \<open>force+\<close>)
  with y(1) show ?case by (auto simp: runs_def)
qed (auto simp: runs_def retP_def)

lemma runs_mapP:
  assumes "J [] S"
    and "\<And>xs T. length xs < length is \<Longrightarrow> J xs T \<Longrightarrow> runs (f (is ! length xs)) T (\<lambda>x. J (xs @ [x]))"
  shows "runs (mapP f is) S (\<lambda>xs T. length xs = length is \<and> J xs T)"
  using assms
proof (induction "is" arbitrary: J S)
  case (Cons i "is")
  have "runs (f i) S (\<lambda>x. J [x])" using Cons.prems(1) Cons.prems(2) [of "[]"] by simp
  then obtain x T where x: "f i S = (Ret x, T)" "J [x] T" by (auto simp: runs_def)
  have "runs (mapP f is) T (\<lambda>xs U. length xs = length is \<and> J (x # xs) U)"
  proof (rule Cons.IH [of "\<lambda>xs. J (x # xs)"])
    fix xs U assume "length xs < length is" "J (x # xs) U"
    then show "runs (f (is ! length xs)) U (\<lambda>y. J (x # xs @ [y]))"
      using Cons.prems(2) [of "x # xs" U] by simp
  qed (rule x(2))
  with x(1) show ?case by (auto simp: runs_def retP_def bindP_def)
qed (auto simp: runs_def retP_def)

section \<open>Instructions and their replay\<close>

type_synonym Instr = "GateOperation \<times> GateBit \<times> GateBit \<times> nat"

type_synonym pinValues = "GateBit \<Rightarrow> bool"

fun opBool :: "GateOperation \<Rightarrow> bool \<Rightarrow> bool \<Rightarrow> bool" where
  "opBool gop_xor a b = (a \<noteq> b)"
| "opBool gop_or a b = (a \<or> b)"
| "opBool gop_andp a b = (\<not> a \<and> b)"
| "opBool gop_and a b = (a \<and> b)"
| "opBool op a b = False"

fun playStep :: "pinValues \<Rightarrow> Instr \<Rightarrow> pinValues" where
  "playStep e (op, a, b, r) = e((r, pin_a) := e a, (r, pin_b) := e b, (r, pin_r) := opBool op (e a) (e b))"

definition replay :: "Instr list \<Rightarrow> pinValues \<Rightarrow> pinValues" where
  "replay is e = foldl playStep e is"

lemma replay_simps [simp]: "replay [] e = e" "replay (is @ [i]) e = playStep (replay is e) i"
  by (simp_all add: replay_def)

definition instrOf :: "GateState \<Rightarrow> nat \<Rightarrow> Instr" where
  "instrOf S r = (gateOp (gate S r), (wiredRef (pinAt S (r, pin_a)), wiredPinId (pinAt S (r, pin_a))),
     (wiredRef (pinAt S (r, pin_b)), wiredPinId (pinAt S (r, pin_b))), r)"

text \<open>The instructions appended from position k of the program on.\<close>

definition scriptFrom :: "nat \<Rightarrow> GateState \<Rightarrow> Instr list" where
  "scriptFrom k S = map (instrOf S) (drop k (program S))"

text \<open>An operand on the gate that is written must be the pin it is wired to.\<close>

definition wellWired :: "GateBit \<Rightarrow> GateBit \<Rightarrow> nat \<Rightarrow> bool" where
  "wellWired a b r \<longleftrightarrow> (fst a = r \<longrightarrow> snd a = pin_a) \<and> (fst b = r \<longrightarrow> snd b = pin_b)"

lemma opBits_opBool: "op \<in> set gateOperations \<Longrightarrow> opBits op (of_bool a) (of_bool b) = of_bool (opBool op a b)"
  by (cases op; cases a; cases b) (simp_all add: gateOperations_def)

lemma setPin_simps [simp]:
  "gateConfig (setPin x f S) = gateConfig S" "nextRef (setPin x f S) = nextRef S"
  "SinRefs (setPin x f S) = SinRefs S" "SoutRefs (setPin x f S) = SoutRefs S"
  "program (setPin x f S) = program S"
  "gateOp (gate (setPin x f S) r) = gateOp (gate S r)"
  by (simp_all add: setPin_def)

lemma pinAt_setPin [simp]: "pinAt (setPin x f S) y = (if y = x then f (pinAt S x) else pinAt S y)"
  by (cases x; cases y) (auto simp: setPin_def pinAt_def)

lemma setOp_simps [simp]:
  "gateConfig (setOp op r S) = gateConfig S" "nextRef (setOp op r S) = nextRef S"
  "SinRefs (setOp op r S) = SinRefs S" "SoutRefs (setOp op r S) = SoutRefs S"
  "program (setOp op r S) = program S" "pinAt (setOp op r S) = pinAt S"
  "gateOp (gate (setOp op r S) q) = (if q = r then op else gateOp (gate S q))"
  by (auto simp: setOp_def pinAt_def)

lemma pushProgram_simps [simp]:
  "gateConfig (pushProgram r S) = gateConfig S" "nextRef (pushProgram r S) = nextRef S"
  "SinRefs (pushProgram r S) = SinRefs S" "SoutRefs (pushProgram r S) = SoutRefs S"
  "program (pushProgram r S) = program S @ [r]" "pinAt (pushProgram r S) = pinAt S"
  "gate (pushProgram r S) = gate S"
  by (auto simp: pushProgram_def pinAt_def)

lemma countOp_simps [simp]:
  "gateConfig (countOp op S) = gateConfig S" "nextRef (countOp op S) = nextRef S"
  "SinRefs (countOp op S) = SinRefs S" "SoutRefs (countOp op S) = SoutRefs S"
  "program (countOp op S) = program S" "gate (countOp op S) = gate S"
  by (cases op; simp)+

lemma pinAt_countOp [simp]: "pinAt (countOp op S) = pinAt S"
  by (rule ext) (simp add: pinAt_def)

lemma opEffect_simps [simp]:
  "gateConfig (opEffect op a b r S) = gateConfig S" "nextRef (opEffect op a b r S) = nextRef S"
  "SinRefs (opEffect op a b r S) = SinRefs S" "SoutRefs (opEffect op a b r S) = SoutRefs S"
  "program (opEffect op a b r S) = program S @ [r]"
  by (simp_all add: opEffect_def connectA_def connectB_def setResult_def wirePin_def)

lemma bitAt_setPin: "bitAt (setPin x f S) = (bitAt S)(x := pinBit (f (pinAt S x)))"
  by (rule ext) (simp add: bitAt_def)

lemma bitAt_same [simp]:
  "bitAt (setOp op r S) = bitAt S" "bitAt (pushProgram r S) = bitAt S" "bitAt (countOp op S) = bitAt S"
  "bitAt (connectA a r S) = bitAt S" "bitAt (connectB b r S) = bitAt S"
  by (auto simp: bitAt_def connectA_def connectB_def)

lemma bitAt_opEffect:
  assumes "wellWired a b r"
  shows "bitAt (opEffect op a b r S) = (bitAt S)((r, pin_a) := bitAt S a, (r, pin_b) := bitAt S b,
           (r, pin_r) := opBits op (bitAt S a) (bitAt S b))"
proof -
  define T where "T = wirePin pin_b b r (wirePin pin_a a r (setOp op r S))"
  have a: "a = (r, pin_a) \<or> a \<noteq> (r, pin_a) \<and> a \<noteq> (r, pin_b) \<and> a \<noteq> (r, pin_r)"
    and b: "b = (r, pin_b) \<or> b \<noteq> (r, pin_a) \<and> b \<noteq> (r, pin_b) \<and> b \<noteq> (r, pin_r)"
    using assms by (cases a; cases b; auto simp: wellWired_def)+
  have T: "bitAt T = (bitAt S)((r, pin_a) := bitAt S a, (r, pin_b) := bitAt S b)"
    using b by (auto simp: T_def wirePin_def bitAt_setPin)
  then have "bitAt T a = bitAt S a" "bitAt T b = bitAt S b" using a b by auto
  then show ?thesis by (simp add: opEffect_def flip: T_def) (simp add: setResult_def bitAt_setPin T)
qed

lemma instrOf_opEffect:
  "instrOf (opEffect op a b r S) q = (if q = r then (op, a, b, r) else instrOf S q)"
  by (cases a; cases b) (auto simp: instrOf_def opEffect_def connectA_def connectB_def setResult_def wirePin_def)

section \<open>Free references\<close>

lemma skipRefs_free: "\<not> skipped c (skipRefs c r)"
  by (induction c r rule: skipRefs.induct) (subst skipRefs.simps, simp)

lemma skipRefs_ge: "r \<le> skipRefs c r"
  by (induction c r rule: skipRefs.induct) (subst skipRefs.simps, auto)

lemma skipRefs_between: "r \<le> q \<Longrightarrow> q < skipRefs c r \<Longrightarrow> skipped c q"
proof (induction c r rule: skipRefs.induct)
  case (1 c r)
  show ?case
  proof (cases "skipped c r")
    case True
    with 1 show ?thesis by (cases "q = r") (simp_all add: skipRefs.simps [of c r])
  next
    case False
    with 1 show ?thesis by (simp add: skipRefs.simps [of c r])
  qed
qed

text \<open>The free references below n: how many a circuit has used, and how many there are.\<close>

definition freeBelow :: "GateConfig \<Rightarrow> nat \<Rightarrow> nat set" where
  "freeBelow c n = {r. firstNextRef c \<le> r \<and> r < n \<and> \<not> skipped c r}"

lemma finite_freeBelow [simp]: "finite (freeBelow c n)"
  by (rule finite_subset [of _ "{..<n}"]) (auto simp: freeBelow_def)

lemma freeBelow_skipRefs:
  assumes "firstNextRef c \<le> r" and "\<not> skipped c r"
  shows "card (freeBelow c (skipRefs c (Suc r))) = Suc (card (freeBelow c r))"
proof -
  have "freeBelow c (skipRefs c (Suc r)) = insert r (freeBelow c r)"
    using assms skipRefs_ge [of "Suc r" c] skipRefs_between [of "Suc r" _ c]
    by (auto simp: freeBelow_def) (metis less_antisym linorder_not_le Suc_leI)
  then show ?thesis by (simp add: freeBelow_def)
qed

lemma skipRefs_room:
  assumes "firstNextRef c \<le> r" and "\<not> skipped c r"
    and "Suc (card (freeBelow c r)) < card (freeBelow c (maxRefs c))"
  shows "skipRefs c (Suc r) < maxRefs c"
proof (rule ccontr)
  assume "\<not> ?thesis"
  then have "freeBelow c (maxRefs c) \<subseteq> freeBelow c (skipRefs c (Suc r))"
    by (auto simp: freeBelow_def)
  from card_mono [OF finite_freeBelow this] assms show False by (simp add: freeBelow_skipRefs)
qed

section \<open>Circuits under construction\<close>

text \<open>
  \<open>e0\<close> has the bits the construction started from, and \<open>e\<close> any other values of the pins; the script
  is what was appended from position k of the program on.
\<close>

locale gate_circuit =
  fixes cfg :: GateConfig and k :: nat and e0 e :: pinValues
  assumes zeroRef_less: "zeroRef cfg < maxRefs cfg"
begin

definition busy :: "GateState \<Rightarrow> nat \<Rightarrow> bool" where
  "busy S r \<longleftrightarrow> r < maxRefs cfg \<and> (skipped cfg r \<or> r < nextRef S)"

definition sees :: "GateState \<Rightarrow> GateBit \<Rightarrow> bool \<Rightarrow> bool" where
  "sees S b v \<longleftrightarrow> busy S (fst b) \<and> replay (scriptFrom k S) e b = v"

definition circ :: "GateState \<Rightarrow> bool" where
  "circ S \<longleftrightarrow> gateConfig S = cfg \<and> nextRef S < maxRefs cfg \<and> \<not> skipped cfg (nextRef S) \<and>
     firstNextRef cfg \<le> nextRef S \<and> k \<le> length (program S) \<and> (\<forall>r\<in>set (drop k (program S)). busy S r) \<and>
     bitAt S = (\<lambda>x. of_bool (replay (scriptFrom k S) e0 x)) \<and>
     sees S (zeroRef cfg, pin_a) False \<and> sees S (zeroRef cfg, pin_b) True"

definition used :: "GateState \<Rightarrow> nat" where
  "used S = card (freeBelow cfg (nextRef S))"

definition room :: "GateState \<Rightarrow> nat \<Rightarrow> bool" where
  "room S n \<longleftrightarrow> used S + n < card (freeBelow cfg (maxRefs cfg))"

text \<open>Everything in use keeps its value, except for the pins of X, and n references are taken.\<close>

definition extends :: "GateBit set \<Rightarrow> GateState \<Rightarrow> GateState \<Rightarrow> nat \<Rightarrow> bool" where
  "extends X S T n \<longleftrightarrow> circ T \<and> used T = used S + n \<and> nextRef S \<le> nextRef T \<and>
     (\<forall>b. busy S (fst b) \<longrightarrow> b \<notin> X \<longrightarrow> replay (scriptFrom k T) e b = replay (scriptFrom k S) e b)"

definition grown :: "GateState \<Rightarrow> GateState \<Rightarrow> nat \<Rightarrow> bool" where
  "grown S T n \<longleftrightarrow> extends {} S T n \<and> SinRefs T = SinRefs S \<and> SoutRefs T = SoutRefs S \<and>
     (\<forall>r. skipped cfg r \<longrightarrow> r \<in> set (drop k (program T)) \<longrightarrow> r \<in> set (drop k (program S)))"

text \<open>The output of a gate built on a free reference.\<close>

definition fresh :: "GateBit \<Rightarrow> bool" where
  "fresh b \<longleftrightarrow> snd b = pin_r \<and> \<not> skipped cfg (fst b)"

lemma busy_mono: "busy S r \<Longrightarrow> nextRef S \<le> nextRef T \<Longrightarrow> busy T r"
  by (auto simp: busy_def)

lemma sees_extends: "sees S b v \<Longrightarrow> extends X S T n \<Longrightarrow> b \<notin> X \<Longrightarrow> sees T b v"
  unfolding sees_def extends_def by (metis busy_mono)

lemma sees_grown: "sees S b v \<Longrightarrow> grown S T n \<Longrightarrow> sees T b v"
  by (auto simp: grown_def intro: sees_extends)

lemma extends_refl: "circ S \<Longrightarrow> extends X S S 0"
  by (auto simp: extends_def)

lemma grown_refl: "circ S \<Longrightarrow> grown S S 0"
  by (simp add: grown_def extends_refl)

lemma extends_trans: "extends X S T m \<Longrightarrow> extends Y T U n \<Longrightarrow> extends (X \<union> Y) S U (m + n)"
  by (auto simp: extends_def intro: busy_mono)

lemma extends_shrink: "extends X S T n \<Longrightarrow> (\<And>x. x \<in> X \<Longrightarrow> x \<notin> Y \<Longrightarrow> \<not> busy S (fst x)) \<Longrightarrow> extends Y S T n"
  unfolding extends_def by blast

lemma grown_trans: "grown S T m \<Longrightarrow> grown T U n \<Longrightarrow> grown S U (m + n)"
  using extends_trans [of "{}" S T m "{}" U n] by (auto simp: grown_def)

lemma grown_circ: "grown S T n \<Longrightarrow> circ T"
  by (simp add: grown_def extends_def)

lemma grown_room: "grown S T m \<Longrightarrow> room S (m + n) \<Longrightarrow> room T n"
  by (simp add: grown_def extends_def room_def)

lemma room_less: "room S n \<Longrightarrow> m \<le> n \<Longrightarrow> room S m"
  by (simp add: room_def)

lemma sees_zero: "circ S \<Longrightarrow> sees S (zeroRef cfg, pin_a) False" "circ S \<Longrightarrow> sees S (zeroRef cfg, pin_b) True"
  by (simp_all add: circ_def)

lemma circ_config: "circ S \<Longrightarrow> gateConfig S = cfg"
  by (simp add: circ_def)

text \<open>An operation on a gate no instruction has written yet.\<close>

lemma OP_extends:
  assumes S: "circ S" and a: "sees S a va" and b: "sees S b vb"
    and r: "busy S r" "r \<notin> set (drop k (program S))" "r \<noteq> zeroRef cfg"
    and op: "op \<in> set gateOperations" and w: "wellWired a b r"
  shows "runs (OP op a b r) S (\<lambda>_ T. extends {x. fst x = r \<and> x \<noteq> a \<and> x \<noteq> b} S T 0 \<and>
           SinRefs T = SinRefs S \<and> SoutRefs T = SoutRefs S \<and> program T = program S @ [r] \<and>
           nextRef T = nextRef S \<and>
           sees T (r, pin_a) va \<and> sees T (r, pin_b) vb \<and> sees T (r, pin_r) (opBool op va vb))"
proof -
  define T where "T = opEffect op a b r S"
  have script: "scriptFrom k T = scriptFrom k S @ [(op, a, b, r)]"
    using S r(2) by (auto simp: circ_def scriptFrom_def T_def instrOf_opEffect)
  have busy: "busy T = busy S" by (rule ext) (simp add: busy_def T_def)
  have bits: "bitAt S = (\<lambda>x. of_bool (replay (scriptFrom k S) e0 x))" using S by (simp add: circ_def)
  have "bitAt T = (\<lambda>x. of_bool (replay (scriptFrom k T) e0 x))"
    unfolding script by (rule ext) (simp add: T_def bitAt_opEffect [OF w] bits opBits_opBool [OF op])
  moreover have "sees T (zeroRef cfg, pin_a) False" "sees T (zeroRef cfg, pin_b) True"
    using sees_zero [OF S] r(3) by (simp_all add: sees_def busy script)
  ultimately have circ: "circ T" using S r(1) unfolding circ_def by (auto simp: T_def busy [unfolded T_def])
  have ext: "extends {x. fst x = r \<and> x \<noteq> a \<and> x \<noteq> b} S T 0"
    using circ w unfolding extends_def script by (auto simp: used_def T_def wellWired_def)
  have pins: "sees T (r, pin_a) va" "sees T (r, pin_b) vb" "sees T (r, pin_r) (opBool op va vb)"
    using a b r(1) by (simp_all add: sees_def busy script)
  have "bitAt S x \<le> 1" for x unfolding bits by simp
  moreover have "fst a < maxRefs cfg" "fst b < maxRefs cfg" "r < maxRefs cfg"
    using a b r(1) by (simp_all add: sees_def busy_def)
  ultimately have "OP op a b r S = (Ret (), T)"
    using circ_config [OF S] op
    by (simp add: OP_def bindP_def getP_def assertP_def retP_def modifyP_def T_def Let_def)
  then show ?thesis using ext pins by (simp add: runs_def T_def)
qed

lemma getFreeRef_grown:
  assumes S: "circ S" and "room S 1"
  shows "runs getFreeRef S (\<lambda>r T. grown S T 1 \<and> r = nextRef S \<and> r < nextRef T \<and> program T = program S)"
proof -
  define T where "T = S\<lparr>nextRef := skipRefs cfg (Suc (nextRef S))\<rparr>"
  have nx: "\<not> skipped cfg (nextRef S)" "firstNextRef cfg \<le> nextRef S" "gateConfig S = cfg"
      "nextRef S < maxRefs cfg" using S by (simp_all add: circ_def)
  have less: "nextRef S < nextRef T" using skipRefs_ge [of "Suc (nextRef S)" cfg] by (simp add: T_def)
  have max: "nextRef T < maxRefs cfg"
    using assms(2) nx unfolding T_def by (simp add: skipRefs_room room_def used_def)
  have script: "scriptFrom k T = scriptFrom k S" by (simp add: scriptFrom_def T_def instrOf_def pinAt_def)
  have busy: "busy S r \<Longrightarrow> busy T r" for r using less by (auto intro: busy_mono)
  have "bitAt T = bitAt S" by (rule ext) (simp add: T_def bitAt_def pinAt_def)
  then have "circ T" using S less max busy unfolding circ_def sees_def script
    by (auto simp: T_def skipRefs_free)
  moreover have "used T = used S + 1" using nx by (simp add: used_def T_def freeBelow_skipRefs)
  ultimately have "grown S T 1" using less by (simp add: grown_def extends_def script) (simp add: T_def)
  moreover have "getFreeRef S = (Ret (nextRef S), T)"
    using nx max by (simp add: getFreeRef_def bindP_def getP_def assertP_def retP_def modifyP_def T_def)
  ultimately show ?thesis using less by (simp add: runs_def T_def)
qed

lemma freeGate_grown:
  assumes S: "circ S" and room: "room S 1" and a: "sees S a va" and b: "sees S b vb"
    and op: "op \<in> set gateOperations"
  shows "runs (freeGate op a b) S (\<lambda>x T. grown S T 1 \<and> fresh x \<and> sees T x (opBool op va vb))"
  unfolding freeGate_def
proof (rule runs_bindP, rule runs_conseq [OF getFreeRef_grown [OF S room]], elim conjE)
  fix r T assume T: "grown S T 1" "r = nextRef S" "r < nextRef T" "program T = program S"
  have free: "\<not> busy S r" "busy T r" "r \<noteq> zeroRef cfg"
    using S T(2,3) zeroRef_less by (auto simp: circ_def busy_def skipped_def)
  then have "fst a \<noteq> r" "fst b \<noteq> r" using a b by (auto simp: sees_def)
  moreover have "r \<notin> set (drop k (program T))" using S free(1) unfolding T(4) by (auto simp: circ_def)
  ultimately have run: "runs (OP op a b r) T (\<lambda>_ U. extends {x. fst x = r \<and> x \<noteq> a \<and> x \<noteq> b} T U 0 \<and>
           SinRefs U = SinRefs T \<and> SoutRefs U = SoutRefs T \<and> program U = program T @ [r] \<and>
           nextRef U = nextRef T \<and>
           sees U (r, pin_a) va \<and> sees U (r, pin_b) vb \<and> sees U (r, pin_r) (opBool op va vb))"
    using OP_extends [OF grown_circ [OF T(1)] sees_grown [OF a T(1)] sees_grown [OF b T(1)] free(2) _ free(3) op]
    by (simp add: wellWired_def)
  show "runs (bindP (OP op a b r) (\<lambda>_. retP (r, pin_r))) T
      (\<lambda>x U. grown S U 1 \<and> fresh x \<and> sees U x (opBool op va vb))"
  proof (rule runs_bindP, rule runs_conseq [OF run], rule runs_retP, elim conjE, goal_cases)
    case (1 x U)
    have "extends {} S U 1"
      using extends_trans [of "{}" S T 1, OF _ 1(1)] T(1) free(1)
      by (auto simp: grown_def elim: extends_shrink)
    moreover have "\<not> skipped cfg r" using S T(2) by (simp add: circ_def)
    moreover have "k \<le> length (program S)" using S by (simp add: circ_def)
    ultimately show ?case using 1 T(1,4) by (auto simp: grown_def fresh_def)
  qed
qed

end

end
