(* ===== verification/Gate_Words.thy ===== *)
theory Gate_Words
  imports Gate_Circuit
begin

text \<open>
  Words of gate bits compute words: the loops of gate_u32.cpp and gate_u64.cpp give exclusive or,
  conjunction, negation, rotation, shift and, through the ripple of the carries, addition modulo
  \<open>2 ^ 32\<close> or \<open>2 ^ 64\<close>, and each takes a fixed number of free references.
\<close>

section \<open>Bits of machine words\<close>

lemma bitsValue_nth:
  "set bs \<subseteq> {0, 1} \<Longrightarrow> i < length bs \<Longrightarrow> bs ! i = of_bool (bit (bitsValue bs) i)"
proof (induction bs arbitrary: i)
  case (Cons b bs)
  have b: "unat b + 2 * bitsValue bs = of_bool (b = 1) + 2 * bitsValue bs" using Cons.prems(1) by auto
  show ?case
  proof (cases i)
    case 0
    then show ?thesis using Cons.prems(1) by (auto simp: bit_0)
  next
    case (Suc j)
    have "bit (of_bool (b = 1) + 2 * bitsValue bs) (Suc j) = bit (bitsValue bs) j"
      by (simp add: bit_Suc)
    then show ?thesis using Cons Suc b by simp
  qed
qed simp

lemma u322bits_eq: "u322bits v = map (\<lambda>i. of_bool (bit v i)) [0..<32]"
proof (rule nth_equalityI)
  fix i assume "i < length (u322bits v)"
  then show "u322bits v ! i = map (\<lambda>i. of_bool (bit v i)) [0..<32] ! i"
    using bitsValue_nth [of "u322bits v" i] u322bits_bits [of v] by (simp add: bit_unsigned_iff)
qed (simp add: u322bits_bits)

lemma u642bits_eq: "u642bits v = map (\<lambda>i. of_bool (bit v i)) [0..<64]"
proof (rule nth_equalityI)
  fix i assume "i < length (u642bits v)"
  then show "u642bits v ! i = map (\<lambda>i. of_bool (bit v i)) [0..<64] ! i"
    using bitsValue_nth [of "u642bits v" i] u642bits_bits [of v] by (simp add: bit_unsigned_iff)
qed (simp add: u642bits_bits)

text \<open>The carry into bit i of the sum of two words.\<close>

primrec carryAt :: "'a :: len word \<Rightarrow> 'a word \<Rightarrow> nat \<Rightarrow> bool" where
  "carryAt x y 0 = False"
| "carryAt x y (Suc i) = (bit x i \<and> bit y i \<or> carryAt x y i \<and> bit y i \<or> bit x i \<and> carryAt x y i)"

lemma drop_bit_odd: "drop_bit i n = 2 * drop_bit (Suc i) n + of_bool (bit n i)" for n :: nat
proof -
  have "drop_bit (Suc i) n = drop_bit i n div 2" using drop_bit_drop_bit [of 1 i n] by (simp add: drop_bit_eq_div)
  then show ?thesis by (simp add: bit_iff_odd_drop_bit)
qed

lemma half_sum:
  fixes m n :: nat
  assumes "2 * m + of_bool p = 2 * n + (of_bool a + of_bool b + of_bool c)"
  shows "m = n + of_bool (a \<and> b \<or> c \<and> b \<or> a \<and> c)"
proof -
  have "m = (2 * m + of_bool p) div 2" by simp
  also have "\<dots> = n + (of_bool a + of_bool b + of_bool c) div 2" unfolding assms by simp
  also have "(of_bool a + of_bool b + of_bool c) div 2 = (of_bool (a \<and> b \<or> c \<and> b \<or> a \<and> c) :: nat)"
    by (cases a; cases b; cases c) simp_all
  finally show ?thesis .
qed

lemma carryAt_drop:
  fixes x y :: "'a :: len word"
  assumes "i \<le> LENGTH('a)"
  shows "drop_bit i (unat x + unat y) = drop_bit i (unat x) + drop_bit i (unat y) + of_bool (carryAt x y i)"
  using assms
proof (induction i)
  case (Suc i)
  have b: "bit (unat x) i = bit x i" "bit (unat y) i = bit y i" using Suc.prems
    by (simp_all add: bit_unsigned_iff)
  have "2 * drop_bit (Suc i) (unat x + unat y) + of_bool (bit (unat x + unat y) i) =
      2 * (drop_bit (Suc i) (unat x) + drop_bit (Suc i) (unat y)) +
      (of_bool (bit x i) + of_bool (bit y i) + of_bool (carryAt x y i))"
    using Suc drop_bit_odd [of i "unat x"] drop_bit_odd [of i "unat y"] drop_bit_odd [of i "unat x + unat y"]
    by (simp add: b)
  from half_sum [OF this] show ?case by (simp only: carryAt.simps)
qed simp

lemma bit_word_plus:
  fixes x y :: "'a :: len word"
  assumes "i < LENGTH('a)"
  shows "bit (x + y) i = ((bit x i \<noteq> bit y i) \<noteq> carryAt x y i)"
proof -
  have "bit (x + y) i = bit (unat (x + y)) i" using assms by (simp add: bit_unsigned_iff)
  also have "\<dots> = bit (unat x + unat y) i"
    using assms by (simp add: unat_word_ariths bit_take_bit_iff flip: take_bit_eq_mod)
  also have "\<dots> = odd (drop_bit i (unat x) + drop_bit i (unat y) + of_bool (carryAt x y i))"
    using assms by (simp add: bit_iff_odd_drop_bit carryAt_drop)
  also have "\<dots> = ((bit (unat x) i \<noteq> bit (unat y) i) \<noteq> carryAt x y i)"
    by (auto simp: bit_iff_odd_drop_bit)
  finally show ?thesis using assms by (simp add: bit_unsigned_iff)
qed

section \<open>Words in a circuit\<close>

context gate_circuit
begin

lemma freeGate_step:
  assumes "grown S T m" and "room T 1" and "sees S a va" and "sees S b vb"
    and "op \<in> set gateOperations" and "opBool op va vb = v"
  shows "runs (freeGate op a b) T (\<lambda>x U. grown T U 1 \<and> fresh x \<and> sees U x v)"
  using freeGate_grown [OF grown_circ [OF assms(1)] assms(2) sees_grown [OF assms(3,1)] sees_grown [OF assms(4,1)] assms(5)]
  by (simp add: assms(6))

lemma mapP_gates:
  assumes S: "circ S" and room: "room S (c * length is)"
    and f: "\<And>i T m. i \<in> set is \<Longrightarrow> grown S T m \<Longrightarrow> room T c \<Longrightarrow>
              runs (f i) T (\<lambda>x U. grown T U c \<and> R x \<and> sees U x (v i))"
  shows "runs (mapP f is) S (\<lambda>xs T. grown S T (c * length is) \<and> length xs = length is \<and>
           (\<forall>i<length is. R (xs ! i) \<and> sees T (xs ! i) (v (is ! i))))"
proof -
  let ?J = "\<lambda>xs T. grown S T (c * length xs) \<and>
    (\<forall>i<length xs. R (xs ! i) \<and> sees T (xs ! i) (v (is ! i)))"
  have "runs (mapP f is) S (\<lambda>xs T. length xs = length is \<and> ?J xs T)"
  proof (rule runs_mapP)
    fix xs T assume l: "length xs < length is" and J: "?J xs T"
    have "room S (c * length xs + c)"
      by (rule room_less [OF room]) (use mult_le_mono2 [OF l [unfolded less_eq_Suc_le], of c] in \<open>simp add: algebra_simps\<close>)
    with J have "room T c" using grown_room by blast
    then have run: "runs (f (is ! length xs)) T
        (\<lambda>x U. grown T U c \<and> R x \<and> sees U x (v (is ! length xs)))"
      using f [of "is ! length xs" T] l J by auto
    show "runs (f (is ! length xs)) T (\<lambda>x. ?J (xs @ [x]))"
    proof (rule runs_conseq [OF run], intro conjI allI impI, goal_cases)
      case (1 x U)
      with J show ?case using grown_trans [of S T "c * length xs" U c] by (simp add: algebra_simps)
    next
      case (2 x U i)
      with J show ?case by (cases "i < length xs") (auto simp: nth_append)
    next
      case (3 x U i)
      then have "i < length xs \<or> i = length xs" by auto
      with 3 J show ?case by (auto simp: nth_append intro: sees_grown)
    qed
  qed (use S in \<open>simp add: grown_refl\<close>)
  then show ?thesis
  proof (rule runs_conseq)
    fix xs T assume "length xs = length is \<and> ?J xs T"
    then show "grown S T (c * length is) \<and> length xs = length is \<and>
           (\<forall>i<length is. R (xs ! i) \<and> sees T (xs ! i) (v (is ! i)))" by metis
  qed
qed

definition holds :: "GateState \<Rightarrow> GateBit list \<Rightarrow> 'a :: len word \<Rightarrow> bool" where
  "holds S bs w \<longleftrightarrow> length bs = LENGTH('a) \<and> (\<forall>i<LENGTH('a). sees S (bs ! i) (bit w i))"

lemma holds_grown: "holds S bs w \<Longrightarrow> grown S T n \<Longrightarrow> holds T bs w"
  by (auto simp: holds_def intro: sees_grown)

lemma holds_extends:
  assumes "holds S bs w" and "extends X S T n" and "set bs \<inter> X = {}"
  shows "holds T bs w"
proof -
  have "bs ! i \<notin> X" if "i < length bs" for i using assms(3) nth_mem [OF that] by blast
  then show ?thesis using assms(1) sees_extends [OF _ assms(2)] by (simp add: holds_def)
qed

lemma holds_sees: "holds S bs (w :: 'a :: len word) \<Longrightarrow> i < LENGTH('a) \<Longrightarrow> sees S (bs ! i) (bit w i)"
  by (simp add: holds_def)

text \<open>The three loops that build one gate per bit.\<close>

lemma bitwise_grown:
  fixes x :: "'a :: len word"
  assumes "circ S" and "room S LENGTH('a)"
    and f: "\<And>i T m. i < LENGTH('a) \<Longrightarrow> grown S T m \<Longrightarrow> room T 1 \<Longrightarrow>
              runs (f i) T (\<lambda>b U. grown T U 1 \<and> fresh b \<and> sees U b (bit x i))"
  shows "runs (mapP f [0..<LENGTH('a)]) S
    (\<lambda>r T. grown S T LENGTH('a) \<and> list_all fresh r \<and> holds T r x)"
proof -
  have "runs (mapP f [0..<LENGTH('a)]) S (\<lambda>xs T. grown S T (1 * length [0..<LENGTH('a)]) \<and>
     length xs = length [0..<LENGTH('a)] \<and>
     (\<forall>i<length [0..<LENGTH('a)]. fresh (xs ! i) \<and> sees T (xs ! i) (bit x ([0..<LENGTH('a)] ! i))))"
    using assms by (intro mapP_gates) auto
  then show ?thesis by (rule runs_conseq) (auto simp: holds_def list_all_length)
qed

lemma gateXor_grown:
  assumes "circ S" and "room S LENGTH('a)" and "holds S a x" and "holds S b (y :: 'a :: len word)"
  shows "runs (gateXor LENGTH('a) a b) S
    (\<lambda>r T. grown S T LENGTH('a) \<and> list_all fresh r \<and> holds T r (x XOR y))"
  unfolding gateXor_def
proof (rule bitwise_grown [OF assms(1,2)])
  fix i T m assume "i < LENGTH('a)" "grown S T m" "room T 1"
  then show "runs (freeGate gop_xor (a ! i) (b ! i)) T
      (\<lambda>c U. grown T U 1 \<and> fresh c \<and> sees U c (bit (x XOR y) i))"
    using freeGate_step [OF _ _ holds_sees [OF assms(3)] holds_sees [OF assms(4)], of T m i i gop_xor]
    by (simp add: gateOperations_def bit_xor_iff)
qed

lemma gateAnd_grown:
  assumes "circ S" and "room S LENGTH('a)" and "holds S a x" and "holds S b (y :: 'a :: len word)"
  shows "runs (gateAnd LENGTH('a) a b) S
    (\<lambda>r T. grown S T LENGTH('a) \<and> list_all fresh r \<and> holds T r (x AND y))"
  unfolding gateAnd_def
proof (rule bitwise_grown [OF assms(1,2)])
  fix i T m assume "i < LENGTH('a)" "grown S T m" "room T 1"
  then show "runs (freeGate gop_and (a ! i) (b ! i)) T
      (\<lambda>c U. grown T U 1 \<and> fresh c \<and> sees U c (bit (x AND y) i))"
    using freeGate_step [OF _ _ holds_sees [OF assms(3)] holds_sees [OF assms(4)], of T m i i gop_and]
    by (simp add: gateOperations_def bit_and_iff)
qed

lemma gateXorBit_grown:
  assumes "circ S" and "room S LENGTH('a)" and "holds S a (x :: 'a :: len word)" and "sees S b v"
  shows "runs (gateXorBit LENGTH('a) a b) S
    (\<lambda>r T. grown S T LENGTH('a) \<and> list_all fresh r \<and> holds T r (if v then NOT x else x))"
  unfolding gateXorBit_def
proof (rule bitwise_grown [OF assms(1,2)])
  fix i T m assume "i < LENGTH('a)" "grown S T m" "room T 1"
  then show "runs (freeGate gop_xor (a ! i) b) T
      (\<lambda>c U. grown T U 1 \<and> fresh c \<and> sees U c (bit (if v then NOT x else x) i))"
    using freeGate_step [OF _ _ holds_sees [OF assms(3)] assms(4), of T m i gop_xor]
    by (cases v) (simp_all add: gateOperations_def bit_not_iff)
qed

lemma gateNot_grown:
  assumes "circ S" and "room S LENGTH('a)" and "holds S a (x :: 'a :: len word)"
  shows "runs (gateNot LENGTH('a) a) S
    (\<lambda>r T. grown S T LENGTH('a) \<and> list_all fresh r \<and> holds T r (NOT x))"
  unfolding gateNot_def
proof (rule bitwise_grown [OF assms(1,2)], rule runs_bindP, rule runs_getP)
  fix i T m assume "i < LENGTH('a)" "grown S T m" "room T 1"
  then show "runs (freeGate gop_xor (a ! i) (zeroRef (gateConfig T), pin_b)) T
      (\<lambda>c U. grown T U 1 \<and> fresh c \<and> sees U c (bit (NOT x) i))"
    using freeGate_step [OF _ _ holds_sees [OF assms(3)] sees_zero(2) [OF assms(1)], of T m i gop_xor]
    by (simp add: circ_config [OF grown_circ] gateOperations_def bit_not_iff)
qed

text \<open>Rotations and shifts only move references.\<close>

lemma gateRotateRight_holds:
  fixes x :: "'a :: len word"
  assumes "holds S a x"
  shows "holds S (gateRotateRight LENGTH('a) a n) (word_rotr n x)"
  using assms by (auto simp: holds_def gateRotateRight_def bit_word_rotr_iff)

lemma gateShiftRight_holds:
  fixes x :: "'a :: len word"
  assumes "circ S" and "holds S a x"
  shows "holds S (gateShiftRight cfg LENGTH('a) a n) (drop_bit n x)"
proof -
  have "sees S (gateShiftRight cfg LENGTH('a) a n ! i) (bit (drop_bit n x) i)" if "i < LENGTH('a)" for i
  proof (cases "i < LENGTH('a) - n")
    case True
    then have "(i + n) mod LENGTH('a) = i + n" by simp
    with True that assms show ?thesis by (simp add: gateShiftRight_def holds_def bit_drop_bit_eq add.commute)
  next
    case False
    then have "\<not> bit x (i + n)" using bit_imp_le_length [of x "i + n"] by auto
    with False that sees_zero(1) [OF assms(1)] show ?thesis
      by (simp add: gateShiftRight_def bit_drop_bit_eq add.commute)
  qed
  then show ?thesis using assms(2) by (simp add: holds_def gateShiftRight_def)
qed

end

section \<open>The ripple-carry adder\<close>

text \<open>The gates of the first j bits of an adder of n bits.\<close>

definition addBitCost :: "nat \<Rightarrow> nat" where
  "addBitCost i = (if i = 0 then 1 else 2)"

definition addCarryCost :: "nat \<Rightarrow> nat \<Rightarrow> nat" where
  "addCarryCost n i = (if i = 0 then 1 else if i < n - 1 then 5 else 0)"

definition addCost :: "nat \<Rightarrow> nat \<Rightarrow> nat" where
  "addCost n j = (if j = 0 then 0 else if j < n then 7 * j - 5 else 7 * n - 10)"

context gate_circuit
begin

lemma freeGate_bind:
  assumes "grown S T m" and "room S (m + 1)" and "sees S a va \<or> sees T a va" and "sees S b vb \<or> sees T b vb"
    and "op \<in> set gateOperations"
    and "\<And>x U. grown S U (m + 1) \<Longrightarrow> (\<And>c v. sees T c v \<Longrightarrow> sees U c v) \<Longrightarrow> fresh x \<Longrightarrow>
           sees U x (opBool op va vb) \<Longrightarrow> runs (f x) U Q"
  shows "runs (bindP (freeGate op a b) f) T Q"
proof (rule runs_bindP, rule runs_conseq)
  have "sees T a va" "sees T b vb" using assms(1,3,4) sees_grown by blast+
  then show "runs (freeGate op a b) T (\<lambda>x U. grown T U 1 \<and> fresh x \<and> sees U x (opBool op va vb))"
    by (rule freeGate_grown [OF grown_circ [OF assms(1)] grown_room [OF assms(1,2)] _ _ assms(5)])
next
  fix x U assume "grown T U 1 \<and> fresh x \<and> sees U x (opBool op va vb)"
  then show "runs (f x) U Q"
    using assms(6) grown_trans [OF assms(1)] sees_grown by blast
qed

lemma freeGate_end:
  assumes "grown S T m" and "room S (m + 1)" and "sees S a va \<or> sees T a va" and "sees S b vb \<or> sees T b vb"
    and "op \<in> set gateOperations"
    and "\<And>x U. grown S U (m + 1) \<Longrightarrow> fresh x \<Longrightarrow> sees U x (opBool op va vb) \<Longrightarrow> Q x U"
  shows "runs (freeGate op a b) T Q"
proof -
  have "bindP (freeGate op a b) retP = freeGate op a b"
    by (rule ext) (auto simp: bindP_def retP_def split: prod.splits outcome.splits)
  moreover have "runs (bindP (freeGate op a b) retP) T Q"
    by (rule freeGate_bind [OF assms(1-5)], rule runs_retP, rule assms(6))
  ultimately show ?thesis by simp
qed

lemma gateAddBit_grown:
  assumes "circ S" and "room S (addBitCost i)" and "sees S a va" and "sees S b vb" and "0 < i \<longrightarrow> sees S carry c" and "i = 0 \<longrightarrow> \<not> c"
  shows "runs (gateAddBit a b carry i) S
    (\<lambda>x T. grown S T (addBitCost i) \<and> fresh x \<and> sees T x ((va \<noteq> vb) \<noteq> c))"
proof (cases "i = 0")
  case True
  then show ?thesis using assms unfolding gateAddBit_def
    by (auto simp: gateOperations_def addBitCost_def intro!: freeGate_end [OF grown_refl])
next
  case False
  have op: "gop_xor \<in> set gateOperations" by (simp add: gateOperations_def)
  have c: "sees S carry c" using assms(5) False by simp
  have cost: "addBitCost i = 2" using False by (simp add: addBitCost_def)
  show ?thesis unfolding gateAddBit_def if_not_P [OF False] cost
  proof (rule freeGate_bind [OF grown_refl [OF assms(1)] _ disjI1 [OF assms(3)] disjI1 [OF assms(4)] op])
    show "room S (0 + 1)" by (rule room_less [OF assms(2)]) (simp add: cost)
    fix x U
    assume U: "grown S U (0 + 1)" "sees U x (opBool gop_xor va vb)"
    show "runs (freeGate gop_xor x carry) U (\<lambda>x T. grown S T 2 \<and> fresh x \<and> sees T x ((va \<noteq> vb) \<noteq> c))"
      by (rule freeGate_end [OF U(1) _ disjI2 [OF U(2)] disjI1 [OF c] op]) (use assms(2) in \<open>simp_all add: cost numeral_2_eq_2\<close>)
  qed
qed

lemma gateAddCarry_grown:
  assumes S: "circ S" and room: "room S (addCarryCost n i)" and a: "sees S a va" and b: "sees S b vb"
    and c: "0 < i \<longrightarrow> sees S carry c" and c0: "i = 0 \<longrightarrow> \<not> c"
  shows "runs (gateAddCarry n a b carry i) S
    (\<lambda>x T. grown S T (addCarryCost n i) \<and>
           (i < n - 1 \<or> i = 0 \<longrightarrow> sees T x (va \<and> vb \<or> c \<and> vb \<or> va \<and> c)))"
proof -
  consider "i = 0" | "0 < i" "i < n - 1" | "0 < i" "\<not> i < n - 1" by auto
  then show ?thesis
  proof cases
    case 1
    show ?thesis unfolding gateAddCarry_def if_P [OF 1]
      by (rule freeGate_end [OF grown_refl [OF S] room_less [OF room] disjI1 [OF a] disjI1 [OF b]])
        (use c0 1 in \<open>auto simp: gateOperations_def addCarryCost_def\<close>)
  next
    case 2
    have ops: "gop_and \<in> set gateOperations" "gop_or \<in> set gateOperations" by (simp_all add: gateOperations_def)
    have c: "sees S carry c" using c 2 by simp
    have room: "room S 5" using room 2 by (simp add: addCarryCost_def)
    have "runs (bindP (freeGate gop_and a b) (\<lambda>and1.
        bindP (freeGate gop_and carry b) (\<lambda>and2.
        bindP (freeGate gop_and a carry) (\<lambda>and3.
        bindP (freeGate gop_or and1 and2) (\<lambda>or1.
        freeGate gop_or or1 and3))))) S
      (\<lambda>x T. grown S T 5 \<and> sees T x (va \<and> vb \<or> c \<and> vb \<or> va \<and> c))"
    proof (rule freeGate_bind [OF grown_refl [OF S] _ disjI1 [OF a] disjI1 [OF b] ops(1)])
      show "room S (0 + 1)" by (rule room_less [OF room]) simp
      fix and1 T1
      assume T1: "grown S T1 (0 + 1)" "sees T1 and1 (opBool gop_and va vb)"
      show "runs (bindP (freeGate gop_and carry b) (\<lambda>and2. bindP (freeGate gop_and a carry) (\<lambda>and3.
          bindP (freeGate gop_or and1 and2) (\<lambda>or1. freeGate gop_or or1 and3)))) T1
          (\<lambda>x T. grown S T 5 \<and> sees T x (va \<and> vb \<or> c \<and> vb \<or> va \<and> c))"
      proof (rule freeGate_bind [OF T1(1) _ disjI1 [OF c] disjI1 [OF b] ops(1)])
        show "room S (0 + 1 + 1)" by (rule room_less [OF room]) simp
        fix and2 T2
        assume T2: "grown S T2 (0 + 1 + 1)" "\<And>c v. sees T1 c v \<Longrightarrow> sees T2 c v" "sees T2 and2 (opBool gop_and c vb)"
        show "runs (bindP (freeGate gop_and a carry) (\<lambda>and3.
            bindP (freeGate gop_or and1 and2) (\<lambda>or1. freeGate gop_or or1 and3))) T2
            (\<lambda>x T. grown S T 5 \<and> sees T x (va \<and> vb \<or> c \<and> vb \<or> va \<and> c))"
        proof (rule freeGate_bind [OF T2(1) _ disjI1 [OF a] disjI1 [OF c] ops(1)])
          show "room S (0 + 1 + 1 + 1)" by (rule room_less [OF room]) simp
          fix and3 T3
          assume T3: "grown S T3 (0 + 1 + 1 + 1)" "\<And>c v. sees T2 c v \<Longrightarrow> sees T3 c v"
            "sees T3 and3 (opBool gop_and va c)"
          show "runs (bindP (freeGate gop_or and1 and2) (\<lambda>or1. freeGate gop_or or1 and3)) T3
              (\<lambda>x T. grown S T 5 \<and> sees T x (va \<and> vb \<or> c \<and> vb \<or> va \<and> c))"
          proof (rule freeGate_bind [OF T3(1) _ disjI2 [OF T3(2) [OF T2(2) [OF T1(2)]]] disjI2 [OF T3(2) [OF T2(3)]] ops(2)])
            show "room S (0 + 1 + 1 + 1 + 1)" by (rule room_less [OF room]) simp
            fix or1 T4
            assume T4: "grown S T4 (0 + 1 + 1 + 1 + 1)" "\<And>c v. sees T3 c v \<Longrightarrow> sees T4 c v"
              "sees T4 or1 (opBool gop_or (opBool gop_and va vb) (opBool gop_and c vb))"
            show "runs (freeGate gop_or or1 and3) T4
                (\<lambda>x T. grown S T 5 \<and> sees T x (va \<and> vb \<or> c \<and> vb \<or> va \<and> c))"
            proof (rule freeGate_end [OF T4(1) _ disjI2 [OF T4(3)] disjI2 [OF T4(2) [OF T3(3)]] ops(2)])
              show "room S (0 + 1 + 1 + 1 + 1 + 1)" by (rule room_less [OF room]) simp
            qed (simp add: eval_nat_numeral)
          qed
        qed
      qed
    qed
    then show ?thesis using 2 by (simp add: gateAddCarry_def addCarryCost_def)
  next
    case 3
    then show ?thesis using S by (auto simp: gateAddCarry_def addCarryCost_def intro!: runs_retP grown_refl)
  qed
qed

end

context gate_circuit
begin

lemma gateAdd_grown:
  fixes x y :: "'a :: len word"
  assumes S: "circ S" and n: "2 \<le> LENGTH('a)" and room: "room S (7 * LENGTH('a) - 10)"
    and x: "holds S a x" and y: "holds S b y"
  shows "runs (gateAdd LENGTH('a) a b) S
    (\<lambda>r T. grown S T (7 * LENGTH('a) - 10) \<and> list_all fresh r \<and> holds T r (x + y))"
proof -
  let ?n = "LENGTH('a)"
  let ?I = "\<lambda>j (carry, r) T. grown S T (addCost ?n j) \<and> (j < ?n \<longrightarrow> sees T carry (carryAt x y j)) \<and>
    length r = j \<and> (\<forall>i<j. fresh (r ! i) \<and> sees T (r ! i) (bit (x + y) i))"
  let ?f = "\<lambda>i (carry, r). bindP (gateAddBit (a ! i) (b ! i) carry i) (\<lambda>x.
       bindP (gateAddCarry ?n (a ! i) (b ! i) carry i) (\<lambda>carry. retP (carry, r @ [x])))"
  have "runs (foldP ?f [0..<?n] ((zeroRef (gateConfig S), pin_a), [])) S (?I (length [0..<?n]))"
  proof (rule runs_foldP)
    show "?I 0 ((zeroRef (gateConfig S), pin_a), []) S"
      using S by (simp add: addCost_def grown_refl sees_zero circ_config)
  next
    fix j s T assume j: "j < length [0..<?n]" and I: "?I j s T"
    obtain carry r where s: "s = (carry, r)" by (cases s)
    have g: "grown S T (addCost ?n j)" and jn: "j < ?n" and carry: "sees T carry (carryAt x y j)"
      and r: "length r = j" "\<And>i. i < j \<Longrightarrow> fresh (r ! i) \<and> sees T (r ! i) (bit (x + y) i)"
      using I j by (auto simp: s)
    have a: "sees T (a ! j) (bit x j)" and b: "sees T (b ! j) (bit y j)"
      using jn x y g by (auto simp: holds_def intro: sees_grown)
    have cost: "addCost ?n (Suc j) = addCost ?n j + addBitCost j + addCarryCost ?n j"
      using jn n by (auto simp: addCost_def addBitCost_def addCarryCost_def)
    have "addCost ?n (Suc j) \<le> 7 * ?n - 10" using jn n by (auto simp: addCost_def)
    then have room': "room S (addCost ?n j + addBitCost j + addCarryCost ?n j)"
      using room_less [OF room] by (simp add: cost)
    have room2: "room T (addBitCost j)" by (rule grown_room [OF g]) (rule room_less [OF room'], simp)
    have run: "runs (gateAddBit (a ! j) (b ! j) carry j) T
        (\<lambda>z U. grown T U (addBitCost j) \<and> fresh z \<and> sees U z (bit (x + y) j))"
      using gateAddBit_grown [OF grown_circ [OF g] room2 a b, of carry "carryAt x y j"] carry
      by (auto simp: bit_word_plus [OF jn])
    have j': "[0..<?n] ! j = j" using jn by simp
    show "runs (?f ([0..<?n] ! j) s) T (?I (Suc j))"
      unfolding s prod.case j'
    proof (rule runs_bindP, rule runs_conseq [OF run], elim conjE)
      fix z U assume U: "grown T U (addBitCost j)" "fresh z" "sees U z (bit (x + y) j)"
      have SU: "grown S U (addCost ?n j + addBitCost j)" using grown_trans [OF g U(1)] .
      have carry_run: "runs (gateAddCarry ?n (a ! j) (b ! j) carry j) U (\<lambda>c V.
          grown U V (addCarryCost ?n j) \<and>
          (j < ?n - 1 \<or> j = 0 \<longrightarrow> sees V c (bit x j \<and> bit y j \<or> carryAt x y j \<and> bit y j \<or> bit x j \<and> carryAt x y j)))"
        by (rule gateAddCarry_grown [OF grown_circ [OF SU] grown_room [OF SU room'] sees_grown [OF a U(1)]
              sees_grown [OF b U(1)]]) (use sees_grown [OF carry U(1)] in auto)
      show "runs (bindP (gateAddCarry ?n (a ! j) (b ! j) carry j) (\<lambda>c. retP (c, r @ [z]))) U (?I (Suc j))"
      proof (rule runs_bindP, rule runs_conseq [OF carry_run], rule runs_retP, unfold prod.case, intro conjI allI impI; elim conjE)
        fix c V assume V: "grown U V (addCarryCost ?n j)"
        show "grown S V (addCost ?n (Suc j))" unfolding cost by (rule grown_trans [OF SU V])
        show "length (r @ [z]) = Suc j" by (simp add: r)
        have TV: "grown T V (addBitCost j + addCarryCost ?n j)" by (rule grown_trans [OF U(1) V])
        fix i assume "i < Suc j"
        then consider "i < j" | "i = j" by linarith
        then show "fresh ((r @ [z]) ! i)" "sees V ((r @ [z]) ! i) (bit (x + y) i)"
          using r U sees_grown [OF _ TV] sees_grown [OF _ V] by (cases; simp add: nth_append)+
      qed (simp add: n)
    qed
  qed
  then have "runs (foldP ?f [0..<?n] ((zeroRef (gateConfig S), pin_a), [])) S
      (\<lambda>(c, r) T. runs (retP r) T (\<lambda>r T. grown S T (7 * ?n - 10) \<and> list_all fresh r \<and> holds T r (x + y)))"
    by (rule runs_conseq) (auto simp: addCost_def holds_def list_all_length intro!: runs_retP)
  then show ?thesis unfolding gateAdd_def
    by (intro runs_bindP runs_getP) (auto elim!: runs_conseq)
qed

text \<open>Constants, and the value of a word in the bits the state keeps.\<close>

lemma gateBits_holds:
  fixes x :: "'a :: len word"
  assumes S: "circ S" and l: "length bs = LENGTH('a)" and b: "\<And>i. i < LENGTH('a) \<Longrightarrow> bs ! i = of_bool (bit x i)"
  shows "\<exists>r. mapO (gateBitOf cfg) bs = Ret r \<and> holds S r x"
proof -
  let ?g = "\<lambda>v :: u8. (zeroRef cfg, if v = 0 then pin_a else pin_b)"
  have "mapO (gateBitOf cfg) bs = Ret (map ?g bs)"
    by (rule mapO_Ret) (use l b in \<open>auto simp: gateBitOf_def in_set_conv_nth\<close>)
  moreover have "holds S (map ?g bs) x"
    using sees_zero [OF S] l b by (auto simp: holds_def)
  ultimately show ?thesis by blast
qed

lemma fromU32_holds: "circ S \<Longrightarrow> \<exists>r. GateU32_fromU32 cfg x = Ret r \<and> holds S r x"
  unfolding GateU32_fromU32_def by (rule gateBits_holds) (simp_all add: u322bits_eq)

lemma fromU64_holds: "circ S \<Longrightarrow> \<exists>r. GateU64_fromU64 cfg x = Ret r \<and> holds S r x"
  unfolding GateU64_fromU64_def by (rule gateBits_holds) (simp_all add: u642bits_eq)

lemma holds_bits:
  fixes x :: "'a :: len word"
  assumes "e = e0" and "circ S" and "holds S bs x"
  shows "map (bitAt S) bs = map (\<lambda>i. of_bool (bit x i)) [0..<LENGTH('a)]"
  using assms unfolding circ_def holds_def sees_def by (auto intro!: nth_equalityI)

lemma toU32_runs: "e = e0 \<Longrightarrow> circ S \<Longrightarrow> holds S bs x \<Longrightarrow> runs (GateU32_toU32 bs) S (\<lambda>y T. y = x \<and> T = S)"
  unfolding GateU32_toU32_def
  by (rule runs_bindP, rule runs_getP, rule runs_liftP)
    (simp_all add: holds_bits [where 'a = 32, simplified] bits2u32_u322bits flip: u322bits_eq)

lemma toU64_runs: "e = e0 \<Longrightarrow> circ S \<Longrightarrow> holds S bs x \<Longrightarrow> runs (GateU64_toU64 bs) S (\<lambda>y T. y = x \<and> T = S)"
  unfolding GateU64_toU64_def
  by (rule runs_bindP, rule runs_getP, rule runs_liftP)
    (simp_all add: holds_bits [where 'a = 64, simplified] bits2u64_u642bits flip: u642bits_eq)

text \<open>Reading a word always succeeds; its value is known where the values followed are the initial bits'.\<close>

lemma bitAt_01: "circ S \<Longrightarrow> set (map (bitAt S) bs) \<subseteq> {0, 1}"
  unfolding circ_def by auto

lemma toU32_value:
  assumes S: "circ S" and h: "holds S bs x"
  shows "runs (GateU32_toU32 bs) S (\<lambda>y T. (e = e0 \<longrightarrow> y = x) \<and> T = S)"
proof (cases "e = e0")
  case True
  then show ?thesis using toU32_runs [OF True S h] by simp
next
  case False
  have "set (rev (map (bitAt S) bs)) \<subseteq> {0, 1}" "length bs = 32"
    using bitAt_01 [OF S] h by (simp_all add: holds_def)
  then have "\<exists>y. bits2u32 (map (bitAt S) bs) = Ret y"
    using bits2word_Ret [of "rev (map (bitAt S) bs)" "0 :: u32"] by (simp add: bits2u32_def)
  then show ?thesis using False unfolding GateU32_toU32_def
    by (auto intro!: runs_bindP runs_getP runs_liftP)
qed

lemma toU64_value:
  assumes S: "circ S" and h: "holds S bs x"
  shows "runs (GateU64_toU64 bs) S (\<lambda>y T. (e = e0 \<longrightarrow> y = x) \<and> T = S)"
proof (cases "e = e0")
  case True
  then show ?thesis using toU64_runs [OF True S h] by simp
next
  case False
  have "set (rev (map (bitAt S) bs)) \<subseteq> {0, 1}" "length bs = 64"
    using bitAt_01 [OF S] h by (simp_all add: holds_def)
  then have "\<exists>y. bits2u64 (map (bitAt S) bs) = Ret y"
    using bits2word_Ret [of "rev (map (bitAt S) bs)" "0 :: u64"] by (simp add: bits2u64_def)
  then show ?thesis using False unfolding GateU64_toU64_def
    by (auto intro!: runs_bindP runs_getP runs_liftP)
qed

end

end
