(* ===== verification/Gate_Slots.thy ===== *)
theory Gate_Slots
  imports Gate_Words
begin

text \<open>
  What the circuits of SHA-256, Keccak-f and BLAKE2b share: configurations whose inputs and outputs are
  every 44th gate, so that the number of references used fixes the next one; the start of a circuit,
  when its inputs are set; and rules that take a circuit one word operation further.
\<close>

section \<open>Configurations with evenly spaced inputs and outputs\<close>

definition slotConfig :: "nat \<Rightarrow> nat \<Rightarrow> nat \<Rightarrow> nat \<Rightarrow> nat \<Rightarrow> GateConfig" where
  "slotConfig slot refs n m len = \<lparr>zeroRef = 0, slotSize = slot, maxRefs = refs, firstNextRef = 1,
     sinRef0 = 45, sinRefNumber = n, sinRefDistance = 44,
     soutRef0 = 45 + n * 44, soutRefNumber = m, soutRefDistance = 44, polLength = len\<rparr>"

lemma spaced: "a \<le> r \<Longrightarrow> r \<le> a + (n - 1) * 44 \<Longrightarrow> (r - a) mod 44 = 0 \<Longrightarrow> 0 < n \<Longrightarrow> \<exists>i<n. r = a + i * 44" for a r n :: nat
  by (rule exI [of _ "(r - a) div 44"]) (auto simp: less_Suc_eq_le div_le_mono [of _ _ 44, simplified] intro!: div_less_iff_less_mult [THEN iffD2])

lemma skipped_slot:
  assumes "0 < n" and "0 < m"
  shows "skipped (slotConfig s k n m l) r \<longleftrightarrow> r = 0 \<or> (\<exists>i<n + m. r = 45 + i * 44)"
proof
  assume "skipped (slotConfig s k n m l) r"
  then consider "r = 0" | "sinGate (slotConfig s k n m l) r" | "soutGate (slotConfig s k n m l) r"
    by (auto simp: skipped_def slotConfig_def)
  then show "r = 0 \<or> (\<exists>i<n + m. r = 45 + i * 44)"
  proof cases
    case 2
    then have "\<exists>i<n. r = 45 + i * 44"
      using assms by (intro spaced) (simp_all add: sinGate_def slotConfig_def)
    then show ?thesis using trans_less_add1 by blast
  next
    case 3
    then have "\<exists>i<m. r = 45 + n * 44 + i * 44"
      using assms by (intro spaced) (simp_all add: soutGate_def slotConfig_def)
    then obtain i where "i < m" "r = 45 + (n + i) * 44" by (auto simp: algebra_simps)
    then show ?thesis using add_strict_left_mono by blast
  qed simp
next
  assume "r = 0 \<or> (\<exists>i<n + m. r = 45 + i * 44)"
  then consider "r = 0" | i where "i < n" "r = 45 + i * 44" | i where "i < m" "r = 45 + (n + i) * 44"
    by (metis add_less_cancel_left le_add_diff_inverse linorder_not_less)
  then show "skipped (slotConfig s k n m l) r"
    by cases (auto simp: skipped_def sinGate_def soutGate_def slotConfig_def algebra_simps)
qed

lemma card_freeBelow_slot:
  assumes "0 < n" and "0 < m"
  shows "q \<le> card (freeBelow (slotConfig s k n m l) q) + n + m + 1"
    and "45 + 44 * (n + m) \<le> q \<Longrightarrow> card (freeBelow (slotConfig s k n m l) q) + n + m + 1 = q"
proof -
  let ?A = "(\<lambda>i. 45 + i * 44) ` {..<n + m}"
  have free: "freeBelow (slotConfig s k n m l) q = {1..<q} - ?A"
    using skipped_slot [OF assms] by (auto simp: freeBelow_def slotConfig_def)
  have A: "card ?A = n + m" by (subst card_image) (auto intro: inj_onI)
  have "card {1..<q} - card ?A \<le> card ({1..<q} - ?A)" by (rule diff_card_le_card_Diff) simp
  then show "q \<le> card (freeBelow (slotConfig s k n m l) q) + n + m + 1" unfolding free A by simp
  assume q: "45 + 44 * (n + m) \<le> q"
  then have "?A \<subseteq> {1..<q}" by auto
  then have "card ({1..<q} - ?A) = card {1..<q} - card ?A" by (intro card_Diff_subset) auto
  then show "card (freeBelow (slotConfig s k n m l) q) + n + m + 1 = q" unfolding free A using q by simp
qed

text \<open>Once more references are taken than the inputs and outputs span, their number gives the next one.\<close>

lemma next_of_used:
  assumes "0 < n" and "0 < m" and "card (freeBelow (slotConfig s k n m l) q) = u" and "45 + 44 * (n + m) \<le> u"
  shows "q = u + n + m + 1"
proof -
  have "u \<le> card {..<q}" unfolding assms(3) [symmetric]
    by (rule card_mono) (auto simp: freeBelow_def)
  with assms card_freeBelow_slot(2) [of n m q s k l] show ?thesis by simp
qed

section \<open>Setting the inputs\<close>

text \<open>A word is written bit by bit into input gates, on their pin a; the word made of these pins is returned.\<close>

definition loadWord :: "GateConfig \<Rightarrow> nat \<Rightarrow> nat \<Rightarrow> u8 list \<Rightarrow> (GateState, GateBit list) prog" where
  "loadWord c n base bits =
     bindP (definedP (inArray c (map (\<lambda>j. sinRef c (base + j)) [0..<n]))) (\<lambda>_.
     bindP (modifyP (\<lambda>S. foldl (\<lambda>S j. setPin (sinRef c (base + j), pin_a)
         (\<lambda>x. x\<lparr>pinBit := bits ! j, pinSource := external\<rparr>) S) S [0..<n])) (\<lambda>_.
     retP (map (\<lambda>j. (sinRef c (base + j), pin_a)) [0..<n])))"

text \<open>The first n input bits have been set, to B; the program has k gates from before.\<close>

definition loadedSin :: "GateConfig \<Rightarrow> nat \<Rightarrow> nat \<Rightarrow> (nat \<Rightarrow> bool) \<Rightarrow> GateState \<Rightarrow> bool" where
  "loadedSin c k n B T \<longleftrightarrow> gateConfig T = c \<and> nextRef T = firstNextRef c \<and> length (program T) = k \<and>
     SinRefs T = map (sinRef c) [0..<sinRefNumber c] \<and> SoutRefs T = map (soutRef c) [0..<soutRefNumber c] \<and>
     (\<forall>i<n. bitAt T (sinRef c i, pin_a) = of_bool (B i)) \<and>
     (\<forall>x. (\<forall>i<n. x \<noteq> (sinRef c i, pin_a)) \<longrightarrow> bitAt T x = bitAt (newGateState c) x)"

lemma newGateState_loaded: "loadedSin c 0 0 B (newGateState c)"
  by (simp add: loadedSin_def newGateState_def resetBitsAndCounters_def Let_def)

lemma foldl_setPin_simps [simp]:
  "gateConfig (foldl (\<lambda>S j. setPin (f j) (g j) S) S js) = gateConfig S"
  "nextRef (foldl (\<lambda>S j. setPin (f j) (g j) S) S js) = nextRef S"
  "program (foldl (\<lambda>S j. setPin (f j) (g j) S) S js) = program S"
  "SinRefs (foldl (\<lambda>S j. setPin (f j) (g j) S) S js) = SinRefs S"
  "SoutRefs (foldl (\<lambda>S j. setPin (f j) (g j) S) S js) = SoutRefs S"
  by (induction js arbitrary: S) simp_all

lemma bitAt_foldl_setPin:
  assumes "\<And>j x. pinBit (g j x) = b j" and "inj f"
  shows "(i < n \<longrightarrow> bitAt (foldl (\<lambda>S j. setPin (f j) (g j) S) S [0..<n]) (f i) = b i) \<and>
         ((\<forall>j<n. x \<noteq> f j) \<longrightarrow> bitAt (foldl (\<lambda>S j. setPin (f j) (g j) S) S [0..<n]) x = bitAt S x)"
  using assms by (induction n) (auto simp: bitAt_setPin less_Suc_eq inj_eq)

lemma loadWord_loaded:
  assumes T: "loadedSin c k n B T" and d: "0 < sinRefDistance c" and b: "\<And>j. j < l \<Longrightarrow> bits ! j = of_bool (B (n + j))"
    and r: "\<And>j. j < l \<Longrightarrow> sinRef c (n + j) < maxRefs c"
  shows "runs (loadWord c l n bits) T (\<lambda>r U. r = map (\<lambda>j. (sinRef c (n + j), pin_a)) [0..<l] \<and> loadedSin c k (n + l) B U)"
proof -
  let ?f = "\<lambda>j. (sinRef c (n + j), pin_a)"
  let ?U = "foldl (\<lambda>S j. setPin (?f j) (\<lambda>x. x\<lparr>pinBit := bits ! j, pinSource := external\<rparr>) S) T [0..<l]"
  have inj: "inj ?f" using d by (auto simp: inj_def sinRef_def)
  note bits = bitAt_foldl_setPin [of "\<lambda>j x. x\<lparr>pinBit := bits ! j, pinSource := external\<rparr>" "\<lambda>j. bits ! j" ?f, OF _ inj, simplified]
  have "loadedSin c k (n + l) B ?U"
    unfolding loadedSin_def
  proof (intro conjI allI impI)
    fix i assume i: "i < n + l"
    show "bitAt ?U (sinRef c i, pin_a) = of_bool (B i)"
    proof (cases "i < n")
      case True
      then have "\<forall>j<l. (sinRef c i, pin_a) \<noteq> ?f j" using d by (auto simp: sinRef_def)
      then have "bitAt ?U (sinRef c i, pin_a) = bitAt T (sinRef c i, pin_a)" using bits [of 0 l T "(sinRef c i, pin_a)"] by simp
      with True T show ?thesis by (simp add: loadedSin_def)
    next
      case False
      with i show ?thesis using bits [of "i - n" l T] b [of "i - n"] by simp
    qed
  next
    fix x assume x: "\<forall>i<n + l. x \<noteq> (sinRef c i, pin_a)"
    then have "bitAt ?U x = bitAt T x" using bits [of 0 l T x] by (auto simp del: prod.inject)
    moreover have "\<forall>i<n. x \<noteq> (sinRef c i, pin_a)" using x by simp
    ultimately show "bitAt ?U x = bitAt (newGateState c) x" using T unfolding loadedSin_def by metis
  qed (use T in \<open>simp_all add: loadedSin_def\<close>)
  moreover have "inArray c (map (\<lambda>j. sinRef c (n + j)) [0..<l])" using r by (auto simp: inArray_def)
  ultimately show ?thesis unfolding loadWord_def by (intro runs_bindP runs_definedP runs_modifyP runs_retP) simp_all
qed

lemma bitAt_newGateState:
  "bitAt (newGateState c) x = of_bool (x = (zeroRef c, pin_b) \<or> x = (zeroRef c, pin_r))"
  by (cases x; cases "snd x") (auto simp: bitAt_def pinAt_def newGateState_def resetBitsAndCounters_def Let_def gateReset_def pinReset_def)

context gate_circuit
begin

text \<open>A circuit starts where no instruction has been appended yet.\<close>

lemma circ_start:
  assumes "gateConfig S = cfg" and "nextRef S = firstNextRef cfg" and "length (program S) = k"
    and "bitAt S = (\<lambda>x. of_bool (e0 x))" and "\<not> e (zeroRef cfg, pin_a)" and "e (zeroRef cfg, pin_b)"
    and "firstNextRef cfg < maxRefs cfg" and "\<not> skipped cfg (firstNextRef cfg)"
  shows "circ S" and "used S = 0" and "busy S (fst b) \<Longrightarrow> sees S b (e b)"
  using assms zeroRef_less
  by (simp_all add: circ_def used_def scriptFrom_def sees_def busy_def skipped_def freeBelow_def)

section \<open>One word operation further\<close>

text \<open>Since the state S the circuit has grown to T by m gates, and the words of E have these values.\<close>

definition knows :: "GateState \<Rightarrow> GateState \<Rightarrow> nat \<Rightarrow> (GateBit list \<times> 'a :: len word) list \<Rightarrow> bool" where
  "knows S T m E \<longleftrightarrow> grown S T m \<and> (\<forall>(bs, w)\<in>set E. holds T bs w)"

lemma knows_start: "circ S \<Longrightarrow> \<forall>(bs, w)\<in>set E. holds S bs w \<Longrightarrow> knows S S 0 E"
  by (simp add: knows_def grown_refl)

lemma knows_holds: "knows S T m E \<Longrightarrow> (a, x) \<in> set E \<Longrightarrow> holds T a x"
  by (auto simp: knows_def)

lemma knows_grown: "knows S T m E \<Longrightarrow> grown S T m"
  by (simp add: knows_def)

lemma knows_add: "knows S T m E \<Longrightarrow> holds T a x \<Longrightarrow> knows S T m ((a, x) # E)"
  by (simp add: knows_def)

lemma knows_cast: "knows S T m E \<Longrightarrow> m = n \<Longrightarrow> grown S T n"
  by (simp add: knows_def)

lemma knows_value: "knows S T m E \<Longrightarrow> (a, x) \<in> set E \<Longrightarrow> x = y \<Longrightarrow> holds T a y"
  by (auto simp: knows_def)

lemma knows_result:
  "knows S T m ((r, z) # E) \<Longrightarrow> list_all P r \<Longrightarrow> m = n \<Longrightarrow> z = z' \<Longrightarrow> grown S T n \<and> list_all P r \<and> holds T r z'"
  by (simp add: knows_def)

lemma word_step:
  assumes K: "knows S T m E" and room: "room S N" and N: "m + c \<le> N"
    and run: "circ T \<Longrightarrow> room T c \<Longrightarrow> runs f T (\<lambda>r U. grown T U c \<and> list_all fresh r \<and> holds U r z)"
    and cont: "\<And>r U. knows S U (m + c) ((r, z) # E) \<Longrightarrow> list_all fresh r \<Longrightarrow> runs (g r) U Q"
  shows "runs (bindP f g) T Q"
proof (rule runs_bindP, rule runs_conseq [OF run], goal_cases)
  case 1
  show ?case using K by (auto simp: knows_def intro: grown_circ)
next
  case 2
  show ?case using K room_less [OF room N] by (auto simp: knows_def intro: grown_room)
next
  case (3 r U)
  then have "knows S U (m + c) ((r, z) # E)"
    using K grown_trans [of S T m U c] by (auto simp: knows_def intro: holds_grown)
  with 3 cont show ?case by blast
qed

lemma xor_step:
  fixes x y :: "'a :: len word"
  assumes K: "knows S T m E" and "room S N" and x: "(a, x) \<in> set E" and y: "(b, y) \<in> set E" and "m + LENGTH('a) \<le> N"
    and "\<And>r U. knows S U (m + LENGTH('a)) ((r, x XOR y) # E) \<Longrightarrow> list_all fresh r \<Longrightarrow> runs (g r) U Q"
  shows "runs (bindP (gateXor LENGTH('a) a b) g) T Q"
  by (rule word_step [OF assms(1,2,5) gateXor_grown [OF _ _ knows_holds [OF K x] knows_holds [OF K y]] assms(6)])

lemma and_step:
  fixes x y :: "'a :: len word"
  assumes K: "knows S T m E" and "room S N" and x: "(a, x) \<in> set E" and y: "(b, y) \<in> set E" and "m + LENGTH('a) \<le> N"
    and "\<And>r U. knows S U (m + LENGTH('a)) ((r, x AND y) # E) \<Longrightarrow> list_all fresh r \<Longrightarrow> runs (g r) U Q"
  shows "runs (bindP (gateAnd LENGTH('a) a b) g) T Q"
  by (rule word_step [OF assms(1,2,5) gateAnd_grown [OF _ _ knows_holds [OF K x] knows_holds [OF K y]] assms(6)])

lemma not_step:
  fixes x :: "'a :: len word"
  assumes K: "knows S T m E" and "room S N" and x: "(a, x) \<in> set E" and "m + LENGTH('a) \<le> N"
    and "\<And>r U. knows S U (m + LENGTH('a)) ((r, NOT x) # E) \<Longrightarrow> list_all fresh r \<Longrightarrow> runs (g r) U Q"
  shows "runs (bindP (gateNot LENGTH('a) a) g) T Q"
  by (rule word_step [OF assms(1,2,4) gateNot_grown [OF _ _ knows_holds [OF K x]] assms(5)])

lemma add_step:
  fixes x y :: "'a :: len word"
  assumes K: "knows S T m E" and "room S N" and x: "(a, x) \<in> set E" and y: "(b, y) \<in> set E"
    and "m + (7 * LENGTH('a) - 10) \<le> N" and "2 \<le> LENGTH('a)"
    and "\<And>r U. knows S U (m + (7 * LENGTH('a) - 10)) ((r, x + y) # E) \<Longrightarrow> list_all fresh r \<Longrightarrow> runs (g r) U Q"
  shows "runs (bindP (gateAdd LENGTH('a) a b) g) T Q"
  by (rule word_step [OF assms(1,2,5) gateAdd_grown [OF _ assms(6) _ knows_holds [OF K x] knows_holds [OF K y]] assms(7)])

end

section \<open>Placing the outputs\<close>

text \<open>The references in \<open>SinRefs\<close> and \<open>SoutRefs\<close> play no part in the values of the pins.\<close>

lemma refs_update [simp]:
  "bitAt (S\<lparr>SoutRefs := q\<rparr>) = bitAt S" "scriptFrom k (S\<lparr>SoutRefs := q\<rparr>) = scriptFrom k S"
  "bitAt (S\<lparr>SinRefs := q\<rparr>) = bitAt S" "scriptFrom k (S\<lparr>SinRefs := q\<rparr>) = scriptFrom k S"
  by (auto simp: bitAt_def pinAt_def scriptFrom_def instrOf_def)

context gate_circuit
begin

lemma circ_refs [simp]:
  "busy (S\<lparr>SoutRefs := q\<rparr>) = busy S" "sees (S\<lparr>SoutRefs := q\<rparr>) = sees S" "circ (S\<lparr>SoutRefs := q\<rparr>) = circ S"
  "used (S\<lparr>SoutRefs := q\<rparr>) = used S"
  "busy (S\<lparr>SinRefs := q\<rparr>) = busy S" "sees (S\<lparr>SinRefs := q\<rparr>) = sees S" "circ (S\<lparr>SinRefs := q\<rparr>) = circ S"
  "used (S\<lparr>SinRefs := q\<rparr>) = used S"
  by (auto simp: busy_def sees_def circ_def used_def fun_eq_iff)

definition isSout :: "GateBit \<Rightarrow> bool" where
  "isSout b \<longleftrightarrow> (\<exists>m < soutRefNumber cfg. fst b = soutRef cfg m)"

text \<open>The first n output gates have the values B; no other output gate has been written.\<close>

definition placed :: "GateState \<Rightarrow> nat \<Rightarrow> (nat \<Rightarrow> bool) \<Rightarrow> GateState \<Rightarrow> bool" where
  "placed S n B T \<longleftrightarrow> circ T \<and> nextRef T = nextRef S \<and> (\<forall>b v. sees S b v \<longrightarrow> \<not> isSout b \<longrightarrow> sees T b v) \<and>
     (\<forall>m<n. sees T (soutRef cfg m, pin_r) (B m)) \<and>
     (\<forall>m < soutRefNumber cfg. n \<le> m \<longrightarrow> soutRef cfg m \<notin> set (drop k (program T)))"

lemma placed_refs [simp]:
  "placed S n B (T\<lparr>SoutRefs := q\<rparr>) = placed S n B T"
  "placed S n B (T\<lparr>SinRefs := q\<rparr>) = placed S n B T"
  by (simp_all add: placed_def)

lemma placed_start:
  "circ S \<Longrightarrow> (\<And>m. m < soutRefNumber cfg \<Longrightarrow> soutRef cfg m \<notin> set (drop k (program S))) \<Longrightarrow> placed S 0 B S"
  by (auto simp: placed_def)

lemma place_step:
  assumes P: "placed S n B T" and a: "sees S a (B n)" "\<not> isSout a" and n: "n < soutRefNumber cfg"
    and cfg: "0 < soutRefDistance cfg" "soutRef cfg n < maxRefs cfg" "skipped cfg (soutRef cfg n)"
      "\<not> isSout (zeroRef cfg, pin_a)"
  shows "runs (OP gop_xor a (zeroRef cfg, pin_a) (soutRef cfg n)) T
    (\<lambda>_ U. placed S (Suc n) B U \<and> SinRefs U = SinRefs T \<and> SoutRefs U = SoutRefs T)"
proof -
  let ?r = "soutRef cfg n"
  have T: "circ T" and aT: "sees T a (B n)" using P a unfolding placed_def by blast+
  have inj: "soutRef cfg m = ?r \<longleftrightarrow> m = n" for m using cfg(1) by (simp add: soutRef_def)
  have fa: "fst a \<noteq> ?r" using a(2) n by (auto simp: isSout_def)
  have z: "?r \<noteq> zeroRef cfg" using cfg(4) n by (auto simp: isSout_def)
  have "runs (OP gop_xor a (zeroRef cfg, pin_a) ?r) T (\<lambda>_ U. extends {x. fst x = ?r \<and> x \<noteq> a \<and> x \<noteq> (zeroRef cfg, pin_a)} T U 0 \<and>
           SinRefs U = SinRefs T \<and> SoutRefs U = SoutRefs T \<and> program U = program T @ [?r] \<and> nextRef U = nextRef T \<and>
           sees U (?r, pin_a) (B n) \<and> sees U (?r, pin_b) False \<and> sees U (?r, pin_r) (opBool gop_xor (B n) False))"
  proof (rule OP_extends [OF T aT sees_zero(1) [OF T]])
    show "busy T ?r" using cfg by (simp add: busy_def)
    show "?r \<notin> set (drop k (program T))" using P n by (simp add: placed_def)
    show "wellWired a (zeroRef cfg, pin_a) ?r" using fa z by (simp add: wellWired_def)
  qed (use z in \<open>simp_all add: gateOperations_def\<close>)
  then show ?thesis
  proof (rule runs_conseq, elim conjE, intro conjI)
    fix U assume ext: "extends {x. fst x = ?r \<and> x \<noteq> a \<and> x \<noteq> (zeroRef cfg, pin_a)} T U 0"
      and U: "program U = program T @ [?r]" "nextRef U = nextRef T" "sees U (?r, pin_r) (opBool gop_xor (B n) False)"
    have keep: "sees U b v" if "sees T b v" "fst b \<noteq> ?r" for b v
      using sees_extends [OF that(1) ext] that(2) by simp
    have "k \<le> length (program T)" using T by (simp add: circ_def)
    then have "soutRef cfg m \<notin> set (drop k (program U))" if "m < soutRefNumber cfg" "Suc n \<le> m" for m
      using P that inj [of m] by (auto simp: U(1) placed_def)
    moreover have "sees U (soutRef cfg m, pin_r) (B m)" if "m < Suc n" for m
    proof (cases "m = n")
      case False
      then show ?thesis using P that keep inj [of m] by (auto simp: placed_def)
    qed (use U in simp)
    moreover have "sees U b v" if "sees S b v" "\<not> isSout b" for b v
    proof (rule keep)
      show "sees T b v" using P that unfolding placed_def by blast
      show "fst b \<noteq> ?r" using that(2) n by (auto simp: isSout_def)
    qed
    ultimately show "placed S (Suc n) B U"
      using P ext U(2) by (simp add: placed_def extends_def)
  qed
qed

text \<open>A fresh gate is not the gate of an output.\<close>

lemma fresh_sout: "(\<And>m. m < soutRefNumber cfg \<Longrightarrow> skipped cfg (soutRef cfg m)) \<Longrightarrow> fresh b \<Longrightarrow> \<not> isSout b"
  by (auto simp: fresh_def isSout_def)

text \<open>The inputs are set: a circuit starts.\<close>

lemma loaded_start:
  assumes L: "loadedSin cfg k n B0 T" and e0: "e0 = (\<lambda>x. bitAt T x = 1)"
    and e: "\<And>i. i < n \<Longrightarrow> e (sinRef cfg i, pin_a) = B i" "\<not> e (zeroRef cfg, pin_a)" "e (zeroRef cfg, pin_b)"
    and cfg: "firstNextRef cfg < maxRefs cfg" "\<not> skipped cfg (firstNextRef cfg)"
      "\<And>i. i < n \<Longrightarrow> skipped cfg (sinRef cfg i) \<and> sinRef cfg i < maxRefs cfg"
  shows "circ T" and "used T = 0" and "i < n \<Longrightarrow> sees T (sinRef cfg i, pin_a) (B i)"
proof -
  have T: "gateConfig T = cfg" "nextRef T = firstNextRef cfg" "length (program T) = k"
    using L by (simp_all add: loadedSin_def)
  have "bitAt T x \<in> {0, 1}" for x
  proof (cases "\<exists>i<n. x = (sinRef cfg i, pin_a)")
    case False
    then have "bitAt T x = bitAt (newGateState cfg) x" using L unfolding loadedSin_def by blast
    then show ?thesis by (cases "x = (zeroRef cfg, pin_b) \<or> x = (zeroRef cfg, pin_r)") (simp_all only: bitAt_newGateState, simp_all)
  qed (use L in \<open>auto simp: loadedSin_def\<close>)
  then have bits: "bitAt T = (\<lambda>x. of_bool (e0 x))" by (auto simp: e0 fun_eq_iff)
  note start = circ_start [OF T bits e(2,3) cfg(1,2)]
  show "circ T" "used T = 0" by (rule start)+
  assume i: "i < n"
  then have "busy T (fst (sinRef cfg i, pin_a))" using cfg(3) by (simp add: busy_def)
  then have "sees T (sinRef cfg i, pin_a) (e (sinRef cfg i, pin_a))" by (rule start(3))
  then show "sees T (sinRef cfg i, pin_a) (B i)" by (simp only: e(1) [OF i])
qed

end

text \<open>The same for evenly spaced inputs and outputs.\<close>

lemma slot_sin:
  assumes "0 < n" and "0 < m" and "i < sinRefNumber (slotConfig s k n m l)"
  shows "skipped (slotConfig s k n m l) (sinRef (slotConfig s k n m l) i)"
    and "sinRef (slotConfig s k n m l) i = 45 + i * 44"
proof -
  show "sinRef (slotConfig s k n m l) i = 45 + i * 44" by (simp add: sinRef_def slotConfig_def)
  then show "skipped (slotConfig s k n m l) (sinRef (slotConfig s k n m l) i)"
    using assms(3) unfolding skipped_slot [OF assms(1,2)] by (auto simp: slotConfig_def intro!: exI [of _ i])
qed

lemma slot_sout:
  assumes "0 < n" and "0 < m" and "i < soutRefNumber (slotConfig s k n m l)"
  shows "skipped (slotConfig s k n m l) (soutRef (slotConfig s k n m l) i)"
    and "soutRef (slotConfig s k n m l) i = 45 + (n + i) * 44"
proof -
  show eq: "soutRef (slotConfig s k n m l) i = 45 + (n + i) * 44"
    by (simp add: soutRef_def slotConfig_def algebra_simps)
  show "skipped (slotConfig s k n m l) (soutRef (slotConfig s k n m l) i)"
    using assms(3) unfolding eq skipped_slot [OF assms(1,2)] by (auto simp: slotConfig_def intro!: exI [of _ "n + i"])
qed

lemma slot_sin_sout:
  assumes "0 < k"
  shows "i < sinRefNumber (slotConfig s k n m l) \<Longrightarrow>
      \<not> gate_circuit.isSout (slotConfig s k n m l) (sinRef (slotConfig s k n m l) i, p)"
    and "\<not> gate_circuit.isSout (slotConfig s k n m l) (0, p)"
proof -
  have slot: "gate_circuit (slotConfig s k n m l)"
    using assms by unfold_locales (simp add: slotConfig_def)
  show "i < sinRefNumber (slotConfig s k n m l) \<Longrightarrow>
      \<not> gate_circuit.isSout (slotConfig s k n m l) (sinRef (slotConfig s k n m l) i, p)"
    and "\<not> gate_circuit.isSout (slotConfig s k n m l) (0, p)"
    by (auto simp: gate_circuit.isSout_def [OF slot]) (auto simp: slotConfig_def sinRef_def soutRef_def)
qed

lemma loaded_pins:
  assumes L: "loadedSin c k n B T" and z: "\<And>i. i < n \<Longrightarrow> sinRef c i \<noteq> zeroRef c"
  shows "i < n \<Longrightarrow> (bitAt T (sinRef c i, pin_a) = 1) = B i" and "bitAt T (zeroRef c, pin_a) \<noteq> 1"
    and "bitAt T (zeroRef c, pin_b) = 1"
proof -
  have "\<forall>i<n. x \<noteq> (sinRef c i, pin_a)" if "fst x = zeroRef c" for x using z that by auto
  then have "bitAt T x = bitAt (newGateState c) x" if "fst x = zeroRef c" for x
    using L that unfolding loadedSin_def by blast
  then show "bitAt T (zeroRef c, pin_a) \<noteq> 1" "bitAt T (zeroRef c, pin_b) = 1" by (simp_all add: bitAt_newGateState)
qed (use L in \<open>auto simp: loadedSin_def\<close>)

end
