(* ===== verification/Gate_Typed.thy ===== *)
theory Gate_Typed
  imports Gate_Slots
begin

text \<open>
  The state of gates is well typed: every pin holds a bit, wires and the program stay within the array
  of gates, and the fan-out counters agree with the connections.  Whatever calls build a circuit, in any
  order, the state stays so, and on such a state a gate operation within the array never stops the process.
\<close>

definition pinTyped :: "nat \<Rightarrow> Pin \<Rightarrow> bool" where
  "pinTyped n p \<longleftrightarrow> pinBit p \<in> {0, 1} \<and> wiredRef p < n \<and>
     fanOut p = length (connectionsToInputA p) + length (connectionsToInputB p) \<and>
     set (connectionsToInputA p) \<union> set (connectionsToInputB p) \<subseteq> {..<n}"

definition gateTyped :: "GateState \<Rightarrow> bool" where
  "gateTyped S \<longleftrightarrow> (\<forall>b. pinTyped (maxRefs (gateConfig S)) (pinAt S b)) \<and>
     (\<forall>r. gateOp (gate S r) \<in> set gateOperations) \<and> set (program S) \<subseteq> {..<maxRefs (gateConfig S)}"

text \<open>The calls a circuit is built with, and the states successful calls lead to.\<close>

datatype GateCall = CallOP GateOperation GateBit GateBit nat | CallFreeRef | CallSetRin "u8 list" | CallMixRin
  | CallCopyRefs | CallCopyAndReset

fun gateCall :: "GateCall \<Rightarrow> (GateState, unit) prog" where
  "gateCall (CallOP op a b r) = OP op a b r"
| "gateCall CallFreeRef = bindP getFreeRef (\<lambda>_. retP ())"
| "gateCall (CallSetRin bits) = setRin bits"
| "gateCall CallMixRin = mixRin"
| "gateCall CallCopyRefs = copySoutRefsToSinRefs"
| "gateCall CallCopyAndReset = copySoutToSinAndResetRefs"

fun bitsGiven :: "GateCall \<Rightarrow> bool" where
  "bitsGiven (CallSetRin bits) = (set bits \<subseteq> {0, 1})"
| "bitsGiven _ = True"

inductive gateReached :: "GateConfig \<Rightarrow> GateState \<Rightarrow> bool" for c where
  reached_new: "gateReached c (newGateState c)"
| reached_call: "gateReached c S \<Longrightarrow> bitsGiven f \<Longrightarrow> gateCall f S = (Ret (), T) \<Longrightarrow> gateReached c T"

section \<open>Every step keeps the types\<close>

declare split_paired_All [simp del]

lemma gateTyped_pin: "gateTyped S \<Longrightarrow> pinTyped (maxRefs (gateConfig S)) (pinAt S b)"
  by (simp add: gateTyped_def)

lemma gateTyped_bit: "gateTyped S \<Longrightarrow> bitAt S b \<in> {0, 1}"
  using gateTyped_pin [of S b] by (simp add: pinTyped_def bitAt_def)

lemma gateTyped_setPin:
  "gateTyped S \<Longrightarrow> pinTyped (maxRefs (gateConfig S)) (f (pinAt S b)) \<Longrightarrow> gateTyped (setPin b f S)"
  by (simp add: gateTyped_def)

lemma pinTyped_update:
  "pinTyped n x \<Longrightarrow> pinTyped n (x\<lparr>pinSource := s\<rparr>)"
  "pinTyped n x \<Longrightarrow> v \<in> {0, 1} \<Longrightarrow> pinTyped n (x\<lparr>pinBit := v\<rparr>)"
  "pinTyped n x \<Longrightarrow> r < n \<Longrightarrow> pinTyped n (x\<lparr>wiredRef := r\<rparr>)"
  "pinTyped n x \<Longrightarrow> pinTyped n (x\<lparr>wiredPinId := i\<rparr>)"
  "pinTyped n x \<Longrightarrow> r < n \<Longrightarrow> pinTyped n (x\<lparr>fanOut := fanOut x + 1, connectionsToInputA := connectionsToInputA x @ [r]\<rparr>)"
  "pinTyped n x \<Longrightarrow> r < n \<Longrightarrow> pinTyped n (x\<lparr>fanOut := fanOut x + 1, connectionsToInputB := connectionsToInputB x @ [r]\<rparr>)"
  by (simp_all add: pinTyped_def)

lemmas typed_update = gateTyped_setPin pinTyped_update gateTyped_pin gateTyped_bit

lemma gateTyped_refs:
  "gateTyped (S\<lparr>nextRef := n\<rparr>) = gateTyped S" "gateTyped (S\<lparr>SinRefs := q\<rparr>) = gateTyped S"
  by (simp_all add: gateTyped_def bitAt_def pinAt_def)

lemma gateTyped_opEffect:
  assumes S: "gateTyped S" and r: "r < maxRefs (gateConfig S)" "fst a < maxRefs (gateConfig S)" "fst b < maxRefs (gateConfig S)"
    and op: "op \<in> set gateOperations"
  shows "gateTyped (opEffect op a b r S)"
proof -
  have wire: "gateTyped (wirePin p x r T)" if "gateTyped T" "fst x < maxRefs (gateConfig T)" for p x T
    unfolding wirePin_def using that by (intro typed_update) (simp_all add: gateTyped_bit)
  have "opBits op u v \<in> {0, 1}" if "u \<in> {0, 1}" "v \<in> {0, 1}" for u v
    using that op by (auto simp: gateOperations_def)
  then have result: "gateTyped (setResult op a b r T)" if "gateTyped T" "r < maxRefs (gateConfig T)" for T
    unfolding setResult_def using that gateTyped_bit [OF that(1)] by (intro typed_update) simp_all
  have connect: "gateTyped (connectA a r T)" "gateTyped (connectB b r T)" if "gateTyped T" "r < maxRefs (gateConfig T)" for T
    unfolding connectA_def connectB_def using that by (auto intro!: typed_update simp del: One_nat_def add_Suc_right)
  have count: "gateTyped (countOp op T)" if "gateTyped T" for T using that by (simp add: gateTyped_def)
  have config: "gateConfig (wirePin p x r T) = gateConfig T" "gateConfig (setResult op a b r T) = gateConfig T"
    "gateConfig (connectA a r T) = gateConfig T" "gateConfig (connectB b r T) = gateConfig T" for p x T
    by (simp_all add: wirePin_def setResult_def connectA_def connectB_def)
  have set: "gateTyped (setOp op r S)" using S op by (simp add: gateTyped_def)
  have push: "gateTyped (pushProgram r T)" if "gateTyped T" "r < maxRefs (gateConfig T)" for T
    using that by (simp add: gateTyped_def)
  show ?thesis unfolding opEffect_def
    by (intro push connect count result wire set; simp add: config r)
qed

lemma gateTyped_OP:
  assumes "gateTyped S" and "OP op a b r S = (Ret (), T)"
  shows "gateTyped T \<and> gateConfig T = gateConfig S"
proof -
  have "op \<in> set gateOperations" "fst a < maxRefs (gateConfig S)" "fst b < maxRefs (gateConfig S)"
    "r < maxRefs (gateConfig S)" "T = opEffect op a b r S"
    using assms(2) by (auto simp: OP_def Let_def run_simps split: if_splits)
  with assms(1) show ?thesis by (simp add: gateTyped_opEffect)
qed

lemma gateTyped_setBit:
  assumes "gateTyped S" and "v \<in> {0, 1}"
  shows "gateTyped (setPin b (\<lambda>x. x\<lparr>pinBit := v, pinSource := s\<rparr>) S)" and "gateTyped (setPin b (\<lambda>x. x\<lparr>pinBit := v\<rparr>) S)"
  by (intro typed_update assms)+

lemma gateTyped_setBits:
  assumes "gateTyped S" and "\<And>i. i < n \<Longrightarrow> v i \<in> {0, 1}"
  shows "gateTyped (foldl (\<lambda>U i. setPin (f i) (\<lambda>x. x\<lparr>pinBit := v i, pinSource := s\<rparr>) U) S [0..<n])"
    and "gateTyped (foldl (\<lambda>U i. setPin (f i) (\<lambda>x. x\<lparr>pinBit := v i\<rparr>) U) S [0..<n])"
  using assms by (induction n) (simp_all add: gateTyped_setBit del: insert_iff)

lemma gateTyped_foldP:
  assumes "foldP f is x S = (Ret y, T)" and "gateTyped S"
    and "\<And>i x S y T. f i x S = (Ret y, T) \<Longrightarrow> gateTyped S \<Longrightarrow> gateTyped T \<and> gateConfig T = gateConfig S"
  shows "gateTyped T \<and> gateConfig T = gateConfig S"
  using assms(1,2)
proof (induction "is" arbitrary: x S)
  case (Cons i "is")
  then obtain z U where "f i x S = (Ret z, U)" "foldP f is z U = (Ret y, T)"
    by (auto simp: run_simps split: if_splits)
  with Cons show ?case using assms(3) by metis
qed (simp add: run_simps)

lemma gateTyped_reset:
  assumes "zeroRef (gateConfig S) < maxRefs (gateConfig S)" and "set (program S) \<subseteq> {..<maxRefs (gateConfig S)}"
  shows "gateTyped (resetBitsAndCounters S)"
  using assms by (auto simp: gateTyped_def pinTyped_def resetBitsAndCounters_def Let_def gateReset_def pinReset_def bitAt_def pinAt_def
      gateOperations_def split: PinId.split)

lemma gateTyped_call:
  assumes S: "gateTyped S" and f: "gateCall f S = (Ret (), T)" and bits: "bitsGiven f"
    and z: "zeroRef (gateConfig S) < maxRefs (gateConfig S)"
  shows "gateTyped T \<and> gateConfig T = gateConfig S"
proof (cases f)
  case (CallOP op a b r)
  then show ?thesis using gateTyped_OP [OF S] f by simp
next
  case CallFreeRef
  then show ?thesis using f S by (auto simp: getFreeRef_def run_simps gateTyped_refs split: if_splits)
next
  case (CallSetRin rin)
  then have T: "T = foldl (\<lambda>U i. setPin (sinRef (gateConfig S) i, pin_b) (\<lambda>x. x\<lparr>pinBit := rin ! i, pinSource := external\<rparr>) U)
      S [0..<1088]" and l: "1088 \<le> length rin"
    using f by (auto simp: setRin_def Let_def run_simps split: if_splits)
  have "rin ! i \<in> {0, 1}" if "i < 1088" for i using bits CallSetRin l that subsetD [OF _ nth_mem [of i rin], of "{0, 1}"] by simp
  with S show ?thesis unfolding T foldl_setPin_simps by (intro conjI gateTyped_setBits) simp_all
next
  case CallMixRin
  then show ?thesis using f gateTyped_OP S
    by (auto simp: mixRin_def Let_def run_simps elim!: gateTyped_foldP split: if_splits)
next
  case CallCopyRefs
  then show ?thesis using f S by (auto simp: copySoutRefsToSinRefs_def run_simps gateTyped_refs split: if_splits)
next
  case CallCopyAndReset
  define c where "c = gateConfig S"
  define out where "out = map (\<lambda>i. bitAt S (SoutRefs S ! i, pin_r)) [0..<sinRefNumber c]"
  define R where "R = resetBitsAndCounters S"
  have R: "gateTyped R" "gateConfig R = c"
    using gateTyped_reset [of S] z S by (simp_all add: R_def c_def gateTyped_def) (simp add: resetBitsAndCounters_def Let_def)
  have T: "T = foldl (\<lambda>U i. setPin (sinRef c i, pin_a) (\<lambda>x. x\<lparr>pinBit := out ! i\<rparr>) U) R [0..<sinRefNumber c]"
    using f CallCopyAndReset by (auto simp: copySoutToSinAndResetRefs_def Let_def run_simps c_def out_def R_def split: if_splits)
  have "out ! i \<in> {0, 1}" if "i < sinRefNumber c" for i using that gateTyped_bit [OF S] by (simp add: out_def)
  with R show ?thesis unfolding T foldl_setPin_simps by (intro conjI gateTyped_setBits) (simp_all add: c_def)
qed

lemma gateReached_typed:
  assumes "gateReached c S" and "zeroRef c < maxRefs c"
  shows "gateTyped S \<and> gateConfig S = c"
  using assms(1)
proof induction
  case reached_new
  show ?case using assms(2)
    by (simp add: newGateState_def gateTyped_reset) (simp add: resetBitsAndCounters_def Let_def)
next
  case (reached_call S f T)
  then show ?case using gateTyped_call [of S f T] assms(2) by simp
qed

lemma OP_typed_Ret:
  assumes "gateTyped S" and "fst a < maxRefs (gateConfig S)" and "fst b < maxRefs (gateConfig S)"
    and "r < maxRefs (gateConfig S)" and "op \<in> set gateOperations"
  shows "OP op a b r S = (Ret (), opEffect op a b r S)"
proof -
  have "bitAt S x \<le> 1" for x using gateTyped_bit [OF assms(1), of x] by auto
  then show ?thesis using assms(2-) by (simp add: OP_def bindP_def getP_def assertP_def retP_def modifyP_def Let_def)
qed

text \<open>C17: The gates are well typed: whatever successful calls build a circuit whose zero gate is in the array, in
any order and with bits (0 or 1) given to setRin, every pin holds a bit, wires, connections and the program
stay within the array of gates, and the fan-out counters agree with the connections. On such a state an
operation of a supported kind on gates of the array never stops the process, and its result is the operation on
the two bits provided an operand on the gate that is written is that gate's own pin a or b (wellWired).\<close>
theorem gates_well_typed:
  assumes "gateReached c S" and "zeroRef c < maxRefs c"
  shows "gateTyped S \<and>
    (\<forall>op a b r. op \<in> set gateOperations \<longrightarrow> fst a < maxRefs c \<longrightarrow> fst b < maxRefs c \<longrightarrow> r < maxRefs c \<longrightarrow> wellWired a b r \<longrightarrow>
      (\<exists>T. OP op a b r S = (Ret (), T) \<and> gateReached c T \<and> bitAt T (r, pin_r) = opBits op (bitAt S a) (bitAt S b)))"
proof (intro conjI allI impI)
  show "gateTyped S" using gateReached_typed [OF assms] by simp
  fix op a b r assume op: "op \<in> set gateOperations" and r: "fst a < maxRefs c" "fst b < maxRefs c" "r < maxRefs c" "wellWired a b r"
  have run: "OP op a b r S = (Ret (), opEffect op a b r S)"
    using gateReached_typed [OF assms] op r by (intro OP_typed_Ret) auto
  then have "gateReached c (opEffect op a b r S)"
    by (intro reached_call [OF assms(1), of "CallOP op a b r"]) simp_all
  then show "\<exists>T. OP op a b r S = (Ret (), T) \<and> gateReached c T \<and> bitAt T (r, pin_r) = opBits op (bitAt S a) (bitAt S b)"
    using run bitAt_opEffect [OF r(4), of op S] by auto
qed

lemma gates_well_typed_witness:
  "\<exists>T. OP gop_xor (0, pin_a) (0, pin_b) 1 (newGateState (slotConfig 100 200 1 1 256)) = (Ret (), T) \<and> bitAt T (1, pin_r) = 1"
proof -
  let ?c = "slotConfig 100 200 1 1 256"
  have "\<exists>T. OP gop_xor (0, pin_a) (0, pin_b) 1 (newGateState ?c) = (Ret (), T) \<and> gateReached ?c T \<and>
      bitAt T (1, pin_r) = opBits gop_xor (bitAt (newGateState ?c) (0, pin_a)) (bitAt (newGateState ?c) (0, pin_b))"
    using conjunct2 [OF gates_well_typed [OF reached_new, of ?c]]
    by (auto simp: slotConfig_def gateOperations_def wellWired_def)
  then show ?thesis by (auto simp: bitAt_newGateState slotConfig_def)
qed

end
