(* ===== verification/Sha256.thy ===== *)
theory Sha256
  imports Scalar_Bytes
begin

text \<open>
  SHA-256 on machine words: the implementation the executors call
  (src/tools/sm/sha256/bcon/bcon_sha256.cpp, through \<open>SHA256\<close> of src/tools/sm/sha256/sha256.cpp), the
  earlier one it replaced (\<open>SHA256_old\<close> with \<open>SHA256F\<close>), and the standard both mean to compute
  (FIPS 180-4).  The circuit of SHA-256 is in \<open>Sha256_Gate\<close>.
\<close>

section \<open>Helpers of src/src/utils/scalar.cpp\<close>

definition rotateRight32 :: "u32 \<Rightarrow> nat \<Rightarrow> u32" where
  "rotateRight32 x n = drop_bit n x OR push_bit (32 - n) x"

definition bytes2u32 :: "u8 list \<Rightarrow> bool \<Rightarrow> u32" where
  "bytes2u32 p be = foldl (\<lambda>out i. (if i \<noteq> 0 then push_bit 8 out else out) OR ucast (p ! (if be then i else 3 - i)))
     0 [0..<4]"

definition u642bytes :: "u64 \<Rightarrow> bool \<Rightarrow> u8 list" where
  "u642bytes x be = map (\<lambda>i. ucast (drop_bit (8 * (if be then 7 - i else i)) x AND 0xFF)) [0..<8]"

section \<open>Constants\<close>

definition sha256H :: "u32 list" where
  "sha256H = [0x6a09e667, 0xbb67ae85, 0x3c6ef372, 0xa54ff53a, 0x510e527f, 0x9b05688c, 0x1f83d9ab, 0x5be0cd19]"

definition sha256K :: "u32 list" where
  "sha256K = concat
    [[0x428a2f98, 0x71374491, 0xb5c0fbcf, 0xe9b5dba5, 0x3956c25b, 0x59f111f1, 0x923f82a4, 0xab1c5ed5],
     [0xd807aa98, 0x12835b01, 0x243185be, 0x550c7dc3, 0x72be5d74, 0x80deb1fe, 0x9bdc06a7, 0xc19bf174],
     [0xe49b69c1, 0xefbe4786, 0x0fc19dc6, 0x240ca1cc, 0x2de92c6f, 0x4a7484aa, 0x5cb0a9dc, 0x76f988da],
     [0x983e5152, 0xa831c66d, 0xb00327c8, 0xbf597fc7, 0xc6e00bf3, 0xd5a79147, 0x06ca6351, 0x14292967],
     [0x27b70a85, 0x2e1b2138, 0x4d2c6dfc, 0x53380d13, 0x650a7354, 0x766a0abb, 0x81c2c92e, 0x92722c85],
     [0xa2bfe8a1, 0xa81a664b, 0xc24b8b70, 0xc76c51a3, 0xd192e819, 0xd6990624, 0xf40e3585, 0x106aa070],
     [0x19a4c116, 0x1e376c08, 0x2748774c, 0x34b0bcb5, 0x391c0cb3, 0x4ed8aa4a, 0x5b9cca4f, 0x682e6ff3],
     [0x748f82ee, 0x78a5636f, 0x84c87814, 0x8cc70208, 0x90befffa, 0xa4506ceb, 0xbef9a3f7, 0xc67178f2]]"

type_synonym sha8 = "u32 \<times> u32 \<times> u32 \<times> u32 \<times> u32 \<times> u32 \<times> u32 \<times> u32"

definition sha8Of :: "u32 list \<Rightarrow> sha8" where
  "sha8Of h = (h ! 0, h ! 1, h ! 2, h ! 3, h ! 4, h ! 5, h ! 6, h ! 7)"

section \<open>The code of sha256.cpp\<close>

definition sha256FExtend :: "nat \<Rightarrow> u32 list \<Rightarrow> u32 list" where
  "sha256FExtend i w =
     (let s0 = rotateRight32 (w ! (i - 15)) 7 XOR rotateRight32 (w ! (i - 15)) 18 XOR drop_bit 3 (w ! (i - 15));
          s1 = rotateRight32 (w ! (i - 2)) 17 XOR rotateRight32 (w ! (i - 2)) 19 XOR drop_bit 10 (w ! (i - 2))
      in w[i := w ! (i - 16) + s0 + w ! (i - 7) + s1])"

definition sha256FRound :: "u32 list \<Rightarrow> nat \<Rightarrow> sha8 \<Rightarrow> sha8" where
  "sha256FRound w i = (\<lambda>(a, b, c, d, e, f, g, h).
     let S1 = rotateRight32 e 6 XOR rotateRight32 e 11 XOR rotateRight32 e 25;
         ch = (e AND f) XOR (NOT e AND g);
         temp1 = h + S1 + ch + sha256K ! i + w ! i;
         S0 = rotateRight32 a 2 XOR rotateRight32 a 13 XOR rotateRight32 a 22;
         maj = (a AND b) XOR (a AND c) XOR (b AND c);
         temp2 = S0 + maj
     in (temp1 + temp2, a, b, c, d + temp1, e, f, g))"

definition SHA256F :: "u8 list \<Rightarrow> u32 list \<Rightarrow> u32 list" where
  "SHA256F inR stIn =
     (let w = map (\<lambda>i. bytes2u32 (drop (4 * i) inR) True) [0..<16] @ replicate 48 0;
          w = fold sha256FExtend [16..<64] w;
          (a, b, c, d, e, f, g, h) = fold (sha256FRound w) [0..<64] (sha8Of stIn)
      in [stIn ! 0 + a, stIn ! 1 + b, stIn ! 2 + c, stIn ! 3 + d, stIn ! 4 + e, stIn ! 5 + f, stIn ! 6 + g, stIn ! 7 + h])"

text \<open>
  The padding of \<open>SHA256_old\<close>, which the circuit of SHA-256 has too: the size in bits, the byte 0x80 and
  the last bytes of the data, in one buffer of 64 bytes.  \<open>onePosition\<close> is computed in a
  \<open>uint64_t\<close>; a write outside the buffer is undefined.  Sizes are those of buffers in memory, so their
  number of bits does not wrap around.
\<close>

definition sha256Padding :: "u8 list \<Rightarrow> (u8 list \<times> nat) outcome" where
  "sha256Padding pData =
     (let dataSize = length pData;
          paddedSizeInBitsMin = dataSize * 8 + 1 + 64;
          paddedSizeInBits = (paddedSizeInBitsMin div 512 + 1) * 512;
          paddedSize = paddedSizeInBits div 8;
          paddedZeros = (paddedSizeInBits - paddedSizeInBitsMin) div 8;
          padding = replicate 56 0 @ u642bytes (of_nat (dataSize * 8)) True;
          onePosition = unat (64 - 8 - of_nat paddedZeros - 1 :: u64)
      in if 64 \<le> onePosition then Undef
         else let padding = padding[onePosition := 0x80];
                  dataPosition = dataSize div 64 * 64
              in Ret (foldl (\<lambda>p i. p[i := pData ! (dataPosition + i)]) padding [0..<dataSize mod 64], paddedSize))"

text \<open>The bytes of a chunk: the padding for the last one, else those of the data, which must have them.\<close>

definition sha256ChunkBytes :: "u8 list \<Rightarrow> u8 list \<Rightarrow> nat \<Rightarrow> nat \<Rightarrow> u8 list outcome" where
  "sha256ChunkBytes pData padding paddedSize chunk =
     (if chunk = paddedSize div 64 - 1 then Ret padding
      else if length pData < chunk * 64 + 64 then Undef else Ret (take 64 (drop (chunk * 64) pData)))"

definition sha256Scalar :: "u32 list \<Rightarrow> nat" where
  "sha256Scalar h = foldl (\<lambda>s x. push_bit 32 s + unat x) 0 h"

definition SHA256_old :: "u8 list \<Rightarrow> nat outcome" where
  "SHA256_old pData =
     bindO (sha256Padding pData) (\<lambda>(padding, paddedSize).
     bindO (foldO (\<lambda>chunk st. bindO (sha256ChunkBytes pData padding paddedSize chunk) (\<lambda>p. Ret (SHA256F p st)))
       [0..<paddedSize div 64] sha256H) (\<lambda>st. Ret (sha256Scalar st)))"

section \<open>The code of bcon_sha256.cpp\<close>

record SHA256_CTX =
  shaData :: "u8 list"
  shaDatalen :: nat
  shaBitlen :: u64
  shaState :: "u32 list"

definition sig0 :: "u32 \<Rightarrow> u32" where
  "sig0 x = rotateRight32 x 7 XOR rotateRight32 x 18 XOR drop_bit 3 x"

definition sig1 :: "u32 \<Rightarrow> u32" where
  "sig1 x = rotateRight32 x 17 XOR rotateRight32 x 19 XOR drop_bit 10 x"

definition ep0 :: "u32 \<Rightarrow> u32" where
  "ep0 x = rotateRight32 x 2 XOR rotateRight32 x 13 XOR rotateRight32 x 22"

definition ep1 :: "u32 \<Rightarrow> u32" where
  "ep1 x = rotateRight32 x 6 XOR rotateRight32 x 11 XOR rotateRight32 x 25"

definition shaCh :: "u32 \<Rightarrow> u32 \<Rightarrow> u32 \<Rightarrow> u32" where
  "shaCh x y z = (x AND y) XOR (NOT x AND z)"

definition shaMaj :: "u32 \<Rightarrow> u32 \<Rightarrow> u32 \<Rightarrow> u32" where
  "shaMaj x y z = (x AND y) XOR (x AND z) XOR (y AND z)"

definition shaExtend :: "nat \<Rightarrow> u32 list \<Rightarrow> u32 list" where
  "shaExtend i m = m[i := sig1 (m ! (i - 2)) + m ! (i - 7) + sig0 (m ! (i - 15)) + m ! (i - 16)]"

definition shaRound :: "u32 list \<Rightarrow> nat \<Rightarrow> sha8 \<Rightarrow> sha8" where
  "shaRound m i = (\<lambda>(a, b, c, d, e, f, g, h).
     let t1 = h + ep1 e + shaCh e f g + sha256K ! i + m ! i;
         t2 = ep0 a + shaMaj a b c
     in (t1 + t2, a, b, c, d + t1, e, f, g))"

definition sha256_transform :: "SHA256_CTX \<Rightarrow> u8 list \<Rightarrow> SHA256_CTX" where
  "sha256_transform ctx d =
     (let m = map (\<lambda>i. push_bit 24 (ucast (d ! (4 * i))) OR push_bit 16 (ucast (d ! (4 * i + 1))) OR
                       push_bit 8 (ucast (d ! (4 * i + 2))) OR ucast (d ! (4 * i + 3))) [0..<16] @ replicate 48 0;
          m = fold shaExtend [16..<64] m;
          s = shaState ctx;
          (a, b, c, d, e, f, g, h) = fold (shaRound m) [0..<64] (sha8Of s)
      in ctx\<lparr>shaState := [s ! 0 + a, s ! 1 + b, s ! 2 + c, s ! 3 + d, s ! 4 + e, s ! 5 + f, s ! 6 + g, s ! 7 + h]\<rparr>)"

text \<open>The context is a local variable: \<open>garbage\<close> is what its buffer of 64 bytes holds at first.\<close>

definition sha256_init :: "u8 list \<Rightarrow> SHA256_CTX" where
  "sha256_init garbage = \<lparr>shaData = garbage, shaDatalen = 0, shaBitlen = 0, shaState = sha256H\<rparr>"

definition sha256_byte :: "u8 \<Rightarrow> SHA256_CTX \<Rightarrow> SHA256_CTX" where
  "sha256_byte b ctx =
     (let ctx = ctx\<lparr>shaData := (shaData ctx)[shaDatalen ctx := b], shaDatalen := shaDatalen ctx + 1\<rparr>
      in if shaDatalen ctx = 64
         then let ctx = sha256_transform ctx (shaData ctx)
              in ctx\<lparr>shaBitlen := shaBitlen ctx + 512, shaDatalen := 0\<rparr>
         else ctx)"

text \<open>The counter of the loop has 32 bits: with \<open>2 ^ 32\<close> bytes or more the loop does not end (\<open>None\<close>).\<close>

definition sha256_update :: "SHA256_CTX \<Rightarrow> u8 list \<Rightarrow> SHA256_CTX option" where
  "sha256_update ctx d = (if length d < 2 ^ 32 then Some (fold sha256_byte d ctx) else None)"

definition sha256_pad :: "SHA256_CTX \<Rightarrow> SHA256_CTX" where
  "sha256_pad ctx =
     (let i = shaDatalen ctx; ctx = ctx\<lparr>shaData := (shaData ctx)[i := 0x80]\<rparr>
      in if shaDatalen ctx < 56
         then ctx\<lparr>shaData := fold (\<lambda>i d. d[i := 0]) [i + 1..<56] (shaData ctx)\<rparr>
         else let ctx = ctx\<lparr>shaData := fold (\<lambda>i d. d[i := 0]) [i + 1..<64] (shaData ctx)\<rparr>;
                  ctx = sha256_transform ctx (shaData ctx)
              in ctx\<lparr>shaData := replicate 56 0 @ drop 56 (shaData ctx)\<rparr>)"

definition sha256_final :: "SHA256_CTX \<Rightarrow> u8 list" where
  "sha256_final ctx =
     (let ctx = sha256_pad ctx;
          ctx = ctx\<lparr>shaBitlen := shaBitlen ctx + of_nat (shaDatalen ctx * 8)\<rparr>;
          ctx = ctx\<lparr>shaData := fold (\<lambda>i d. d[63 - i := ucast (drop_bit (8 * i) (shaBitlen ctx))]) [0..<8] (shaData ctx)\<rparr>;
          ctx = sha256_transform ctx (shaData ctx)
      in concat (map (\<lambda>s. map (\<lambda>i. ucast (drop_bit (24 - i * 8) s AND 0xFF)) [0..<4]) (shaState ctx)))"

definition SHA256 :: "u8 list \<Rightarrow> u8 list \<Rightarrow> nat option" where
  "SHA256 garbage pData = map_option (\<lambda>ctx. ba2scalar (sha256_final ctx)) (sha256_update (sha256_init garbage) pData)"

section \<open>The standard\<close>

text \<open>The message schedule, the rounds and the padding of FIPS 180-4, on bytes.\<close>

definition shaSchedule :: "u8 list \<Rightarrow> u32 list" where
  "shaSchedule chunk =
     foldl (\<lambda>W t. W @ [sig1 (W ! (t - 2)) + W ! (t - 7) + sig0 (W ! (t - 15)) + W ! (t - 16)])
       (map (\<lambda>t. bytes2u32 (drop (4 * t) chunk) True) [0..<16]) [16..<64]"

definition shaSpecRound :: "u32 list \<Rightarrow> nat \<Rightarrow> sha8 \<Rightarrow> sha8" where
  "shaSpecRound W t = (\<lambda>(a, b, c, d, e, f, g, h).
     let t1 = h + ep1 e + shaCh e f g + sha256K ! t + W ! t
     in (t1 + (ep0 a + shaMaj a b c), a, b, c, d + t1, e, f, g))"

definition shaCompress :: "u8 list \<Rightarrow> u32 list \<Rightarrow> u32 list" where
  "shaCompress chunk s = (let (a, b, c, d, e, f, g, h) = fold (shaSpecRound (shaSchedule chunk)) [0..<64] (sha8Of s)
     in [s ! 0 + a, s ! 1 + b, s ! 2 + c, s ! 3 + d, s ! 4 + e, s ! 5 + f, s ! 6 + g, s ! 7 + h])"

fun shaBlocks :: "u8 list \<Rightarrow> u32 list \<Rightarrow> u32 list" where
  "shaBlocks m s = (if length m < 64 then s else shaBlocks (drop 64 m) (shaCompress (take 64 m) s))"

declare shaBlocks.simps [simp del]

definition shaPad :: "u8 list \<Rightarrow> u8 list" where
  "shaPad m = m @ 0x80 # replicate ((119 - length m mod 64) mod 64) 0 @ u642bytes (of_nat (length m * 8)) True"

definition shaSpec :: "u8 list \<Rightarrow> nat" where
  "shaSpec m = sha256Scalar (shaBlocks (shaPad m) sha256H)"

end
