(* ===== verification/Sha256_Spec.thy ===== *)
theory Sha256_Spec
  imports Sha256
begin

text \<open>
  The two implementations of SHA-256 on words compute the standard's function: the arrays filled in place
  are the message schedule, the rounds agree, and the context of the byte-wise one holds the blocks
  compressed so far and the bytes of the block that is not complete.
\<close>

section \<open>Compression\<close>

lemma bytes2u32_eq:
  "bytes2u32 p True = push_bit 24 (ucast (p ! 0)) OR push_bit 16 (ucast (p ! 1)) OR push_bit 8 (ucast (p ! 2)) OR ucast (p ! 3)"
  by (simp add: bytes2u32_def upt_rec push_bit_or push_bit_push_bit or.assoc numeral_2_eq_2 numeral_3_eq_3)

text \<open>Filling an array from position 16 on gives the list built by appending.\<close>

lemma fill_schedule:
  assumes "length W = m" and "\<And>w w' t. m \<le> t \<Longrightarrow> take t w = take t w' \<Longrightarrow> length w \<ge> t \<Longrightarrow> length w' \<ge> t \<Longrightarrow> F w t = F w' t"
  shows "fold (\<lambda>t w. w[t := F w t]) [m..<m + n] (W @ replicate n z) = foldl (\<lambda>W t. W @ [F W t]) W [m..<m + n] \<and>
         length (foldl (\<lambda>W t. W @ [F W t]) W [m..<m + n]) = m + n"
proof -
  have "fold (\<lambda>t w. w[t := F w t]) [m..<m + j] (W @ replicate n z) =
          foldl (\<lambda>W t. W @ [F W t]) W [m..<m + j] @ replicate (n - j) z \<and>
        length (foldl (\<lambda>W t. W @ [F W t]) W [m..<m + j]) = m + j" if "j \<le> n" for j
    using that
  proof (induction j)
    case (Suc j)
    define V where "V = foldl (\<lambda>W t. W @ [F W t]) W [m..<m + j]"
    have V: "length V = m + j" and IH: "fold (\<lambda>t w. w[t := F w t]) [m..<m + j] (W @ replicate n z) = V @ replicate (n - j) z"
      using Suc by (simp_all add: V_def)
    have "F (V @ replicate (n - j) z) (m + j) = F V (m + j)" by (rule assms(2)) (simp_all add: V)
    moreover have "replicate (n - j) z = z # replicate (n - Suc j) z" using Suc.prems
      by (simp add: Suc_diff_Suc flip: replicate_Suc)
    ultimately have "fold (\<lambda>t w. w[t := F w t]) [m..<m + Suc j] (W @ replicate n z) = (V @ [F V (m + j)]) @ replicate (n - Suc j) z"
      by (simp add: IH list_update_append V)
    then show ?case by (simp add: V flip: V_def)
  qed (simp add: assms(1))
  from this [of n] show ?thesis by simp
qed

definition shaNext :: "u32 list \<Rightarrow> nat \<Rightarrow> u32" where
  "shaNext W t = sig1 (W ! (t - 2)) + W ! (t - 7) + sig0 (W ! (t - 15)) + W ! (t - 16)"

lemma shaNext_cong:
  assumes "16 \<le> t" and "take t w = take t w'" and "t \<le> length w" and "t \<le> length w'"
  shows "shaNext w t = shaNext w' t"
  unfolding shaNext_def using assms nth_take_eq [OF assms(2)] by simp

lemma shaSchedule_fill:
  "fold (\<lambda>t w. w[t := shaNext w t]) [16..<64] (map (\<lambda>t. bytes2u32 (drop (4 * t) chunk) True) [0..<16] @ replicate 48 0) =
     shaSchedule chunk \<and> length (shaSchedule chunk) = 64"
proof -
  have sum: "16 + 48 = (64 :: nat)" by simp
  show ?thesis
    unfolding shaSchedule_def shaNext_def [symmetric]
    by (rule fill_schedule [of "map (\<lambda>t. bytes2u32 (drop (4 * t) chunk) True) [0..<16]" 16 shaNext 48 0, unfolded sum])
      (simp, blast intro: shaNext_cong)
qed

lemmas fill_shaSchedule = conjunct1 [OF shaSchedule_fill]

lemmas length_shaSchedule = conjunct2 [OF shaSchedule_fill]

lemma sha256FExtend_eq: "sha256FExtend = (\<lambda>i w. w[i := shaNext w i])"
  by (intro ext) (simp add: sha256FExtend_def shaNext_def sig0_def sig1_def Let_def ac_simps)

lemma sha256FRound_eq: "sha256FRound = shaSpecRound"
  by (intro ext) (auto simp: sha256FRound_def shaSpecRound_def ep0_def ep1_def shaCh_def shaMaj_def Let_def)

lemma SHA256F_eq: "SHA256F p st = shaCompress p st"
  unfolding SHA256F_def Let_def sha256FExtend_eq sha256FRound_eq fill_shaSchedule by (simp add: shaCompress_def del: upt_rec_numeral)

lemma shaExtend_eq: "shaExtend = (\<lambda>i w. w[i := shaNext w i])"
  by (intro ext) (simp add: shaExtend_def shaNext_def)

lemma shaRound_eq: "shaRound = shaSpecRound"
  by (intro ext) (auto simp: shaRound_def shaSpecRound_def Let_def)

lemma sha256_transform_eq:
  assumes "length d = 64"
  shows "sha256_transform ctx d = ctx\<lparr>shaState := shaCompress d (shaState ctx)\<rparr>"
proof -
  have "map (\<lambda>i. push_bit 24 (ucast (d ! (4 * i))) OR push_bit 16 (ucast (d ! (4 * i + 1))) OR
          push_bit 8 (ucast (d ! (4 * i + 2))) OR ucast (d ! (4 * i + 3))) [0..<16] =
        map (\<lambda>t. bytes2u32 (drop (4 * t) d) True) [0..<16]"
    using assms by (auto simp: bytes2u32_eq simp del: upt_rec_numeral)
  then show ?thesis
    unfolding sha256_transform_def Let_def shaExtend_eq shaRound_eq
    by (simp only: fill_shaSchedule) (simp add: shaCompress_def split_beta Let_def del: upt_rec_numeral)
qed

section \<open>Blocks\<close>

lemma shaBlocks_short: "length m < 64 \<Longrightarrow> shaBlocks m s = s"
  by (simp add: shaBlocks.simps)

lemma shaBlocks_Cons: "length b = 64 \<Longrightarrow> shaBlocks (b @ m) s = shaBlocks m (shaCompress b s)"
  by (subst shaBlocks.simps) simp

lemma shaBlocks_append: "64 dvd length a \<Longrightarrow> shaBlocks (a @ b) s = shaBlocks b (shaBlocks a s)"
proof (induction a s rule: shaBlocks.induct)
  case (1 m s)
  show ?case
  proof (cases "m = []")
    case False
    then have 64: "64 \<le> length m" using 1(2) by (simp add: dvd_imp_le)
    have "shaBlocks (m @ b) s = shaBlocks (drop 64 m @ b) (shaCompress (take 64 m) s)"
      using 64 by (subst shaBlocks.simps) simp
    also have "\<dots> = shaBlocks b (shaBlocks (drop 64 m) (shaCompress (take 64 m) s))"
      using 1 64 by (simp add: dvd_diff_nat)
    also have "shaBlocks (drop 64 m) (shaCompress (take 64 m) s) = shaBlocks m s"
      using 64 by (subst (2) shaBlocks.simps) simp
    finally show ?thesis .
  qed (simp add: shaBlocks.simps)
qed

text \<open>The blocks of a message are those of its whole blocks.\<close>

definition wholeBlocks :: "u8 list \<Rightarrow> u8 list" where
  "wholeBlocks m = take (length m - length m mod 64) m"

definition lastBytes :: "u8 list \<Rightarrow> u8 list" where
  "lastBytes m = drop (length m - length m mod 64) m"

lemma whole_last: "wholeBlocks m @ lastBytes m = m"
  by (simp add: wholeBlocks_def lastBytes_def)

lemma length_whole: "64 dvd length (wholeBlocks m)"
  by (simp add: wholeBlocks_def dvd_minus_mod)

lemma length_last: "length (lastBytes m) = length m mod 64"
  by (simp add: lastBytes_def)

section \<open>The byte-wise implementation\<close>

definition ctxAfter :: "u8 list \<Rightarrow> SHA256_CTX \<Rightarrow> bool" where
  "ctxAfter m ctx \<longleftrightarrow> length (shaData ctx) = 64 \<and> shaDatalen ctx = length m mod 64 \<and>
     take (length m mod 64) (shaData ctx) = lastBytes m \<and>
     shaBitlen ctx = of_nat (8 * (length m - length m mod 64)) \<and> shaState ctx = shaBlocks (wholeBlocks m) sha256H"

lemma ctxAfter_byte:
  assumes "ctxAfter m ctx"
  shows "ctxAfter (m @ [b]) (sha256_byte b ctx)"
proof -
  define l where "l = length m mod 64"
  have l: "l < 64" by (simp add: l_def)
  have data: "take (Suc l) ((shaData ctx)[l := b]) = lastBytes m @ [b]"
    using assms l by (simp add: ctxAfter_def take_Suc_conv_app_nth flip: l_def)
  show ?thesis
  proof (cases "Suc l = 64")
    case False
    then have l': "length (m @ [b]) mod 64 = Suc l" unfolding l_def by (simp add: mod_Suc)
    have lm: "l \<le> length m" by (simp add: l_def)
    then have "wholeBlocks (m @ [b]) = wholeBlocks m" "lastBytes (m @ [b]) = lastBytes m @ [b]"
      unfolding wholeBlocks_def lastBytes_def l' using l_def by simp_all
    then show ?thesis using assms False l l' data lm
      by (simp add: ctxAfter_def sha256_byte_def Let_def flip: l_def)
  next
    case True
    then have l': "length (m @ [b]) mod 64 = 0" unfolding l_def by (simp add: mod_Suc)
    have "take 64 ((shaData ctx)[l := b]) = lastBytes m @ [b]" using data True by simp
    then have d: "(shaData ctx)[l := b] = lastBytes m @ [b]" using assms by (simp add: ctxAfter_def)
    have "wholeBlocks (m @ [b]) = wholeBlocks m @ (lastBytes m @ [b])"
      using l' whole_last [of m] by (simp add: wholeBlocks_def flip: append_assoc)
    moreover have l64: "length (lastBytes m @ [b]) = 64" using True by (simp add: length_last l_def)
    ultimately have "shaBlocks (wholeBlocks (m @ [b])) sha256H = shaCompress (lastBytes m @ [b]) (shaState ctx)"
      using assms shaBlocks_Cons [OF l64, of "[]"]
      by (simp add: shaBlocks_append length_whole ctxAfter_def shaBlocks_short)
    moreover have "of_nat (8 * length (m @ [b])) = (of_nat (8 * (length m - l)) + 512 :: u64)"
    proof -
      have "8 * length (m @ [b]) = 8 * (length m - l) + 512" using True mod_less_eq_dividend [of "length m" 64]
        by (simp add: l_def)
      then show ?thesis by (metis of_nat_add of_nat_numeral)
    qed
    moreover have "sha256_byte b ctx = ctx\<lparr>shaData := lastBytes m @ [b], shaDatalen := 0,
        shaBitlen := shaBitlen ctx + 512, shaState := shaCompress (lastBytes m @ [b]) (shaState ctx)\<rparr>"
    proof -
      have "shaDatalen ctx = l" using assms by (simp add: ctxAfter_def l_def)
      moreover have "length (lastBytes m @ [b]) = 64" using True by (simp add: length_last l_def)
      ultimately show ?thesis using True d by (simp add: sha256_byte_def Let_def sha256_transform_eq)
    qed
    moreover have "length (lastBytes m @ [b]) = 64" using True by (simp add: length_last l_def)
    moreover have "shaBitlen ctx = of_nat (8 * (length m - l))" using assms by (simp add: ctxAfter_def l_def)
    moreover have "lastBytes (m @ [b]) = []" using l' by (simp add: lastBytes_def)
    ultimately show ?thesis unfolding ctxAfter_def l' by (simp del: of_nat_mult length_append)
  qed
qed

lemma ctxAfter_fold: "ctxAfter m ctx \<Longrightarrow> ctxAfter (m @ d) (fold sha256_byte d ctx)"
proof (induction d arbitrary: m ctx)
  case (Cons b d)
  from Cons.IH [OF ctxAfter_byte [OF Cons.prems, of b]] show ?case by simp
qed simp

section \<open>Padding and output\<close>

lemma fold_zeros:
  "a \<le> b \<Longrightarrow> b \<le> length d \<Longrightarrow> fold (\<lambda>i d. d[i := 0]) [a..<b] d = take a d @ replicate (b - a) 0 @ drop b d"
proof (induction b)
  case (Suc b)
  show ?case
  proof (cases "a = Suc b")
    case False
    with Suc have a: "a \<le> b" "b < length d" by auto
    have "fold (\<lambda>i d. d[i := 0]) [a..<Suc b] d = (take a d @ replicate (b - a) 0 @ drop b d)[b := 0]"
      using Suc a by simp
    also have "\<dots> = take a d @ replicate (b - a) 0 @ (drop b d)[0 := 0]"
      using a by (simp add: list_update_append)
    also have "(drop b d)[0 := 0] = 0 # drop (Suc b) d" using a by (cases "drop b d") (auto simp: drop_Suc tl_drop dest: arg_cong [of _ _ tl])
    also have "replicate (b - a) 0 @ 0 # drop (Suc b) d = replicate (Suc b - a) 0 @ drop (Suc b) d"
      using a by (simp add: Suc_diff_le replicate_append_same flip: replicate_Suc)
    finally show ?thesis .
  qed simp
qed simp

lemma length_8_conv: "length a = 8 \<Longrightarrow> \<exists>a0 a1 a2 a3 a4 a5 a6 a7. a = [a0, a1, a2, a3, a4, a5, a6, a7]"
  by (auto simp: eval_nat_numeral length_Suc_conv)

lemma fold_length_bytes:
  assumes "length d = 64"
  shows "fold (\<lambda>i d. d[63 - i := g i]) [0..<8] d = take 56 d @ map (\<lambda>i. g (7 - i)) [0..<8]"
proof -
  have a: "d = take 56 d @ drop 56 d" "length (drop 56 d) = 8" using assms by simp_all
  then obtain a0 a1 a2 a3 a4 a5 a6 a7 where "drop 56 d = [a0, a1, a2, a3, a4, a5, a6, a7]"
    using length_8_conv by blast
  with a obtain t where d: "d = t @ [a0, a1, a2, a3, a4, a5, a6, a7]" and t: "length t = 56"
    using assms that [of "take 56 d"] by simp
  show ?thesis unfolding d using t by (simp add: upt_rec list_update_append) (simp add: eval_nat_numeral)
qed

lemma ucast_masked: "(ucast (x AND 0xFF) :: u8) = ucast x" for x :: "'a :: len word"
proof (rule bit_word_eqI)
  fix n assume n: "n < LENGTH(8)"
  have "x AND 0xFF = take_bit 8 x" by (simp add: take_bit_eq_mask mask_eq_exp_minus_1)
  then have "bit (x AND 0xFF) n = bit x n" using n by (auto simp: bit_take_bit_iff)
  then show "bit (ucast (x AND 0xFF) :: u8) n = bit (ucast x :: u8) n"
    using n by (simp add: bit_ucast_iff)
qed

lemma length_u642bytes [simp]: "length (u642bytes x b) = 8"
  by (simp add: u642bytes_def)

text \<open>The last block of the padded message, and the one before it when the size does not fit.\<close>

definition padEnd :: "u8 list \<Rightarrow> u8 list" where
  "padEnd m = lastBytes m @ 0x80 # replicate ((119 - length m mod 64) mod 64) 0 @ u642bytes (of_nat (length m * 8)) True"

lemma shaPad_eq: "shaPad m = wholeBlocks m @ padEnd m"
  using whole_last [of m] by (simp add: shaPad_def padEnd_def flip: append_assoc)

lemma shaSpec_eq: "shaSpec m = sha256Scalar (shaBlocks (padEnd m) (shaBlocks (wholeBlocks m) sha256H))"
  by (simp add: shaSpec_def shaPad_eq shaBlocks_append length_whole)

lemma padZeros:
  "l < 56 \<Longrightarrow> (119 - l) mod 64 = 55 - l" "l < 64 \<Longrightarrow> \<not> l < 56 \<Longrightarrow> (119 - l) mod 64 = 63 - l + 56" for l :: nat
proof -
  assume "l < 56"
  then have "119 - l = 55 - l + 64" by simp
  then show "(119 - l) mod 64 = 55 - l" by (simp only: mod_add_self2) simp
qed simp

lemma padEnd_short:
  assumes "length m mod 64 < 56"
  shows "padEnd m = lastBytes m @ 0x80 # replicate (55 - length m mod 64) 0 @ u642bytes (of_nat (length m * 8)) True"
    and "length (padEnd m) = 64"
proof -
  have "padEnd m = lastBytes m @ 0x80 # replicate (55 - length m mod 64) 0 @ u642bytes (of_nat (length m * 8)) True"
    unfolding padEnd_def padZeros(1) [OF assms] ..
  then show "padEnd m = lastBytes m @ 0x80 # replicate (55 - length m mod 64) 0 @ u642bytes (of_nat (length m * 8)) True"
    by (simp add: padEnd_def)
  then show "length (padEnd m) = 64" using assms by (simp add: length_last)
qed

lemma padEnd_long:
  assumes "56 \<le> length m mod 64"
  shows "padEnd m = (lastBytes m @ 0x80 # replicate (63 - length m mod 64) 0) @
           (replicate 56 0 @ u642bytes (of_nat (length m * 8)) True)"
    and "length (lastBytes m @ 0x80 # replicate (63 - length m mod 64) 0) = 64"
proof -
  have l: "length m mod 64 < 64" by simp
  have z: "(119 - length m mod 64) mod 64 = 63 - length m mod 64 + 56"
    by (rule padZeros(2) [OF l]) (use assms in simp)
  show "padEnd m = (lastBytes m @ 0x80 # replicate (63 - length m mod 64) 0) @
           (replicate 56 0 @ u642bytes (of_nat (length m * 8)) True)"
    unfolding padEnd_def z replicate_add append_assoc append_Cons ..
  show "length (lastBytes m @ 0x80 # replicate (63 - length m mod 64) 0) = 64" using l assms by (simp add: length_last)
qed

text \<open>After the padding the last block lacks only its last eight bytes.\<close>

lemma sha256_pad_eq:
  assumes "ctxAfter m ctx"
  shows "length (shaData (sha256_pad ctx)) = 64"
    and "shaDatalen (sha256_pad ctx) = length m mod 64" "shaBitlen (sha256_pad ctx) = shaBitlen ctx"
    and "length b = 8 \<Longrightarrow> shaCompress (take 56 (shaData (sha256_pad ctx)) @ b) (shaState (sha256_pad ctx)) =
      shaBlocks (lastBytes m @ 0x80 # replicate ((119 - length m mod 64) mod 64) 0 @ b) (shaState ctx)"
proof -
  define l where "l = length m mod 64"
  have l: "l < 64" and data: "length (shaData ctx) = 64" and last: "take l (shaData ctx) = lastBytes m"
    and len: "shaDatalen ctx = l"
    using assms by (simp_all add: l_def ctxAfter_def)
  have one: "take (Suc l) ((shaData ctx)[l := 0x80]) = lastBytes m @ [0x80]"
    using l data by (simp add: take_Suc_conv_app_nth last)
  have "length (shaData (sha256_pad ctx)) = 64 \<and> shaDatalen (sha256_pad ctx) = l \<and> shaBitlen (sha256_pad ctx) = shaBitlen ctx \<and>
    (length b = 8 \<longrightarrow> shaCompress (take 56 (shaData (sha256_pad ctx)) @ b) (shaState (sha256_pad ctx)) =
      shaBlocks (lastBytes m @ 0x80 # replicate ((119 - l) mod 64) 0 @ b) (shaState ctx))"
  proof (cases "l < 56")
    case True
    note z = padZeros(1) [OF True]
    define P where "P = lastBytes m @ 0x80 # replicate (55 - l) 0"
    have P: "length P = 56" using True by (simp add: P_def length_last l_def)
    have f: "fold (\<lambda>i d. d[i := 0]) [Suc l..<56] ((shaData ctx)[l := 0x80]) = P @ drop 56 (shaData ctx)"
      using True data one by (subst fold_zeros) (simp_all add: P_def)
    have "length b = 8 \<Longrightarrow> shaBlocks (P @ b) (shaState ctx) = shaCompress (P @ b) (shaState ctx)"
      using shaBlocks_Cons [of "P @ b" "[]"] by (simp add: P shaBlocks_short)
    moreover have E: "lastBytes m @ 0x80 # replicate (55 - l) 0 @ b = P @ b" unfolding P_def by simp
    ultimately show ?thesis unfolding z E using True data len P f
      by (simp del: append_assoc append_Cons append.simps add: sha256_pad_def Let_def)
  next
    case False
    note z = padZeros(2) [OF l False]
    from False have f: "fold (\<lambda>i d. d[i := 0]) [Suc l..<64] ((shaData ctx)[l := 0x80]) = lastBytes m @ 0x80 # replicate (63 - l) 0"
      using False l data one by (subst fold_zeros) simp_all
    have full: "length (lastBytes m @ 0x80 # replicate (63 - l) 0) = 64" using False l by (simp add: length_last l_def)
    have "length b = 8 \<Longrightarrow> shaBlocks ((lastBytes m @ 0x80 # replicate (63 - l) 0) @ (replicate 56 0 @ b)) (shaState ctx) =
        shaCompress (replicate 56 0 @ b) (shaCompress (lastBytes m @ 0x80 # replicate (63 - l) 0) (shaState ctx))"
      using shaBlocks_Cons [of "replicate 56 0 @ b" "[]"] by (simp only: shaBlocks_Cons [OF full]) (simp add: shaBlocks_short)
    then show ?thesis unfolding z replicate_add using False len full f
      by (simp add: sha256_pad_def Let_def sha256_transform_eq)
  qed
  then show "length (shaData (sha256_pad ctx)) = 64" "shaDatalen (sha256_pad ctx) = length m mod 64"
    "shaBitlen (sha256_pad ctx) = shaBitlen ctx"
    "length b = 8 \<Longrightarrow> shaCompress (take 56 (shaData (sha256_pad ctx)) @ b) (shaState (sha256_pad ctx)) =
      shaBlocks (lastBytes m @ 0x80 # replicate ((119 - length m mod 64) mod 64) 0 @ b) (shaState ctx)"
    by (simp_all add: l_def)
qed

lemma u642bytes_eq: "u642bytes x True = map (\<lambda>i. ucast (drop_bit (8 * (7 - i)) x)) [0..<8]"
  by (simp add: u642bytes_def ucast_masked)

lemma unat_drop: "unat (drop_bit n x) = unat x div 2 ^ n" for x :: "'a :: len word"
  unfolding unat_drop_bit_eq by (rule drop_bit_eq_div)

lemma unat_ucast8: "unat (ucast x :: u8) = unat x mod 256" for x :: "'a :: len word"
  by (simp add: unsigned_ucast_eq take_bit_eq_mod)

lemma four_bytes:
  fixes n :: nat
  assumes "n < 2 ^ 32"
  shows "((n div 2 ^ 24 * 256 + n div 2 ^ 16 mod 256) * 256 + n div 2 ^ 8 mod 256) * 256 + n mod 256 = n"
proof -
  have "n div 2 ^ 24 * 256 + n div 2 ^ 16 mod 256 = n div 2 ^ 16"
    using div_mult_mod_eq [of "n div 2 ^ 16" 256] by (simp add: div_mult2_eq [symmetric])
  moreover have "n div 2 ^ 16 * 256 + n div 2 ^ 8 mod 256 = n div 2 ^ 8"
    using div_mult_mod_eq [of "n div 2 ^ 8" 256] by (simp add: div_mult2_eq [symmetric])
  moreover have "n div 2 ^ 8 * 256 + n mod 256 = n" using div_mult_mod_eq [of n 256] by simp
  ultimately show ?thesis by simp
qed

lemma word_of_bytes:
  "foldl (\<lambda>s b. s * 2 ^ 8 + unat b) s (map (\<lambda>i. ucast (drop_bit (24 - i * 8) x AND 0xFF) :: u8) [0..<4]) =
     push_bit 32 s + unat x" for x :: u32
proof -
  define n where "n = unat x"
  have n: "n < 2 ^ 32" using unat_less_len [of x] by (simp add: n_def)
  then have "n div 2 ^ 24 mod 256 = n div 2 ^ 24" by (intro mod_less) (simp add: less_mult_imp_div_less)
  moreover have "unat (ucast (drop_bit k x AND 0xFF) :: u8) = n div 2 ^ k mod 256" for k
    unfolding ucast_masked unat_ucast8 unat_drop n_def ..
  moreover from this [of 0] have "unat (ucast (x AND 0xFF) :: u8) = n mod 256" by simp
  moreover have "[0..<4] = [0, 1, 2, 3 :: nat]" by (rule upt_4)
  ultimately have "foldl (\<lambda>s b. s * 2 ^ 8 + unat b) s (map (\<lambda>i. ucast (drop_bit (24 - i * 8) x AND 0xFF) :: u8) [0..<4]) =
      (((s * 256 + n div 2 ^ 24) * 256 + n div 2 ^ 16 mod 256) * 256 + n div 2 ^ 8 mod 256) * 256 + n mod 256"
    by (simp del: upt_rec_numeral)
  also have "\<dots> = s * 2 ^ 32 + n" using four_bytes [OF n] by (simp add: algebra_simps)
  finally show ?thesis by (simp add: push_bit_eq_mult n_def)
qed

lemma sha256Scalar_bytes:
  "ba2scalar (concat (map (\<lambda>s. map (\<lambda>i. ucast (drop_bit (24 - i * 8) s AND 0xFF)) [0..<4]) st)) = sha256Scalar st"
proof -
  have "foldl (\<lambda>s b. s * 2 ^ 8 + unat b) v
      (concat (map (\<lambda>s. map (\<lambda>i. ucast (drop_bit (24 - i * 8) s AND 0xFF) :: u8) [0..<4]) st)) =
      foldl (\<lambda>s x. push_bit 32 s + unat x) v st" for v
  proof (induction st arbitrary: v)
    case (Cons x st)
    then show ?case using word_of_bytes [of v x] by (simp del: upt_rec_numeral)
  qed simp
  then show ?thesis by (simp add: ba2scalar_def sha256Scalar_def)
qed

lemma SHA256_eq:
  assumes "length garbage = 64" and "length m < 2 ^ 32"
  shows "SHA256 garbage m = Some (shaSpec m)"
proof -
  have "ctxAfter [] (sha256_init garbage)"
    using assms(1) by (simp add: ctxAfter_def sha256_init_def wholeBlocks_def lastBytes_def shaBlocks_short)
  from ctxAfter_fold [OF this, of m] have ctx: "ctxAfter m (fold sha256_byte m (sha256_init garbage))" by simp
  define ctx where "ctx = fold sha256_byte m (sha256_init garbage)"
  note c = sha256_pad_eq [OF ctx [folded ctx_def]]
  have ca: "ctxAfter m ctx" using ctx by (simp add: ctx_def)
  define B where "B = shaBitlen ctx + of_nat (length m mod 64 * 8)"
  have "8 * (length m - length m mod 64) + length m mod 64 * 8 = length m * 8" by simp
  then have B: "B = of_nat (length m * 8)"
    using ca unfolding B_def ctxAfter_def by (metis of_nat_add)
  have "sha256_final ctx = concat (map (\<lambda>s. map (\<lambda>i. ucast (drop_bit (24 - i * 8) s AND 0xFF)) [0..<4])
      (shaCompress (take 56 (shaData (sha256_pad ctx)) @ u642bytes B True) (shaState (sha256_pad ctx))))"
    using fold_length_bytes [OF c(1)]
    by (simp add: sha256_final_def Let_def c B_def u642bytes_eq sha256_transform_eq del: upt_rec_numeral of_nat_mult)
  also have "shaCompress (take 56 (shaData (sha256_pad ctx)) @ u642bytes B True) (shaState (sha256_pad ctx)) =
      shaBlocks (padEnd m) (shaState ctx)"
    by (subst c(4)) (simp_all add: padEnd_def B del: of_nat_mult)
  finally have "ba2scalar (sha256_final ctx) = shaSpec m"
    using ca by (simp add: sha256Scalar_bytes shaSpec_eq ctxAfter_def del: upt_rec_numeral)
  then show ?thesis using assms(2) by (simp add: SHA256_def sha256_update_def ctx_def)
qed

section \<open>The padding of one buffer\<close>

lemma foldl_copy:
  "n \<le> length p \<Longrightarrow> foldl (\<lambda>p i. p[i := g i]) p [0..<n] = map g [0..<n] @ drop n p"
proof (induction n)
  case (Suc n)
  then have "foldl (\<lambda>p i. p[i := g i]) p [0..<Suc n] = (map g [0..<n] @ drop n p)[n := g n]" by simp
  also have "\<dots> = map g [0..<n] @ (drop n p)[0 := g n]" by (simp add: list_update_append)
  also have "(drop n p)[0 := g n] = g n # drop (Suc n) p"
    using Suc.prems by (metis Cons_nth_drop_Suc Suc_le_lessD list_update_code(2))
  finally show ?case by simp
qed simp

lemma sha256Padding_short:
  assumes "length m mod 64 < 56"
  shows "sha256Padding m = Ret (padEnd m, (length m div 64 + 1) * 64)"
proof -
  define q t where "q = length m div 64" and "t = length m mod 64"
  have L: "length m = 64 * q + t" and t: "t < 56" using assms by (simp_all add: q_def t_def)
  have "(length m * 8 + 1 + 64) div 512 = q" unfolding L using t by simp
  then have s: "((length m * 8 + 1 + 64) div 512 + 1) * 512 = 512 * q + 512" by simp
  have "(512 * q + 512 - (length m * 8 + 1 + 64)) = 447 - 8 * t" unfolding L by simp
  moreover have "(447 - 8 * t) div 8 = 55 - t" using t by presburger
  ultimately have z: "(512 * q + 512 - (length m * 8 + 1 + 64)) div 8 = 55 - t" by simp
  have "(64 - 8 - of_nat (55 - t) - 1 :: u64) = of_nat t" using t by (simp add: of_nat_diff)
  then have one: "unat (64 - 8 - of_nat (55 - t) - 1 :: u64) = t" using t by (simp add: unat_of_nat_less)
  have copy: "map (\<lambda>i. m ! (length m div 64 * 64 + i)) [0..<t] = lastBytes m"
  proof -
    have "lastBytes m = drop (64 * q) m" unfolding lastBytes_def t_def [symmetric] using L by simp
    then show ?thesis unfolding q_def [symmetric] using L
      by (auto intro!: nth_equalityI simp: mult.commute)
  qed
  have "drop t ((replicate 56 0 @ u642bytes (of_nat (length m * 8)) True)[t := 0x80]) =
      0x80 # replicate (55 - t) 0 @ u642bytes (of_nat (length m * 8)) True"
  proof -
    have "replicate 56 (0 :: u8) = replicate t 0 @ 0 # replicate (55 - t) 0"
      using t by (simp flip: replicate_Suc replicate_add add: Suc_diff_Suc)
    then show ?thesis by (simp only: append_assoc) (simp add: list_update_append)
  qed
  moreover have "t \<le> 64" using t by simp
  ultimately show ?thesis
    unfolding sha256Padding_def Let_def s z one using t padEnd_short(1) [OF assms]
    by (simp add: foldl_copy copy [folded q_def] t_def [symmetric] q_def [symmetric])
qed

lemma sha256Padding_long:
  assumes "56 \<le> length m mod 64"
  shows "sha256Padding m = Undef"
proof -
  define q t where "q = length m div 64" and "t = length m mod 64"
  have L: "length m = 64 * q + t" and t: "56 \<le> t" "t < 64" using assms by (simp_all add: q_def t_def)
  have "length m * 8 + 1 + 64 = 512 * (q + 1) + (8 * t - 447)" unfolding L using t by simp
  moreover have "8 * t - 447 < 512" using t by linarith
  ultimately have "(length m * 8 + 1 + 64) div 512 = q + 1" by (simp only: div_mod_plus)
  then have s: "((length m * 8 + 1 + 64) div 512 + 1) * 512 = 512 * q + 1024" by simp
  have "(512 * q + 1024 - (length m * 8 + 1 + 64)) = 959 - 8 * t" unfolding L by simp
  moreover have "(959 - 8 * t) div 8 = 119 - t" using t by presburger
  ultimately have z: "(512 * q + 1024 - (length m * 8 + 1 + 64)) div 8 = 119 - t" by simp
  have "t = 56 \<or> t = 57 \<or> t = 58 \<or> t = 59 \<or> t = 60 \<or> t = 61 \<or> t = 62 \<or> t = 63" using t by linarith
  then have one: "64 \<le> unat (64 - 8 - of_nat (119 - t) - 1 :: u64)" by (elim disjE) (simp_all add: unsigned_minus_1_eq_mask mask_eq_exp_minus_1)
  then show ?thesis unfolding sha256Padding_def Let_def s z by simp
qed

lemma foldO_chunks:
  assumes "\<And>p st. f p st = shaCompress p st" and "length m mod 64 < 56"
  shows "foldO (\<lambda>chunk st. bindO (sha256ChunkBytes m (padEnd m) ((length m div 64 + 1) * 64) chunk) (\<lambda>p. Ret (f p st)))
           [0..<length m div 64 + 1] sha256H = Ret (shaBlocks (shaPad m) sha256H)"
proof -
  let ?f = "\<lambda>chunk st. bindO (sha256ChunkBytes m (padEnd m) ((length m div 64 + 1) * 64) chunk) (\<lambda>p. Ret (f p st))"
  have "foldO ?f [0..<j] sha256H = Ret (shaBlocks (take (64 * j) m) sha256H)" if "j \<le> length m div 64" for j
    using that
  proof (induction j)
    case (Suc j)
    have le: "64 * j + 64 \<le> length m" using Suc.prems by (simp add: less_eq_div_iff_mult_less_eq)
    have "64 * Suc j = 64 * j + 64" by simp
    then have "take (64 * Suc j) m = take (64 * j) m @ take 64 (drop (64 * j) m)"
      by (simp only: take_add)
    moreover have "shaBlocks (take 64 (drop (64 * j) m)) s = shaCompress (take 64 (drop (64 * j) m)) s" for s
      using shaBlocks_Cons [of "take 64 (drop (64 * j) m)" "[]"] le by (simp add: shaBlocks_short)
    moreover have "64 dvd length (take (64 * j) m)" using le by simp
    ultimately show ?case using Suc le assms(1)
      by (simp add: foldO_append sha256ChunkBytes_def shaBlocks_append mult.commute)
  qed (simp add: shaBlocks_short)
  from this [of "length m div 64"] have "foldO ?f [0..<length m div 64 + 1] sha256H =
      Ret (shaCompress (padEnd m) (shaBlocks (wholeBlocks m) sha256H))"
    using assms(1) by (simp add: foldO_append sha256ChunkBytes_def wholeBlocks_def minus_mod_eq_mult_div)
  then show ?thesis
    using shaBlocks_Cons [OF padEnd_short(2) [OF assms(2)], of "[]"]
    by (simp add: shaPad_eq shaBlocks_append length_whole shaBlocks_short)
qed

lemma SHA256_old_eq: "length m mod 64 < 56 \<Longrightarrow> SHA256_old m = Ret (shaSpec m)"
  using foldO_chunks [of SHA256F m] by (simp add: SHA256_old_def sha256Padding_short SHA256F_eq shaSpec_def)

section \<open>The constants\<close>

text \<open>The first 32 bits of the fractional part of the k-th root of p.\<close>

definition rootFraction :: "nat \<Rightarrow> nat \<Rightarrow> u32 \<Rightarrow> bool" where
  "rootFraction k p w \<longleftrightarrow> (\<exists>q. (q * 2 ^ 32 + unat w) ^ k \<le> p * 2 ^ (32 * k) \<and> p * 2 ^ (32 * k) < (q * 2 ^ 32 + unat w + 1) ^ k)"

lemma rootFractions:
  "list_all2 (\<lambda>(p, q) w. (q * 2 ^ 32 + unat w) ^ k \<le> p * 2 ^ (32 * k) \<and> p * 2 ^ (32 * k) < (q * 2 ^ 32 + unat w + 1) ^ k)
     (zip ps qs) ws \<Longrightarrow> length qs = length ps \<Longrightarrow> list_all2 (rootFraction k) ps ws"
  by (auto simp: list_all2_conv_all_nth rootFraction_def)

definition firstPrimes :: "nat list" where
  "firstPrimes =
     [2, 3, 5, 7, 11, 13, 17, 19, 23, 29, 31, 37, 41, 43, 47, 53, 59, 61, 67, 71, 
       73, 79, 83, 89, 97, 101, 103, 107, 109, 113, 127, 131, 137, 139, 149, 151, 157, 163, 167, 173, 
       179, 181, 191, 193, 197, 199, 211, 223, 227, 229, 233, 239, 241, 251, 257, 263, 269, 271, 277, 281, 
       283, 293, 307, 311]"

lemma sha256_constants:
  "list_all2 (rootFraction 2) (take 8 firstPrimes) sha256H"
  "list_all2 (rootFraction 3) firstPrimes sha256K"
  by (rule rootFractions [where qs = "[1, 1, 2, 2, 3, 3, 4, 4]"], simp add: sha256H_def firstPrimes_def, simp add: firstPrimes_def)
    (rule rootFractions [where qs =
      "[1, 1, 1, 1, 2, 2, 2, 2, 2, 3, 3, 3, 3, 3, 3, 3, 3, 3, 4, 4, 
       4, 4, 4, 4, 4, 4, 4, 4, 4, 4, 5, 5, 5, 5, 5, 5, 5, 5, 5, 5, 
       5, 5, 5, 5, 5, 5, 5, 6, 6, 6, 6, 6, 6, 6, 6, 6, 6, 6, 6, 6, 
       6, 6, 6, 6]"],
      simp add: sha256K_def firstPrimes_def, simp add: firstPrimes_def)

end
