(* ===== verification/Sha256_Gate.thy ===== *)
theory Sha256_Gate
  imports Gate_Slots Sha256_Spec
begin

text \<open>
  The circuit of SHA-256 (src/tools/sm/sha256/sha256_gate.cpp): for every chunk of the padded data a new
  gate state is built whose inputs are the chunk and the hash so far; the schedule and the rounds
  are word operations on gates, the new hash is read from the bits, and the outputs are placed on the
  gates of \<open>SoutRefs\<close>.
\<close>

definition SHA256GateConfig :: GateConfig where
  "SHA256GateConfig = \<lparr>zeroRef = 0, slotSize = 160480, maxRefs = 170000, firstNextRef = 1,
     sinRef0 = 45, sinRefNumber = 768, sinRefDistance = 44,
     soutRef0 = 45 + 768 * 44, soutRefNumber = 256, soutRefDistance = 44, polLength = 2 ^ 23\<rparr>"

section \<open>The code\<close>

abbreviation (input) shaShiftRight :: "GateBit list \<Rightarrow> nat \<Rightarrow> GateBit list" where
  "shaShiftRight \<equiv> gateShiftRight SHA256GateConfig 32"

definition shaGateExtend :: "nat \<Rightarrow> GateBit list list \<Rightarrow> (GateState, GateBit list list) prog" where
  "shaGateExtend i w =
     bindP (GateU32_xor (gateRotateRight 32 (w ! (i - 15)) 7) (gateRotateRight 32 (w ! (i - 15)) 18)) (\<lambda>aux4.
     bindP (GateU32_xor aux4 (shaShiftRight (w ! (i - 15)) 3)) (\<lambda>s0.
     bindP (GateU32_xor (gateRotateRight 32 (w ! (i - 2)) 17) (gateRotateRight 32 (w ! (i - 2)) 19)) (\<lambda>aux4.
     bindP (GateU32_xor aux4 (shaShiftRight (w ! (i - 2)) 10)) (\<lambda>s1.
     bindP (GateU32_add (w ! (i - 16)) s0) (\<lambda>aux1.
     bindP (GateU32_add aux1 (w ! (i - 7))) (\<lambda>aux2.
     bindP (GateU32_add aux2 s1) (\<lambda>wi.
     retP (w[i := wi]))))))))"

text \<open>The working variables a, b, c, d, e, f, g, hh.\<close>

type_synonym gate8 = "GateBit list \<times> GateBit list \<times> GateBit list \<times> GateBit list \<times>
  GateBit list \<times> GateBit list \<times> GateBit list \<times> GateBit list"

definition shaGateRound :: "GateBit list list \<Rightarrow> GateBit list list \<Rightarrow> nat \<Rightarrow> gate8 \<Rightarrow> (GateState, gate8) prog" where
  "shaGateRound k w i = (\<lambda>(a, b, c, d, e, f, g, hh).
     bindP (GateU32_xor (gateRotateRight 32 e 6) (gateRotateRight 32 e 11)) (\<lambda>aux4.
     bindP (GateU32_xor aux4 (gateRotateRight 32 e 25)) (\<lambda>S1.
     bindP (GateU32_and e f) (\<lambda>aux1.
     bindP (GateU32_not e) (\<lambda>aux2.
     bindP (GateU32_and aux2 g) (\<lambda>aux3.
     bindP (GateU32_xor aux1 aux3) (\<lambda>ch.
     bindP (GateU32_add hh S1) (\<lambda>aux1.
     bindP (GateU32_add aux1 ch) (\<lambda>aux2.
     bindP (GateU32_add aux2 (k ! i)) (\<lambda>aux3.
     bindP (GateU32_add aux3 (w ! i)) (\<lambda>temp1.
     bindP (GateU32_xor (gateRotateRight 32 a 2) (gateRotateRight 32 a 13)) (\<lambda>aux4.
     bindP (GateU32_xor aux4 (gateRotateRight 32 a 22)) (\<lambda>S0.
     bindP (GateU32_and a b) (\<lambda>aux1.
     bindP (GateU32_and a c) (\<lambda>aux2.
     bindP (GateU32_and b c) (\<lambda>aux3.
     bindP (GateU32_xor aux1 aux2) (\<lambda>aux4.
     bindP (GateU32_xor aux4 aux3) (\<lambda>maj.
     bindP (GateU32_add S0 maj) (\<lambda>temp2.
     bindP (GateU32_add d temp1) (\<lambda>e'.
     bindP (GateU32_add temp1 temp2) (\<lambda>a'.
     retP (a', a, b, c, e', e, f, g))))))))))))))))))))))"

text \<open>The pin of an output comes from bit i of its word, its reference from bit j, as in the code.\<close>

definition shaGateSout :: "GateBit list list \<Rightarrow> nat \<Rightarrow> nat \<Rightarrow> (GateState, unit) prog" where
  "shaGateSout v i j =
     (let aux = soutRef SHA256GateConfig (32 * i + j)
      in bindP (OP gop_xor (fst (v ! i ! j), snd (v ! i ! i)) (zeroRef SHA256GateConfig, pin_a) aux) (\<lambda>_.
         modifyP (\<lambda>S. S\<lparr>SoutRefs := (SoutRefs S)[32 * i + j := aux]\<rparr>)))"

definition shaGateSouts :: "GateBit list list \<Rightarrow> (GateState, unit) prog" where
  "shaGateSouts v = foldP (\<lambda>i _. foldP (\<lambda>j _. shaGateSout v i j) [0..<32] ()) [0..<8] ()"

definition shaGateInputs :: "u32 list \<Rightarrow> u8 list \<Rightarrow> (GateState, GateBit list list \<times> GateBit list list) prog" where
  "shaGateInputs h p =
     bindP (mapP (\<lambda>i. loadWord SHA256GateConfig 32 (i * 32) (u322bits (bytes2u32 (drop (4 * i) p) True))) [0..<16]) (\<lambda>w.
     bindP (mapP (\<lambda>i. loadWord SHA256GateConfig 32 (512 + i * 32) (u322bits (h ! i))) [0..<8]) (\<lambda>h32.
     retP (w, h32)))"

definition shaGateCompress :: "GateBit list list \<Rightarrow> GateBit list \<Rightarrow> u32 list \<Rightarrow> GateBit list list \<Rightarrow>
    GateBit list list \<Rightarrow> (GateState, u32 list) prog" where
  "shaGateCompress k zero h w h32 =
     bindP (foldP shaGateExtend [16..<64] (w @ replicate 48 zero)) (\<lambda>w.
     bindP (foldP (shaGateRound k w) [0..<64]
       (h32 ! 0, h32 ! 1, h32 ! 2, h32 ! 3, h32 ! 4, h32 ! 5, h32 ! 6, h32 ! 7)) (\<lambda>(a, b, c, d, e, f, g, hh).
     let v = [a, b, c, d, e, f, g, hh] in
     bindP (mapP (\<lambda>i. GateU32_toU32 (v ! i)) [0..<8]) (\<lambda>out.
     bindP (shaGateSouts v) (\<lambda>_.
     retP (map (\<lambda>i. h ! i + out ! i) [0..<8])))))"

definition SHA256GateChunk :: "u32 list \<Rightarrow> u8 list \<Rightarrow> (GateState, u32 list) prog" where
  "SHA256GateChunk h p =
     bindP (liftP (mapO (GateU32_fromU32 SHA256GateConfig) sha256K)) (\<lambda>k.
     bindP (liftP (GateU32_fromU32 SHA256GateConfig 0)) (\<lambda>zero.
     bindP (shaGateInputs h p) (\<lambda>(w, h32). shaGateCompress k zero h w h32)))"

definition SHA256Gate :: "u8 list \<Rightarrow> string outcome" where
  "SHA256Gate pData =
     bindO (sha256Padding pData) (\<lambda>(padding, paddedSize).
     bindO (foldO (\<lambda>chunk h. bindO (sha256ChunkBytes pData padding paddedSize chunk)
              (\<lambda>p. fst (SHA256GateChunk h p (newGateState SHA256GateConfig)))) [0..<paddedSize div 64] sha256H) (\<lambda>h.
     Ret (''0x'' @ hexDigits (sha256Scalar h))))"

definition SHA256GateString :: "string \<Rightarrow> string outcome" where
  "SHA256GateString s = bindO (string2ba s) SHA256Gate"

section \<open>The circuit of a chunk\<close>

lemma SHA256GateConfig_slot: "SHA256GateConfig = slotConfig 160480 170000 768 256 (2 ^ 23)"
  by (simp add: SHA256GateConfig_def slotConfig_def)

interpretation sha: gate_circuit SHA256GateConfig k e0 e for k e0 e
  by unfold_locales (simp add: SHA256GateConfig_def)

lemma rotateRight32_eq: "0 < n \<Longrightarrow> n < 32 \<Longrightarrow> rotateRight32 x n = word_rotr n x"
proof (rule bit_word_eqI)
  fix i assume n: "0 < n" "n < 32" and i: "i < LENGTH(32)"
  have x: "bit x j \<Longrightarrow> j < 32" for j using bit_imp_le_length [of x j] by simp
  show "bit (rotateRight32 x n) i = bit (word_rotr n x) i"
  proof (cases "i + n < 32")
    case True
    then have "\<not> 32 - n \<le> i" by simp
    then show ?thesis using n i True by (simp add: rotateRight32_def bit_simps bit_word_rotr_iff add.commute)
  next
    case False
    then have "(i + n) mod 32 = i + n - 32" using n i by (simp add: mod_if)
    moreover have "i - (32 - n) = i + n - 32" using False n by simp
    ultimately show ?thesis using n i False x [of "n + i"]
      by (auto simp add: rotateRight32_def bit_simps bit_word_rotr_iff add.commute)
  qed
qed

lemmas sha_xor = sha.xor_step [where 'a = 32, simplified]

lemmas sha_and = sha.and_step [where 'a = 32, simplified]

lemmas sha_not = sha.not_step [where 'a = 32, simplified]

lemmas sha_add = sha.add_step [where 'a = 32, simplified]

lemmas sha_rotate = sha.gateRotateRight_holds [where 'a = 32, simplified]

lemmas sha_shift = sha.gateShiftRight_holds [where 'a = 32, simplified]

lemmas sha_steps = sha_xor sha_and sha_not sha_add

lemmas mem = list.set_intros

lemmas sha_words = sig0_def sig1_def ep0_def ep1_def shaCh_def shaMaj_def rotateRight32_eq

lemma shaGateExtend_grown:
  assumes S: "sha.circ k e0 e S" and room: "sha.room S 770" and i: "16 \<le> i"
    and w: "\<And>j. j < i \<Longrightarrow> sha.holds k e S (w ! j) (W ! j)"
  shows "runs (shaGateExtend i w) S (\<lambda>w' T. \<exists>r. w' = w[i := r] \<and> sha.grown k e0 e S T 770 \<and>
    list_all sha.fresh r \<and> sha.holds k e T r (shaNext W i))"
proof -
  have h: "sha.holds k e S (w ! (i - 15)) (W ! (i - 15))" "sha.holds k e S (w ! (i - 2)) (W ! (i - 2))"
    "sha.holds k e S (w ! (i - 16)) (W ! (i - 16))" "sha.holds k e S (w ! (i - 7)) (W ! (i - 7))" using w i by simp_all
  let ?E = "[(gateRotateRight 32 (w ! (i - 15)) 7, word_rotr 7 (W ! (i - 15))),
     (gateRotateRight 32 (w ! (i - 15)) 18, word_rotr 18 (W ! (i - 15))),
     (shaShiftRight (w ! (i - 15)) 3, drop_bit 3 (W ! (i - 15))),
     (gateRotateRight 32 (w ! (i - 2)) 17, word_rotr 17 (W ! (i - 2))),
     (gateRotateRight 32 (w ! (i - 2)) 19, word_rotr 19 (W ! (i - 2))),
     (shaShiftRight (w ! (i - 2)) 10, drop_bit 10 (W ! (i - 2))),
     (w ! (i - 16), W ! (i - 16)), (w ! (i - 7), W ! (i - 7))]"
  have K: "sha.knows k e0 e S S 0 ?E"
    using S h by (intro sha.knows_start) (simp_all add: sha_rotate sha_shift)
  show ?thesis
    unfolding shaGateExtend_def GateU32_defs
    apply (rule sha_xor [OF K room], (rule mem)+, simp)
    apply (rule sha_steps [OF _ room], assumption, (rule mem)+, simp (no_asm))+
    apply (rule runs_retP, rule exI, rule conjI [OF refl], erule (1) sha.knows_result)
     apply simp
    apply (simp add: shaNext_def sha_words ac_simps)
    done
qed

lemma sha_skipped: "skipped SHA256GateConfig r \<longleftrightarrow> r = 0 \<or> (\<exists>i<1024. r = 45 + i * 44)"
  unfolding SHA256GateConfig_slot by (subst skipped_slot) simp_all

lemmas sha_sinGate = slot_sin [where n = 768 and m = 256 and s = 160480 and k = 170000 and l = "2 ^ 23", folded SHA256GateConfig_slot, simplified]

lemmas sha_soutGate = slot_sout [where n = 768 and m = 256 and s = 160480 and k = 170000 and l = "2 ^ 23", folded SHA256GateConfig_slot, simplified]

lemmas sha_sin_sout = slot_sin_sout [where n = 768 and m = 256 and s = 160480 and k = 170000 and l = "2 ^ 23", folded SHA256GateConfig_slot, simplified]

lemma sha_fresh: "sha.fresh b \<Longrightarrow> \<not> sha.isSout b"
  by (rule sha.fresh_sout) (rule sha_soutGate)

text \<open>
  The eight working variables, each with all its bits on the same kind of pin, and none on the gate
  of an output.
\<close>

definition onePin :: "GateBit list \<Rightarrow> bool" where
  "onePin bs \<longleftrightarrow> (\<exists>p. \<forall>b\<in>set bs. snd b = p \<and> \<not> sha.isSout b)"

lemma onePinI: "list_all sha.fresh bs \<Longrightarrow> onePin bs"
  unfolding onePin_def list_all_iff
  by (intro exI [of _ pin_r] ballI conjI) (simp add: sha.fresh_def, rule sha_fresh, erule (1) bspec)

definition holds8 :: "nat \<Rightarrow> pinValues \<Rightarrow> GateState \<Rightarrow> gate8 \<Rightarrow> sha8 \<Rightarrow> bool" where
  "holds8 k en S v s \<longleftrightarrow> (case (v, s) of ((a, b, c, d, e, f, g, h), (a', b', c', d', e', f', g', h')) \<Rightarrow>
     (onePin a \<and> onePin b \<and> onePin c \<and> onePin d \<and> onePin e \<and> onePin f \<and> onePin g \<and> onePin h) \<and>
     sha.holds k en S a a' \<and> sha.holds k en S b b' \<and> sha.holds k en S c c' \<and> sha.holds k en S d d' \<and>
     sha.holds k en S e e' \<and> sha.holds k en S f f' \<and> sha.holds k en S g g' \<and> sha.holds k en S h h')"

lemma shaGateRound_grown:
  assumes S: "sha.circ k e0 en S" and room: "sha.room S 1914" and v: "holds8 k en S v s"
    and ki: "sha.holds k en S (kv ! i) (sha256K ! i)" and wi: "sha.holds k en S (w ! i) (W ! i)"
  shows "runs (shaGateRound kv w i v) S (\<lambda>v' T. sha.grown k e0 en S T 1914 \<and> holds8 k en T v' (shaSpecRound W i s))"
proof -
  obtain A B C D E F G H where s: "s = (A, B, C, D, E, F, G, H)" by (metis surj_pair)
  obtain a b c d e f g h where v': "v = (a, b, c, d, e, f, g, h)" by (metis surj_pair)
  let ?E = "[(gateRotateRight 32 e 6, word_rotr 6 E), (gateRotateRight 32 e 11, word_rotr 11 E),
     (gateRotateRight 32 e 25, word_rotr 25 E), (gateRotateRight 32 a 2, word_rotr 2 A),
     (gateRotateRight 32 a 13, word_rotr 13 A), (gateRotateRight 32 a 22, word_rotr 22 A),
     (a, A), (b, B), (c, C), (d, D), (e, E), (f, F), (g, G), (h, H),
     (kv ! i, sha256K ! i), (w ! i, W ! i)]"
  have K: "sha.knows k e0 en S S 0 ?E"
    using S v ki wi by (intro sha.knows_start) (simp_all add: s v' holds8_def sha_rotate)
  have pins: "onePin a" "onePin b" "onePin c" "onePin e" "onePin f" "onePin g"
    using v by (simp_all add: s v' holds8_def)
  show ?thesis
    unfolding shaGateRound_def v' prod.case GateU32_defs
    apply (rule sha_xor [OF K room], (rule mem)+, simp)
    apply (rule sha_steps [OF _ room], assumption, (rule mem)+, simp (no_asm))+
    apply (rule runs_retP)
    apply (rule conjI)
     apply (rule sha.knows_cast, assumption, simp (no_asm))
    unfolding holds8_def s shaSpecRound_def prod.case Let_def
    apply (rule conjI)
     apply (intro conjI pins; (rule onePinI, assumption))
    apply (intro conjI; (rule sha.knows_value, assumption, (rule mem)+))
    apply (simp_all add: sha_words ac_simps)
    done
qed

text \<open>The inputs: bit m of the chunk, then of the hash so far.\<close>

definition shaInputBit :: "u32 list \<Rightarrow> u8 list \<Rightarrow> nat \<Rightarrow> bool" where
  "shaInputBit h p m = (if m < 512 then bit (bytes2u32 (drop (4 * (m div 32)) p) True) (m mod 32)
     else bit (h ! ((m - 512) div 32)) (m mod 32))"

definition shaInputWord :: "nat \<Rightarrow> GateBit list" where
  "shaInputWord i = map (\<lambda>j. (sinRef SHA256GateConfig (i * 32 + j), pin_a)) [0..<32]"

lemma shaInputBit_word:
  assumes "j < 32"
  shows "i < 16 \<Longrightarrow> shaInputBit h p (i * 32 + j) = bit (bytes2u32 (drop (4 * i) p) True) j"
    and "shaInputBit h p (512 + i * 32 + j) = bit (h ! i) j"
proof -
  have m: "(i * 32 + j) div 32 = i" "(i * 32 + j) mod 32 = j" using assms by simp_all
  have "(512 + i * 32 + j) mod 32 = (i * 32 + j) mod 32"
    using mod_mult_self2 [of "i * 32 + j" 32 16] by (simp add: ac_simps)
  then show "shaInputBit h p (512 + i * 32 + j) = bit (h ! i) j" using m by (simp add: shaInputBit_def)
  assume "i < 16"
  then have "i * 32 + j < 512" using assms by simp
  then show "shaInputBit h p (i * 32 + j) = bit (bytes2u32 (drop (4 * i) p) True) j" using m by (simp add: shaInputBit_def)
qed

lemma sha_sinRefNumber: "sinRefNumber SHA256GateConfig = 768"
  by (simp add: SHA256GateConfig_def)

lemma loadWords_loaded:
  assumes T: "loadedSin SHA256GateConfig 0 b B T"
    and w: "\<And>i j. i < n \<Longrightarrow> j < 32 \<Longrightarrow> bit (w i) j = B (b + i * 32 + j)" and b: "b = 32 * q"
    and fits: "b + n * 32 \<le> sinRefNumber SHA256GateConfig"
  shows "runs (mapP (\<lambda>i. loadWord SHA256GateConfig 32 (b + i * 32) (u322bits (w i))) [0..<n]) T
    (\<lambda>r U. r = map (\<lambda>i. shaInputWord (q + i)) [0..<n] \<and> loadedSin SHA256GateConfig 0 (b + n * 32) B U)"
proof -
  let ?J = "\<lambda>r U. r = map (\<lambda>i. shaInputWord (q + i)) [0..<length r] \<and> loadedSin SHA256GateConfig 0 (b + length r * 32) B U"
  have "runs (mapP (\<lambda>i. loadWord SHA256GateConfig 32 (b + i * 32) (u322bits (w i))) [0..<n]) T
      (\<lambda>r U. length r = length [0..<n] \<and> ?J r U)"
  proof (rule runs_mapP)
    show "?J [] T" using T by simp
    fix r U assume r: "length r < length [0..<n]" and J: "?J r U"
    let ?i = "length r"
    have i: "[0..<n] ! ?i = ?i" "?i < n" using r by simp_all
    have dist: "0 < sinRefDistance SHA256GateConfig" by (simp add: SHA256GateConfig_def)
    have range: "sinRef SHA256GateConfig (b + ?i * 32 + j) < maxRefs SHA256GateConfig" if "j < 32" for j
      using fits i(2) that sha_sinRefNumber by (simp add: sinRef_def SHA256GateConfig_def)
    have "runs (loadWord SHA256GateConfig 32 (b + ?i * 32) (u322bits (w ?i))) U
        (\<lambda>x V. x = map (\<lambda>j. (sinRef SHA256GateConfig (b + ?i * 32 + j), pin_a)) [0..<32] \<and>
           loadedSin SHA256GateConfig 0 (b + ?i * 32 + 32) B V)"
      using J i w dist by (intro loadWord_loaded range) (simp_all add: u322bits_eq)
    then show "runs (loadWord SHA256GateConfig 32 (b + [0..<n] ! ?i * 32) (u322bits (w ([0..<n] ! ?i)))) U (\<lambda>x. ?J (r @ [x]))"
      unfolding i(1)
    proof (rule runs_conseq, elim conjE, intro conjI)
      fix x V assume x: "x = map (\<lambda>j. (sinRef SHA256GateConfig (b + ?i * 32 + j), pin_a)) [0..<32]"
        and V: "loadedSin SHA256GateConfig 0 (b + ?i * 32 + 32) B V"
      have "x = shaInputWord (q + ?i)" by (simp add: x shaInputWord_def b algebra_simps)
      then show "r @ [x] = map (\<lambda>i. shaInputWord (q + i)) [0..<length (r @ [x])]" using J by simp
      show "loadedSin SHA256GateConfig 0 (b + length (r @ [x]) * 32) B V" using V by (simp add: algebra_simps)
    qed
  qed
  then show ?thesis by (rule runs_conseq) (elim conjE, simp only: length_upt, simp)
qed

lemma shaGateInputs_loaded:
  "runs (shaGateInputs h p) (newGateState SHA256GateConfig) (\<lambda>r T.
     r = (map shaInputWord [0..<16], map (\<lambda>i. shaInputWord (16 + i)) [0..<8]) \<and>
     loadedSin SHA256GateConfig 0 768 (shaInputBit h p) T)"
proof -
  let ?c = SHA256GateConfig and ?B = "shaInputBit h p"
  have w: "runs (mapP (\<lambda>i. loadWord ?c 32 (i * 32) (u322bits (bytes2u32 (drop (4 * i) p) True))) [0..<16]) (newGateState ?c)
      (\<lambda>r T. r = map shaInputWord [0..<16] \<and> loadedSin ?c 0 512 ?B T)"
    using loadWords_loaded [OF newGateState_loaded, of 16 "\<lambda>i. bytes2u32 (drop (4 * i) p) True" ?B 0]
    by (simp add: shaInputBit_word sha_sinRefNumber del: upt_rec_numeral)
  have h: "runs (mapP (\<lambda>i. loadWord ?c 32 (512 + i * 32) (u322bits (h ! i))) [0..<8]) T
      (\<lambda>r T. r = map (\<lambda>i. shaInputWord (16 + i)) [0..<8] \<and> loadedSin ?c 0 768 ?B T)"
    if "loadedSin ?c 0 512 ?B T" for T
    using loadWords_loaded [OF that, of 8 "\<lambda>i. h ! i" 16, OF shaInputBit_word(2) [symmetric]]
    by (simp add: sha_sinRefNumber del: upt_rec_numeral)
  show ?thesis
    unfolding shaGateInputs_def
    apply (rule runs_bindP)
    apply (rule runs_conseq [OF w])
    apply (elim conjE)
    apply (rule runs_bindP)
    apply (rule runs_conseq [OF h])
    apply assumption
    apply (elim conjE)
    apply (rule runs_retP)
    apply (intro conjI; simp only:)
    done
qed

lemma shaSchedule_nth:
  "i < 16 \<Longrightarrow> shaSchedule p ! i = bytes2u32 (drop (4 * i) p) True"
  "16 \<le> i \<Longrightarrow> i < 64 \<Longrightarrow> shaSchedule p ! i = shaNext (shaSchedule p) i"
proof -
  define V where "V j = foldl (\<lambda>W t. W @ [shaNext W t]) (map (\<lambda>t. bytes2u32 (drop (4 * t) p) True) [0..<16]) [16..<16 + j]" for j
  have V: "length (V j) = 16 + j \<and> (\<forall>i<16. V j ! i = bytes2u32 (drop (4 * i) p) True) \<and>
      (\<forall>i<16 + j. 16 \<le> i \<longrightarrow> V j ! i = shaNext (V j) i)" for j
  proof (induction j)
    case 0
    show ?case by (simp add: V_def del: upt_rec_numeral)
  next
    case (Suc j)
    have step: "V (Suc j) = V j @ [shaNext (V j) (16 + j)]"
      using upt_Suc_append [of 16 "16 + j"] by (simp only: V_def add_Suc_right) simp
    have "shaNext (V (Suc j)) i = shaNext (V j) i" if "16 \<le> i" "i \<le> 16 + j" for i
      using that Suc by (intro shaNext_cong) (simp_all add: step)
    moreover have "i < 16 + Suc j \<longleftrightarrow> i < 16 + j \<or> i = 16 + j" for i by linarith
    ultimately show ?case using Suc unfolding step by (auto simp: nth_append)
  qed
  have sum: "16 + 48 = (64 :: nat)" by simp
  have eq: "shaSchedule p = V 48" by (simp only: shaSchedule_def V_def shaNext_def sum)
  show "i < 16 \<Longrightarrow> shaSchedule p ! i = bytes2u32 (drop (4 * i) p) True"
    "16 \<le> i \<Longrightarrow> i < 64 \<Longrightarrow> shaSchedule p ! i = shaNext (shaSchedule p) i"
    using V [of 48] unfolding eq by simp_all
qed

lemma shaGateSchedule:
  assumes S: "sha.circ k e0 e S" and room: "sha.room S (770 * 48)" and l: "length w = 64"
    and w: "\<And>i. i < 16 \<Longrightarrow> sha.holds k e S (w ! i) (shaSchedule p ! i)"
  shows "runs (foldP shaGateExtend [16..<64] w) S (\<lambda>w T. sha.grown k e0 e S T (770 * 48) \<and>
    (\<forall>i<64. sha.holds k e T (w ! i) (shaSchedule p ! i)))"
proof -
  let ?I = "\<lambda>j w T. sha.grown k e0 e S T (770 * j) \<and> length w = 64 \<and>
    (\<forall>i<16 + j. sha.holds k e T (w ! i) (shaSchedule p ! i))"
  have "runs (foldP shaGateExtend [16..<64] w) S (?I (length [16..<64]))"
  proof (rule runs_foldP)
    show "?I 0 w S" using S w l by (simp add: sha.grown_refl)
    fix j v T assume j: "j < length [16..<64]" and I: "?I j v T"
    have i: "[16..<64] ! j = 16 + j" "16 + j < 64" using j nth_upt [of 16 j 64] by (simp_all only: length_upt)
    have "sha.room S (770 * j + 770)" by (rule sha.room_less [OF room]) (use j in simp)
    with I have "sha.room T 770" by (auto intro: sha.grown_room)
    moreover have "sha.circ k e0 e T" using I by (auto intro: sha.grown_circ)
    ultimately have "runs (shaGateExtend (16 + j) v) T (\<lambda>v' U. \<exists>r. v' = v[16 + j := r] \<and> sha.grown k e0 e T U 770 \<and>
        list_all sha.fresh r \<and> sha.holds k e U r (shaNext (shaSchedule p) (16 + j)))"
      using I by (intro shaGateExtend_grown) simp_all
    then show "runs (shaGateExtend ([16..<64] ! j) v) T (?I (Suc j))"
      unfolding i(1)
    proof (rule runs_conseq, elim exE conjE, intro conjI allI impI)
      fix v' U r i
      assume U: "v' = v[16 + j := r]" "sha.grown k e0 e T U 770" "sha.holds k e U r (shaNext (shaSchedule p) (16 + j))"
      show "sha.grown k e0 e S U (770 * Suc j)"
        using sha.grown_trans [of k e0 e S T "770 * j" U 770] I U(2) by (simp add: add.commute)
      show "length v' = 64" using I U(1) by simp
      assume "i < 16 + Suc j"
      then consider "i < 16 + j" | "i = 16 + j" by linarith
      then show "sha.holds k e U (v' ! i) (shaSchedule p ! i)"
      proof cases
        case 1
        then show ?thesis using I U(1,2) by (auto intro: sha.holds_grown)
      next
        case 2
        then show ?thesis using I U(1,3) i(2) by (simp add: 2 shaSchedule_nth(2) [of "16 + j" p])
      qed
    qed
  qed
  then show ?thesis by (rule runs_conseq) simp
qed

lemma shaGateRounds:
  assumes S: "sha.circ k e0 e S" and room: "sha.room S (1914 * 64)" and v: "holds8 k e S v s"
    and kv: "\<And>i. i < 64 \<Longrightarrow> sha.holds k e S (kv ! i) (sha256K ! i)"
    and w: "\<And>i. i < 64 \<Longrightarrow> sha.holds k e S (w ! i) (W ! i)"
  shows "runs (foldP (shaGateRound kv w) [0..<64] v) S (\<lambda>v T. sha.grown k e0 e S T (1914 * 64) \<and>
    holds8 k e T v (fold (shaSpecRound W) [0..<64] s))"
proof -
  let ?I = "\<lambda>j v T. sha.grown k e0 e S T (1914 * j) \<and> holds8 k e T v (fold (shaSpecRound W) [0..<j] s)"
  have "runs (foldP (shaGateRound kv w) [0..<64] v) S (?I (length [0..<64]))"
  proof (rule runs_foldP)
    show "?I 0 v S" using S v by (simp add: sha.grown_refl)
    fix j v T assume j: "j < length [0..<64]" and I: "?I j v T"
    have i: "[0..<64] ! j = j" "j < 64" using j by simp_all
    have "sha.room S (1914 * j + 1914)" by (rule sha.room_less [OF room]) (use j in simp)
    with I have room': "sha.room T 1914" by (auto intro: sha.grown_room)
    have circ: "sha.circ k e0 e T" using I by (auto intro: sha.grown_circ)
    have "sha.holds k e T (kv ! j) (sha256K ! j)" "sha.holds k e T (w ! j) (W ! j)"
      using kv [OF i(2)] w [OF i(2)] I by (auto intro: sha.holds_grown)
    from shaGateRound_grown [OF circ room' conjunct2 [OF I] this]
    show "runs (shaGateRound kv w ([0..<64] ! j) v) T (?I (Suc j))"
      unfolding i(1)
    proof (rule runs_conseq, elim conjE, intro conjI)
      fix v' U assume "sha.grown k e0 e T U 1914"
      then show "sha.grown k e0 e S U (1914 * Suc j)"
        using sha.grown_trans [of k e0 e S T "1914 * j" U 1914] I by (simp add: add.commute)
    qed simp
  qed
  then show ?thesis by (rule runs_conseq) simp
qed

section \<open>The outputs\<close>

lemma placed_sees:
  assumes "sha.placed k e0 e S n B T" and "sha.sees k e S b v" and "\<not> sha.isSout b"
  shows "sha.sees k e T b v"
  using assms unfolding sha.placed_def by blast

lemma shaGateSouts_placed:
  fixes X :: "u32 list"
  assumes P: "sha.placed k e0 e S 0 (\<lambda>m. bit (X ! (m div 32)) (m mod 32)) S"
    and v: "\<And>i. i < 8 \<Longrightarrow> onePin (v ! i) \<and> sha.holds k e S (v ! i) (X ! i)"
    and refs: "SoutRefs S = map (soutRef SHA256GateConfig) [0..<256]"
  shows "runs (shaGateSouts v) S (\<lambda>_ T. sha.placed k e0 e S 256 (\<lambda>m. bit (X ! (m div 32)) (m mod 32)) T \<and>
    SinRefs T = SinRefs S \<and> SoutRefs T = SoutRefs S)"
proof -
  let ?B = "\<lambda>m. bit (X ! (m div 32)) (m mod 32)"
  let ?P = "\<lambda>n T. sha.placed k e0 e S n ?B T \<and> SinRefs T = SinRefs S \<and> SoutRefs T = SoutRefs S"
  have step: "runs (shaGateSout v i j) T (\<lambda>_. ?P (Suc (32 * i + j)))" if ij: "i < 8" "j < 32" and T: "?P (32 * i + j) T" for i j T
  proof -
    let ?n = "32 * i + j"
    have n: "?n < 256" "?n div 32 = i" "?n mod 32 = j" using ij by simp_all
    have l: "length (v ! i) = 32" using v [OF ij(1)] by (simp add: sha.holds_def)
    have bits: "v ! i ! j \<in> set (v ! i)" "v ! i ! i \<in> set (v ! i)" using ij l by simp_all
    then have pin: "(fst (v ! i ! j), snd (v ! i ! i)) = v ! i ! j" "\<not> sha.isSout (v ! i ! j)"
      using v [OF ij(1)] unfolding onePin_def by (metis prod.collapse)+
    have sees: "sha.sees k e S (v ! i ! j) (?B ?n)"
      using v [OF ij(1)] ij(2) sha.holds_sees [of k e S "v ! i" "X ! i" j] by (simp only: n) simp
    have cfg: "0 < soutRefDistance SHA256GateConfig" "?n < soutRefNumber SHA256GateConfig"
      "zeroRef SHA256GateConfig = 0" using n(1) by (simp_all add: SHA256GateConfig_def)
    have out: "soutRef SHA256GateConfig ?n < maxRefs SHA256GateConfig"
      using sha_soutGate(2) [OF cfg(2)] n(1) by (simp add: SHA256GateConfig_def)
    have zero: "\<not> sha.isSout (zeroRef SHA256GateConfig, pin_a)" unfolding cfg(3) by (rule sha_sin_sout)
    have "(SoutRefs S)[?n := soutRef SHA256GateConfig ?n] = SoutRefs S"
      using n(1) by (simp add: refs list_update_same_conv del: upt_rec_numeral)
    then show ?thesis
      unfolding shaGateSout_def Let_def pin(1)
      using sha.place_step [OF conjunct1 [OF T] sees pin(2) cfg(2) cfg(1) out sha_soutGate(1) [OF cfg(2)] zero] T
      by (intro runs_bindP) (auto elim!: runs_conseq intro!: runs_modifyP)
  qed
  have row: "runs (foldP (\<lambda>j _. shaGateSout v i j) [0..<32] ()) T (\<lambda>_. ?P (32 * Suc i))" if i: "i < 8" and T: "?P (32 * i) T" for i T
  proof -
    have "runs (foldP (\<lambda>j _. shaGateSout v i j) [0..<32] ()) T ((\<lambda>j _. ?P (32 * i + j)) (length [0..<32]))"
    proof (rule runs_foldP)
      fix j y U assume j: "j < length [0..<32]" and U: "?P (32 * i + j) U"
      have "[0..<32] ! j = j" "j < 32" using j nth_upt [of 0 j 32] by (simp_all only: length_upt)
      then show "runs (shaGateSout v i ([0..<32] ! j)) U (\<lambda>_. ?P (32 * i + Suc j))"
        using step [OF i _ U] by simp
    qed (use T in simp)
    then show ?thesis by (simp add: add.commute del: upt_rec_numeral)
  qed
  have "runs (shaGateSouts v) S ((\<lambda>i _. ?P (32 * i)) (length [0..<8]))"
    unfolding shaGateSouts_def
  proof (rule runs_foldP)
    fix i y U assume i: "i < length [0..<8]" and U: "?P (32 * i) U"
    have "[0..<8] ! i = i" "i < 8" using i nth_upt [of 0 i 8] by (simp_all only: length_upt)
    then show "runs (foldP (\<lambda>j _. shaGateSout v ([0..<8] ! i) j) [0..<32] ()) U (\<lambda>_. ?P (32 * Suc i))"
      using row [OF _ U] by (simp del: upt_rec_numeral)
  qed (use P in simp)
  then show ?thesis by (simp del: upt_rec_numeral)
qed

section \<open>The circuit computes the compression function\<close>

text \<open>The working variables after the rounds, which the circuit has on its outputs.\<close>

definition shaWork :: "u8 list \<Rightarrow> u32 list \<Rightarrow> u32 list" where
  "shaWork p h = (let (a, b, c, d, e, f, g, hh) = fold (shaSpecRound (shaSchedule p)) [0..<64] (sha8Of h)
     in [a, b, c, d, e, f, g, hh])"

lemma shaCompress_work: "shaCompress p h = map (\<lambda>i. h ! i + shaWork p h ! i) [0..<8]"
  unfolding shaCompress_def shaWork_def by (simp add: split_beta Let_def eval_nat_numeral)

lemma shaInputWord_nth:
  assumes "i < 24" and "j < 32"
  shows "shaInputWord i ! j = (sinRef SHA256GateConfig (i * 32 + j), pin_a)" and "i * 32 + j < 768"
  using assms by (simp_all add: shaInputWord_def del: upt_rec_numeral)

lemma shaInputWord_onePin: "i < 24 \<Longrightarrow> onePin (shaInputWord i)"
proof -
  assume i: "i < 24"
  have "\<not> sha.isSout (shaInputWord i ! j)" if "j < 32" for j
    using shaInputWord_nth [OF i that] sha_sin_sout(1) [of "i * 32 + j"] by (simp add: SHA256GateConfig_def)
  then show ?thesis unfolding onePin_def
    by (intro exI [of _ pin_a]) (auto simp: in_set_conv_nth shaInputWord_def simp del: upt_rec_numeral)
qed

text \<open>Everything after the inputs are set, for pins with the bits kept and for any other input values.\<close>

definition shaInputPins :: "u32 list \<Rightarrow> u8 list \<Rightarrow> pinValues \<Rightarrow> bool" where
  "shaInputPins h p e \<longleftrightarrow> (\<forall>i<768. e (sinRef SHA256GateConfig i, pin_a) = shaInputBit h p i) \<and>
     \<not> e (0, pin_a) \<and> e (0, pin_b)"

lemma shaLoaded:
  assumes L: "loadedSin SHA256GateConfig 0 768 B0 S" and e0: "e0 = (\<lambda>x. bitAt S x = 1)" and e: "shaInputPins h p e"
  shows "sha.circ 0 e0 e S" and "sha.used S = 0" and "n \<le> 160000 \<Longrightarrow> sha.room S n"
    and "i < 16 \<Longrightarrow> sha.holds 0 e S (shaInputWord i) (bytes2u32 (drop (4 * i) p) True)"
    and "i < 8 \<Longrightarrow> sha.holds 0 e S (shaInputWord (16 + i)) (h ! i)"
proof -
  have z: "zeroRef SHA256GateConfig = 0" "firstNextRef SHA256GateConfig = 1" "maxRefs SHA256GateConfig = 170000"
    by (simp_all add: SHA256GateConfig_def)
  have first: "\<not> skipped SHA256GateConfig (Suc 0)" by (simp add: sha_skipped)
  have ins: "skipped SHA256GateConfig (sinRef SHA256GateConfig i) \<and> sinRef SHA256GateConfig i < 170000" if "i < 768" for i
  proof -
    have "i < sinRefNumber SHA256GateConfig" using that by (simp add: SHA256GateConfig_def)
    then show ?thesis using sha_sinGate [of i] that by simp
  qed
  have "e (sinRef SHA256GateConfig i, pin_a) = shaInputBit h p i" if "i < 768" for i using e that by (simp add: shaInputPins_def)
  moreover have "\<not> e (0, pin_a)" "e (0, pin_b)" using e by (simp_all add: shaInputPins_def)
  ultimately have pins: "\<And>i. i < 768 \<Longrightarrow> e (sinRef SHA256GateConfig i, pin_a) = shaInputBit h p i"
    "\<not> e (zeroRef SHA256GateConfig, pin_a)" "e (zeroRef SHA256GateConfig, pin_b)" by (simp_all add: z)
  note loaded = sha.loaded_start [OF L e0 pins]
  have start: "sha.circ 0 e0 e S" "sha.used S = 0"
    "\<And>i. i < 768 \<Longrightarrow> sha.sees 0 e S (sinRef SHA256GateConfig i, pin_a) (shaInputBit h p i)"
    by (rule loaded; simp add: z first ins)+
  then show "sha.circ 0 e0 e S" "sha.used S = 0" by simp_all
  have "168975 \<le> card (freeBelow SHA256GateConfig 170000)"
    using card_freeBelow_slot(1) [of 768 256 170000 160480 170000 "2 ^ 23", folded SHA256GateConfig_slot] by simp
  then show "n \<le> 160000 \<Longrightarrow> sha.room S n" using start(2) by (simp add: sha.room_def z)
  have sees: "sha.sees 0 e S (shaInputWord i ! j) (shaInputBit h p (i * 32 + j))" if "i < 24" "j < 32" for i j
    using start(3) shaInputWord_nth [OF that] by simp
  have l: "length (shaInputWord i) = 32" for i by (simp add: shaInputWord_def del: upt_rec_numeral)
  show "i < 16 \<Longrightarrow> sha.holds 0 e S (shaInputWord i) (bytes2u32 (drop (4 * i) p) True)"
    using sees [of i] by (simp add: sha.holds_def l shaInputBit_word)
  show "i < 8 \<Longrightarrow> sha.holds 0 e S (shaInputWord (16 + i)) (h ! i)"
    using sees [of "16 + i"] shaInputBit_word(2) [of _ h p i] by (simp add: sha.holds_def l add_mult_distrib)
qed

lemma shaConstants:
  assumes "sha.circ k e0 e S"
  obtains kv zero where "mapO (GateU32_fromU32 SHA256GateConfig) sha256K = Ret kv"
    and "GateU32_fromU32 SHA256GateConfig 0 = Ret zero" 
proof -
  have "\<exists>r. GateU32_fromU32 SHA256GateConfig x = Ret r" for x using sha.fromU32_holds [OF assms, of x] by blast
  then obtain f where f: "\<And>x. GateU32_fromU32 SHA256GateConfig x = Ret (f x)" by metis
  then have "mapO (GateU32_fromU32 SHA256GateConfig) sha256K = Ret (map f sha256K)" by (intro mapO_Ret) simp
  with f that show thesis by blast
qed

lemma shaConstants_hold:
  assumes "mapO (GateU32_fromU32 SHA256GateConfig) sha256K = Ret kv" and "sha.circ k e0 e S" and "i < 64"
  shows "sha.holds k e S (kv ! i) (sha256K ! i)"
proof -
  have l: "length sha256K = 64" by (simp add: sha256K_def)
  have kv: "map (GateU32_fromU32 SHA256GateConfig) sha256K = map Ret kv" using assms(1) by (simp only: mapO_eq_Ret)
  from arg_cong [OF kv, of length] have l': "length kv = 64" unfolding length_map l by (rule sym)
  have "GateU32_fromU32 SHA256GateConfig (sha256K ! i) = map (GateU32_fromU32 SHA256GateConfig) sha256K ! i"
    using l assms(3) by simp
  also have "\<dots> = Ret (kv ! i)" unfolding kv using l' assms(3) by simp
  finally have "GateU32_fromU32 SHA256GateConfig (sha256K ! i) = Ret (kv ! i)" .
  then show ?thesis using sha.fromU32_holds [OF assms(2), of "sha256K ! i"] by auto
qed

definition holdsOut :: "pinValues \<Rightarrow> GateState \<Rightarrow> u32 list \<Rightarrow> bool" where
  "holdsOut e T X \<longleftrightarrow> (\<forall>m<256. replay (scriptFrom 0 T) e (soutRef SHA256GateConfig m, pin_r) = bit (X ! (m div 32)) (m mod 32))"

lemma holds8_nth:
  assumes "holds8 k e S (a, b, c, d, e', f, g, hh) s" and "i < 8"
  shows "onePin ([a, b, c, d, e', f, g, hh] ! i) \<and> sha.holds k e S ([a, b, c, d, e', f, g, hh] ! i)
    ((case s of (a, b, c, d, e, f, g, h) \<Rightarrow> [a, b, c, d, e, f, g, h]) ! i)"
proof -
  have "i = 0 \<or> i = 1 \<or> i = 2 \<or> i = 3 \<or> i = 4 \<or> i = 5 \<or> i = 6 \<or> i = 7" using assms(2) by linarith
  moreover obtain a' b' c' d' e'' f' g' h' where "s = (a', b', c', d', e'', f', g', h')" by (metis surj_pair)
  ultimately show ?thesis using assms(1) unfolding holds8_def by (elim disjE) simp_all
qed

lemma shaGateCompress_runs:
  assumes L: "loadedSin SHA256GateConfig 0 768 B0 S" and e0: "e0 = (\<lambda>x. bitAt S x = 1)" and e: "shaInputPins h' p' e"
    and kv: "mapO (GateU32_fromU32 SHA256GateConfig) sha256K = Ret kv"
  shows "runs (shaGateCompress kv zero h (map shaInputWord [0..<16]) (map (\<lambda>i. shaInputWord (16 + i)) [0..<8])) S
    (\<lambda>r T. (e = e0 \<longrightarrow> r = map (\<lambda>i. h ! i + shaWork p' h' ! i) [0..<8]) \<and> nextRef T = 160481 \<and>
      SoutRefs T = map (soutRef SHA256GateConfig) [0..<256] \<and> sha.circ 0 e0 e T \<and> holdsOut e T (shaWork p' h'))"
proof -
  note S = shaLoaded [OF L e0 e]
  let ?w = "map shaInputWord [0..<16] @ replicate 48 zero"
  let ?h = "map (\<lambda>i. shaInputWord (16 + i)) [0..<8]"
  let ?v = "(?h ! 0, ?h ! 1, ?h ! 2, ?h ! 3, ?h ! 4, ?h ! 5, ?h ! 6, ?h ! 7)"
  have w: "sha.holds 0 e S (?w ! i) (shaSchedule p' ! i)" if "i < 16" for i
  proof -
    have "?w ! i = shaInputWord i" using that by (simp add: nth_append del: upt_rec_numeral)
    then show ?thesis using S(4) [OF that] shaSchedule_nth(1) [OF that, of p'] by simp
  qed
  have hi: "onePin (?h ! i)" "sha.holds 0 e S (?h ! i) (h' ! i)"
    if "i < 8" for i using that S(5) [OF that] shaInputWord_onePin [of "16 + i"] by (simp_all del: upt_rec_numeral)
  have v: "holds8 0 e S ?v (sha8Of h')"
    unfolding holds8_def sha8Of_def prod.case by (intro conjI hi) (simp_all only: numeral_less_iff, simp_all)
  have lw: "length ?w = 64" by simp
  have one: "runs (foldP shaGateExtend [16..<64] ?w) S (\<lambda>w T. sha.grown 0 e0 e S T 36960 \<and>
      (\<forall>i<64. sha.holds 0 e T (w ! i) (shaSchedule p' ! i)))"
    using shaGateSchedule [OF S(1) S(3) lw w] by simp
  have two: "runs (foldP (shaGateRound kv w) [0..<64] ?v) T (\<lambda>v U. sha.grown 0 e0 e S U 159456 \<and>
      holds8 0 e U v (fold (shaSpecRound (shaSchedule p')) [0..<64] (sha8Of h')))"
    if T: "sha.grown 0 e0 e S T 36960" "\<forall>i<64. sha.holds 0 e T (w ! i) (shaSchedule p' ! i)" for w T
  proof -
    have circ: "sha.circ 0 e0 e T" by (rule sha.grown_circ [OF T(1)])
    have room: "sha.room T (1914 * 64)" by (rule sha.grown_room [OF T(1)]) (rule S(3), simp)
    have "holds8 0 e T ?v (sha8Of h')" using v T(1) unfolding holds8_def prod.case sha8Of_def
      by (blast intro: sha.holds_grown)
    then show ?thesis
      using shaGateRounds [OF circ room _ shaConstants_hold [OF kv circ], of ?v "sha8Of h'" w "shaSchedule p'"] T
        sha.grown_trans [OF T(1)] by (fastforce elim!: runs_conseq simp del: upt_rec_numeral)
  qed
  have three: "runs (mapP (\<lambda>i. GateU32_toU32 (v ! i)) [0..<8]) T (\<lambda>out U. (e = e0 \<longrightarrow> out = map (\<lambda>i. X ! i) [0..<8]) \<and> U = T)"
    if T: "sha.circ 0 e0 e T" and v: "\<And>i. i < 8 \<Longrightarrow> sha.holds 0 e T (v ! i) (X ! i)" for v X T
  proof -
    have "runs (mapP (\<lambda>i. GateU32_toU32 (v ! i)) [0..<8]) T (\<lambda>out U. length out = length [0..<8] \<and>
        ((e = e0 \<longrightarrow> out = map (\<lambda>i. X ! i) [0..<length out]) \<and> U = T))"
    proof (rule runs_mapP)
      fix xs U assume l: "length xs < length [0..<8]" and J: "(e = e0 \<longrightarrow> xs = map (\<lambda>i. X ! i) [0..<length xs]) \<and> U = T"
      have "[0..<8] ! length xs = length xs" "length xs < 8" using l nth_upt [of 0 "length xs" 8] by (simp_all only: length_upt)
      then show "runs (GateU32_toU32 (v ! ([0..<8] ! length xs))) U (\<lambda>x U. (e = e0 \<longrightarrow>
          xs @ [x] = map (\<lambda>i. X ! i) [0..<length (xs @ [x])]) \<and> U = T)"
        using sha.toU32_value [OF T v] J by (auto elim!: runs_conseq)
    qed simp
    then show ?thesis by (rule runs_conseq) (elim conjE, simp only: length_upt, simp)
  qed
  have four: "runs (bindP (mapP (\<lambda>i. GateU32_toU32 (v ! i)) [0..<8]) (\<lambda>out. bindP (shaGateSouts v) (\<lambda>_.
      retP (map (\<lambda>i. h ! i + out ! i) [0..<8])))) T
    (\<lambda>r T. (e = e0 \<longrightarrow> r = map (\<lambda>i. h ! i + X ! i) [0..<8]) \<and> nextRef T = 160481 \<and>
      SoutRefs T = map (soutRef SHA256GateConfig) [0..<256] \<and> sha.circ 0 e0 e T \<and> holdsOut e T X)"
    if T: "sha.grown 0 e0 e S T 159456"
      and v: "\<And>i. i < 8 \<Longrightarrow> onePin (v ! i) \<and> sha.holds 0 e T (v ! i) (X ! i)" for v X T
  proof -
    have circ: "sha.circ 0 e0 e T" by (rule sha.grown_circ [OF T])
    have refs: "SoutRefs T = map (soutRef SHA256GateConfig) [0..<256]"
    proof -
      have "soutRefNumber SHA256GateConfig = 256" by (simp add: SHA256GateConfig_def)
      then show ?thesis using T L by (simp add: sha.grown_def loadedSin_def del: upt_rec_numeral)
    qed
    have "sha.used T = 159456" using T S(2) by (simp add: sha.grown_def sha.extends_def)
    then have nr: "nextRef T = 160481"
      using next_of_used [of 768 256 160480 170000 "2 ^ 23" "nextRef T" 159456, folded SHA256GateConfig_slot]
      by (simp add: sha.used_def)
    have "sha.placed 0 e0 e T 0 (\<lambda>m. bit (X ! (m div 32)) (m mod 32)) T"
    proof (rule sha.placed_start [OF circ])
      show "soutRef SHA256GateConfig m \<notin> set (drop 0 (program T))" if "m < soutRefNumber SHA256GateConfig" for m
        using T L sha_soutGate(1) [OF that] by (auto simp: sha.grown_def loadedSin_def)
    qed
    note souts = shaGateSouts_placed [OF this v refs]
    have out: "runs (shaGateSouts v) T (\<lambda>_ U. nextRef U = 160481 \<and>
        SoutRefs U = map (soutRef SHA256GateConfig) [0..<256] \<and> sha.circ 0 e0 e U \<and> holdsOut e U X)"
      by (rule runs_conseq [OF souts]) (auto simp: sha.placed_def holdsOut_def sha.sees_def nr refs)
    show ?thesis
      by (rule runs_bindP, rule runs_conseq [OF three [OF circ]], use v in blast, rule runs_bindP,
          elim conjE, hypsubst, rule runs_conseq [OF out], rule runs_retP) (auto intro!: nth_equalityI)
  qed
  show ?thesis
    unfolding shaGateCompress_def Let_def
    apply (rule runs_bindP, rule runs_conseq [OF one], elim conjE)
    apply (rule runs_bindP, rule runs_conseq [OF two], assumption, assumption, elim conjE)
    apply (simp only: split_paired_all prod.case)
    apply (rule four, assumption)
    apply (unfold shaWork_def Let_def)
    apply (erule (1) holds8_nth)
    done
qed

lemma SHA256GateChunk_runs:
  "runs (SHA256GateChunk h p) (newGateState SHA256GateConfig) (\<lambda>r T. r = shaCompress p h \<and> nextRef T = 160481 \<and>
     SoutRefs T = map (soutRef SHA256GateConfig) [0..<256] \<and>
     (\<forall>m<256. bitAt T (soutRef SHA256GateConfig m, pin_r) = of_bool (bit (shaWork p h ! (m div 32)) (m mod 32))) \<and>
     (\<forall>e h' p'. shaInputPins h' p' e \<longrightarrow> holdsOut e T (shaWork p' h')))"
proof -
  let ?w = "map shaInputWord [0..<16]" and ?h = "map (\<lambda>i. shaInputWord (16 + i)) [0..<8]"
  obtain S where inputs: "shaGateInputs h p (newGateState SHA256GateConfig) = (Ret (?w, ?h), S)"
    and L: "loadedSin SHA256GateConfig 0 768 (shaInputBit h p) S"
    using shaGateInputs_loaded [of h p] unfolding runs_def by blast
  let ?e0 = "\<lambda>x. bitAt S x = 1"
  have pins: "shaInputPins h p ?e0"
  proof -
    have "sinRef SHA256GateConfig i \<noteq> zeroRef SHA256GateConfig" for i by (simp add: SHA256GateConfig_def sinRef_def)
    moreover have "zeroRef SHA256GateConfig = 0" by (simp add: SHA256GateConfig_def)
    ultimately show ?thesis using loaded_pins [OF L] by (simp add: shaInputPins_def)
  qed
  obtain kv zero where kv: "mapO (GateU32_fromU32 SHA256GateConfig) sha256K = Ret kv"
    and zero: "GateU32_fromU32 SHA256GateConfig 0 = Ret zero"
    using shaConstants [OF shaLoaded(1) [OF L refl pins]] by blast
  have run: "SHA256GateChunk h p (newGateState SHA256GateConfig) = shaGateCompress kv zero h ?w ?h S"
    unfolding SHA256GateChunk_def kv zero bindP_def liftP_def by (simp add: inputs del: upt_rec_numeral)
  obtain r T where T: "shaGateCompress kv zero h ?w ?h S = (Ret r, T)" "r = shaCompress p h" "nextRef T = 160481"
    "SoutRefs T = map (soutRef SHA256GateConfig) [0..<256]" "sha.circ 0 ?e0 ?e0 T" "holdsOut ?e0 T (shaWork p h)"
    using shaGateCompress_runs [OF L refl pins kv, of zero h] unfolding runs_def shaCompress_work by blast
  have any: "holdsOut e T (shaWork p' h')" if "shaInputPins h' p' e" for e h' p'
    using shaGateCompress_runs [OF L refl that kv, of zero h] unfolding runs_def T(1) by simp
  have bits: "bitAt T (soutRef SHA256GateConfig m, pin_r) = of_bool (bit (shaWork p h ! (m div 32)) (m mod 32))" if "m < 256" for m
    using T(5,6) that unfolding sha.circ_def holdsOut_def by simp
  show ?thesis unfolding runs_def run T(1) using T(2,3,4) any bits by blast
qed

lemma SHA256Gate_eq: "length m mod 64 < 56 \<Longrightarrow> SHA256Gate m = Ret (''0x'' @ hexDigits (shaSpec m))"
proof -
  have chunk: "fst (SHA256GateChunk h p (newGateState SHA256GateConfig)) = Ret (shaCompress p h)" for h p
    using SHA256GateChunk_runs [of h p] by (auto simp: runs_def)
  assume "length m mod 64 < 56"
  then show ?thesis
    using foldO_chunks [OF refl, of m]
    by (simp add: SHA256Gate_def sha256Padding_short chunk shaSpec_def)
qed

end
