(* ===== verification/Sha256_Props.thy ===== *)
theory Sha256_Props
  imports Sha256_Gate
begin

text \<open>
  What the programs for SHA-256 compute: the circuit and the implementation on words, the byte-wise
  implementation, the standard's function they agree on, and where the padding of the first two goes wrong.
\<close>

text \<open>C13: The circuit of SHA-256 computes the standard's function: for data whose last block has room for the
padding, hashing it through circuits of gates, chunk by chunk, returns the digest FIPS 180-4 defines, and so
does the implementation on words it was written from.\<close>
theorem sha256_circuit_standard:
  assumes "length m mod 64 < 56"
  shows "SHA256Gate m = Ret (''0x'' @ hexDigits (shaSpec m)) \<and> SHA256_old m = Ret (shaSpec m)"
  using SHA256Gate_eq [OF assms] SHA256_old_eq [OF assms] by blast

lemma sha256_circuit_standard_witness:
  "SHA256Gate [97, 98, 99] = Ret (''0x'' @ hexDigits (shaSpec [97, 98, 99])) \<and> SHA256_old [97, 98, 99] = Ret (shaSpec [97, 98, 99])"
  by (rule sha256_circuit_standard) simp

text \<open>C15: The byte-wise implementation of SHA-256 computes the standard's function for every message of less than
$2^{32}$ bytes, whatever the buffer of its context held before. The constants are those of the standard: the
first 32 bits of the fractional parts of the square roots of the first eight primes and of the cube roots of
the first 64.\<close>
theorem sha256_bytewise_standard:
  assumes "length garbage = 64" and "length m < 2 ^ 32"
  shows "SHA256 garbage m = Some (shaSpec m) \<and>
    list_all2 (rootFraction 2) (take 8 firstPrimes) sha256H \<and> list_all2 (rootFraction 3) firstPrimes sha256K"
  using SHA256_eq [OF assms] sha256_constants by (simp only: simp_thms)

lemma sha256_bytewise_standard_witness:
  "SHA256 (replicate 64 7) [97, 98, 99] = Some (shaSpec [97, 98, 99])"
proof -
  have "length (replicate 64 (7 :: u8)) = 64" "length [97 :: u8, 98, 99] < 2 ^ 32" by simp_all
  from sha256_bytewise_standard [OF this] show ?thesis by (rule conjunct1)
qed

text \<open>C16: When the last block of the data has no room for the padding (56 bytes or more), the circuit and the
implementation on words write outside their 64 bytes of padding: what they do is undefined, whatever the data.\<close>
theorem sha256_padding_overflow:
  assumes "56 \<le> length m mod 64"
  shows "SHA256Gate m = Undef \<and> SHA256_old m = Undef"
  by (simp add: SHA256Gate_def SHA256_old_def sha256Padding_long [OF assms])

lemma sha256_padding_overflow_witness:
  "SHA256Gate (replicate 60 1) = Undef \<and> SHA256_old (replicate 60 1) = Undef"
  by (rule sha256_padding_overflow) simp

text \<open>C14: The circuit built for one chunk is right for all of them: building it never stops, it fills its slot exactly
(the next free reference is the one after the slot), and replaying the instructions it consists of on any
other hash and chunk gives, on the output gates, the working variables of SHA-256 for these.\<close>
theorem sha256_circuit_any_input:
  "\<exists>T. SHA256GateChunk h p (newGateState SHA256GateConfig) = (Ret (shaCompress p h), T) \<and>
    nextRef T = slotSize SHA256GateConfig + 1 \<and>
    (\<forall>e h' p' m. shaInputPins h' p' e \<longrightarrow> m < 256 \<longrightarrow>
      replay (scriptFrom 0 T) e (soutRef SHA256GateConfig m, pin_r) = bit (shaWork p' h' ! (m div 32)) (m mod 32))"
proof -
  have "slotSize SHA256GateConfig + 1 = 160481" by (simp add: SHA256GateConfig_def)
  then show ?thesis using SHA256GateChunk_runs [of h p] unfolding runs_def holdsOut_def by auto
qed

lemma sha256_circuit_any_input_witness:
  "\<exists>T. SHA256GateChunk (replicate 8 1) (replicate 64 1) (newGateState SHA256GateConfig) =
      (Ret (shaCompress (replicate 64 1) (replicate 8 1)), T) \<and>
    (\<forall>m<256. replay (scriptFrom 0 T) (\<lambda>b. b = (0, pin_b)) (soutRef SHA256GateConfig m, pin_r) =
      bit (shaWork (replicate 64 0) (replicate 8 0) ! (m div 32)) (m mod 32))"
proof -
  have "bytes2u32 (drop (4 * i) (replicate 64 0)) True = 0" if "i < 16" for i
    using that by (simp add: bytes2u32_eq)
  moreover have "replicate 8 0 ! i = (0 :: u32)" if "i < 8" for i using that by simp
  ultimately have "shaInputBit (replicate 8 0) (replicate 64 0) i = False" if "i < 768" for i
    using that by (simp add: shaInputBit_def div_less_iff_less_mult)
  then have "shaInputPins (replicate 8 0) (replicate 64 0) (\<lambda>b. b = (0, pin_b))"
    by (simp add: shaInputPins_def)
  then show ?thesis using sha256_circuit_any_input [of "replicate 8 1" "replicate 64 1"] by blast
qed

end
