(* ===== verification/Spec2Isabelle.thy ===== *)
theory Spec2Isabelle
  imports Smt_Props State_Props Scalar_Props Database_Props Sender_Props Binary_Props Stream_Props
    Gate_Typed Sha256_Props
begin

text \<open>
  A verification library beside the C++ sources of the zkEVM prover.  Its largest part is what keeps the
  state of the network: a sparse Merkle tree whose nodes are cached, collected and written to a database.
  Beside it stand the parser of the data stream of a batch, which gives the prover its input, the
  executor of one of the secondary state machines, which fills the polynomials to be proved, and the
  circuits of gates with the tool that builds the one of SHA-256.

  The parts and how they interact.  \<open>Smt::set\<close> and \<open>Smt::get\<close> (src/src/hashdb/smt.cpp) walk down a
  binary tree of hashes along the bits of a key (src/src/utils/key_utils.cpp), change one path and save
  the new hashes.  They read and write nodes through the state manager (src/src/hashdb/state_manager.cpp),
  which keeps the nodes of every batch, block and transaction until it is flushed, and through the database
  class (src/src/hashdb/database.cpp), which keeps caches (database_cache.cpp,
  database_associative_cache.cpp) and buffers of nodes to be sent (multi_write.cpp) before a server.  Keys
  and nodes travel between them as hexadecimal strings and arrays of field elements (src/src/utils/scalar.cpp).

  Theories.
  \<^item> Prelude: the outcome of a C++ function (a value, a \<open>zkresult\<close> other than success, exit of the process,
    undefined behaviour), programs over an explicit state, the library's lemmas on lists, maps and words.
  \<^item> Goldilocks: the field library, an empty git submodule in the repository, as a record \<open>gl\<close> of the
    operations the code calls; the locale \<open>goldilocks\<close> names what the code relies on (canonical
    representatives below the prime, no change of small values), interpreted on a concrete field.
  \<^item> Key_Utils: splitKey, splitKey6, splitKey9, joinKey, removeKeyBits.
  \<^item> Scalar, Scalar_Bytes, Scalar_Props: conversions of scalars, element arrays, strings, bytes and bits.
  \<^item> Smt: the code of set and get, with the operations of its stores in a record \<open>hashdb_ops\<close>; Smt_Tree:
    the abstract trie and the finite map it stands for; Smt_Walk, Smt_Path, Smt_Set: the walk, the changed
    path and the five cases of set, in a locale for the stores; Smt_Ready, Smt_Props: the properties on the
    model's stores.
  \<^item> State_Manager, State_Flush: the operations of StateManager and its flush; State_Inv: its invariant over
    any sequence of calls; State_Nodes: the map of nodes it implements; State_Props: the properties.
  \<^item> Database_Cache, Assoc_Cache, Multi_Write, Database: caches, buffers, reading and writing;
    Database_View: what is durable; Hashdb_Store: state manager and database together satisfy the interface
    the tree needs (a sublocale); Database_Props: the properties.
  \<^item> Db_Sender: the thread that takes the buffers over and writes them to the server (dbSenderThread,
    Database::sendData); Sender_Build: the statements it builds, and the server that executes them;
    Sender_Inv, Sender_Props: its invariant, and the machine of writers, flushes and sender rounds.
  \<^item> Binary_Machine: the executor of the Binary state machine (src/src/sm/binary/binary_executor.cpp), which
    fills the rows of the committed polynomials for the operations of the main state machine; Binary_Inv:
    bytes and carries of 256-bit numbers; Binary_Rows, Binary_Steps: one row, the invariant of the
    sixteen rows of an operation; Binary_Props: the result of every operation.

  \<^item> Rlp, Rlp_Lists: recursive length prefixes (src/src/utils/rlp.cpp); Data_Stream: the parser of the stream of
    a batch and the data written for the ROM (src/src/prover/data_stream.cpp); Stream_Format: the format
    and what the parser does on it; Stream_Tx: transcoding a signed transaction; Stream_Safe: the
    parser on any input; Stream_Props: the properties.
  \<^item> Gate_State: pins, gates, the state of a circuit and words of gate bits (src/src/sm/gate); Gate_Circuit:
    the replay of a circuit on any values of its inputs; Gate_Words: adders and other word operations;
    Gate_Slots: inputs and outputs on evenly spaced gates; Gate_Typed: the invariant of the gates.
  \<^item> Sha256, Sha256_Spec: the byte-wise and the shared code of SHA-256 (src/tools/sm/sha256) and the standard;
    Sha256_Gate: the circuit builder (sha256_gate.cpp); Sha256_Props: the properties.

  How state and operations correspond.  Every class is a record with the fields of the source, every
  function a definition of the same name on it (Smt::set is \<open>smtSet\<close>, Database::read \<open>dbRead\<close>, and so on);
  local variables of the long functions are records (\<open>SmtWalk\<close>, \<open>SmtVars\<close>).  Unordered maps are association
  lists without duplicate keys.  A program returns an outcome and the state it leaves; exceptions and
  error results keep the state changed so far, as in the code.

  What the lemmas show.  The tree: an update refines the update of a finite map, a get returns what was
  set, other roots stay readable, the root depends on the contents only, an update can be undone.  The
  state manager: its invariant under all calls, a map of nodes per batch, independence of batches,
  termination of the search for the chain of sub-states that flush writes.  The database: durable nodes are
  found (with multi-write, or into an empty vector), flush keeps them, caches are bounded and drop the oldest, the associative cache returns only what
  was stored.  The sender: no interleaving of writers, flushes and rounds loses a flushed node, and every
  round ends and makes progress.  The Binary executor: additions, borrows, comparisons (signed, unsigned,
  by lanes) computed byte by byte are the ones of the 256-bit numbers.  The data stream: what is written in its
  format is read back, what is accepted is consistent, signed transactions are transcoded as the ROM wants.  The gates: every sequence
  of calls keeps them well typed.  SHA-256: the circuit built gate by gate and the byte-wise code compute the
  digest of the standard for every message whose last block has room for the padding, the circuit replayed on
  any inputs computes the compression, and for the other messages the padding writes out of bounds.
  Conversions: round trips, bounds and injectivity.

  Bounds and fuel.  No definition needs fuel: the walk of the tree recurses over the bits of the key, after
  which the source would index out of range (\<open>Undef\<close>); the loop of flush is a partial function whose
  termination on reachable states is the property \<open>flush_finds_chain\<close>, and the loops of sendData are
  partial functions whose termination is \<open>sendData_returns\<close>.

  Hypotheses.  \<open>updateSafe\<close> says that the vectors an update hashes do not collide with stored ones and that
  two keys are told apart within 252 bits: at more, removeKeyBits shifts a 64-bit integer by 64, which is
  undefined (\<open>key_shift_bounds\<close>).  \<open>remoteAnswers\<close> says what the server's statements return.  Both hold in
  the instances of Smt_Ready, which the witnesses use.  \<open>isNode\<close> says that a trie has two entries or more, so
  that its root is an intermediate node: set and get run accKey.pop_back() after the search, which is undefined
  when the search pushed nothing (\<open>popBack\<close>, and the second half of \<open>smtSet_refines_update\<close>).  \<open>supported\<close> asks
  for multi-write: Database::read pushes a node of the server behind what the caller's vector holds, set and
  get reuse one vector for all reads, and only MultiWrite::findNode clears it (\<open>dbRead_direct_appends\<close>).

  Not modelled.  The executors of the main state machine (generated ROM), the provers, the RPC services,
  configuration, logs and time statistics: generated code, I/O or arithmetic of code outside the
  repository.  Of the database class: connections, SQL text that creates tables and functions, the thread
  that refreshes the caches of a read-only instance.  Of the gates: printing, and the files of scripts,
  polynomials and connections.  The circuits of Keccak-f and BLAKE2b, built with the same gates.
\<close>

end
